(* ===== verification/Lr_Prelude.thy ===== *)
theory Lr_Prelude
  imports Main "HOL-Library.Sublist" "HOL-Library.Code_Target_Nat"
begin

text \<open>
  The shared base of the development: Rust strings as lists of Unicode scalar values with
  the standard-library operations the sources call on them, the result type and its
  sequencing operator, the error taxonomy of \<open>src/src/domain/errors.rs\<close>, and the
  interface locales several components instantiate (a normaliser, a wire codec, a step
  function with an invariant).
\<close>

named_theorems str_defs \<open>definitions of the string operations\<close>
named_theorems lr_split \<open>case splits of the result and option types\<close>

section \<open>Strings\<close>

text \<open>
  A Rust \<open>str\<close> is a sequence of Unicode scalar values; \<open>len()\<close> counts the bytes of its
  UTF-8 form. The model keeps the scalar values as natural numbers, so \<open>chars()\<close> is the
  list itself and \<open>len()\<close> is \<open>str_len\<close> below. ASCII literals of the source are written
  \<open>u ''text''\<close>.
\<close>

type_synonym uchar = nat
type_synonym str = "uchar list"

definition u :: "string \<Rightarrow> str" where
  "u s = map of_char s"

lemma u_Nil [simp]: "u [] = []"
  by (simp add: u_def)

lemma u_Cons [simp]: "u (c # cs) = of_char c # u cs"
  by (simp add: u_def)

lemma length_u [simp]: "length (u s) = length s"
  by (simp add: u_def)

definition utf8_len :: "uchar \<Rightarrow> nat" where
  "utf8_len c = (if c < 128 then 1 else if c < 2048 then 2 else if c < 65536 then 3 else 4)"

definition str_len :: "str \<Rightarrow> nat" where
  "str_len s = sum_list (map utf8_len s)"

lemma str_len_simps [simp]:
  "str_len [] = 0"
  "str_len (c # s) = utf8_len c + str_len s"
  "str_len (s @ t) = str_len s + str_len t"
  by (simp_all add: str_len_def)

lemma str_len_ascii: "\<forall>c \<in> set s. c < 128 \<Longrightarrow> str_len s = length s"
  by (induction s) (auto simp: utf8_len_def)

lemma length_le_str_len: "length s \<le> str_len s"
  by (induction s) (auto simp: utf8_len_def)

lemma str_len_0_iff [simp]: "str_len s = 0 \<longleftrightarrow> s = []"
  by (cases s) (auto simp: utf8_len_def)

text \<open>\<open>char::is_whitespace\<close>: the Unicode property White_Space, in full.\<close>

definition is_whitespace :: "uchar \<Rightarrow> bool" where
  "is_whitespace c \<longleftrightarrow>
     (9 \<le> c \<and> c \<le> 13) \<or> c = 32 \<or> c = 133 \<or> c = 160 \<or> c = 5760 \<or>
     (8192 \<le> c \<and> c \<le> 8202) \<or> c = 8232 \<or> c = 8233 \<or> c = 8239 \<or> c = 8287 \<or> c = 12288"

definition is_ascii_digit :: "uchar \<Rightarrow> bool" where
  "is_ascii_digit c \<longleftrightarrow> 48 \<le> c \<and> c \<le> 57"

definition is_ascii_lowercase :: "uchar \<Rightarrow> bool" where
  "is_ascii_lowercase c \<longleftrightarrow> 97 \<le> c \<and> c \<le> 122"

definition is_ascii_uppercase :: "uchar \<Rightarrow> bool" where
  "is_ascii_uppercase c \<longleftrightarrow> 65 \<le> c \<and> c \<le> 90"

definition is_ascii_alphabetic :: "uchar \<Rightarrow> bool" where
  "is_ascii_alphabetic c \<longleftrightarrow> is_ascii_lowercase c \<or> is_ascii_uppercase c"

definition is_ascii_alphanumeric :: "uchar \<Rightarrow> bool" where
  "is_ascii_alphanumeric c \<longleftrightarrow> is_ascii_alphabetic c \<or> is_ascii_digit c"

lemmas ascii_classes =
  is_ascii_digit_def is_ascii_lowercase_def is_ascii_uppercase_def
  is_ascii_alphabetic_def is_ascii_alphanumeric_def

definition lower1 :: "uchar \<Rightarrow> uchar" where
  "lower1 c = (if is_ascii_uppercase c then c + 32 else c)"

text \<open>The classes of a literal character evaluate by \<open>simp\<close>.\<close>

lemmas char_class_numeral [simp] =
  is_whitespace_def [of "numeral k" for k]
  is_ascii_digit_def [of "numeral k" for k]
  is_ascii_lowercase_def [of "numeral k" for k]
  is_ascii_uppercase_def [of "numeral k" for k]
  is_ascii_alphabetic_def [of "numeral k" for k]
  is_ascii_alphanumeric_def [of "numeral k" for k]
  lower1_def [of "numeral k" for k]
  utf8_len_def [of "numeral k" for k]

definition to_ascii_lowercase :: "str \<Rightarrow> str" where
  "to_ascii_lowercase s = map lower1 s"

lemma lower1_idem [simp]: "lower1 (lower1 c) = lower1 c"
  by (auto simp: lower1_def ascii_classes)

lemma lower1_not_upper [simp]: "\<not> is_ascii_uppercase (lower1 c)"
  by (auto simp: lower1_def ascii_classes)

lemma lower1_fix: "\<not> is_ascii_uppercase c \<Longrightarrow> lower1 c = c"
  by (simp add: lower1_def)

lemma is_whitespace_lower1 [simp]: "is_whitespace (lower1 c) = is_whitespace c"
  by (auto simp: lower1_def ascii_classes is_whitespace_def)

lemma lower_Nil [simp]: "to_ascii_lowercase [] = []"
  and lower_Cons [simp]: "to_ascii_lowercase (c # s) = lower1 c # to_ascii_lowercase s"
  and lower_append [simp]:
    "to_ascii_lowercase (s @ t) = to_ascii_lowercase s @ to_ascii_lowercase t"
  and lower_idem [simp]: "to_ascii_lowercase (to_ascii_lowercase s) = to_ascii_lowercase s"
  and length_lower [simp]: "length (to_ascii_lowercase s) = length s"
  by (simp_all add: to_ascii_lowercase_def)

lemma lower_fix: "\<forall>c \<in> set s. \<not> is_ascii_uppercase c \<Longrightarrow> to_ascii_lowercase s = s"
  by (induction s) (auto simp: lower1_fix)

lemma lower_Nil_iff [simp]: "to_ascii_lowercase s = [] \<longleftrightarrow> s = []"
  by (simp add: to_ascii_lowercase_def)

subsection \<open>Trimming\<close>

definition trim_start_matches :: "('a \<Rightarrow> bool) \<Rightarrow> 'a list \<Rightarrow> 'a list" where
  "trim_start_matches p s = dropWhile p s"

definition trim_end_matches :: "('a \<Rightarrow> bool) \<Rightarrow> 'a list \<Rightarrow> 'a list" where
  "trim_end_matches p s = rev (dropWhile p (rev s))"

definition trim_matches :: "('a \<Rightarrow> bool) \<Rightarrow> 'a list \<Rightarrow> 'a list" where
  "trim_matches p s = trim_end_matches p (trim_start_matches p s)"

definition trim :: "str \<Rightarrow> str" where
  "trim s = trim_matches is_whitespace s"

lemmas trim_defs = trim_def trim_matches_def trim_end_matches_def trim_start_matches_def

lemma dropWhile_hd: "dropWhile p s \<noteq> [] \<Longrightarrow> \<not> p (hd (dropWhile p s))"
  by (rule hd_dropWhile)

lemma trim_end_Nil [simp]: "trim_end_matches p [] = []"
  by (simp add: trim_end_matches_def)

lemma trim_end_snoc:
  "trim_end_matches p (s @ [x]) = (if p x then trim_end_matches p s else s @ [x])"
  by (simp add: trim_end_matches_def)

lemma trim_end_last:
  "trim_end_matches p s \<noteq> [] \<Longrightarrow> \<not> p (last (trim_end_matches p s))"
  by (induction s rule: rev_induct) (auto simp: trim_end_snoc)

lemma trim_end_prefix: "prefix (trim_end_matches p s) s"
  by (induction s rule: rev_induct) (auto simp: trim_end_snoc intro: prefix_order.trans)

lemma trim_end_hd:
  "trim_end_matches p s \<noteq> [] \<Longrightarrow> hd (trim_end_matches p s) = hd s"
  by (metis trim_end_prefix hd_append2 prefixE)

lemma trim_end_fix: "s = [] \<or> \<not> p (last s) \<Longrightarrow> trim_end_matches p s = s"
  by (induction s rule: rev_induct) (auto simp: trim_end_snoc)

lemma dropWhile_fix: "s = [] \<or> \<not> p (hd s) \<Longrightarrow> dropWhile p s = s"
  by (cases s) auto

lemma trim_matches_hd:
  "trim_matches p s \<noteq> [] \<Longrightarrow> \<not> p (hd (trim_matches p s))"
  unfolding trim_matches_def trim_start_matches_def
  by (metis trim_end_hd trim_end_Nil hd_dropWhile)

lemma trim_matches_last:
  "trim_matches p s \<noteq> [] \<Longrightarrow> \<not> p (last (trim_matches p s))"
  unfolding trim_matches_def by (rule trim_end_last)

lemma trim_matches_fix:
  "s = [] \<or> (\<not> p (hd s) \<and> \<not> p (last s)) \<Longrightarrow> trim_matches p s = s"
  by (auto simp: trim_matches_def trim_start_matches_def dropWhile_fix trim_end_fix)

lemma trim_matches_idem [simp]: "trim_matches p (trim_matches p s) = trim_matches p s"
  by (rule trim_matches_fix) (auto dest: trim_matches_hd trim_matches_last)

lemma trim_idem [simp]: "trim (trim s) = trim s"
  by (simp add: trim_def)

lemma set_trim_matches: "set (trim_matches p s) \<subseteq> set s"
  by (auto simp: trim_matches_def trim_end_matches_def trim_start_matches_def
        dest!: set_dropWhileD)

lemma set_trim: "set (trim s) \<subseteq> set s"
  unfolding trim_def by (rule set_trim_matches)

lemma trim_fix_if_no_ws: "\<forall>c \<in> set s. \<not> is_whitespace c \<Longrightarrow> trim s = s"
  unfolding trim_def by (rule trim_matches_fix) auto

lemma trim_hd: "trim s \<noteq> [] \<Longrightarrow> \<not> is_whitespace (hd (trim s))"
  and trim_last: "trim s \<noteq> [] \<Longrightarrow> \<not> is_whitespace (last (trim s))"
  unfolding trim_def by (rule trim_matches_hd trim_matches_last, assumption)+

lemma trim_lower: "trim (to_ascii_lowercase s) = to_ascii_lowercase (trim s)"
  by (simp add: trim_defs to_ascii_lowercase_def dropWhile_map rev_map o_def)

subsection \<open>Prefixes, suffixes, splitting and joining\<close>

definition strip_prefix :: "'a list \<Rightarrow> 'a list \<Rightarrow> 'a list option" where
  "strip_prefix p s = (if prefix p s then Some (drop (length p) s) else None)"

definition strip_suffix :: "'a list \<Rightarrow> 'a list \<Rightarrow> 'a list option" where
  "strip_suffix p s = (if suffix p s then Some (take (length s - length p) s) else None)"

definition starts_with :: "'a list \<Rightarrow> 'a list \<Rightarrow> bool" where
  "starts_with s p = prefix p s"

definition ends_with :: "'a list \<Rightarrow> 'a list \<Rightarrow> bool" where
  "ends_with s p = suffix p s"

definition str_contains :: "'a list \<Rightarrow> 'a list \<Rightarrow> bool" where
  "str_contains s p = sublist p s"

lemma strip_prefix_Some [simp]: "strip_prefix p s = Some r \<longleftrightarrow> s = p @ r"
  by (auto simp: strip_prefix_def prefix_def)

lemma strip_prefix_append [simp]: "strip_prefix p (p @ s) = Some s"
  by simp

lemma strip_prefix_None: "strip_prefix p s = None \<longleftrightarrow> \<not> prefix p s"
  by (simp add: strip_prefix_def)

lemma strip_suffix_Some [simp]: "strip_suffix p s = Some r \<longleftrightarrow> s = r @ p"
  by (auto simp: strip_suffix_def suffix_def)

lemma strip_suffix_None: "strip_suffix p s = None \<longleftrightarrow> \<not> suffix p s"
  by (simp add: strip_suffix_def)

text \<open>\<open>str::split(c)\<close>: always at least one piece; adjacent separators give empty pieces.\<close>

fun split_on :: "'a \<Rightarrow> 'a list \<Rightarrow> 'a list list" where
  "split_on c [] = [[]]"
| "split_on c (x # xs) =
     (if x = c then [] # split_on c xs
      else (case split_on c xs of [] \<Rightarrow> [[x]] | y # ys \<Rightarrow> (x # y) # ys))"

fun join :: "'a list \<Rightarrow> 'a list list \<Rightarrow> 'a list" where
  "join sep [] = []"
| "join sep [x] = x"
| "join sep (x # y # ys) = x @ sep @ join sep (y # ys)"

lemma split_on_not_Nil [simp]: "split_on c s \<noteq> []"
  by (cases s) (auto split: list.splits)

lemma join_split_on [simp]: "join [c] (split_on c s) = s"
proof (induction s)
  case Nil
  then show ?case by simp
next
  case (Cons x xs)
  obtain y ys where y: "split_on c xs = y # ys" by (cases "split_on c xs") auto
  with Cons show ?case by (cases ys) auto
qed

lemma split_on_free: "c \<notin> set s \<Longrightarrow> split_on c s = [s]"
  by (induction s) auto

lemma split_on_append_sep:
  "c \<notin> set s \<Longrightarrow> split_on c (s @ c # t) = s # split_on c t"
  by (induction s) auto

lemma split_on_join:
  "xs \<noteq> [] \<Longrightarrow> \<forall>x \<in> set xs. c \<notin> set x \<Longrightarrow> split_on c (join [c] xs) = xs"
  by (induction "[c]" xs rule: join.induct) (auto simp: split_on_free split_on_append_sep)

lemma split_on_pieces: "y \<in> set (split_on c s) \<Longrightarrow> c \<notin> set y"
  by (induction s arbitrary: y) (auto split: list.splits if_splits)

lemma set_join: "set (join sep xs) \<subseteq> \<Union> (set (map set xs)) \<union> set sep"
  by (induction sep xs rule: join.induct) auto

lemma set_join_mem: "y \<in> set xs \<Longrightarrow> set y \<subseteq> set (join sep xs)"
  by (induction sep xs rule: join.induct) auto

lemma set_split_on: "y \<in> set (split_on c s) \<Longrightarrow> set y \<subseteq> set s"
  using set_join_mem[of y "split_on c s" "[c]"] by simp

text \<open>\<open>str::split\<close> with a set of separators.\<close>

fun split_when :: "('a \<Rightarrow> bool) \<Rightarrow> 'a list \<Rightarrow> 'a list list" where
  "split_when p [] = [[]]"
| "split_when p (x # xs) =
     (if p x then [] # split_when p xs
      else (case split_when p xs of [] \<Rightarrow> [[x]] | y # ys \<Rightarrow> (x # y) # ys))"

lemma split_when_not_Nil [simp]: "split_when p s \<noteq> []"
  by (cases s) (auto split: list.splits)

lemma split_when_append:
  "p c \<Longrightarrow> split_when p (s @ c # t) = split_when p s @ split_when p t"
  by (induction s) (auto split: list.splits)

lemma split_when_free: "\<forall>c \<in> set s. \<not> p c \<Longrightarrow> split_when p s = [s]"
  by (induction s) auto

text \<open>Decimal numerals: \<open>to_string\<close> of an unsigned integer and its value.\<close>

fun dec :: "nat \<Rightarrow> str" where
  "dec n = (if n < 10 then [48 + n] else dec (n div 10) @ [48 + n mod 10])"

declare dec.simps [simp del]

definition dec_value :: "str \<Rightarrow> nat" where
  "dec_value s = foldl (\<lambda>v c. v * 10 + (c - 48)) 0 s"

lemma dec_value_snoc: "dec_value (s @ [c]) = dec_value s * 10 + (c - 48)"
  by (simp add: dec_value_def)

lemma dec_value_dec [simp]: "dec_value (dec n) = n"
proof (induction n rule: dec.induct)
  case (1 n)
  show ?case
  proof (cases "n < 10")
    case True
    then show ?thesis by (simp add: dec.simps dec_value_def)
  next
    case False
    then show ?thesis using 1 by (subst dec.simps) (simp add: dec_value_snoc)
  qed
qed

lemma dec_digits: "list_all is_ascii_digit (dec n)"
proof (induction n rule: dec.induct)
  case (1 n)
  show ?case
  proof (cases "n < 10")
    case True
    then show ?thesis by (subst dec.simps) (simp add: is_ascii_digit_def)
  next
    case False
    have "n mod 10 < 10" by simp
    then have "is_ascii_digit (48 + n mod 10)" by (simp add: is_ascii_digit_def)
    with False 1 show ?thesis by (subst dec.simps) simp
  qed
qed

lemma dec_not_Nil [simp]: "dec n \<noteq> []"
  by (subst dec.simps) simp

lemma length_dec_2: "n < 100 \<Longrightarrow> length (dec n) \<le> 2"
  by (subst dec.simps, subst dec.simps[of "n div 10"]) auto

text \<open>\<open>str::split_whitespace\<close>: the maximal whitespace-free runs, in order.\<close>

fun ws_words :: "str \<Rightarrow> str \<Rightarrow> str list" where
  "ws_words cur [] = (if cur = [] then [] else [rev cur])"
| "ws_words cur (c # s) =
     (if is_whitespace c then (if cur = [] then ws_words [] s else rev cur # ws_words [] s)
      else ws_words (c # cur) s)"

definition split_whitespace :: "str \<Rightarrow> str list" where
  "split_whitespace s = ws_words [] s"

lemma ws_words_not_Nil: "[] \<notin> set (ws_words cur s)"
  by (induction cur s rule: ws_words.induct) (simp_all split: if_splits)

lemma ws_words_no_ws:
  "list_all (\<lambda>c. \<not> is_whitespace c) cur \<Longrightarrow>
     list_all (list_all (\<lambda>c. \<not> is_whitespace c)) (ws_words cur s)"
  by (induction cur s rule: ws_words.induct) (simp_all add: list_all_rev)

lemma split_whitespace_wf:
  assumes "w \<in> set (split_whitespace s)"
  shows "w \<noteq> [] \<and> (\<forall>c \<in> set w. \<not> is_whitespace c)"
  using assms ws_words_not_Nil[of "[]" s] ws_words_no_ws[of "[]" s]
  by (auto simp: split_whitespace_def list_all_iff simp del: ws_words.simps)

text \<open>
  \<open>dedupe\<close> by first occurrence: the loop with a seen set that several components repeat
  (\<open>namespaces::dedupe\<close>, \<open>tags::normalise\<close>).
\<close>

fun dedupe_seen :: "'a list \<Rightarrow> 'a list \<Rightarrow> 'a list" where
  "dedupe_seen seen [] = []"
| "dedupe_seen seen (x # xs) =
     (if x \<in> set seen then dedupe_seen seen xs else x # dedupe_seen (x # seen) xs)"

lemma set_dedupe_seen: "set (dedupe_seen seen xs) = set xs - set seen"
  by (induction seen xs rule: dedupe_seen.induct) auto

lemma distinct_dedupe_seen: "distinct (dedupe_seen seen xs)"
  by (induction seen xs rule: dedupe_seen.induct) (auto simp: set_dedupe_seen)

lemma dedupe_seen_distinct:
  "distinct xs \<Longrightarrow> set xs \<inter> set seen = {} \<Longrightarrow> dedupe_seen seen xs = xs"
  by (induction seen xs rule: dedupe_seen.induct) auto

lemma dedupe_seen_set: "set a = set b \<Longrightarrow> dedupe_seen a xs = dedupe_seen b xs"
proof (induction xs arbitrary: a b)
  case (Cons x xs)
  have "set (x # a) = set (x # b)" using Cons.prems by simp
  from Cons.IH[OF this] Cons.IH[OF Cons.prems] Cons.prems show ?case by (metis dedupe_seen.simps(2))
qed simp

lemma subseq_dedupe_seen: "subseq (dedupe_seen seen xs) xs"
  by (induction seen xs rule: dedupe_seen.induct) auto

section \<open>Results\<close>

type_synonym ('e, 'a) result = "'e + 'a"

definition and_then :: "('e, 'a) result \<Rightarrow> ('a \<Rightarrow> ('e, 'b) result) \<Rightarrow> ('e, 'b) result" where
  "and_then r f = (case r of Inl e \<Rightarrow> Inl e | Inr x \<Rightarrow> f x)"

lemma and_then_simps [simp]:
  "and_then (Inl e) f = Inl e"
  "and_then (Inr x) f = f x"
  by (simp_all add: and_then_def)

lemma and_then_Inr: "and_then r f = Inr y \<longleftrightarrow> (\<exists>x. r = Inr x \<and> f x = Inr y)"
  by (cases r) auto

lemma and_then_Inl: "and_then r f = Inl e \<longleftrightarrow> r = Inl e \<or> (\<exists>x. r = Inr x \<and> f x = Inl e)"
  by (cases r) auto

fun first_some :: "('a \<Rightarrow> 'b option) \<Rightarrow> 'a list \<Rightarrow> 'b option" where
  "first_some f [] = None"
| "first_some f (x # xs) = (case f x of Some y \<Rightarrow> Some y | None \<Rightarrow> first_some f xs)"

fun filter_map :: "('a \<Rightarrow> 'b option) \<Rightarrow> 'a list \<Rightarrow> 'b list" where
  "filter_map f [] = []"
| "filter_map f (x # xs) = (case f x of Some y \<Rightarrow> y # filter_map f xs | None \<Rightarrow> filter_map f xs)"

lemma set_filter_map: "set (filter_map f xs) = {y. \<exists>x \<in> set xs. f x = Some y}"
  by (induction xs) (auto split: option.splits)

lemma subseq_sorted_wrt: "subseq xs ys \<Longrightarrow> sorted_wrt P ys \<Longrightarrow> sorted_wrt P xs"
  by (induction xs ys rule: list_emb.induct) (auto dest: list_emb_set)

lemma split_Cons_ex:
  "(\<exists>xs q ys. r # rs = xs @ q # ys \<and> P xs q) \<longleftrightarrow>
     P [] r \<or> (\<exists>xs q ys. rs = xs @ q # ys \<and> P (r # xs) q)"
proof
  assume "\<exists>xs q ys. r # rs = xs @ q # ys \<and> P xs q"
  then obtain xs q ys where *: "r # rs = xs @ q # ys" "P xs q" by blast
  then show "P [] r \<or> (\<exists>xs q ys. rs = xs @ q # ys \<and> P (r # xs) q)" by (cases xs) auto
next
  assume "P [] r \<or> (\<exists>xs q ys. rs = xs @ q # ys \<and> P (r # xs) q)"
  then show "\<exists>xs q ys. r # rs = xs @ q # ys \<and> P xs q" by (metis append_Cons append_Nil)
qed

lemma find_Some_set: "List.find P xs = Some x \<Longrightarrow> x \<in> set xs \<and> P x"
  by (auto simp: find_Some_iff)


text \<open>An SQL \<open>UPDATE ... WHERE\<close> on a table kept as a list of rows.\<close>

definition update_where :: "('r \<Rightarrow> bool) \<Rightarrow> ('r \<Rightarrow> 'r) \<Rightarrow> 'r list \<Rightarrow> 'r list" where
  "update_where p f rows = map (\<lambda>r. if p r then f r else r) rows"

lemma find_update:
  assumes "\<And>r. k (f r) = k r"
  shows "List.find (\<lambda>r. k r = x) (update_where p f rows) =
    map_option (\<lambda>r. if p r then f r else r) (List.find (\<lambda>r. k r = x) rows)"
  using assms by (induction rows) (simp_all add: update_where_def)

lemma update_where_simps [simp]:
  "update_where p f [] = []"
  "update_where p f (r # rs) = (if p r then f r else r) # update_where p f rs"
  "update_where p f (rs @ rs') = update_where p f rs @ update_where p f rs'"
  by (simp_all add: update_where_def)

lemma set_update_where: "set (update_where p f rows) = (\<lambda>r. if p r then f r else r) ` set rows"
  by (simp add: update_where_def)

lemma find_append_Some: "List.find p xs = Some x \<Longrightarrow> List.find p (xs @ ys) = Some x"
  by (induction xs) (auto split: if_splits)

lemma list_all_update: "list_all q rows \<Longrightarrow> (\<And>r. q r \<Longrightarrow> q (f r)) \<Longrightarrow> list_all q (update_where p f rows)"
  by (induction rows) auto

lemma list_all_update_hit:
  "(\<And>r. q (if p r then f r else r)) \<Longrightarrow> list_all q (update_where p f rows)"
  by (induction rows) auto

section \<open>Interfaces shared by several components\<close>

text \<open>
  A normaliser brings an input to a canonical form and leaves canonical forms alone. The
  namespace, tag, kind and registry-key rules are all of this shape.
\<close>

locale normaliser =
  fixes norm :: "'a \<Rightarrow> 'a"
  assumes idem: "norm (norm x) = norm x"
begin

lemma fix_iff: "norm x = x \<longleftrightarrow> (\<exists>y. x = norm y)"
  using idem by metis

lemma same_form_iff: "norm x = norm y \<longleftrightarrow> norm x = norm (norm y)"
  by (simp add: idem)

lemma funpow_fix: "0 < n \<Longrightarrow> (norm ^^ n) x = norm x"
proof (induction n)
  case 0
  then show ?case by simp
next
  case (Suc n)
  then show ?case by (cases "n = 0") (simp_all add: idem)
qed

end

text \<open>
  A partial normaliser refuses some inputs. What it accepts it returns in a form it accepts
  unchanged, so a value that went through once is stable under every later pass.
\<close>

locale validator =
  fixes validate :: "'a \<Rightarrow> 'e + 'a"
  assumes stable: "validate x = Inr y \<Longrightarrow> validate y = Inr y"
begin

lemma accepted_fix: "(\<exists>x. validate x = Inr y) \<longleftrightarrow> validate y = Inr y"
  using stable by blast

lemma twice: "and_then (validate x) validate = validate x"
  by (cases "validate x") (auto dest: stable)

end

text \<open>
  A wire codec: \<open>as_str\<close> prints an enum value, \<open>parse\<close> reads it back. Every enum a
  row or a request stores by name has this contract.
\<close>

locale codec =
  fixes enc :: "'a \<Rightarrow> 'b" and dec :: "'b \<Rightarrow> 'a option"
  assumes dec_enc: "dec (enc x) = Some x"
begin

lemma enc_inj: "enc x = enc y \<longleftrightarrow> x = y"
  using dec_enc by (metis option.inject)

lemma dec_surj: "\<exists>s. dec s = Some x"
  using dec_enc by blast

lemma dec_None: "dec s = None \<Longrightarrow> s \<noteq> enc x"
  using dec_enc by (metis option.distinct(1))

end

text \<open>A strict codec accepts nothing but what it prints.\<close>

locale strict_codec = codec +
  assumes enc_dec: "dec s = Some x \<Longrightarrow> enc x = s"
begin

lemma dec_iff: "dec s = Some x \<longleftrightarrow> s = enc x"
  using dec_enc enc_dec by blast

end

text \<open>
  A state machine given by its step function, with an invariant every step keeps; runs are
  folds of the step over a list of events.
\<close>

fun run :: "('s \<Rightarrow> 'e \<Rightarrow> 's) \<Rightarrow> 's \<Rightarrow> 'e list \<Rightarrow> 's" where
  "run step s [] = s"
| "run step s (e # es) = run step (step s e) es"

locale invariant_machine =
  fixes step :: "'s \<Rightarrow> 'e \<Rightarrow> 's" and inv :: "'s \<Rightarrow> bool"
  assumes step_inv: "inv s \<Longrightarrow> inv (step s e)"
begin

lemma run_inv: "inv s \<Longrightarrow> inv (run step s es)"
  by (induction es arbitrary: s) (auto intro: step_inv)

end

text \<open>
  A machine whose invariant only survives the events its guard admits: a run is legal when
  every event is admitted in the state it meets.
\<close>

fun legal_run :: "('s \<Rightarrow> 'e \<Rightarrow> bool) \<Rightarrow> ('s \<Rightarrow> 'e \<Rightarrow> 's) \<Rightarrow> 's \<Rightarrow> 'e list \<Rightarrow> bool" where
  "legal_run ok step s [] = True"
| "legal_run ok step s (e # es) = (ok s e \<and> legal_run ok step (step s e) es)"

locale guarded_machine =
  fixes step :: "'s \<Rightarrow> 'e \<Rightarrow> 's" and ok :: "'s \<Rightarrow> 'e \<Rightarrow> bool" and inv :: "'s \<Rightarrow> bool"
  assumes guarded_inv: "inv s \<Longrightarrow> ok s e \<Longrightarrow> inv (step s e)"
begin

lemma legal_inv: "inv s \<Longrightarrow> legal_run ok step s es \<Longrightarrow> inv (run step s es)"
  by (induction es arbitrary: s) (auto intro: guarded_inv)

end

end
