(* ===== verification/Lr_Errors.thy ===== *)
theory Lr_Errors
  imports Lr_Prelude
begin

text \<open>
  The error taxonomy of \<open>src/src/domain/errors.rs\<close>: every failure the domain produces is
  one of six kinds, each with one HTTP status. Message texts are symbolic: \<open>reason\<close> has one
  constructor per message of the source, carrying the values the message interpolates, so
  two refusals the source words differently are different values of the model.
\<close>

datatype kind = Validation | NotFound | Forbidden | ConflictK | Unavailable | Internal

fun http_status :: "kind \<Rightarrow> nat" where
  "http_status Validation = 400"
| "http_status NotFound = 404"
| "http_status Forbidden = 403"
| "http_status ConflictK = 409"
| "http_status Unavailable = 503"
| "http_status Internal = 500"

datatype key_fault = KeyEmpty | KeySegmentCount | KeySegmentShape | KeyDomain | KeyPlural

text \<open>The refusals of the memory table (\<open>adapters/postgres/memory.rs\<close>).\<close>

datatype memory_fault =
    M_SupersedesMissing
  | M_AlreadySuperseded nat nat
  | M_SelfSupersede
  | M_NotFound
  | M_WouldCycle nat nat
  | M_InvertedPeriod int int
  | M_NoVerifiedKey
  | M_DeleteBlocked nat
  | M_RestoreLinkMissing
  | M_RestoreIdTaken
  | M_RelinkMissing
  | M_SelfPair

text \<open>The refusals of the write path (\<open>services/write.rs\<close>).\<close>

datatype write_fault =
    W_EmptyContent
  | W_NeedsClientSealing str
  | W_AboveWriteLevel str str str
  | W_NoEncryption
  | W_Tripwire str
  | W_FenceLine
  | W_TooLong nat nat
  | W_FutureDate int
  | W_NearNow int nat
  | W_BadSensitivity str
  | W_SupersedesNotUuid str
  | W_SupersedesUnreachable str
  | W_TargetExpired str
  | W_TargetSuperseded str "nat option"
  | W_Inversion int str int
  | W_NoVector
  | W_NoKeyProvider
  | W_CouldNotDecrypt

text \<open>The refusals of the other services and of the crypto module, by where they come from.\<close>

datatype forget_fault =
    F_MayNotDelete str
  | F_NotUuid str
  | F_NotYours str
  | F_EmptyQuery
  | F_MayNotDeleteSealed str str
  | F_EmptyKeyHmac

datatype crypto_fault =
    C_SealFailed
  | C_WrapFailed
  | C_KeyLength
  | C_Opaque
  | C_UnusableKey
  | C_KeyFile str
  | C_LooseKeyFile str nat
  | C_KeyUnset str

datatype sealed_fault =
    S_MayNotWrite str str
  | S_EmptyKeyHmac
  | S_EmptyAlg
  | S_TooLong nat
  | S_NotBase64
  | S_EmptyCiphertext
  | S_NoneReach str
  | S_NameNamespace
  | S_NotConfigured

datatype review_fault =
    V_SelfSupersede
  | V_NotLive str
  | V_AlreadyExpired str int
  | V_RetiredBySupersession str int
  | V_Superseded str
  | V_Changed str
  | V_NotOpened str
  | V_FutureDate
  | V_HasStart str
  | V_NotNamed str
  | V_GainedStart str
  | V_NotYours str
  | V_NotUuid str

datatype search_fault =
    Q_MayNotReadHistory str
  | Q_AsOfWithSuperseded
  | Q_EmptyQuery

datatype ingest_fault =
    I_NoProposal nat
  | I_WasRejected nat
  | I_TooManyProbes nat

datatype registry_fault =
    G_MayNotWrite str
  | G_Sealed str
  | G_AboveWriteLevel str str str
  | G_Tripwire str
  | G_MayNotReplace str str str str
  | G_MayNotReadHistory str
  | G_NoRows int
  | G_EmptyKey
  | G_BadSensitivity str
  | G_SelfAlias

datatype cleanup_fault =
    L_NoMembers
  | L_TwoMembers str
  | L_NotYours str
  | L_NotUuid str
  | L_NamedTwice nat
  | L_OtherNamespace nat str str
  | L_TextDiffers nat
  | L_MayNotPropose str str
  | L_NoKeepId str
  | L_OneKeep
  | L_KeepsNothing str
  | L_NoProposal str
  | L_NotProposed str
  | L_NothingToApply str
  | L_MemberMissing nat
  | L_MemberChanged nat
  | L_MemberRetired nat
  | L_ForeignSurvivor nat
  | L_NotMarked nat
  | L_HasSurvivor str
  | L_NotMember str
  | L_AlreadyDecided str
  | L_NotRejected str str
  | L_OutsideScope str str
  | L_ModelVisible str
  | L_NoSurvivor
  | L_EmptyTag

datatype service_fault =
    SF_Forget forget_fault
  | SF_Crypto crypto_fault
  | SF_Sealed sealed_fault
  | SF_Review review_fault
  | SF_Search search_fault
  | SF_Ingest ingest_fault
  | SF_Registry registry_fault
  | SF_Cleanup cleanup_fault

datatype reason =
    R_InternalError
  | R_Database
  \<comment> \<open>namespaces.rs\<close>
  | R_InvalidNamespace str
  | R_NoProjectSlug str
  | R_UserNamespaceReserved str
  \<comment> \<open>adapters/auth/mod.rs\<close>
  | R_WriteAboveCeiling str str str str
  | R_MayNotWrite str str
  | R_MissingAuthorization
  | R_BadAuthorization
  \<comment> \<open>canonical.rs\<close>
  | R_InvalidRegistryKey str key_fault "str option"
  | R_InvalidKind str
  \<comment> \<open>adapters/postgres/embedding_migration.rs\<close>
  | R_FlipTargetsActive str str
  | R_FlipTargetsOther str str str "str option"
  | R_UnknownSlot str str
  | R_ActiveSlotUnnamed str str
  | R_UnknownVerb str
  \<comment> \<open>domain/oauth.rs\<close>
  | R_RedirectMismatch
  | R_UnsupportedResponseType str
  | R_UnsupportedChallengeMethod str
  | R_MissingChallengeMethod
  | R_BadChallenge
  | R_BadResource
  | R_TokenLength nat
  | R_NoRandomness
  | R_NoRedirectUris
  | R_TooManyRedirectUris
  | R_RedirectTooLong
  | R_RedirectRefused str reason
  | R_RedirectFragment
  | R_RedirectNotAbsolute
  | R_RedirectUserinfo
  | R_RedirectNoHost
  | R_RedirectPlainHttp
  | R_RedirectScheme str
  | R_RedirectPublicIp
  | R_RedirectOwnOrigin
  | R_NameTooLong
  | R_NameStamp
  \<comment> \<open>adapters/auth\<close>
  | R_InvalidBearer
  | R_TokenExpired
  | R_TokenRevoked
  | R_OtherResource
  | R_NoResource
  | R_ClientGone
  | R_ClientRevoked
  | R_ClientUnapproved
  | R_ClientNoGrant
  | R_InvalidCredentials
  | R_StoreConflict
  | R_NeedsOauthStore
  | R_NoCredentialSource
  \<comment> \<open>adapters/postgres/memory.rs\<close>
  | R_Memory memory_fault
  \<comment> \<open>services\<close>
  | R_Write write_fault
  | R_WrittenNotRetired nat nat reason
  | R_Service service_fault

record domain_error =
  err_kind :: kind
  err_message :: reason
  err_source :: "str option"
  err_code :: "string option"

type_synonym 'a res = "(domain_error, 'a) result"

definition new_error :: "kind \<Rightarrow> reason \<Rightarrow> domain_error" where
  "new_error k m = \<lparr>err_kind = k, err_message = m, err_source = None, err_code = None\<rparr>"

definition with_code :: "string \<Rightarrow> domain_error \<Rightarrow> domain_error" where
  "with_code c e = e\<lparr>err_code := Some c\<rparr>"

definition with_source :: "str \<Rightarrow> domain_error \<Rightarrow> domain_error" where
  "with_source s e = e\<lparr>err_source := Some s\<rparr>"

definition validation :: "reason \<Rightarrow> domain_error" where
  "validation m = new_error Validation m"

definition not_found :: "reason \<Rightarrow> domain_error" where
  "not_found m = new_error NotFound m"

definition forbidden :: "reason \<Rightarrow> domain_error" where
  "forbidden m = new_error Forbidden m"

definition conflict :: "reason \<Rightarrow> domain_error" where
  "conflict m = new_error ConflictK m"

definition unavailable :: "reason \<Rightarrow> domain_error" where
  "unavailable m = new_error Unavailable m"

definition internal :: "reason \<Rightarrow> domain_error" where
  "internal m = new_error Internal m"

definition database_error :: "domain_error" where
  "database_error = with_source [] (internal R_Database)"

text \<open>What a client is allowed to see: an internal error never exposes its message.\<close>

definition client_message :: "domain_error \<Rightarrow> reason" where
  "client_message e = (if err_kind e = Internal then R_InternalError else err_message e)"

lemmas error_defs =
  new_error_def validation_def not_found_def forbidden_def conflict_def unavailable_def
  internal_def with_code_def with_source_def

lemma kind_of_constructors [simp]:
  "err_kind (validation m) = Validation"
  "err_kind (not_found m) = NotFound"
  "err_kind (forbidden m) = Forbidden"
  "err_kind (conflict m) = ConflictK"
  "err_kind (unavailable m) = Unavailable"
  "err_kind (internal m) = Internal"
  "err_kind (with_code c e) = err_kind e"
  "err_kind (with_source s e) = err_kind e"
  by (simp_all add: error_defs)

lemma message_of_constructors [simp]:
  "err_message (validation m) = m"
  "err_message (not_found m) = m"
  "err_message (forbidden m) = m"
  "err_message (conflict m) = m"
  "err_message (unavailable m) = m"
  "err_message (internal m) = m"
  "err_message (with_code c e) = err_message e"
  by (simp_all add: error_defs)

lemma constructors_eq_iff [simp]:
  "validation m = validation n \<longleftrightarrow> m = n"
  "forbidden m = forbidden n \<longleftrightarrow> m = n"
  "conflict m = conflict n \<longleftrightarrow> m = n"
  "internal m = internal n \<longleftrightarrow> m = n"
  "validation m \<noteq> forbidden n" "forbidden m \<noteq> validation n"
  "validation m \<noteq> conflict n" "conflict m \<noteq> validation n"
  "validation m \<noteq> internal n" "internal m \<noteq> validation n"
  "forbidden m \<noteq> conflict n" "conflict m \<noteq> forbidden n"
  "forbidden m \<noteq> internal n" "internal m \<noteq> forbidden n"
  by (auto simp: error_defs)

lemma http_status_inj: "http_status k = http_status l \<longleftrightarrow> k = l"
  by (cases k; cases l) simp_all

lemma client_message_internal: "client_message (internal m) = R_InternalError"
  by (simp add: client_message_def)

end
