(* ===== verification/Lr_Namespaces.thy ===== *)
theory Lr_Namespaces
  imports Lr_Errors
begin

text \<open>
  Namespace rules, \<open>src/src/domain/namespaces.rs\<close>: the five shapes and their validation,
  the project slug, the write reservation of the personal namespace, the default read set
  and the trailing-wildcard glob every grant is matched with.
\<close>

section \<open>Validation\<close>

definition segment_char :: "bool \<Rightarrow> uchar \<Rightarrow> bool" where
  "segment_char allow_slash c \<longleftrightarrow>
     is_ascii_alphanumeric c \<or> c = 46 \<or> c = 95 \<or> c = 45 \<or> (allow_slash \<and> c = 47)"

definition valid_segment :: "str \<Rightarrow> nat \<Rightarrow> bool \<Rightarrow> bool" where
  "valid_segment s max_len allow_slash \<longleftrightarrow>
     (if s = [] \<or> str_len s > max_len then False
      else if \<not> is_ascii_alphanumeric (hd s) then False
      else list_all (segment_char allow_slash) s)"

definition is_valid :: "str \<Rightarrow> bool" where
  "is_valid ns \<longleftrightarrow>
     (if ns = u ''global'' then True
      else case strip_prefix (u ''user:'') ns of Some rest \<Rightarrow> valid_segment rest 64 False
      | None \<Rightarrow> (case strip_prefix (u ''project:'') ns of Some rest \<Rightarrow> valid_segment rest 128 True
      | None \<Rightarrow> (case strip_prefix (u ''personal:'') ns of Some rest \<Rightarrow> valid_segment rest 64 False
      | None \<Rightarrow> (case strip_prefix (u ''credentials:'') ns of Some rest \<Rightarrow> valid_segment rest 64 False
      | None \<Rightarrow> False))))"

definition normalize :: "str \<Rightarrow> str res" where
  "normalize input =
     (let ns = to_ascii_lowercase (trim input)
      in if is_valid ns then Inr ns else Inl (validation (R_InvalidNamespace input)))"

definition requires_client_sealing :: "str \<Rightarrow> bool" where
  "requires_client_sealing ns =
     starts_with (to_ascii_lowercase (trim ns)) (u ''credentials:'')"

section \<open>Project slugs\<close>

fun slugify :: "bool \<Rightarrow> str \<Rightarrow> str" where
  "slugify last_dash [] = []"
| "slugify last_dash (c # s) =
     (if is_ascii_alphanumeric c \<or> c = 46 \<or> c = 95 then c # slugify False s
      else if \<not> last_dash then 45 # slugify True s
      else slugify last_dash s)"

definition project_slug :: "str \<Rightarrow> str res" where
  "project_slug input =
     (let trimmed = trim_end_matches (\<lambda>c. c = 47) (trim input);
          base = last (split_on 47 trimmed);
          slug = take 127 (trim_matches (\<lambda>c. c = 45) (slugify False (to_ascii_lowercase base)))
      in if slug = [] then Inl (validation (R_NoProjectSlug input)) else Inr slug)"

definition project_namespace :: "str \<Rightarrow> str res" where
  "project_namespace input =
     (if starts_with input (u ''project:'') then normalize input
      else and_then (project_slug input) (\<lambda>slug. Inr (u ''project:'' @ slug)))"

section \<open>Reads, writes and globs\<close>

definition user_namespace :: str where
  "user_namespace = u ''user:me''"

definition check_writable :: "str \<Rightarrow> unit res" where
  "check_writable ns =
     (if starts_with ns (u ''user:'') \<and> ns \<noteq> u ''user:me''
      then Inl (validation (R_UserNamespaceReserved ns)) else Inr ())"

definition dedupe :: "str list \<Rightarrow> str list" where
  "dedupe xs = dedupe_seen [] xs"

definition default_read_namespaces :: "str option \<Rightarrow> str list res" where
  "default_read_namespaces project =
     (let base = [user_namespace, u ''global'']
      in case project of
           None \<Rightarrow> Inr (dedupe base)
         | Some p \<Rightarrow>
             (if trim p \<noteq> []
              then and_then (project_namespace p) (\<lambda>ns. Inr (dedupe (base @ [ns])))
              else Inr (dedupe base)))"

definition matches :: "str \<Rightarrow> str \<Rightarrow> bool" where
  "matches pattern namespace =
     (let p = to_ascii_lowercase (trim pattern)
      in if p = u ''*'' then True
         else case strip_suffix (u ''*'') p of
                Some pre \<Rightarrow> starts_with namespace pre
              | None \<Rightarrow> p = namespace)"

definition allowed :: "str list \<Rightarrow> str list \<Rightarrow> str list" where
  "allowed patterns namespaces = filter (\<lambda>ns. \<exists>p \<in> set patterns. matches p ns) namespaces"

section \<open>What validation accepts\<close>

lemma valid_segment_iff:
  "valid_segment s n sl \<longleftrightarrow>
     s \<noteq> [] \<and> str_len s \<le> n \<and> is_ascii_alphanumeric (hd s) \<and> (\<forall>c \<in> set s. segment_char sl c)"
  by (auto simp: valid_segment_def list_all_iff)

lemma segment_char_ascii: "segment_char sl c \<Longrightarrow> c < 128"
  by (auto simp: segment_char_def ascii_classes)

lemma segment_char_no_ws: "segment_char sl c \<Longrightarrow> \<not> is_whitespace c"
  by (auto simp: segment_char_def ascii_classes is_whitespace_def)

definition namespace_shape :: "str \<Rightarrow> bool" where
  "namespace_shape ns \<longleftrightarrow>
     ns = u ''global'' \<or>
     (\<exists>r. ns = u ''user:'' @ r \<and> valid_segment r 64 False) \<or>
     (\<exists>r. ns = u ''project:'' @ r \<and> valid_segment r 128 True) \<or>
     (\<exists>r. ns = u ''personal:'' @ r \<and> valid_segment r 64 False) \<or>
     (\<exists>r. ns = u ''credentials:'' @ r \<and> valid_segment r 64 False)"

lemma is_valid_iff: "is_valid ns \<longleftrightarrow> namespace_shape ns"
  by (auto simp: is_valid_def namespace_shape_def strip_prefix_None prefix_def
        split: option.splits)

lemma valid_segment_no_ws: "valid_segment r n sl \<Longrightarrow> \<forall>c \<in> set r. \<not> is_whitespace c"
  by (auto simp: valid_segment_iff dest: segment_char_no_ws)

lemma is_valid_no_ws: "is_valid ns \<Longrightarrow> \<forall>c \<in> set ns. \<not> is_whitespace c"
  by (auto simp: is_valid_iff namespace_shape_def dest!: valid_segment_no_ws)

lemma is_valid_trim: "is_valid ns \<Longrightarrow> trim ns = ns"
  by (rule trim_fix_if_no_ws) (rule is_valid_no_ws)

lemma normalize_Inr:
  "normalize s = Inr ns \<longleftrightarrow> ns = to_ascii_lowercase (trim s) \<and> is_valid ns"
  by (auto simp: normalize_def Let_def)

lemma normalize_stable: "normalize s = Inr ns \<Longrightarrow> normalize ns = Inr ns"
  by (auto simp: normalize_Inr is_valid_trim)

interpretation ns_validator: validator normalize
  by unfold_locales (rule normalize_stable)

lemma normalize_Inl: "normalize s = Inl e \<Longrightarrow> e = validation (R_InvalidNamespace s)"
  by (auto simp: normalize_def Let_def split: if_splits)

section \<open>What a slug looks like\<close>

lemma set_slugify:
  "c \<in> set (slugify d s) \<Longrightarrow> c = 45 \<or> c \<in> set s \<and> (is_ascii_alphanumeric c \<or> c = 46 \<or> c = 95)"
  by (induction d s rule: slugify.induct) (auto split: if_splits)

lemma slugify_chars:
  assumes "c \<in> set (slugify d (to_ascii_lowercase s))"
  shows "segment_char False c \<and> \<not> is_ascii_uppercase c"
  using set_slugify [OF assms] by (auto simp: segment_char_def to_ascii_lowercase_def)

lemma project_slug_Inr:
  assumes "project_slug i = Inr s"
  shows "s \<noteq> [] \<and> length s \<le> 127 \<and> hd s \<noteq> 45 \<and>
    (\<forall>c \<in> set s. segment_char False c \<and> \<not> is_ascii_uppercase c)"
proof -
  define b where "b = to_ascii_lowercase (last (split_on 47 (trim_end_matches (\<lambda>c. c = 47) (trim i))))"
  define t where "t = trim_matches (\<lambda>c. c = 45) (slugify False b)"
  have s: "s = take 127 t" "s \<noteq> []"
    using assms by (auto simp: project_slug_def Let_def b_def t_def split: if_splits)
  then have "t \<noteq> []" by auto
  then have "hd t \<noteq> 45" unfolding t_def by (rule trim_matches_hd)
  moreover have "hd s = hd t" using s by (cases t) auto
  moreover have "set s \<subseteq> set (slugify False b)"
    using set_take_subset[of 127 t] set_trim_matches[of "\<lambda>c. c = 45" "slugify False b"]
    by (auto simp: s(1) t_def)
  then have "\<forall>c \<in> set s. segment_char False c \<and> \<not> is_ascii_uppercase c"
    by (auto simp: b_def dest!: subsetD slugify_chars)
  ultimately show ?thesis using s by simp
qed

lemma project_slug_valid_iff:
  assumes "project_slug i = Inr s"
  shows "is_valid (u ''project:'' @ s) \<longleftrightarrow> is_ascii_alphanumeric (hd s)"
proof -
  note sh = project_slug_Inr [OF assms]
  have "str_len s = length s"
    by (rule str_len_ascii) (use sh segment_char_ascii in blast)
  then have "valid_segment s 128 True \<longleftrightarrow> is_ascii_alphanumeric (hd s)"
    using sh by (auto simp: valid_segment_iff segment_char_def)
  then show ?thesis
    by (auto simp: is_valid_iff namespace_shape_def)
qed

section \<open>Globs\<close>

lemma matches_iff:
  "matches p ns \<longleftrightarrow>
     (\<exists>pre. to_ascii_lowercase (trim p) = pre @ u ''*'' \<and> prefix pre ns) \<or>
     to_ascii_lowercase (trim p) = ns"
proof -
  define q where "q = to_ascii_lowercase (trim p)"
  have "(case strip_suffix (u ''*'') q of Some pre \<Rightarrow> prefix pre ns | None \<Rightarrow> q = ns) \<longleftrightarrow>
     (\<exists>pre. q = pre @ u ''*'' \<and> prefix pre ns) \<or> q = ns"
    by (auto simp: strip_suffix_None suffix_def split: option.splits)
  moreover have "q = u ''*'' \<Longrightarrow> \<exists>pre. q = pre @ u ''*'' \<and> prefix pre ns"
    by (rule exI[of _ "[]"]) simp
  ultimately show ?thesis
    unfolding matches_def Let_def q_def [symmetric] starts_with_def by auto
qed

lemma matches_star [simp]: "matches (u ''*'') ns"
  by (simp add: matches_def trim_defs is_whitespace_def lower1_def ascii_classes)

lemma matches_star_eval [simp]: "matches [42] ns"
  using matches_star by simp

lemma allowed_subset: "set (allowed ps nss) \<subseteq> set nss"
  by (auto simp: allowed_def)

section \<open>Properties\<close>

text \<open>
  \<open>normalize\<close> accepts a text exactly when its trimmed, lowercased form has one
  of the five shapes; it answers that form, and the answer is accepted unchanged on every
  later pass.
\<close>

theorem normalize_accepts:
  "normalize s = Inr ns \<longleftrightarrow>
     ns = to_ascii_lowercase (trim s) \<and> namespace_shape ns \<and> normalize ns = Inr ns"
  by (auto simp: is_valid_iff [symmetric] dest: normalize_stable) (auto simp: normalize_Inr)

text \<open>
  A derived project namespace is one that validation accepts exactly when its
  slug starts with a letter or a digit. The slug is otherwise always well formed: at most 127
  characters of the allowed set, never starting with a dash.
\<close>

theorem project_slug_validates_iff:
  assumes "project_slug i = Inr s"
  shows "s \<noteq> [] \<and> length s \<le> 127 \<and> hd s \<noteq> 45 \<and> (\<forall>c \<in> set s. segment_char False c) \<and>
    (normalize (u ''project:'' @ s) = Inr (u ''project:'' @ s) \<longleftrightarrow> is_ascii_alphanumeric (hd s))"
proof -
  note sh = project_slug_Inr [OF assms]
  have "to_ascii_lowercase s = s" by (rule lower_fix) (use sh in blast)
  moreover have "\<forall>c \<in> set s. \<not> is_whitespace c" using sh segment_char_no_ws by blast
  then have "trim (u ''project:'' @ s) = u ''project:'' @ s" by (intro trim_fix_if_no_ws) auto
  ultimately have "normalize (u ''project:'' @ s) = Inr (u ''project:'' @ s) \<longleftrightarrow>
      is_valid (u ''project:'' @ s)"
    by (simp add: normalize_Inr)
  with sh project_slug_valid_iff [OF assms] show ?thesis by auto
qed

theorem project_slug_validates_iff_witness:
  "project_slug (u ''/srv/.config'') = Inr (u ''.config'') \<and>
   normalize (u ''project:.config'') \<noteq> Inr (u ''project:.config'')"
proof -
  have "project_slug (u ''/srv/.config'') = Inr (u ''.config'')"
    by (simp add: project_slug_def trim_defs Let_def)
  from this project_slug_validates_iff [OF this] show ?thesis by simp
qed

end
