(* ===== verification/Lr_Types.thy ===== *)
theory Lr_Types
  imports Complex_Main Lr_Namespaces "HOL-Library.List_Lexorder" "HOL-Library.Product_Lexorder"
begin

text \<open>
  Domain types, \<open>src/src/domain/types.rs\<close>, with the grant entry of \<open>policy.rs\<close> they
  mention. An instant (\<open>DateTime<Utc>\<close>) is an integer number of nanoseconds since the
  Unix epoch; where the source reads the clock, the model takes \<open>now\<close> as an argument.
\<close>

section \<open>Sensitivity\<close>

datatype sensitivity = Open | Private | Sealed

instantiation sensitivity :: linorder
begin

fun level :: "sensitivity \<Rightarrow> nat" where
  "level Open = 0"
| "level Private = 1"
| "level Sealed = 2"

definition less_eq_sensitivity :: "sensitivity \<Rightarrow> sensitivity \<Rightarrow> bool" where
  "less_eq_sensitivity a b \<longleftrightarrow> level a \<le> level b"

definition less_sensitivity :: "sensitivity \<Rightarrow> sensitivity \<Rightarrow> bool" where
  "less_sensitivity a b \<longleftrightarrow> level a < level b"

lemma level_inj: "level a = level b \<Longrightarrow> a = b"
  by (cases a; cases b) simp_all

instance
  by standard (auto simp: less_eq_sensitivity_def less_sensitivity_def dest: level_inj)

end

lemmas sensitivity_order = less_eq_sensitivity_def less_sensitivity_def

lemma sensitivity_order_simps [simp]:
  "Open \<le> s" "s \<le> Sealed" "Open < Private" "Private < Sealed" "Open < Sealed"
  "\<not> s < Open" "\<not> Sealed < s" "\<not> Private \<le> Open" "\<not> Sealed \<le> Private" "\<not> Sealed \<le> Open"
  by (cases s; simp add: sensitivity_order)+

lemma le_Open_iff [simp]: "s \<le> Open \<longleftrightarrow> s = Open"
  and Sealed_le_iff [simp]: "Sealed \<le> s \<longleftrightarrow> s = Sealed"
  by (cases s; simp add: sensitivity_order)+

fun sensitivity_as_str :: "sensitivity \<Rightarrow> str" where
  "sensitivity_as_str Open = u ''open''"
| "sensitivity_as_str Private = u ''private''"
| "sensitivity_as_str Sealed = u ''sealed''"

definition parse_sensitivity_level :: "str \<Rightarrow> sensitivity option" where
  "parse_sensitivity_level s =
     (let w = to_ascii_lowercase (trim s)
      in if w = u ''open'' then Some Open
         else if w = u ''private'' then Some Private
         else if w = u ''sealed'' then Some Sealed
         else None)"

fun is_encrypted :: "sensitivity \<Rightarrow> bool" where
  "is_encrypted Private = True"
| "is_encrypted _ = False"

fun is_lexically_indexed :: "sensitivity \<Rightarrow> bool" where
  "is_lexically_indexed Open = True"
| "is_lexically_indexed _ = False"

interpretation sensitivity_codec: codec sensitivity_as_str parse_sensitivity_level
proof
  show "parse_sensitivity_level (sensitivity_as_str x) = Some x" for x
    by (cases x) (simp_all add: parse_sensitivity_level_def trim_defs)
qed

section \<open>Rows\<close>

type_synonym instant = int

record memory =
  m_id :: nat
  m_namespace :: str
  m_content :: str
  m_tags :: "str list"
  m_source_client :: str
  m_embedding_model :: "str option"
  m_sensitivity :: sensitivity
  m_supersedes :: "nat option"
  m_occurred_at :: "instant option"
  m_occurred_until :: "instant option"
  m_superseded_by :: "nat option"
  m_superseded_at :: "instant option"
  m_access_count :: int
  m_last_accessed_at :: "instant option"
  m_last_confirmed_at :: "instant option"
  m_created_at :: instant

definition memory_is_live :: "instant \<Rightarrow> memory \<Rightarrow> bool" where
  "memory_is_live now m \<longleftrightarrow>
     m_superseded_by m = None \<and>
     (case m_occurred_until m of None \<Rightarrow> True | Some until \<Rightarrow> until > now)"

definition expired :: "instant option \<Rightarrow> instant option \<Rightarrow> instant \<Rightarrow> bool" where
  "expired superseded_at occurred_until now \<longleftrightarrow>
     superseded_at = None \<and> (case occurred_until of None \<Rightarrow> False | Some until \<Rightarrow> until \<le> now)"

definition memory_is_expired :: "instant \<Rightarrow> memory \<Rightarrow> bool" where
  "memory_is_expired now m = expired (m_superseded_at m) (m_occurred_until m) now"

record conflict_candidate =
  cc_id :: nat
  cc_namespace :: str
  cc_content :: str
  cc_similarity :: real

record write_outcome =
  wo_id :: nat
  wo_namespace :: str
  wo_sensitivity :: sensitivity
  wo_deduplicated :: bool
  wo_superseded :: "nat option"
  wo_end_left_open :: bool
  wo_possible_conflicts :: "conflict_candidate list"

section \<open>Principals\<close>

record namespace_grant =
  g_namespace :: str
  g_max :: sensitivity

record principal =
  p_client :: str
  p_token_id :: str
  p_mode :: str
  p_scopes :: "str list"
  p_read :: "namespace_grant list"
  p_write :: "namespace_grant list"
  p_registry_write :: bool
  p_sealed_capable :: bool
  p_may_delete :: bool
  p_may_ingest :: bool
  p_may_read_history :: bool

definition empty_principal :: "str \<Rightarrow> principal" where
  "empty_principal client =
     \<lparr>p_client = client, p_token_id = [], p_mode = u ''none'', p_scopes = [], p_read = [],
      p_write = [], p_registry_write = False, p_sealed_capable = False, p_may_delete = False,
      p_may_ingest = False, p_may_read_history = False\<rparr>"

section \<open>Where a call came from\<close>

datatype invocation = Model | Hook | Cli | User

definition parse_invocation :: "str option \<Rightarrow> invocation" where
  "parse_invocation header =
     (case map_option (\<lambda>h. to_ascii_lowercase (trim h)) header of
        None \<Rightarrow> Model
      | Some w \<Rightarrow> (if w = u ''hook'' then Hook else if w = u ''cli'' then Cli
                  else if w = u ''user'' then User else Model))"

definition is_unprompted :: "invocation \<Rightarrow> bool" where
  "is_unprompted i = (i = Model)"

lemma not_live_and_expired: "memory_is_expired now m \<Longrightarrow> \<not> memory_is_live now m"
  by (auto simp: memory_is_expired_def expired_def memory_is_live_def split: option.splits)

lemma open_period_live:
  "m_superseded_by m = None \<Longrightarrow> m_superseded_at m = None \<Longrightarrow>
     memory_is_live now m \<longleftrightarrow> \<not> memory_is_expired now m"
  by (auto simp: memory_is_expired_def expired_def memory_is_live_def split: option.splits)

end
