(* ===== verification/Lr_Policy.thy ===== *)
theory Lr_Policy
  imports Lr_Types
begin

text \<open>
  The two-axis grant model: \<open>src/src/domain/policy.rs\<close>, the grant arithmetic over a
  principal of \<open>src/src/adapters/auth/mod.rs\<close>, the tool table of
  \<open>src/src/mcp/capability.rs\<close>, the named shapes of \<open>presets.rs\<close> and the consent
  profiles of \<open>oauth.rs\<close>. A grant is a namespace glob with the highest sensitivity it
  admits.
\<close>

section \<open>Grants\<close>

definition grant_open :: "str \<Rightarrow> namespace_grant" where
  "grant_open ns = \<lparr>g_namespace = ns, g_max = Open\<rparr>"

definition grant_new :: "str \<Rightarrow> sensitivity \<Rightarrow> namespace_grant" where
  "grant_new ns mx = \<lparr>g_namespace = ns, g_max = mx\<rparr>"

definition grant_everything :: "namespace_grant list" where
  "grant_everything = [grant_new (u ''*'') Sealed]"

text \<open>The two wire forms of a grant: a bare string, or an object whose \<open>max\<close> may be absent.\<close>

datatype grant_wire = Bare str | Object str "sensitivity option"

fun grant_of_wire :: "grant_wire \<Rightarrow> namespace_grant" where
  "grant_of_wire (Bare ns) = \<lparr>g_namespace = ns, g_max = Open\<rparr>"
| "grant_of_wire (Object ns mx) =
     \<lparr>g_namespace = ns, g_max = (case mx of Some m \<Rightarrow> m | None \<Rightarrow> Open)\<rparr>"

record namespace_ceiling =
  nc_namespace :: str
  nc_max :: sensitivity

fun iter_max :: "'a :: linorder list \<Rightarrow> 'a option" where
  "iter_max [] = None"
| "iter_max (x # xs) = (case iter_max xs of None \<Rightarrow> Some x | Some y \<Rightarrow> Some (max x y))"

definition grant_ceiling :: "namespace_grant list \<Rightarrow> str \<Rightarrow> sensitivity option" where
  "grant_ceiling grants ns = iter_max (map g_max (filter (\<lambda>g. matches (g_namespace g) ns) grants))"

definition patterns :: "namespace_grant list \<Rightarrow> str list" where
  "patterns grants = map g_namespace grants"

definition resolve :: "namespace_grant list \<Rightarrow> str list \<Rightarrow> namespace_ceiling list" where
  "resolve grants requested =
     filter_map (\<lambda>ns. map_option (\<lambda>mx. \<lparr>nc_namespace = ns, nc_max = mx\<rparr>) (grant_ceiling grants ns))
       requested"

definition admits :: "namespace_grant list \<Rightarrow> str \<Rightarrow> sensitivity \<Rightarrow> bool" where
  "admits grants ns s = (case grant_ceiling grants ns of Some mx \<Rightarrow> s \<le> mx | None \<Rightarrow> False)"

section \<open>Default classification\<close>

type_synonym sensitivity_rules = "(str \<times> sensitivity) list"

text \<open>Longest pattern first, ties by the pattern itself; the sort is stable as Rust's is.\<close>

definition defaults_new :: "sensitivity_rules \<Rightarrow> sensitivity_rules" where
  "defaults_new rules = sort_key (\<lambda>r. (- int (str_len (fst r)), fst r)) rules"

definition defaults_seeded :: sensitivity_rules where
  "defaults_seeded = defaults_new
     [(u ''*'', Open), (u ''global'', Open), (u ''project:*'', Open), (u ''user:me'', Open),
      (u ''personal:finance'', Private), (u ''personal:health'', Private),
      (u ''credentials:*'', Sealed)]"

definition for_namespace :: "sensitivity_rules \<Rightarrow> str \<Rightarrow> sensitivity" where
  "for_namespace rules ns =
     (case List.find (\<lambda>r. matches (fst r) ns) rules of Some r \<Rightarrow> snd r | None \<Rightarrow> Open)"

definition resolve_for_write ::
    "sensitivity_rules \<Rightarrow> str \<Rightarrow> sensitivity option \<Rightarrow> sensitivity" where
  "resolve_for_write rules ns requested =
     (let floor = for_namespace rules ns
      in case requested of
           Some asked \<Rightarrow> (if asked > floor then asked else floor)
         | None \<Rightarrow> floor)"

section \<open>The grant over a principal\<close>

definition read_patterns :: "principal \<Rightarrow> str list" where
  "read_patterns p = patterns (p_read p)"

definition write_patterns :: "principal \<Rightarrow> str list" where
  "write_patterns p = patterns (p_write p)"

definition filter_readable :: "principal \<Rightarrow> str list \<Rightarrow> namespace_ceiling list" where
  "filter_readable p requested = resolve (p_read p) requested"

definition readable_names :: "principal \<Rightarrow> str list \<Rightarrow> str list" where
  "readable_names p requested = map nc_namespace (filter_readable p requested)"

definition assert_writable :: "principal \<Rightarrow> str \<Rightarrow> sensitivity \<Rightarrow> unit res" where
  "assert_writable p ns s =
     (if admits (p_write p) ns s then Inr ()
      else Inl (forbidden
        (case grant_ceiling (p_write p) ns of
           Some mx \<Rightarrow> R_WriteAboveCeiling (p_client p) ns (sensitivity_as_str mx)
                         (sensitivity_as_str s)
         | None \<Rightarrow> R_MayNotWrite (p_client p) ns)))"

definition can_write :: "principal \<Rightarrow> str \<Rightarrow> sensitivity \<Rightarrow> bool" where
  "can_write p ns s = admits (p_write p) ns s"

definition can_read :: "principal \<Rightarrow> str \<Rightarrow> sensitivity \<Rightarrow> bool" where
  "can_read p ns s = admits (p_read p) ns s"

definition max_readable :: "principal \<Rightarrow> sensitivity" where
  "max_readable p = (case iter_max (map g_max (p_read p)) of Some s \<Rightarrow> s | None \<Rightarrow> Open)"

text \<open>\<open>str::split_once(char::is_whitespace)\<close>: around the first whitespace character.\<close>

fun split_once_ws :: "str \<Rightarrow> (str \<times> str) option" where
  "split_once_ws [] = None"
| "split_once_ws (c # s) =
     (if is_whitespace c then Some ([], s)
      else map_option (\<lambda>(a, b). (c # a, b)) (split_once_ws s))"

definition bearer :: "str option \<Rightarrow> str res" where
  "bearer header =
     (case header of
        None \<Rightarrow> Inl (forbidden R_MissingAuthorization)
      | Some h \<Rightarrow>
          (case split_once_ws (trim h) of
             None \<Rightarrow> Inl (forbidden R_BadAuthorization)
           | Some (scheme, token) \<Rightarrow>
               (if to_ascii_lowercase scheme \<noteq> u ''bearer'' \<or> trim token = []
                then Inl (forbidden R_BadAuthorization)
                else Inr (trim token))))"

section \<open>Tools\<close>

datatype capability = CapOpen | MayDelete | MayReadHistory | RegistryWrite

fun grant_field :: "capability \<Rightarrow> str" where
  "grant_field CapOpen = u ''none''"
| "grant_field MayDelete = u ''mayDelete''"
| "grant_field MayReadHistory = u ''mayReadHistory''"
| "grant_field RegistryWrite = u ''registryWrite''"

fun held_by :: "capability \<Rightarrow> principal \<Rightarrow> bool" where
  "held_by CapOpen p = True"
| "held_by MayDelete p = p_may_delete p"
| "held_by MayReadHistory p = p_may_read_history p"
| "held_by RegistryWrite p = p_registry_write p"

definition tool_capabilities :: "(str \<times> capability) list" where
  "tool_capabilities =
     [(u ''context_bootstrap'', CapOpen),
      (u ''memory_search'', CapOpen),
      (u ''memory_write'', CapOpen),
      (u ''registry_get'', CapOpen),
      (u ''memory_forget'', MayDelete),
      (u ''memory_history'', MayReadHistory),
      (u ''registry_history'', MayReadHistory),
      (u ''registry_set'', RegistryWrite),
      (u ''alias_set'', RegistryWrite),
      (u ''alias_list'', CapOpen),
      (u ''review_queue'', CapOpen),
      (u ''review_decide'', CapOpen)]"

definition required :: "str \<Rightarrow> capability" where
  "required tool =
     (case List.find (\<lambda>e. fst e = tool) tool_capabilities of Some e \<Rightarrow> snd e | None \<Rightarrow> CapOpen)"

definition permits :: "principal \<Rightarrow> str \<Rightarrow> bool" where
  "permits p tool = held_by (required tool) p"

section \<open>Named shapes\<close>

datatype preset = ReadOnly | ReadWrite | IngestBot | Full

record shape =
  sh_read :: "namespace_grant list"
  sh_write :: "namespace_grant list"
  sh_registry_write :: bool
  sh_sealed_capable :: bool
  sh_may_delete :: bool
  sh_may_ingest :: bool
  sh_may_read_history :: bool

definition all_presets :: "preset list" where
  "all_presets = [ReadOnly, ReadWrite, IngestBot, Full]"

fun preset_as_str :: "preset \<Rightarrow> str" where
  "preset_as_str ReadOnly = u ''read-only''"
| "preset_as_str ReadWrite = u ''read-write''"
| "preset_as_str IngestBot = u ''ingest-bot''"
| "preset_as_str Full = u ''full''"

definition parse_preset :: "str \<Rightarrow> preset option" where
  "parse_preset s = List.find (\<lambda>p. preset_as_str p = s) all_presets"

fun preset_shape :: "preset \<Rightarrow> shape" where
  "preset_shape ReadOnly =
     \<lparr>sh_read = grant_everything, sh_write = [], sh_registry_write = False,
      sh_sealed_capable = False, sh_may_delete = False, sh_may_ingest = False,
      sh_may_read_history = False\<rparr>"
| "preset_shape ReadWrite =
     \<lparr>sh_read = grant_everything, sh_write = [grant_new (u ''*'') Open],
      sh_registry_write = False, sh_sealed_capable = False, sh_may_delete = False,
      sh_may_ingest = False, sh_may_read_history = False\<rparr>"
| "preset_shape IngestBot =
     \<lparr>sh_read = [], sh_write = [], sh_registry_write = False, sh_sealed_capable = False,
      sh_may_delete = False, sh_may_ingest = True, sh_may_read_history = False\<rparr>"
| "preset_shape Full =
     \<lparr>sh_read = grant_everything, sh_write = grant_everything, sh_registry_write = True,
      sh_sealed_capable = True, sh_may_delete = False, sh_may_ingest = True,
      sh_may_read_history = True\<rparr>"

datatype grant_profile = ProfileFull | ProfileStandard | ProfileNarrow

definition parse_profile :: "str \<Rightarrow> grant_profile option" where
  "parse_profile s =
     (let w = to_ascii_lowercase (trim s)
      in if w = u ''full'' then Some ProfileFull
         else if w = u ''standard'' then Some ProfileStandard
         else if w = u ''narrow'' then Some ProfileNarrow
         else None)"

fun profile_as_str :: "grant_profile \<Rightarrow> str" where
  "profile_as_str ProfileFull = u ''full''"
| "profile_as_str ProfileStandard = u ''standard''"
| "profile_as_str ProfileNarrow = u ''narrow''"

fun profile_namespaces :: "grant_profile \<Rightarrow> namespace_grant list" where
  "profile_namespaces ProfileFull = [grant_new (u ''*'') Sealed]"
| "profile_namespaces ProfileStandard =
     [grant_open (u ''user:me''), grant_open (u ''global''), grant_open (u ''project:*'')]"
| "profile_namespaces ProfileNarrow = [grant_open (u ''user:me''), grant_open (u ''global'')]"

definition profile_read :: "grant_profile \<Rightarrow> namespace_grant list" where
  "profile_read p = profile_namespaces p"

definition profile_write :: "grant_profile \<Rightarrow> namespace_grant list" where
  "profile_write p = profile_namespaces p"

definition profile_sealed_capable :: "grant_profile \<Rightarrow> bool" where
  "profile_sealed_capable p = (p = ProfileFull)"

definition profile_may_delete :: "grant_profile \<Rightarrow> bool" where
  "profile_may_delete p = (p = ProfileFull)"

definition profile_may_ingest :: "grant_profile \<Rightarrow> bool" where
  "profile_may_ingest p = (p = ProfileFull)"

definition profile_registry_write :: "grant_profile \<Rightarrow> bool" where
  "profile_registry_write p = (p = ProfileFull)"

interpretation preset_codec: strict_codec preset_as_str parse_preset
proof
  show "parse_preset (preset_as_str x) = Some x" for x
    by (cases x) (simp_all add: parse_preset_def all_presets_def)
  show "parse_preset s = Some x \<Longrightarrow> preset_as_str x = s" for s x
    by (auto simp: parse_preset_def dest: find_Some_set)
qed

interpretation profile_codec: codec profile_as_str parse_profile
proof
  show "parse_profile (profile_as_str x) = Some x" for x
    by (cases x) (simp_all add: parse_profile_def trim_defs)
qed

section \<open>Grant arithmetic\<close>

lemma iter_max_None [simp]: "iter_max xs = None \<longleftrightarrow> xs = []"
  by (cases xs) (auto split: option.splits)

lemma iter_max_Some:
  "iter_max xs = Some m \<longleftrightarrow> m \<in> set xs \<and> (\<forall>x \<in> set xs. x \<le> m)"
proof (induction xs arbitrary: m)
  case Nil
  then show ?case by simp
next
  case (Cons x xs)
  show ?case
  proof (cases "iter_max xs")
    case None
    then show ?thesis by auto
  next
    case (Some y)
    with Cons.IH [of y] have "y \<in> set xs" "\<forall>z \<in> set xs. z \<le> y" by auto
    with Some show ?thesis by (auto simp: max_def intro: order.trans antisym)
  qed
qed

lemma ceiling_None: "grant_ceiling gs ns = None \<longleftrightarrow> (\<forall>g \<in> set gs. \<not> matches (g_namespace g) ns)"
  by (auto simp: grant_ceiling_def filter_empty_conv)

lemma ceiling_Some:
  "grant_ceiling gs ns = Some m \<longleftrightarrow>
     (\<exists>g \<in> set gs. matches (g_namespace g) ns \<and> g_max g = m) \<and>
     (\<forall>g \<in> set gs. matches (g_namespace g) ns \<longrightarrow> g_max g \<le> m)"
  unfolding grant_ceiling_def iter_max_Some by auto

lemma admits_iff:
  "admits gs ns s \<longleftrightarrow> (\<exists>g \<in> set gs. matches (g_namespace g) ns \<and> s \<le> g_max g)"
proof (cases "grant_ceiling gs ns")
  case None
  then have "\<not> admits gs ns s" by (simp add: admits_def)
  with None show ?thesis by (auto simp: ceiling_None)
next
  case (Some m)
  then have "admits gs ns s \<longleftrightarrow> s \<le> m" by (simp add: admits_def)
  with Some show ?thesis by (auto simp: ceiling_Some intro: order.trans)
qed

text \<open>
  What every access rule of the system promises: nothing is reachable without a grant, two
  grant lists together reach what either reaches, and a level reached brings every lower
  level with it.
\<close>

locale access_rule =
  fixes adm :: "'g list \<Rightarrow> 'n \<Rightarrow> 'l :: linorder \<Rightarrow> bool"
  assumes adm_Nil: "\<not> adm [] n l"
    and adm_Cons: "adm (g # gs) n l \<longleftrightarrow> adm [g] n l \<or> adm gs n l"
    and adm_down: "adm gs n l \<Longrightarrow> l' \<le> l \<Longrightarrow> adm gs n l'"
begin

lemma adm_iff: "adm gs n l \<longleftrightarrow> (\<exists>g \<in> set gs. adm [g] n l)"
  by (induction gs) (auto simp: adm_Nil dest: adm_Cons [THEN iffD1] intro: adm_Cons [THEN iffD2])

lemma adm_append: "adm (gs @ hs) n l \<longleftrightarrow> adm gs n l \<or> adm hs n l"
  using adm_iff by (metis Un_iff set_append)

lemma adm_mono: "set gs \<subseteq> set hs \<Longrightarrow> adm gs n l \<Longrightarrow> adm hs n l"
  using adm_iff by (metis subsetD)

lemma adm_order: "set gs = set hs \<Longrightarrow> adm gs n l = adm hs n l"
  using adm_iff by metis

end

interpretation grant_rule: access_rule admits
proof
  show "\<not> admits [] n l" for n l by (simp add: admits_iff)
  show "admits (g # gs) n l \<longleftrightarrow> admits [g] n l \<or> admits gs n l" for g gs n l
    by (auto simp: admits_iff)
  show "admits gs n l \<Longrightarrow> l' \<le> l \<Longrightarrow> admits gs n l'" for gs n l l'
    by (auto simp: admits_iff intro: order.trans)
qed

lemma set_resolve:
  "c \<in> set (resolve gs req) \<longleftrightarrow> nc_namespace c \<in> set req \<and> grant_ceiling gs (nc_namespace c) = Some (nc_max c)"
  by (cases c) (auto simp: resolve_def set_filter_map)

lemma resolve_names:
  "map nc_namespace (resolve gs req) = filter (\<lambda>ns. admits gs ns Open) req"
  by (induction req) (auto simp: resolve_def admits_def split: option.splits)

lemma resolve_for_write_eq:
  "resolve_for_write r ns (Some a) = max (for_namespace r ns) a"
  "resolve_for_write r ns None = for_namespace r ns"
  by (auto simp: resolve_for_write_def Let_def max_def)

lemma resolve_for_write_floor: "for_namespace r ns \<le> resolve_for_write r ns q"
  by (cases q) (simp_all add: resolve_for_write_eq)

section \<open>The longest pattern decides\<close>

lemma find_sort_key_le:
  fixes f :: "'a \<Rightarrow> 'k :: linorder"
  assumes "List.find P (sort_key f xs) = Some x" and "y \<in> set xs" and "P y"
  shows "x \<in> set xs \<and> P x \<and> f x \<le> f y"
proof -
  obtain i where i: "i < length (sort_key f xs)" "P (sort_key f xs ! i)"
      "x = sort_key f xs ! i" "\<And>j. j < i \<Longrightarrow> \<not> P (sort_key f xs ! j)"
    using assms(1) by (auto simp: find_Some_iff)
  from assms(2) obtain k where k: "k < length (sort_key f xs)" "y = sort_key f xs ! k"
    by (metis in_set_conv_nth set_sort)
  have "i \<le> k" using i(4) [of k] k assms(3) by (meson not_le)
  moreover have "sorted (map f (sort_key f xs))" by simp
  ultimately have "f (sort_key f xs ! i) \<le> f (sort_key f xs ! k)"
    using k(1) by (simp add: sorted_iff_nth_mono)
  moreover have "x \<in> set xs" using i by (metis nth_mem set_sort)
  ultimately show ?thesis using i k by simp
qed

lemma for_namespace_longest:
  assumes "(p, l) \<in> set rules" and "matches p ns"
  shows "\<exists>q. (q, for_namespace (defaults_new rules) ns) \<in> set rules \<and> matches q ns \<and>
    str_len p \<le> str_len q"
proof -
  define k where "k = (\<lambda>r :: str \<times> sensitivity. (- int (str_len (fst r)), fst r))"
  have "List.find (\<lambda>r. matches (fst r) ns) (sort_key k rules) \<noteq> None"
    using assms by (auto simp: find_None_iff)
  then obtain q m where q: "List.find (\<lambda>r. matches (fst r) ns) (sort_key k rules) = Some (q, m)"
    by auto
  from find_sort_key_le [OF q assms(1)] assms(2)
  have "(q, m) \<in> set rules" "matches q ns" "k (q, m) \<le> k (p, l)" by auto
  moreover have "for_namespace (defaults_new rules) ns = m"
    using q by (simp add: for_namespace_def defaults_new_def k_def)
  ultimately show ?thesis by (auto simp: k_def less_eq_prod_def intro!: exI [of _ q])
qed

lemma for_namespace_unmatched:
  "\<forall>(p, l) \<in> set rules. \<not> matches p ns \<Longrightarrow> for_namespace (defaults_new rules) ns = Open"
proof -
  assume "\<forall>(p, l) \<in> set rules. \<not> matches p ns"
  then have "List.find (\<lambda>r. matches (fst r) ns) (defaults_new rules) = None"
    by (auto simp: find_None_iff defaults_new_def)
  then show ?thesis by (simp add: for_namespace_def)
qed

section \<open>Properties\<close>

text \<open>
  A write is let through exactly when some entry of the caller's write grant
  matches the namespace and reaches the level; otherwise the refusal is \<open>Forbidden\<close>, and
  it names a ceiling only when the caller holds one for that very namespace.
\<close>

theorem assert_writable_spec:
  "(assert_writable p ns s = Inr () \<longleftrightarrow>
      (\<exists>g \<in> set (p_write p). matches (g_namespace g) ns \<and> s \<le> g_max g)) \<and>
   (\<forall>e. assert_writable p ns s = Inl e \<longrightarrow> err_kind e = Forbidden \<and>
      (err_message e = R_MayNotWrite (p_client p) ns \<longleftrightarrow>
         (\<forall>g \<in> set (p_write p). \<not> matches (g_namespace g) ns)))"
proof -
  have "assert_writable p ns s = Inr () \<longleftrightarrow> admits (p_write p) ns s"
    by (simp add: assert_writable_def)
  then show ?thesis
    using ceiling_None [of "p_write p" ns]
    by (auto simp: admits_iff assert_writable_def split: option.splits if_splits)
qed

theorem assert_writable_spec_witness:
  "assert_writable ((empty_principal [])\<lparr>p_write := [grant_open (u ''user:me'')]\<rparr>)
     (u ''user:me'') Private =
   Inl (forbidden (R_WriteAboveCeiling [] (u ''user:me'') (u ''open'') (u ''private''))) \<and>
   assert_writable (empty_principal []) (u ''global'') Open \<noteq> Inr ()"
  using assert_writable_spec [of "empty_principal []" "u ''global''" Open]
  by (simp add: assert_writable_def admits_def grant_ceiling_def empty_principal_def grant_open_def
      matches_def trim_defs Let_def strip_suffix_def suffix_def)

text \<open>
  Reads narrow silently: of the requested namespaces exactly those some grant
  reaches are kept, in the order asked for, and each carries the ceiling that separates the
  levels the caller may read there from the ones it may not.
\<close>

theorem filter_readable_exact:
  "map nc_namespace (filter_readable p req) = filter (\<lambda>ns. can_read p ns Open) req \<and>
   (\<forall>c \<in> set (filter_readable p req). \<forall>s. can_read p (nc_namespace c) s \<longleftrightarrow> s \<le> nc_max c)"
  by (auto simp: filter_readable_def can_read_def resolve_names set_resolve admits_def)

theorem filter_readable_exact_witness:
  "map nc_namespace (filter_readable
     ((empty_principal [])\<lparr>p_read := [grant_new (u ''*'') Private]\<rparr>) [u ''global'']) = [u ''global'']"
  using filter_readable_exact [of "(empty_principal [])\<lparr>p_read := [grant_new (u ''*'') Private]\<rparr>" "[u ''global'']"]
  by (simp add: can_read_def admits_iff grant_new_def)

text \<open>
  Classification only goes up. Whatever a caller asks for, a write to a
  namespace some rule classifies is stored at or above the level of the longest rule that
  matches it, and at or above the level it asked for, whichever order the rules were given in.
\<close>

theorem write_level_never_drops:
  assumes "(p, l) \<in> set rules" and "matches p ns"
  shows "\<exists>q m. (q, m) \<in> set rules \<and> matches q ns \<and> str_len p \<le> str_len q \<and>
    m \<le> resolve_for_write (defaults_new rules) ns r \<and>
    (\<forall>a. r = Some a \<longrightarrow> a \<le> resolve_for_write (defaults_new rules) ns r)"
  using for_namespace_longest [OF assms] resolve_for_write_floor [of "defaults_new rules" ns r]
  by (auto simp: resolve_for_write_eq)

theorem write_level_never_drops_witness:
  "matches (u ''credentials:*'') (u ''credentials:aws'') \<and>
   (\<exists>q m. (q, m) \<in> set [(u ''*'', Open), (u ''credentials:*'', Sealed)] \<and>
      str_len (u ''credentials:*'') \<le> str_len q \<and>
      m \<le> resolve_for_write (defaults_new [(u ''*'', Open), (u ''credentials:*'', Sealed)])
            (u ''credentials:aws'') (Some Open))"
proof -
  have m: "matches (u ''credentials:*'') (u ''credentials:aws'')"
    by (simp add: matches_def trim_defs strip_suffix_def suffix_def starts_with_def)
  show ?thesis
    using m write_level_never_drops [of "u ''credentials:*''" Sealed
        "[(u ''*'', Open), (u ''credentials:*'', Sealed)]" "u ''credentials:aws''" "Some Open"]
    by fastforce
qed

text \<open>
  No named shape grants deletion, and no shape but \<open>Full\<close> can store anything
  above \<open>open\<close> or write the registry; the ingest shape reaches no namespace at all.
\<close>

theorem preset_limits:
  "\<not> sh_may_delete (preset_shape pr) \<and>
   (admits (sh_write (preset_shape pr)) ns Private \<or> sh_registry_write (preset_shape pr) \<or>
      sh_sealed_capable (preset_shape pr) \<longrightarrow> pr = Full) \<and>
   \<not> admits (sh_read (preset_shape IngestBot)) ns s \<and> \<not> admits (sh_write (preset_shape IngestBot)) ns s"
  by (cases pr) (auto simp: admits_iff grant_new_def grant_everything_def)

theorem preset_limits_witness:
  "admits (sh_write (preset_shape Full)) (u ''global'') Private \<and> \<not> sh_may_delete (preset_shape Full)"
  using preset_limits [of Full "u ''global''" Open]
  by (simp add: admits_iff grant_new_def grant_everything_def)

end
