(* ===== verification/Lr_Canonical.thy ===== *)
theory Lr_Canonical
  imports Lr_Errors
begin

text \<open>
  Canonical registry keys, \<open>src/src/domain/canonical.rs\<close>: the closed vocabulary, the
  silent mechanical repairs, the judge every path shares, the suggestion a refusal carries
  and the Damerau-Levenshtein distance it uses for typos. \<open>edit_distance\<close> keeps the
  source's grid and loops; \<open>osa\<close> is the recursive distance it is proved equal to.
\<close>

section \<open>Vocabulary\<close>

definition domains :: "str list" where
  "domains = [u ''machines'', u ''services'', u ''credentials'', u ''routes'', u ''datasets'',
     u ''people'', u ''accounts'']"

definition kinds :: "str list" where
  "kinds = [u ''host'', u ''service'', u ''credential-ref'', u ''model-route'', u ''dataset'']"

definition min_segments :: nat where "min_segments = 2"
definition max_segments :: nat where "max_segments = 4"
definition max_typo :: nat where "max_typo = 1"

definition domain_aliases :: "(str \<times> str) list" where
  "domain_aliases =
     [(u ''machine'', u ''machines''),
      (u ''host'', u ''machines''),
      (u ''hosts'', u ''machines''),
      (u ''hardware'', u ''machines''),
      (u ''server'', u ''machines''),
      (u ''servers'', u ''machines''),
      (u ''service'', u ''services''),
      (u ''credential'', u ''credentials''),
      (u ''credential-ref'', u ''credentials''),
      (u ''creds'', u ''credentials''),
      (u ''secret'', u ''credentials''),
      (u ''secrets'', u ''credentials''),
      (u ''route'', u ''routes''),
      (u ''model-route'', u ''routes''),
      (u ''dataset'', u ''datasets''),
      (u ''data'', u ''datasets''),
      (u ''person'', u ''people''),
      (u ''account'', u ''accounts'')]"

definition attribute_domains :: "(str \<times> str) list" where
  "attribute_domains =
     [(u ''os'', u ''machines''),
      (u ''gpu'', u ''machines''),
      (u ''cpu'', u ''machines''),
      (u ''ram'', u ''machines''),
      (u ''disk'', u ''machines''),
      (u ''arch'', u ''machines''),
      (u ''kernel'', u ''machines''),
      (u ''hostname'', u ''machines''),
      (u ''endpoint'', u ''services''),
      (u ''port'', u ''services''),
      (u ''dsn'', u ''services''),
      (u ''email'', u ''people''),
      (u ''phone'', u ''people'')]"

definition known_attributes :: "str list" where
  "known_attributes =
     [u ''os'', u ''gpu'', u ''cpu'', u ''ram'', u ''disk'', u ''arch'', u ''kernel'',
      u ''hostname'', u ''host'', u ''endpoint'', u ''port'', u ''dsn'', u ''url'', u ''email'',
      u ''phone'', u ''location'', u ''path'', u ''item'', u ''model'', u ''version'',
      u ''region'', u ''size'', u ''key'', u ''token'', u ''owner'', u ''id'', u ''name'']"

section \<open>Silent repairs\<close>

text \<open>Drop each \<open>c\<close> that follows a \<open>c\<close>: the loops with \<open>previous_dot\<close> and \<open>previous_dash\<close>.\<close>

fun collapse :: "'a \<Rightarrow> bool \<Rightarrow> 'a list \<Rightarrow> 'a list" where
  "collapse c prev [] = []"
| "collapse c prev (x # s) =
     (if x = c \<and> prev then collapse c prev s else x # collapse c (x = c) s)"

definition tidy_segment :: "str \<Rightarrow> str" where
  "tidy_segment s = trim_matches (\<lambda>c. c = 45) (collapse 45 False s)"

definition normalise :: "str \<Rightarrow> str" where
  "normalise key =
     (let trimmed = trim key;
          joiners_separate = (46 \<notin> set trimmed);
          flat = map (\<lambda>c. if c = 95 \<or> is_whitespace c
                          then (if joiners_separate then 46 else 45) else lower1 c) trimmed;
          collapsed = collapse 46 False flat
      in join [46] (map tidy_segment (split_on 46 collapsed)))"

definition normalise_kind :: "str \<Rightarrow> str" where
  "normalise_kind kind =
     trim_matches (\<lambda>c. c = 45)
       (collapse 45 False
          (map (\<lambda>c. if c = 95 \<or> is_whitespace c then 45 else lower1 c) (trim kind)))"

section \<open>The judge\<close>

definition is_valid_segment :: "str \<Rightarrow> bool" where
  "is_valid_segment s \<longleftrightarrow>
     s \<noteq> [] \<and> list_all (\<lambda>b. is_ascii_lowercase b \<or> is_ascii_digit b \<or> b = 45) s \<and>
     \<not> starts_with s [45] \<and> \<not> ends_with s [45] \<and> \<not> str_contains s [45, 45]"

definition singular_attribute :: "str \<Rightarrow> str option" where
  "singular_attribute s =
     (case strip_suffix (u ''s'') s of
        None \<Rightarrow> None
      | Some stripped \<Rightarrow> List.find (\<lambda>a. a = stripped) known_attributes)"

definition judge :: "str \<Rightarrow> key_fault option" where
  "judge key =
     (if key = [] then Some KeyEmpty
      else let segments = split_on 46 key
           in if length segments < min_segments \<or> max_segments < length segments
                then Some KeySegmentCount
              else if \<not> list_all is_valid_segment segments then Some KeySegmentShape
              else if hd segments \<notin> set domains then Some KeyDomain
              else if singular_attribute (last segments) \<noteq> None then Some KeyPlural
              else None)"

definition is_canonical :: "str \<Rightarrow> bool" where
  "is_canonical key \<longleftrightarrow> judge key = None"

section \<open>Typos\<close>

type_synonym grid = "nat list list"

definition gget :: "grid \<Rightarrow> nat \<Rightarrow> nat \<Rightarrow> nat" where
  "gget g i j = g ! i ! j"

definition gset :: "grid \<Rightarrow> nat \<Rightarrow> nat \<Rightarrow> nat \<Rightarrow> grid" where
  "gset g i j v = g[i := (g ! i)[j := v]]"

definition grid_init :: "nat \<Rightarrow> nat \<Rightarrow> grid" where
  "grid_init n m =
     foldl (\<lambda>g j. gset g 0 j j)
       (map (\<lambda>i. (replicate (Suc m) 0)[0 := i]) [0..<Suc n]) [0..<Suc m]"

definition grid_cell :: "'a list \<Rightarrow> 'a list \<Rightarrow> grid \<Rightarrow> nat \<Rightarrow> nat \<Rightarrow> nat" where
  "grid_cell a b g i j =
     (let substitution = (if a ! (i - 1) \<noteq> b ! (j - 1) then 1 else 0);
          best = min (min (gget g (i - 1) j + 1) (gget g i (j - 1) + 1))
                     (gget g (i - 1) (j - 1) + substitution)
      in if i > 1 \<and> j > 1 \<and> a ! (i - 1) = b ! (j - 2) \<and> a ! (i - 2) = b ! (j - 1)
         then min best (gget g (i - 2) (j - 2) + 1) else best)"

primrec fill_row :: "'a list \<Rightarrow> 'a list \<Rightarrow> nat \<Rightarrow> nat \<Rightarrow> grid \<Rightarrow> grid" where
  "fill_row a b i 0 g = g"
| "fill_row a b i (Suc j) g =
     (let g' = fill_row a b i j g in gset g' i (Suc j) (grid_cell a b g' i (Suc j)))"

primrec fill_rows :: "'a list \<Rightarrow> 'a list \<Rightarrow> nat \<Rightarrow> grid \<Rightarrow> grid" where
  "fill_rows a b 0 g = g"
| "fill_rows a b (Suc i) g = fill_row a b (Suc i) (length b) (fill_rows a b i g)"

definition edit_distance :: "'a list \<Rightarrow> 'a list \<Rightarrow> nat" where
  "edit_distance a b =
     gget (fill_rows a b (length a) (grid_init (length a) (length b))) (length a) (length b)"

text \<open>The loop of \<open>nearest_domain\<close>: the best word so far and whether it is tied.\<close>

fun nearest_loop :: "str \<Rightarrow> (nat \<times> str) option \<Rightarrow> bool \<Rightarrow> str list \<Rightarrow> (nat \<times> str) option \<times> bool" where
  "nearest_loop seg best tied [] = (best, tied)"
| "nearest_loop seg best tied (d # ds) =
     (let distance = edit_distance seg d
      in case best of
           Some (bd, w) \<Rightarrow>
             (if distance > bd then nearest_loop seg best tied ds
              else if distance = bd then nearest_loop seg best True ds
              else nearest_loop seg (Some (distance, d)) False ds)
         | None \<Rightarrow> nearest_loop seg (Some (distance, d)) False ds)"

definition nearest_domain :: "str \<Rightarrow> str option" where
  "nearest_domain seg =
     (case nearest_loop seg None False domains of
        (Some (distance, d), tied) \<Rightarrow> (if distance \<le> max_typo \<and> \<not> tied then Some d else None)
      | (None, _) \<Rightarrow> None)"

section \<open>Suggestions and refusals\<close>

definition domain_alias :: "str \<Rightarrow> str option" where
  "domain_alias s = map_option snd (List.find (\<lambda>e. fst e = s) domain_aliases)"

definition attribute_domain :: "str \<Rightarrow> str option" where
  "attribute_domain s = map_option snd (List.find (\<lambda>e. fst e = s) attribute_domains)"

definition repairable_segments :: "str \<Rightarrow> str list option" where
  "repairable_segments key =
     (let normalised = normalise key
      in if normalised = [] then None
         else let segments = split_on 46 normalised
              in if length segments < min_segments \<or> max_segments < length segments then None
                 else if \<not> list_all is_valid_segment segments then None
                 else Some segments)"

definition suggest_key :: "str \<Rightarrow> str option" where
  "suggest_key key =
     (case repairable_segments key of
        None \<Rightarrow> None
      | Some segments0 \<Rightarrow>
          let segments1 = (case singular_attribute (last segments0) of
                             Some singular \<Rightarrow> segments0[length segments0 - 1 := singular]
                           | None \<Rightarrow> segments0);
              segments2 =
                (if hd segments1 \<in> set domains then Some segments1
                 else case (case domain_alias (hd segments1) of
                              Some d \<Rightarrow> Some d
                            | None \<Rightarrow> nearest_domain (hd segments1)) of
                        Some d \<Rightarrow> Some (segments1[0 := d])
                      | None \<Rightarrow>
                          (case attribute_domain (last segments1) of
                             None \<Rightarrow> None
                           | Some inferred \<Rightarrow>
                               (if length segments1 = min_segments then Some (inferred # segments1)
                                else Some (segments1[0 := inferred]))))
          in case segments2 of
               None \<Rightarrow> None
             | Some segs \<Rightarrow>
                 (let candidate = join [46] segs
                  in if is_canonical candidate then Some candidate else None))"

definition rejection :: "str \<Rightarrow> key_fault \<Rightarrow> domain_error" where
  "rejection key reason = validation (R_InvalidRegistryKey key reason (suggest_key key))"

definition validate_key :: "str \<Rightarrow> str res" where
  "validate_key key =
     (let normalised = normalise key
      in case judge normalised of
           None \<Rightarrow> Inr normalised
         | Some reason \<Rightarrow> Inl (rejection key reason))"

definition validate_kind :: "str \<Rightarrow> str res" where
  "validate_kind kind =
     (let normalised = normalise_kind kind
      in if normalised \<in> set kinds then Inr normalised
         else case strip_suffix (u ''s'') normalised of
                Some singular \<Rightarrow>
                  (if singular \<in> set kinds then Inr singular
                   else Inl (validation (R_InvalidKind kind)))
              | None \<Rightarrow> Inl (validation (R_InvalidKind kind)))"

section \<open>Canonical keys are fixed points of the repairs\<close>

lemma collapse_append_False: "c \<notin> set x \<Longrightarrow> collapse c False (x @ s) = x @ collapse c False s"
  by (induction x) auto

lemma collapse_append:
  "x \<noteq> [] \<Longrightarrow> c \<notin> set x \<Longrightarrow> collapse c p (x @ s) = x @ collapse c False s"
  by (cases x) (auto simp: collapse_append_False)

lemma collapse_free: "c \<notin> set x \<Longrightarrow> collapse c p x = x"
  by (induction x arbitrary: p) auto

lemma collapse_join:
  "\<forall>x \<in> set xs. x \<noteq> [] \<and> c \<notin> set x \<Longrightarrow> collapse c p (join [c] xs) = join [c] xs"
proof (induction xs arbitrary: p)
  case Nil
  then show ?case by simp
next
  case (Cons x xs)
  have x: "x \<noteq> []" "c \<notin> set x" using Cons.prems by auto
  show ?case
  proof (cases xs)
    case Nil
    with x show ?thesis by (simp add: collapse_free)
  next
    case (Cons y ys)
    with Cons.IH [of True] Cons.prems have "collapse c True (join [c] xs) = join [c] xs" by simp
    with Cons x show ?thesis by (simp add: collapse_append)
  qed
qed

lemma collapse_fix: "\<not> sublist [c, c] s \<Longrightarrow> \<not> (p \<and> s \<noteq> [] \<and> hd s = c) \<Longrightarrow> collapse c p s = s"
proof (induction s arbitrary: p)
  case Nil
  then show ?case by simp
next
  case (Cons x s)
  have "\<not> sublist [c, c] s" using Cons.prems(1) by (auto simp: sublist_Cons_right)
  moreover have "\<not> (x = c \<and> s \<noteq> [] \<and> hd s = c)"
    using Cons.prems(1) by (cases s) (auto simp: sublist_Cons_right)
  ultimately have "collapse c (x = c) s = s" by (rule Cons.IH)
  with Cons.prems(2) show ?case by auto
qed

lemma collapse_no_run:
  "\<not> sublist [c, c] (collapse c p s) \<and> (p \<longrightarrow> collapse c p s = [] \<or> hd (collapse c p s) \<noteq> c)"
proof (induction c p s rule: collapse.induct)
  case (1 c prev)
  then show ?case by (simp add: sublist_code)
next
  case (2 c prev x s)
  show ?case
  proof (cases "x = c \<and> prev")
    case True
    with 2 show ?thesis by simp
  next
    case False
    with 2(2) have "\<not> sublist [c, c] (collapse c (x = c) s)"
      and "x = c \<longrightarrow> collapse c (x = c) s = [] \<or> hd (collapse c (x = c) s) \<noteq> c" by auto
    with False show ?thesis
      by (cases "collapse c (x = c) s") (auto simp: sublist_Cons_right)
  qed
qed

lemma set_collapse: "set (collapse c p s) \<subseteq> set s"
  by (induction c p s rule: collapse.induct) auto

lemma segment_wf:
  "is_valid_segment s \<Longrightarrow>
     s \<noteq> [] \<and> hd s \<noteq> 45 \<and> last s \<noteq> 45 \<and> \<not> sublist [45, 45] s \<and>
     (\<forall>c \<in> set s. is_ascii_lowercase c \<or> is_ascii_digit c \<or> c = 45)"
proof -
  have "prefix [45] s" if "s \<noteq> []" "hd s = 45" using that by (cases s) auto
  moreover have "suffix [45] s" if "s \<noteq> []" "last s = 45"
    using that by (cases s rule: rev_cases) (auto simp: suffix_def)
  ultimately show "is_valid_segment s \<Longrightarrow> ?thesis"
    by (auto simp: is_valid_segment_def starts_with_def ends_with_def str_contains_def list_all_iff)
qed

lemma segment_chars:
  "is_valid_segment s \<Longrightarrow> c \<in> set s \<Longrightarrow>
     c \<noteq> 46 \<and> c \<noteq> 95 \<and> c < 128 \<and> \<not> is_whitespace c \<and> lower1 c = c"
  using segment_wf [of s] by (auto simp: ascii_classes is_whitespace_def lower1_def)

lemma tidy_segment_fix: "is_valid_segment s \<Longrightarrow> tidy_segment s = s"
  using segment_wf [of s]
  by (simp add: tidy_segment_def collapse_fix trim_matches_fix)

definition canonical_segments :: "str list \<Rightarrow> bool" where
  "canonical_segments segs \<longleftrightarrow>
     2 \<le> length segs \<and> length segs \<le> 4 \<and> (\<forall>s \<in> set segs. is_valid_segment s) \<and>
     hd segs \<in> set domains \<and> singular_attribute (last segs) = None"

lemma is_canonical_iff: "is_canonical key \<longleftrightarrow> canonical_segments (split_on 46 key)"
  by (cases "key = []")
    (auto simp: is_canonical_def judge_def canonical_segments_def Let_def min_segments_def
       max_segments_def list_all_iff)

lemma is_canonical_join:
  "canonical_segments segs \<Longrightarrow> is_canonical (join [46] segs)"
  unfolding is_canonical_iff
  by (subst split_on_join) (auto simp: canonical_segments_def dest: segment_chars)

lemma canonical_chars:
  assumes "is_canonical key" and "c \<in> set key"
  shows "c = 46 \<or> (c \<noteq> 95 \<and> c < 128 \<and> \<not> is_whitespace c \<and> lower1 c = c)"
proof -
  from assms(1) have "\<forall>s \<in> set (split_on 46 key). is_valid_segment s"
    by (simp add: is_canonical_iff canonical_segments_def)
  moreover have "c \<in> \<Union> (set (map set (split_on 46 key))) \<union> {46}"
    using set_join [of "[46]" "split_on 46 key"] assms(2) by auto
  ultimately show ?thesis by (auto dest: segment_chars)
qed

lemma canonical_has_dot: "is_canonical key \<Longrightarrow> 46 \<in> set key"
  by (rule ccontr) (simp add: is_canonical_iff canonical_segments_def split_on_free)

lemma normalise_canonical:
  assumes "is_canonical key"
  shows "normalise key = key"
proof -
  have segs: "\<forall>s \<in> set (split_on 46 key). is_valid_segment s"
    using assms by (simp add: is_canonical_iff canonical_segments_def)
  have "trim key = key"
    by (rule trim_fix_if_no_ws) (use canonical_chars [OF assms] in fastforce)
  moreover have "map (\<lambda>c. if c = 95 \<or> is_whitespace c
      then (if 46 \<notin> set key then 46 else 45) else lower1 c) key = key"
    by (rule map_idI) (use canonical_chars [OF assms] in fastforce)
  moreover have "collapse 46 False key = key"
    using collapse_join [of "split_on 46 key" 46 False] segs
    by (auto dest: segment_wf segment_chars)
  moreover have "map tidy_segment (split_on 46 key) = split_on 46 key"
    by (rule map_idI) (use segs tidy_segment_fix in blast)
  ultimately show ?thesis by (simp add: normalise_def Let_def)
qed

lemma validate_key_Inr: "validate_key k = Inr n \<longleftrightarrow> n = normalise k \<and> is_canonical n"
  by (auto simp: validate_key_def Let_def is_canonical_def split: option.splits)

lemma validate_key_canonical: "is_canonical n \<Longrightarrow> validate_key n = Inr n"
  by (simp add: validate_key_Inr normalise_canonical)

lemma validate_key_stable: "validate_key k = Inr n \<Longrightarrow> validate_key n = Inr n"
  by (auto simp: validate_key_Inr normalise_canonical)

interpretation key_validator: validator validate_key
  by unfold_locales (rule validate_key_stable)

section \<open>Suggestions\<close>

lemma suggest_key_canonical: "suggest_key k = Some c \<Longrightarrow> is_canonical c"
  by (auto simp: suggest_key_def Let_def split: option.splits if_splits)

lemma suggest_key_accepted:
  assumes "validate_key k = Inr n"
  shows "suggest_key k = Some n"
proof -
  from assms have n: "n = normalise k" "is_canonical n" by (auto simp: validate_key_Inr)
  then have segs: "canonical_segments (split_on 46 n)" by (simp add: is_canonical_iff)
  then have "repairable_segments k = Some (split_on 46 n)"
    using n by (auto simp: repairable_segments_def Let_def canonical_segments_def min_segments_def
        max_segments_def list_all_iff)
  with segs n(2) show ?thesis
    by (auto simp: suggest_key_def Let_def canonical_segments_def)
qed

section \<open>Kinds\<close>

lemma normalise_kind_fix:
  assumes "\<forall>c \<in> set k. c \<noteq> 95 \<and> \<not> is_whitespace c \<and> \<not> is_ascii_uppercase c"
    and "\<not> sublist [45, 45] k" and "k = [] \<or> hd k \<noteq> 45 \<and> last k \<noteq> 45"
  shows "normalise_kind k = k"
proof -
  have "trim k = k" by (rule trim_fix_if_no_ws) (use assms in blast)
  moreover have "map (\<lambda>c. if c = 95 \<or> is_whitespace c then 45 else lower1 c) k = k"
    by (rule map_idI) (use assms lower1_fix in auto)
  ultimately show ?thesis
    using assms by (simp add: normalise_kind_def collapse_fix trim_matches_fix)
qed

lemma sublist_trim_end: "sublist (trim_end_matches p s) s"
  by (rule prefix_imp_sublist) (rule trim_end_prefix)

lemma sublist_trim_matches: "sublist (trim_matches p s) s"
  using sublist_trim_end [of p "trim_start_matches p s"]
  by (auto simp: trim_matches_def trim_start_matches_def
        intro: sublist_order.order.trans suffix_imp_sublist suffix_dropWhile)

lemma normalise_kind_idem: "normalise_kind (normalise_kind k) = normalise_kind k"
proof (rule normalise_kind_fix)
  define m where "m = map (\<lambda>c. if c = 95 \<or> is_whitespace c then 45 else lower1 c) (trim k)"
  have nk: "normalise_kind k = trim_matches (\<lambda>c. c = 45) (collapse 45 False m)"
    by (simp add: normalise_kind_def m_def)
  have "set (normalise_kind k) \<subseteq> set m"
    unfolding nk using set_trim_matches set_collapse by (rule subset_trans)
  moreover have "\<forall>c \<in> set m. c \<noteq> 95 \<and> \<not> is_whitespace c \<and> \<not> is_ascii_uppercase c"
    by (auto simp: m_def) (auto simp: lower1_def ascii_classes split: if_splits)
  ultimately show "\<forall>c \<in> set (normalise_kind k). c \<noteq> 95 \<and> \<not> is_whitespace c \<and> \<not> is_ascii_uppercase c"
    by blast
  show "\<not> sublist [45, 45] (normalise_kind k)"
    unfolding nk using collapse_no_run sublist_trim_matches
    by (metis sublist_order.order.trans)
  show "normalise_kind k = [] \<or> hd (normalise_kind k) \<noteq> 45 \<and> last (normalise_kind k) \<noteq> 45"
    unfolding nk
    using trim_matches_hd [of "\<lambda>c. c = 45" "collapse 45 False m"]
      trim_matches_last [of "\<lambda>c. c = 45" "collapse 45 False m"] by blast
qed

interpretation kind_normaliser: normaliser normalise_kind
  by unfold_locales (rule normalise_kind_idem)

lemma kinds_normalised: "k \<in> set kinds \<Longrightarrow> normalise_kind k = k"
  by (auto simp: kinds_def normalise_kind_def trim_defs)

lemma validate_kind_in: "validate_kind k = Inr n \<Longrightarrow> n \<in> set kinds"
  by (auto simp: validate_kind_def Let_def split: if_splits option.splits)

lemma validate_kind_stable: "validate_kind k = Inr n \<Longrightarrow> validate_kind n = Inr n"
  using validate_kind_in [of k n] by (simp add: validate_kind_def Let_def kinds_normalised)

interpretation kind_validator: validator validate_kind
  by unfold_locales (rule validate_kind_stable)

section \<open>The distance\<close>

text \<open>
  The distance the grid computes, as a recursion on prefix lengths: insertions, deletions,
  substitutions, and an adjacent transposition counted once (optimal string alignment).
\<close>

fun osa :: "'a list \<Rightarrow> 'a list \<Rightarrow> nat \<Rightarrow> nat \<Rightarrow> nat" where
  "osa a b 0 j = j"
| "osa a b (Suc i) 0 = Suc i"
| "osa a b (Suc i) (Suc j) =
     (let best = min (min (osa a b i (Suc j) + 1) (osa a b (Suc i) j + 1))
                     (osa a b i j + (if a ! i \<noteq> b ! j then 1 else 0))
      in if i > 0 \<and> j > 0 \<and> a ! i = b ! (j - 1) \<and> a ! (i - 1) = b ! j
         then min best (osa a b (i - 1) (j - 1) + 1) else best)"

declare osa.simps(3) [simp del]

definition grid_dims :: "nat \<Rightarrow> nat \<Rightarrow> grid \<Rightarrow> bool" where
  "grid_dims n m g \<longleftrightarrow> length g = Suc n \<and> (\<forall>i \<le> n. length (g ! i) = Suc m)"

lemma grid_dims_gset: "grid_dims n m g \<Longrightarrow> grid_dims n m (gset g i j v)"
  by (cases "i < length g") (auto simp: grid_dims_def gset_def nth_list_update)

lemma gget_gset:
  "grid_dims n m g \<Longrightarrow> i \<le> n \<Longrightarrow> j \<le> m \<Longrightarrow>
     gget (gset g i j v) i' j' = (if i' = i \<and> j' = j then v else gget g i' j')"
  by (auto simp: grid_dims_def gset_def gget_def nth_list_update)

lemma foldl_top_row:
  assumes "grid_dims n m g" and "k \<le> Suc m"
  shows "grid_dims n m (foldl (\<lambda>g j. gset g 0 j j) g [0..<k]) \<and>
    (\<forall>i j. gget (foldl (\<lambda>g j. gset g 0 j j) g [0..<k]) i j = (if i = 0 \<and> j < k then j else gget g i j))"
  using assms(2)
proof (induction k)
  case 0
  then show ?case using assms(1) by simp
next
  case (Suc k)
  then show ?case using gget_gset [of n m _ 0 k] by (auto simp: grid_dims_gset)
qed

lemma grid_init_get:
  "grid_dims n m (grid_init n m) \<and> (\<forall>i \<le> n. gget (grid_init n m) i 0 = i) \<and>
     (\<forall>j \<le> m. gget (grid_init n m) 0 j = j)"
proof -
  define h where "h = map (\<lambda>i. (replicate (Suc m) 0)[0 := i]) [0..<Suc n]"
  have d: "grid_dims n m h"
    by (simp add: h_def grid_dims_def less_Suc_eq_le nth_map del: upt_Suc replicate_Suc)
  have g0: "gget h i 0 = i" if "i \<le> n" for i
    using that by (simp add: h_def gget_def less_Suc_eq_le del: upt_Suc replicate_Suc)
  show ?thesis
    unfolding grid_init_def h_def [symmetric]
    using foldl_top_row [OF d, of "Suc m"] g0 by (simp add: less_Suc_eq_le del: upt_Suc)
qed

definition grid_right :: "'a list \<Rightarrow> 'a list \<Rightarrow> nat \<Rightarrow> nat \<Rightarrow> grid \<Rightarrow> bool" where
  "grid_right a b i k g \<longleftrightarrow>
     grid_dims (length a) (length b) g \<and>
     (\<forall>i' j. j \<le> length b \<longrightarrow> i' \<le> length a \<longrightarrow> (i' < i \<or> i' = i \<and> j \<le> k \<or> j = 0) \<longrightarrow> gget g i' j = osa a b i' j)"

lemma osa_i0 [simp]: "osa a b i 0 = i"
  by (cases i) simp_all

lemma grid_cell_right:
  assumes "grid_right a b (Suc i) j g" and "Suc i \<le> length a" and "Suc j \<le> length b"
  shows "grid_cell a b g (Suc i) (Suc j) = osa a b (Suc i) (Suc j)"
proof -
  have ok: "gget g i' j' = osa a b i' j'"
    if "i' < Suc i \<or> i' = Suc i \<and> j' \<le> j" "j' \<le> length b" for i' j'
    using assms that by (auto simp: grid_right_def)
  have "gget g i (Suc j) = osa a b i (Suc j)" "gget g (Suc i) j = osa a b (Suc i) j"
    "gget g i j = osa a b i j" "gget g (i - 1) (j - 1) = osa a b (i - 1) (j - 1)"
    using ok [of i "Suc j"] ok [of "Suc i" j] ok [of i j] ok [of "i - 1" "j - 1"] assms(3)
    by (auto simp: less_Suc_eq_le)
  moreover have "Suc i - 2 = i - 1" "Suc j - 2 = j - 1" "1 < Suc i \<longleftrightarrow> 0 < i" "1 < Suc j \<longleftrightarrow> 0 < j"
    by auto
  ultimately show ?thesis
    unfolding grid_cell_def Let_def osa.simps by simp
qed

lemma fill_row_right:
  assumes "grid_right a b i (length b) g" and "Suc i \<le> length a" and "j \<le> length b"
  shows "grid_right a b (Suc i) j (fill_row a b (Suc i) j g)"
  using assms(3)
proof (induction j)
  case 0
  then show ?case using assms(1) by (auto simp: grid_right_def less_Suc_eq)
next
  case (Suc j)
  then have r: "grid_right a b (Suc i) j (fill_row a b (Suc i) j g)" by simp
  then have d: "grid_dims (length a) (length b) (fill_row a b (Suc i) j g)"
    by (simp add: grid_right_def)
  have "gget (fill_row a b (Suc i) (Suc j) g) i' j' =
      (if i' = Suc i \<and> j' = Suc j then osa a b (Suc i) (Suc j)
       else gget (fill_row a b (Suc i) j g) i' j')" for i' j'
    using gget_gset [OF d assms(2) Suc.prems] grid_cell_right [OF r assms(2) Suc.prems]
    by (simp add: Let_def)
  moreover have "grid_dims (length a) (length b) (fill_row a b (Suc i) (Suc j) g)"
    using d by (simp add: Let_def grid_dims_gset)
  ultimately show ?case using r by (auto simp: grid_right_def le_Suc_eq simp del: fill_row.simps)
qed

lemma fill_rows_right:
  "i \<le> length a \<Longrightarrow>
     grid_right a b i (length b) (fill_rows a b i (grid_init (length a) (length b)))"
proof (induction i)
  case 0
  then show ?case using grid_init_get [of "length a" "length b"] by (auto simp: grid_right_def)
next
  case (Suc i)
  then show ?case by (simp add: fill_row_right)
qed

lemma edit_distance_osa: "edit_distance a b = osa a b (length a) (length b)"
proof -
  have "grid_right a b (length a) (length b)
      (fill_rows a b (length a) (grid_init (length a) (length b)))"
    by (rule fill_rows_right) simp
  then show ?thesis unfolding edit_distance_def grid_right_def by blast
qed

lemma osa_refl: "osa a a i i = 0"
  by (induction i) (simp_all add: osa.simps(3) Let_def)

lemma osa_Suc_0: "osa a b (Suc i) (Suc j) = 0 \<Longrightarrow> osa a b i j = 0 \<and> a ! i = b ! j"
  by (simp add: osa.simps(3) Let_def min_def split: if_splits)

lemma osa_0: "osa a b i j = 0 \<Longrightarrow> i = j \<and> (\<forall>k < i. a ! k = b ! k)"
proof (induction i arbitrary: j)
  case 0
  then show ?case by simp
next
  case (Suc i)
  then obtain k where k: "j = Suc k" by (cases j) auto
  with Suc.prems osa_Suc_0 [of a b i k] have "osa a b i k = 0" "a ! i = b ! k" by auto
  with Suc.IH [of k] k show ?case by (auto simp: less_Suc_eq)
qed

lemma osa_sym: "osa a b i j = osa b a j i"
proof (induction a b i j rule: osa.induct)
  case (1 a b j)
  then show ?case by (cases j) auto
next
  case (3 a b i j)
  have e: "osa b a (Suc j) i = osa a b i (Suc j)" "osa b a j (Suc i) = osa a b (Suc i) j"
    "osa b a j i = osa a b i j"
    by (simp_all only: 3(1) 3(2) 3(3))
  have s: "(if b ! j \<noteq> a ! i then 1 else 0 :: nat) = (if a ! i \<noteq> b ! j then 1 else 0)" by auto
  show ?case
  proof (cases "i > 0 \<and> j > 0 \<and> a ! i = b ! (j - 1) \<and> a ! (i - 1) = b ! j")
    case True
    then have c: "j > 0 \<and> i > 0 \<and> b ! j = a ! (i - 1) \<and> b ! (j - 1) = a ! i" by simp
    have "osa b a (j - 1) (i - 1) = osa a b (i - 1) (j - 1)" using 3(4) [OF refl True] by (rule sym)
    then show ?thesis
      unfolding osa.simps(3) Let_def e s if_P [OF True] if_P [OF c]
      by (simp only: min.commute [of "osa a b i (Suc j) + 1"])
  next
    case False
    then have c: "\<not> (j > 0 \<and> i > 0 \<and> b ! j = a ! (i - 1) \<and> b ! (j - 1) = a ! i)" by metis
    show ?thesis
      unfolding osa.simps(3) Let_def e s if_not_P [OF False] if_not_P [OF c]
      by (simp only: min.commute [of "osa a b i (Suc j) + 1"])
  qed
qed auto

lemma edit_distance_0_iff: "edit_distance a b = 0 \<longleftrightarrow> a = b"
  by (auto simp: edit_distance_osa osa_refl intro: nth_equalityI dest: osa_0)

lemma edit_distance_sym: "edit_distance a b = edit_distance b a"
  by (simp add: edit_distance_osa osa_sym)

section \<open>The nearest word\<close>

definition best_inv :: "str \<Rightarrow> str set \<Rightarrow> (nat \<times> str) option \<Rightarrow> bool \<Rightarrow> bool" where
  "best_inv seg S best tied \<longleftrightarrow>
     (case best of
        None \<Rightarrow> S = {}
      | Some (bd, w) \<Rightarrow> w \<in> S \<and> bd = edit_distance seg w \<and> (\<forall>x \<in> S. bd \<le> edit_distance seg x) \<and>
          (\<not> tied \<longrightarrow> (\<forall>x \<in> S. x \<noteq> w \<longrightarrow> bd < edit_distance seg x)))"

lemma nearest_loop_inv:
  "best_inv seg S best tied \<Longrightarrow> nearest_loop seg best tied ds = (best', tied') \<Longrightarrow>
     best_inv seg (S \<union> set ds) best' tied'"
proof (induction ds arbitrary: S best tied)
  case Nil
  then show ?case by simp
next
  case (Cons d ds)
  let ?e = "edit_distance seg d"
  have step: "best_inv seg (S \<union> set (d # ds)) best' tied'"
    if "best_inv seg (insert d S) b t" "nearest_loop seg b t ds = (best', tied')" for b t
    using Cons.IH [OF that] by (simp add: insert_commute)
  show ?case
  proof (cases best)
    case None
    with Cons.prems show ?thesis
      by (intro step [of "Some (?e, d)" False]) (auto simp: best_inv_def Let_def)
  next
    case (Some p)
    obtain bd w where p: "p = (bd, w)" by (cases p)
    consider "?e > bd" | "?e = bd" | "?e < bd" by linarith
    then show ?thesis
    proof cases
      case 1
      with Cons.prems Some p show ?thesis
        by (intro step [of best tied]) (auto simp: best_inv_def Let_def)
    next
      case 2
      with Cons.prems Some p show ?thesis
        by (intro step [of best True]) (auto simp: best_inv_def Let_def)
    next
      case 3
      with Cons.prems Some p show ?thesis
        by (intro step [of "Some (?e, d)" False]) (fastforce simp: best_inv_def Let_def)+
    qed
  qed
qed

lemma nearest_domain_Some:
  assumes "nearest_domain seg = Some d"
  shows "d \<in> set domains \<and> edit_distance seg d \<le> max_typo \<and>
    (\<forall>x \<in> set domains. x \<noteq> d \<longrightarrow> edit_distance seg d < edit_distance seg x)"
proof -
  obtain bd where nl: "nearest_loop seg None False domains = (Some (bd, d), False)"
    and bd: "bd \<le> max_typo"
    using assms by (auto simp: nearest_domain_def split: prod.splits option.splits if_splits)
  have "best_inv seg {} None False" by (simp add: best_inv_def)
  from nearest_loop_inv [OF this nl] have "best_inv seg (set domains) (Some (bd, d)) False" by simp
  with bd show ?thesis by (auto simp: best_inv_def)
qed

section \<open>Properties\<close>

text \<open>
  The write path and the read path agree: a key the validator accepts comes back
  in canonical form, a canonical key is accepted unchanged, so no fact is stored under a
  spelling the cheap read-path check would not recognise.
\<close>

theorem validate_key_canonical_form:
  "(validate_key k = Inr n \<longrightarrow> is_canonical n \<and> validate_key n = Inr n) \<and>
   (is_canonical k \<longleftrightarrow> validate_key k = Inr k)"
  by (auto simp: validate_key_canonical dest: validate_key_stable) (auto simp: validate_key_Inr)

theorem validate_key_canonical_form_witness:
  "is_canonical (u ''machines.desktop.os'') \<and>
   validate_key (u ''machines.desktop.os'') = Inr (u ''machines.desktop.os'')"
proof -
  have "is_canonical (u ''machines.desktop.os'')" by code_simp
  with validate_key_canonical_form [of "u ''machines.desktop.os''" "u ''machines.desktop.os''"]
  show ?thesis by blast
qed

text \<open>
  A suggestion is always a key the validator accepts as it stands, and for a key
  the validator accepts the suggestion is that same accepted form.
\<close>

theorem suggestion_sound:
  "(suggest_key k = Some c \<longrightarrow> validate_key c = Inr c) \<and>
   (validate_key k = Inr n \<longrightarrow> suggest_key k = Some n)"
  by (auto intro: validate_key_canonical suggest_key_canonical suggest_key_accepted)

theorem suggestion_sound_witness:
  "suggest_key (u ''hardware.desktop.gpus'') = Some (u ''machines.desktop.gpu'') \<and>
   validate_key (u ''machines.desktop.gpu'') = Inr (u ''machines.desktop.gpu'')"
proof -
  have "suggest_key (u ''hardware.desktop.gpus'') = Some (u ''machines.desktop.gpu'')" by code_simp
  with suggestion_sound [of "u ''hardware.desktop.gpus''" "u ''machines.desktop.gpu''"] show ?thesis by blast
qed

text \<open>
  The grid of \<open>edit_distance\<close> computes the optimal string alignment distance,
  which is symmetric and zero exactly on equal words.
\<close>

theorem edit_distance_spec:
  "edit_distance a b = osa a b (length a) (length b) \<and>
   edit_distance a b = edit_distance b a \<and> (edit_distance a b = 0 \<longleftrightarrow> a = b)"
  by (metis edit_distance_osa edit_distance_sym edit_distance_0_iff)

text \<open>
  A typo repair never guesses: the word \<open>nearest_domain\<close> answers is in the
  vocabulary, within one edit of the input, and strictly closer than every other word.
\<close>

theorem nearest_domain_unique:
  assumes "nearest_domain s = Some d"
  shows "d \<in> set domains \<and> edit_distance s d \<le> 1 \<and>
    (\<forall>x \<in> set domains. x \<noteq> d \<longrightarrow> edit_distance s d < edit_distance s x)"
  using nearest_domain_Some [OF assms] by (simp add: max_typo_def)

theorem nearest_domain_unique_witness:
  "nearest_domain (u ''rotues'') = Some (u ''routes'') \<and>
   edit_distance (u ''rotues'') (u ''routes'') \<le> 1"
proof -
  have "nearest_domain (u ''rotues'') = Some (u ''routes'')" by code_simp
  then show ?thesis using nearest_domain_unique [of "u ''rotues''" "u ''routes''"] by blast
qed

end
