(* ===== verification/Lr_Text.thy ===== *)
theory Lr_Text
  imports Lr_Errors
begin

text \<open>
  Three small text rules of \<open>src/src/domain\<close>: tag normalisation (\<open>tags.rs\<close>), the data
  fence \<open>review_queue\<close> draws and the write path refuses (\<open>fence.rs\<close>, with the printing side
  of \<open>services/review_queue.rs\<close>), and the days a text writes out (\<open>dates.rs\<close>). chrono's
  calendar (\<open>NaiveDate::parse_from_str\<close> and \<open>from_ymd_opt\<close>) is a parameter.
\<close>

section \<open>Tags\<close>

fun tags_loop :: "str list \<Rightarrow> str list \<Rightarrow> str list" where
  "tags_loop out [] = out"
| "tags_loop out (t # ts) =
     (let tag = to_ascii_lowercase (trim t)
      in if tag \<noteq> [] \<and> tag \<notin> set out then tags_loop (out @ [tag]) ts else tags_loop out ts)"

definition tags_normalise :: "str list \<Rightarrow> str list" where
  "tags_normalise tags = tags_loop [] tags"

lemma tags_loop_dedupe:
  "tags_loop out ts =
     out @ dedupe_seen out (filter (\<lambda>t. t \<noteq> []) (map (\<lambda>t. to_ascii_lowercase (trim t)) ts))"
proof (induction out ts rule: tags_loop.induct)
  case (1 out)
  then show ?case by simp
next
  case (2 out t ts)
  have seen: "dedupe_seen (out @ [x]) ys = dedupe_seen (x # out) ys" for x :: str and ys
    by (rule dedupe_seen_set) auto
  show ?case using 2 by (simp add: Let_def seen)
qed

lemma tags_normalise_dedupe:
  "tags_normalise ts =
     dedupe_seen [] (filter (\<lambda>t. t \<noteq> []) (map (\<lambda>t. to_ascii_lowercase (trim t)) ts))"
  by (simp add: tags_normalise_def tags_loop_dedupe)

lemma set_tags_normalise:
  "set (tags_normalise ts) = {to_ascii_lowercase (trim t) | t. t \<in> set ts} - {[]}"
  by (auto simp: tags_normalise_dedupe set_dedupe_seen)

lemma tags_normalise_idem: "tags_normalise (tags_normalise ts) = tags_normalise ts"
proof -
  let ?r = "tags_normalise ts"
  have fixed: "to_ascii_lowercase (trim t) = t" if "t \<in> set ?r" for t
    using that by (auto simp: set_tags_normalise trim_lower)
  have "map (\<lambda>t. to_ascii_lowercase (trim t)) ?r = ?r"
    by (rule map_idI) (rule fixed)
  moreover have "filter (\<lambda>t. t \<noteq> []) ?r = ?r"
    by (rule filter_True) (auto simp: set_tags_normalise)
  moreover have "distinct ?r" by (simp add: tags_normalise_dedupe distinct_dedupe_seen)
  ultimately show ?thesis by (subst tags_normalise_dedupe) (simp add: dedupe_seen_distinct)
qed

interpretation tags: normaliser tags_normalise
  by unfold_locales (rule tags_normalise_idem)

section \<open>The data fence\<close>

definition is_line_break :: "uchar \<Rightarrow> bool" where
  "is_line_break c \<longleftrightarrow> c = 10 \<or> c = 13"

definition is_nonce :: "str \<Rightarrow> bool" where
  "is_nonce n \<longleftrightarrow> str_len n = 12 \<and> list_all (\<lambda>c. is_ascii_digit c \<or> (97 \<le> c \<and> c \<le> 102)) n"

definition is_fence_line :: "str \<Rightarrow> bool" where
  "is_fence_line l =
     (let line = trim l;
          rest = (case strip_prefix (u ''----- end of data '') line of
                    Some r \<Rightarrow> Some r
                  | None \<Rightarrow> strip_prefix (u ''----- data '') line)
      in case rest of
           None \<Rightarrow> False
         | Some r \<Rightarrow> (case strip_suffix (u '' -----'') r of None \<Rightarrow> False | Some n \<Rightarrow> is_nonce n))"

definition carries_fence :: "str \<Rightarrow> bool" where
  "carries_fence content = list_ex is_fence_line (split_when is_line_break content)"

text \<open>The writer: \<open>review_queue::as_data\<close>, \<open>is_code\<close>, \<open>render_code\<close> and \<open>render_key\<close>.\<close>

definition fence_open :: "str \<Rightarrow> str" where
  "fence_open nonce = u ''----- data '' @ nonce @ u '' -----''"

definition fence_close :: "str \<Rightarrow> str" where
  "fence_close nonce = u ''----- end of data '' @ nonce @ u '' -----''"

definition as_data :: "str \<Rightarrow> str \<Rightarrow> str" where
  "as_data s nonce = fence_open nonce @ [10] @ s @ [10] @ fence_close nonce"

definition is_code :: "str \<Rightarrow> bool" where
  "is_code s \<longleftrightarrow> s \<noteq> [] \<and> list_all (\<lambda>c. is_ascii_lowercase c \<or> is_ascii_digit c \<or> c = 95) s"

definition render_code :: "str \<Rightarrow> str" where
  "render_code s = (if is_code s then s else u ''unrenderable'')"

definition render_key :: "str \<Rightarrow> str" where
  "render_key key =
     (if key \<noteq> [] \<and>
         list_all (\<lambda>c. is_ascii_lowercase c \<or> is_ascii_digit c \<or> c = 95 \<or> c = 45 \<or> c = 58) key
      then key else u ''unrenderable'')"

lemma carries_fence_break:
  "is_line_break c \<Longrightarrow> carries_fence (s @ c # t) \<longleftrightarrow> carries_fence s \<or> carries_fence t"
  by (simp add: carries_fence_def split_when_append)

lemma trim_dashes:
  "s \<noteq> [] \<Longrightarrow> hd s = 45 \<Longrightarrow> last s = 45 \<Longrightarrow> trim s = s"
  unfolding trim_def by (rule trim_matches_fix) simp

lemma trim_fence [simp]: "trim (fence_open n) = fence_open n" "trim (fence_close n) = fence_close n"
  by (rule trim_dashes; simp add: fence_open_def fence_close_def)+

lemma is_fence_line_iff:
  "is_fence_line l \<longleftrightarrow> (\<exists>n. is_nonce n \<and> (trim l = fence_open n \<or> trim l = fence_close n))"
proof -
  let ?c = "u ''----- end of data ''" and ?o = "u ''----- data ''" and ?e = "u '' -----''"
  have none: "(case strip_suffix ?e r of None \<Rightarrow> False | Some n \<Rightarrow> is_nonce n) \<longleftrightarrow>
      (\<exists>n. is_nonce n \<and> r = n @ ?e)" for r
  proof (cases "strip_suffix ?e r")
    case None
    then have "r \<noteq> n @ ?e" for n by (auto simp: strip_suffix_None suffix_def simp del: u_Cons)
    then show ?thesis unfolding None by simp
  next
    case (Some m)
    then have "r = m @ ?e" by (simp only: strip_suffix_Some)
    then show ?thesis unfolding Some by simp
  qed
  show ?thesis
  proof (cases "strip_prefix ?c (trim l)")
    case (Some r)
    then have r: "trim l = ?c @ r" by (simp del: u_Cons)
    have "trim l \<noteq> fence_open n" for n using r by (simp add: fence_open_def)
    moreover have "trim l = fence_close n \<longleftrightarrow> r = n @ ?e" for n
      using r by (simp add: fence_close_def)
    ultimately show ?thesis using Some none[of r] by (simp add: is_fence_line_def del: u_Cons)
  next
    case None
    then have c: "trim l \<noteq> fence_close n" for n
      by (auto simp: fence_close_def strip_prefix_None prefix_def simp del: u_Cons)
    show ?thesis
    proof (cases "strip_prefix ?o (trim l)")
      case (Some r)
      then have "trim l = ?o @ r" by (simp del: u_Cons)
      then have "trim l = fence_open n \<longleftrightarrow> r = n @ ?e" for n by (simp add: fence_open_def)
      then show ?thesis using Some None c none[of r]
        by (simp add: is_fence_line_def del: u_Cons)
    next
      case None2: None
      then have "trim l \<noteq> fence_open n" for n
        by (auto simp: fence_open_def strip_prefix_None prefix_def simp del: u_Cons)
      then show ?thesis using None None2 c by (simp add: is_fence_line_def del: u_Cons)
    qed
  qed
qed


lemma nonce_no_break: "is_nonce n \<Longrightarrow> \<forall>c \<in> set n. \<not> is_line_break c"
  by (auto simp: is_nonce_def list_all_iff is_line_break_def is_ascii_digit_def)

lemma fence_no_break:
  assumes "is_nonce n"
  shows "split_when is_line_break (fence_open n) = [fence_open n]"
    and "split_when is_line_break (fence_close n) = [fence_close n]"
proof -
  have "\<forall>c \<in> set (fence_open n). \<not> is_line_break c" "\<forall>c \<in> set (fence_close n). \<not> is_line_break c"
    using nonce_no_break[OF assms] by (auto simp: fence_open_def fence_close_def is_line_break_def)
  then show "split_when is_line_break (fence_open n) = [fence_open n]"
    and "split_when is_line_break (fence_close n) = [fence_close n]"
    by (simp_all only: split_when_free)
qed

lemma lines_as_data:
  assumes "is_nonce n"
  shows "split_when is_line_break (as_data s n) =
     fence_open n # split_when is_line_break s @ [fence_close n]"
proof -
  have "is_line_break 10" by (simp add: is_line_break_def)
  then show ?thesis using fence_no_break[OF assms]
    by (simp add: as_data_def split_when_append del: u_Cons split_when.simps)
qed

lemma is_fence_line_drawn:
  "is_nonce n \<Longrightarrow> is_fence_line (fence_open n)" "is_nonce n \<Longrightarrow> is_fence_line (fence_close n)"
  by (auto simp: is_fence_line_iff)

section \<open>Days a text writes out\<close>

record 'd calendar =
  parse_ymd :: "str \<Rightarrow> 'd option"
  from_ymd_opt :: "nat \<Rightarrow> nat \<Rightarrow> nat \<Rightarrow> 'd option"

definition months :: "(str \<times> nat) list" where
  "months = [(u ''january'', 1), (u ''february'', 2), (u ''march'', 3), (u ''april'', 4),
     (u ''may'', 5), (u ''june'', 6), (u ''july'', 7), (u ''august'', 8), (u ''september'', 9),
     (u ''october'', 10), (u ''november'', 11), (u ''december'', 12)]"

definition month_from :: "str \<Rightarrow> nat option" where
  "month_from word =
     (let w = to_ascii_lowercase (trim_matches (\<lambda>c. \<not> is_ascii_alphabetic c) word)
      in if str_len w < 3 then None
         else first_some (\<lambda>(name, n). if w = name \<or> (str_len w = 3 \<and> starts_with name w)
                                      then Some n else None) months)"

text \<open>\<open>str::parse::<u32>\<close> on a non-empty run of ASCII digits: overflow is an error.\<close>

definition parse_u32 :: "str \<Rightarrow> nat option" where
  "parse_u32 w = (if dec_value w < 2 ^ 32 then Some (dec_value w) else None)"

definition digits :: "str \<Rightarrow> nat option" where
  "digits word =
     (let w = trim_matches (\<lambda>c. \<not> is_ascii_digit c) word
      in if w = [] \<or> \<not> list_all is_ascii_digit w then None else parse_u32 w)"

text \<open>\<open>bare.as_bytes().get(4)\<close>: the byte that starts the scalar at byte offset \<open>k\<close>, when
  one does; a continuation byte is never \<open>'-'\<close>.\<close>

fun scalar_at_byte :: "nat \<Rightarrow> str \<Rightarrow> uchar option" where
  "scalar_at_byte k [] = None"
| "scalar_at_byte k (c # s) =
     (if k = 0 then Some c else if k < utf8_len c then None else scalar_at_byte (k - utf8_len c) s)"

definition bare_token :: "str \<Rightarrow> str" where
  "bare_token raw = trim_matches (\<lambda>c. \<not> is_ascii_alphanumeric c \<and> c \<noteq> 45) raw"

definition iso_day :: "'d calendar \<Rightarrow> str \<Rightarrow> 'd option" where
  "iso_day cal raw =
     (let bare = bare_token raw
      in if str_len bare = 10 \<and> scalar_at_byte 4 bare = Some 45 then parse_ymd cal bare else None)"

fun token_at :: "(str \<Rightarrow> 'a option) \<Rightarrow> str list \<Rightarrow> nat \<Rightarrow> 'a option" where
  "token_at f ts i = (if i < length ts then f (ts ! i) else None)"

definition checked_day :: "'d calendar \<Rightarrow> nat option \<Rightarrow> nat option \<Rightarrow> nat option \<Rightarrow> 'd option" where
  "checked_day cal day m year =
     (case (day, m, year) of
        (Some d, Some m, Some y) \<Rightarrow>
          if 1 \<le> d \<and> d \<le> 31 \<and> 1000 \<le> y \<and> y \<le> 9999 then from_ymd_opt cal y m d else None
      | _ \<Rightarrow> None)"

definition push_day :: "'d list \<Rightarrow> 'd \<Rightarrow> 'd list" where
  "push_day found d = (if d \<in> set found then found else found @ [d])"

text \<open>The day the token opens with, in the order the loop body tries the renderings.\<close>

fun day_here :: "'d calendar \<Rightarrow> str list \<Rightarrow> 'd option" where
  "day_here cal [] = None"
| "day_here cal (raw # rest) =
     (case iso_day cal raw of
        Some d \<Rightarrow> Some d
      | None \<Rightarrow>
          (case checked_day cal (digits raw) (token_at month_from rest 0) (token_at digits rest 1) of
             Some d \<Rightarrow> Some d
           | None \<Rightarrow> checked_day cal (token_at digits rest 0) (month_from raw) (token_at digits rest 1)))"

fun extract_loop :: "'d calendar \<Rightarrow> 'd list \<Rightarrow> str list \<Rightarrow> 'd list" where
  "extract_loop cal found [] = found"
| "extract_loop cal found (raw # rest) =
     (case day_here cal (raw # rest) of
        Some d \<Rightarrow> extract_loop cal (push_day found d) rest
      | None \<Rightarrow> extract_loop cal found rest)"

definition extract_days :: "'d calendar \<Rightarrow> str \<Rightarrow> 'd list" where
  "extract_days cal content = extract_loop cal [] (split_whitespace content)"

definition states :: "'d calendar \<Rightarrow> str \<Rightarrow> 'd \<Rightarrow> bool" where
  "states cal content day \<longleftrightarrow> day \<in> set (extract_days cal content)"

subsection \<open>What the scan finds\<close>

lemma set_push_day [simp]: "set (push_day found d) = insert d (set found)"
  by (auto simp: push_day_def)

lemma set_extract_loop:
  "d \<in> set (extract_loop cal found ts) \<longleftrightarrow>
     d \<in> set found \<or> (\<exists>pre rest. ts = pre @ rest \<and> day_here cal rest = Some d)"
proof (induction ts arbitrary: found)
  case Nil
  then show ?case by simp
next
  case (Cons raw rest)
  have split: "(\<exists>pre r. raw # rest = pre @ r \<and> day_here cal r = Some d) \<longleftrightarrow>
      day_here cal (raw # rest) = Some d \<or> (\<exists>pre r. rest = pre @ r \<and> day_here cal r = Some d)"
    by (auto simp: Cons_eq_append_conv simp del: day_here.simps(2))
  show ?case
    by (cases "day_here cal (raw # rest)")
       (auto simp: Cons.IH split simp del: day_here.simps(2))
qed

lemma distinct_extract_loop: "distinct found \<Longrightarrow> distinct (extract_loop cal found ts)"
  by (induction ts arbitrary: found) (auto simp: push_day_def split: option.splits)

lemma states_day_here:
  "states cal content d \<longleftrightarrow>
     (\<exists>pre rest. split_whitespace content = pre @ rest \<and> day_here cal rest = Some d)"
  by (simp add: states_def extract_days_def set_extract_loop)

lemma statesI:
  "split_whitespace content = pre @ rest \<Longrightarrow> day_here cal rest = Some d \<Longrightarrow> states cal content d"
  unfolding states_day_here by (intro exI conjI)

lemma digits_dec: "n < 2 ^ 32 \<Longrightarrow> digits (dec n) = Some n"
proof -
  have d: "list_all is_ascii_digit (dec n)" by (rule dec_digits)
  then have "trim_matches (\<lambda>c. \<not> is_ascii_digit c) (dec n) = dec n"
    by (intro trim_matches_fix) (auto simp: list_all_iff)
  then show "n < 2 ^ 32 \<Longrightarrow> digits (dec n) = Some n" using d by (simp add: digits_def parse_u32_def)
qed

lemma iso_day_dec: "n < 100 \<Longrightarrow> iso_day cal (dec n) = None"
proof -
  have "\<forall>c \<in> set (dec n). is_ascii_digit c" using dec_digits by (simp add: list_all_iff)
  then have "bare_token (dec n) = dec n" "str_len (dec n) = length (dec n)"
    unfolding bare_token_def
    by (auto intro!: trim_matches_fix str_len_ascii simp: is_ascii_alphanumeric_def is_ascii_digit_def)
  then show "n < 100 \<Longrightarrow> iso_day cal (dec n) = None"
    using length_dec_2[of n] by (simp add: iso_day_def)
qed

definition month_lookup :: "str \<Rightarrow> nat option" where
  "month_lookup w =
     first_some (\<lambda>(name, n). if w = name \<or> (str_len w = 3 \<and> starts_with name w)
                             then Some n else None) months"

lemma month_names: "list_all (\<lambda>(nm, m). 3 \<le> str_len nm \<and> month_lookup nm = Some m) months"
  by code_simp

lemma month_from_name:
  assumes "(nm, m) \<in> set months"
    and "to_ascii_lowercase (trim_matches (\<lambda>c. \<not> is_ascii_alphabetic c) word) = nm"
  shows "month_from word = Some m"
proof -
  have "3 \<le> str_len nm" "month_lookup nm = Some m"
    using month_names assms(1) by (auto simp: list_all_iff)
  then show ?thesis using assms(2) by (simp add: month_from_def month_lookup_def)
qed

lemma checked_day_Some:
  "checked_day cal d m y = Some day \<longleftrightarrow>
     (\<exists>d' m' y'. d = Some d' \<and> m = Some m' \<and> y = Some y' \<and> 1 \<le> d' \<and> d' \<le> 31 \<and>
        1000 \<le> y' \<and> y' \<le> 9999 \<and> from_ymd_opt cal y' m' d' = Some day)"
  by (auto simp: checked_day_def split: option.splits)

lemma day_here_dmy:
  assumes "month_from mon = Some m" "1 \<le> d" "d \<le> 31" "1000 \<le> y" "y \<le> 9999"
    "from_ymd_opt cal y m d = Some day"
  shows "day_here cal (dec d # mon # dec y # post) = Some day"
proof -
  have "digits (dec d) = Some d" "digits (dec y) = Some y" "iso_day cal (dec d) = None"
    using assms by (auto intro!: digits_dec iso_day_dec)
  moreover have "checked_day cal (Some d) (Some m) (Some y) = Some day"
    using assms by (simp add: checked_day_Some)
  ultimately show ?thesis using assms(1) by simp
qed

lemma day_here_mdy:
  assumes "iso_day cal mon = None" "digits mon = None" "month_from mon = Some m"
    "digits dtok = Some d" "digits ytok = Some y"
    "1 \<le> d" "d \<le> 31" "1000 \<le> y" "y \<le> 9999" "from_ymd_opt cal y m d = Some day"
  shows "day_here cal (mon # dtok # ytok # post) = Some day"
proof -
  have "checked_day cal None a b = None" for a b by (simp add: checked_day_def)
  moreover have "checked_day cal (Some d) (Some m) (Some y) = Some day"
    using assms by (simp add: checked_day_Some)
  ultimately show ?thesis using assms(1-5) by simp
qed

lemma day_here_sound:
  assumes "day_here cal (raw # rest) = Some d"
  shows "parse_ymd cal (bare_token raw) = Some d \<or>
     (\<exists>y m dd. 1 \<le> dd \<and> dd \<le> 31 \<and> 1000 \<le> y \<and> y \<le> 9999 \<and> from_ymd_opt cal y m dd = Some d)"
  using assms
  by (auto simp: iso_day_def Let_def checked_day_Some split: option.splits if_splits)

section \<open>Properties\<close>

lemma fence_roundtrip_parts:
  assumes "is_nonce n"
  shows "carries_fence (before @ [10] @ as_data s n @ [10] @ after)"
    and "filter is_fence_line (split_when is_line_break (as_data s n)) = [fence_open n, fence_close n]
           \<longleftrightarrow> \<not> carries_fence s"
proof -
  have br: "is_line_break 10" by (simp add: is_line_break_def)
  have "carries_fence (as_data s n)"
    using lines_as_data[OF assms] is_fence_line_drawn[OF assms] by (simp add: carries_fence_def)
  then show "carries_fence (before @ [10] @ as_data s n @ [10] @ after)"
    using carries_fence_break[OF br, of before] carries_fence_break[OF br, of "as_data s n"]
    by simp
  show "filter is_fence_line (split_when is_line_break (as_data s n)) = [fence_open n, fence_close n]
           \<longleftrightarrow> \<not> carries_fence s"
    using is_fence_line_drawn[OF assms]
    by (simp add: lines_as_data[OF assms] carries_fence_def list_ex_iff filter_empty_conv)
qed

text \<open>
  Fence round trip: every block \<open>as_data\<close> draws with a nonce of \<open>fence_nonce\<close>'s
  shape is refused by \<open>carries_fence\<close> wherever a whole-line copy of it sits in a text; and
  inside a drawn block the only marker lines are its own two exactly when the quoted row
  carries none, which is what the write path's refusal guarantees of every stored row.
\<close>

theorem fence_roundtrip:
  assumes "is_nonce n"
  shows "(carries_fence (before @ [10] @ as_data s n @ [10] @ after)) \<and>
     (filter is_fence_line (split_when is_line_break (as_data s n)) = [fence_open n, fence_close n]
           \<longleftrightarrow> \<not> carries_fence s)"
proof -
  have p1: "carries_fence (before @ [10] @ as_data s n @ [10] @ after)"
    by ((intro impI)?, rule fence_roundtrip_parts(1)[OF assms]; assumption)
  have p2: "filter is_fence_line (split_when is_line_break (as_data s n)) = [fence_open n, fence_close n]
           \<longleftrightarrow> \<not> carries_fence s"
    by ((intro impI)?, rule fence_roundtrip_parts(2)[OF assms]; assumption)
  show ?thesis by (rule conjI[OF p1 p2])
qed

theorem fence_roundtrip_witness:
  "carries_fence (u ''x'' @ [10] @ as_data (u ''port 5432'') (u ''0123456789ab'') @ [10] @ []) \<and>
   length (filter is_fence_line (split_when is_line_break
     (as_data (u ''port 5432'') (u ''0123456789ab'')))) = 2"
proof -
  have n: "is_nonce (u ''0123456789ab'')" by code_simp
  have "\<not> carries_fence (u ''port 5432'')" by code_simp
  then show ?thesis
    using fence_roundtrip[OF n, THEN conjunct1, rule_format, of "u ''x''" "u ''port 5432''" "[]"]
      fence_roundtrip[OF n, THEN conjunct2, rule_format, of "u ''port 5432''"] by (simp del: u_Cons)
qed

lemma written_days_parts:
  shows "split_whitespace content = pre @ [dec d, mon, dec y] @ post \<Longrightarrow>
           month_from mon = Some m \<Longrightarrow> 1 \<le> d \<Longrightarrow> d \<le> 31 \<Longrightarrow> 1000 \<le> y \<Longrightarrow> y \<le> 9999 \<Longrightarrow>
           from_ymd_opt cal y m d = Some day \<Longrightarrow> states cal content day"
    and "split_whitespace content = pre @ [mon, dtok, ytok] @ post \<Longrightarrow>
           iso_day cal mon = None \<Longrightarrow> digits mon = None \<Longrightarrow> month_from mon = Some m \<Longrightarrow>
           digits dtok = Some d \<Longrightarrow> digits ytok = Some y \<Longrightarrow>
           1 \<le> d \<Longrightarrow> d \<le> 31 \<Longrightarrow> 1000 \<le> y \<Longrightarrow> y \<le> 9999 \<Longrightarrow>
           from_ymd_opt cal y m d = Some day \<Longrightarrow> states cal content day"
    and "split_whitespace content = pre @ [tok] @ post \<Longrightarrow> iso_day cal tok = Some day \<Longrightarrow>
           states cal content day"
    and "states cal content day \<Longrightarrow>
           (\<exists>tok \<in> set (split_whitespace content). parse_ymd cal (bare_token tok) = Some day) \<or>
           (\<exists>y m d. 1 \<le> d \<and> d \<le> 31 \<and> 1000 \<le> y \<and> y \<le> 9999 \<and> from_ymd_opt cal y m d = Some day)"
    and "distinct (extract_days cal content)"
proof -
  assume *: "split_whitespace content = pre @ [dec d, mon, dec y] @ post"
    "month_from mon = Some m" "1 \<le> d" "d \<le> 31" "1000 \<le> y" "y \<le> 9999"
    "from_ymd_opt cal y m d = Some day"
  have "day_here cal ([dec d, mon, dec y] @ post) = Some day"
    using day_here_dmy[OF *(2-7), of post] by (simp only: append_Cons append_Nil)
  then show "states cal content day" by (rule statesI[OF *(1)])
next
  assume *: "split_whitespace content = pre @ [mon, dtok, ytok] @ post"
    "iso_day cal mon = None" "digits mon = None" "month_from mon = Some m"
    "digits dtok = Some d" "digits ytok = Some y"
    "1 \<le> d" "d \<le> 31" "1000 \<le> y" "y \<le> 9999" "from_ymd_opt cal y m d = Some day"
  have "day_here cal ([mon, dtok, ytok] @ post) = Some day"
    using day_here_mdy[OF *(2-11), of post] by (simp only: append_Cons append_Nil)
  then show "states cal content day" by (rule statesI[OF *(1)])
next
  assume *: "split_whitespace content = pre @ [tok] @ post" "iso_day cal tok = Some day"
  then have "day_here cal ([tok] @ post) = Some day" by simp
  then show "states cal content day" by (rule statesI[OF *(1)])
next
  assume "states cal content day"
  then obtain pre rest where sp: "split_whitespace content = pre @ rest"
    and here: "day_here cal rest = Some day" by (auto simp: states_day_here)
  then obtain raw tl where "rest = raw # tl" by (cases rest) auto
  then show "(\<exists>tok \<in> set (split_whitespace content). parse_ymd cal (bare_token tok) = Some day) \<or>
           (\<exists>y m d. 1 \<le> d \<and> d \<le> 31 \<and> 1000 \<le> y \<and> y \<le> 9999 \<and> from_ymd_opt cal y m d = Some day)"
    using day_here_sound[of cal raw tl day] sp here by auto
next
  show "distinct (extract_days cal content)"
    by (simp add: extract_days_def distinct_extract_loop)
qed

text \<open>
  \<open>states\<close> finds each rendering a person writes, whatever words surround it: a
  day-month-year or month-day-year run of tokens (the month by name in any case, punctuation
  around it ignored) whose date the calendar admits, and an ISO token whose date parses.
  Conversely a listed day was parsed from an ISO token or read from three tokens with a day in
  1..31 and a four-digit year; and no day is listed twice.
\<close>

theorem written_days:
  shows "(split_whitespace content = pre @ [dec d, mon, dec y] @ post \<longrightarrow>
           month_from mon = Some m \<longrightarrow> 1 \<le> d \<longrightarrow> d \<le> 31 \<longrightarrow> 1000 \<le> y \<longrightarrow> y \<le> 9999 \<longrightarrow>
           from_ymd_opt cal y m d = Some day \<longrightarrow> states cal content day) \<and>
     (split_whitespace content = pre @ [mon, dtok, ytok] @ post \<longrightarrow>
           iso_day cal mon = None \<longrightarrow> digits mon = None \<longrightarrow> month_from mon = Some m \<longrightarrow>
           digits dtok = Some d \<longrightarrow> digits ytok = Some y \<longrightarrow>
           1 \<le> d \<longrightarrow> d \<le> 31 \<longrightarrow> 1000 \<le> y \<longrightarrow> y \<le> 9999 \<longrightarrow>
           from_ymd_opt cal y m d = Some day \<longrightarrow> states cal content day) \<and>
     (split_whitespace content = pre @ [tok] @ post \<longrightarrow> iso_day cal tok = Some day \<longrightarrow>
           states cal content day) \<and>
     (states cal content day \<longrightarrow>
           (\<exists>tok \<in> set (split_whitespace content). parse_ymd cal (bare_token tok) = Some day) \<or>
           (\<exists>y m d. 1 \<le> d \<and> d \<le> 31 \<and> 1000 \<le> y \<and> y \<le> 9999 \<and> from_ymd_opt cal y m d = Some day)) \<and>
     (distinct (extract_days cal content))"
proof -
  have p1: "split_whitespace content = pre @ [dec d, mon, dec y] @ post \<longrightarrow>
           month_from mon = Some m \<longrightarrow> 1 \<le> d \<longrightarrow> d \<le> 31 \<longrightarrow> 1000 \<le> y \<longrightarrow> y \<le> 9999 \<longrightarrow>
           from_ymd_opt cal y m d = Some day \<longrightarrow> states cal content day"
    by ((intro impI)?, rule written_days_parts(1); assumption)
  have p2: "split_whitespace content = pre @ [mon, dtok, ytok] @ post \<longrightarrow>
           iso_day cal mon = None \<longrightarrow> digits mon = None \<longrightarrow> month_from mon = Some m \<longrightarrow>
           digits dtok = Some d \<longrightarrow> digits ytok = Some y \<longrightarrow>
           1 \<le> d \<longrightarrow> d \<le> 31 \<longrightarrow> 1000 \<le> y \<longrightarrow> y \<le> 9999 \<longrightarrow>
           from_ymd_opt cal y m d = Some day \<longrightarrow> states cal content day"
    by ((intro impI)?, rule written_days_parts(2); assumption)
  have p3: "split_whitespace content = pre @ [tok] @ post \<longrightarrow> iso_day cal tok = Some day \<longrightarrow>
           states cal content day"
    by ((intro impI)?, rule written_days_parts(3); assumption)
  have p4: "states cal content day \<longrightarrow>
           (\<exists>tok \<in> set (split_whitespace content). parse_ymd cal (bare_token tok) = Some day) \<or>
           (\<exists>y m d. 1 \<le> d \<and> d \<le> 31 \<and> 1000 \<le> y \<and> y \<le> 9999 \<and> from_ymd_opt cal y m d = Some day)"
    by ((intro impI)?, rule written_days_parts(4); assumption)
  have p5: "distinct (extract_days cal content)"
    by ((intro impI)?, rule written_days_parts(5); assumption)
  show ?thesis by (rule conjI[OF p1 conjI[OF p2 conjI[OF p3 conjI[OF p4 p5]]]])
qed

definition sample_calendar :: "(nat \<times> nat \<times> nat) calendar" where
  "sample_calendar =
     \<lparr>parse_ymd = (\<lambda>s. Some (dec_value (take 4 s), dec_value (take 2 (drop 5 s)), dec_value (drop 8 s))),
      from_ymd_opt = (\<lambda>y m d. if 1 \<le> m \<and> m \<le> 12 then Some (y, m, d) else None)\<rparr>"

theorem written_days_witness:
  "states sample_calendar (u ''due 4 Mar. 2026 at noon'') (2026, 3, 4) \<and>
   states sample_calendar (u ''since March 4, 2026'') (2026, 3, 4) \<and>
   states sample_calendar (u ''on 2026-03-04,'') (2026, 3, 4)"
proof (intro conjI)
  have m: "month_from (u ''Mar.'') = Some 3" "month_from (u ''March'') = Some 3" by code_simp+
  have f: "from_ymd_opt sample_calendar 2026 3 4 = Some (2026, 3, 4)"
    by (simp add: sample_calendar_def)
  have s: "split_whitespace (u ''due 4 Mar. 2026 at noon'') =
      [u ''due''] @ [dec 4, u ''Mar.'', dec 2026] @ [u ''at'', u ''noon'']" by code_simp
  show "states sample_calendar (u ''due 4 Mar. 2026 at noon'') (2026, 3, 4)"
    by (rule written_days[THEN conjunct1, rule_format, OF s m(1) _ _ _ _ f]) simp_all
  have s: "split_whitespace (u ''since March 4, 2026'') =
      [u ''since''] @ [u ''March'', u ''4,'', u ''2026''] @ []" by code_simp
  have d: "digits (u ''March'') = None" "digits (u ''4,'') = Some 4" "digits (u ''2026'') = Some 2026"
    "iso_day sample_calendar (u ''March'') = None" by code_simp+
  show "states sample_calendar (u ''since March 4, 2026'') (2026, 3, 4)"
    by (rule written_days[THEN conjunct2, THEN conjunct1, rule_format, OF s d(4) d(1) m(2) d(2) d(3) _ _ _ _ f]) simp_all
  have s: "split_whitespace (u ''on 2026-03-04,'') = [u ''on''] @ [u ''2026-03-04,''] @ []"
    by code_simp
  have i: "iso_day sample_calendar (u ''2026-03-04,'') = Some (2026, 3, 4)" by code_simp
  show "states sample_calendar (u ''on 2026-03-04,'') (2026, 3, 4)"
    by (rule written_days[THEN conjunct2, THEN conjunct2, THEN conjunct1, rule_format, OF s i])
qed

end
