(* ===== verification/Lr_Digest.thy ===== *)
theory Lr_Digest
  imports Lr_Types
begin

text \<open>
  The bootstrap digest's two pure passes: the near-duplicate collapse of
  \<open>src/src/domain/digest_dedup.rs\<close> (which row of a restating pair survives, and how each
  section is filled from the survivors) and the profile order of
  \<open>src/src/domain/digest_rank.rs\<close>. Hash sets are HOL sets, the displaced map is a HOL map.
\<close>

section \<open>Near-duplicate collapse\<close>

type_synonym row_id = str
type_synonym aged_row = "row_id \<times> instant"

record selection =
  sel_dropped :: "row_id set"
  sel_chosen :: "row_id set"
  sel_displaced :: "row_id \<rightharpoonup> row_id list"

definition digest_key :: "aged_row \<Rightarrow> int \<times> str" where
  "digest_key r = (- snd r, fst r)"

fun dedup_ids :: "aged_row list \<Rightarrow> aged_row list" where
  "dedup_ids (x # y # zs) =
     (if fst x = fst y then dedup_ids (x # zs) else x # dedup_ids (y # zs))"
| "dedup_ids xs = xs"

definition digest_order :: "aged_row list \<Rightarrow> aged_row list" where
  "digest_order rows = dedup_ids (sort_key digest_key rows)"

definition twins :: "(row_id \<times> row_id) list \<Rightarrow> row_id \<Rightarrow> row_id list" where
  "twins pairs i =
     concat (map (\<lambda>(a, b). (if a = i then [b] else []) @ (if b = i then [a] else [])) pairs)"

definition add_twin :: "row_id \<Rightarrow> (row_id \<rightharpoonup> row_id list) \<Rightarrow> row_id \<Rightarrow> (row_id \<rightharpoonup> row_id list)" where
  "add_twin i m s = m(s \<mapsto> (case m s of None \<Rightarrow> [] | Some xs \<Rightarrow> xs) @ [i])"

fun collapse_loop ::
  "(row_id \<times> row_id) list \<Rightarrow> row_id set \<Rightarrow> row_id set \<Rightarrow> (row_id \<rightharpoonup> row_id list) \<Rightarrow>
     aged_row list \<Rightarrow> row_id set \<times> row_id set \<times> (row_id \<rightharpoonup> row_id list)" where
  "collapse_loop pairs kept dropped displaced [] = (kept, dropped, displaced)"
| "collapse_loop pairs kept dropped displaced (r # rs) =
     (let i = fst r;
          survivors = filter (\<lambda>other. other \<in> kept) (twins pairs i)
      in if survivors = [] then collapse_loop pairs (insert i kept) dropped displaced rs
         else collapse_loop pairs kept (insert i dropped) (foldl (add_twin i) displaced survivors) rs)"

definition selection_new :: "aged_row list \<Rightarrow> (row_id \<times> row_id) list \<Rightarrow> selection" where
  "selection_new rows pairs =
     (case collapse_loop pairs {} {} Map.empty (digest_order rows) of
        (kept, dropped, displaced) \<Rightarrow>
          \<lparr>sel_dropped = dropped, sel_chosen = {}, sel_displaced = displaced\<rparr>)"

definition lost_from :: "selection \<Rightarrow> row_id list \<Rightarrow> nat \<Rightarrow> row_id list" where
  "lost_from sel pool limit =
     filter (\<lambda>i. i \<in> sel_dropped sel) (take limit (filter (\<lambda>i. i \<notin> sel_chosen sel) pool))"

definition displaced_one_of :: "selection \<Rightarrow> row_id \<Rightarrow> row_id set \<Rightarrow> bool" where
  "displaced_one_of sel i lost =
     (case sel_displaced sel i of None \<Rightarrow> False | Some ts \<Rightarrow> list_ex (\<lambda>t. t \<in> lost) ts)"

definition displaced_by :: "selection \<Rightarrow> row_id \<Rightarrow> row_id list" where
  "displaced_by sel i = (case sel_displaced sel i of None \<Rightarrow> [] | Some ts \<Rightarrow> ts)"

definition is_dropped :: "selection \<Rightarrow> row_id \<Rightarrow> bool" where
  "is_dropped sel i \<longleftrightarrow> i \<in> sel_dropped sel"

definition dropped_count :: "selection \<Rightarrow> nat" where
  "dropped_count sel = card (sel_dropped sel)"

fun pick_loop :: "selection \<Rightarrow> nat list \<Rightarrow> nat \<Rightarrow> (nat \<times> row_id) list \<Rightarrow> nat list \<times> selection" where
  "pick_loop sel out limit [] = (out, sel)"
| "pick_loop sel out limit ((i, r) # rest) =
     (if length out \<ge> limit then (out, sel)
      else if r \<in> sel_chosen sel \<or> r \<in> sel_dropped sel then pick_loop sel out limit rest
      else pick_loop (sel\<lparr>sel_chosen := insert r (sel_chosen sel)\<rparr>) (out @ [i]) limit rest)"

definition pick :: "selection \<Rightarrow> row_id list \<Rightarrow> nat \<Rightarrow> nat list \<times> selection" where
  "pick sel pool limit = pick_loop sel [] limit (List.enumerate 0 pool)"

subsection \<open>The collapse keeps the newest of each pair\<close>

definition restates :: "(row_id \<times> row_id) list \<Rightarrow> row_id \<Rightarrow> row_id \<Rightarrow> bool" where
  "restates pairs a b \<longleftrightarrow> (a, b) \<in> set pairs \<or> (b, a) \<in> set pairs"

lemma set_twins [simp]: "b \<in> set (twins pairs a) \<longleftrightarrow> restates pairs a b"
  by (auto simp: twins_def restates_def split: if_splits)

lemma restates_sym: "restates pairs a b = restates pairs b a"
  by (auto simp: restates_def)

text \<open>The specification: walk the rows newest first, keep a row no kept row restates.\<close>

fun survivors_of :: "(row_id \<Rightarrow> row_id \<Rightarrow> bool) \<Rightarrow> row_id set \<Rightarrow> row_id list \<Rightarrow> row_id set" where
  "survivors_of R kept [] = kept"
| "survivors_of R kept (i # rest) =
     survivors_of R (if \<exists>s \<in> kept. R i s then kept else insert i kept) rest"

lemma filter_twins_empty:
  "filter (\<lambda>x. x \<in> kept) (twins pairs i) = [] \<longleftrightarrow> \<not> (\<exists>s \<in> kept. restates pairs i s)"
  by (auto simp: filter_empty_conv)

lemma collapse_loop_step:
  "collapse_loop pairs kept dropped displaced (r # rs) =
     (if \<exists>s \<in> kept. restates pairs (fst r) s
      then collapse_loop pairs kept (insert (fst r) dropped)
             (foldl (add_twin (fst r)) displaced (filter (\<lambda>x. x \<in> kept) (twins pairs (fst r)))) rs
      else collapse_loop pairs (insert (fst r) kept) dropped displaced rs)"
  by (simp add: Let_def filter_twins_empty)

declare collapse_loop.simps(2) [simp del]

lemma collapse_loop_kept:
  "fst (collapse_loop pairs kept dropped disp rs) = survivors_of (restates pairs) kept (map fst rs)"
  by (induction rs arbitrary: kept dropped disp) (simp_all add: collapse_loop_step)

lemma survivors_mono: "kept \<subseteq> survivors_of R kept ids"
proof (induction ids arbitrary: kept)
  case (Cons i ids)
  show ?case using Cons[of kept] Cons[of "insert i kept"] by auto
qed simp

lemma survivors_bound: "survivors_of R kept ids \<subseteq> kept \<union> set ids"
proof (induction ids arbitrary: kept)
  case (Cons i ids)
  show ?case using Cons[of kept] Cons[of "insert i kept"] by auto
qed simp

lemma survivors_append:
  "survivors_of R kept (xs @ ys) = survivors_of R (survivors_of R kept xs) ys"
  by (induction xs arbitrary: kept) simp_all

lemma survivors_prefix:
  assumes "set xs \<inter> set ys = {}" and "set ys \<inter> kept = {}"
  shows "survivors_of R kept xs = survivors_of R kept (xs @ ys) \<inter> (kept \<union> set xs)"
proof -
  let ?K = "survivors_of R kept xs"
  have "?K \<subseteq> kept \<union> set xs" by (rule survivors_bound)
  moreover have "?K \<subseteq> survivors_of R ?K ys" by (rule survivors_mono)
  moreover have "survivors_of R ?K ys \<subseteq> ?K \<union> set ys" by (rule survivors_bound)
  ultimately show ?thesis using assms unfolding survivors_append by blast
qed

text \<open>With distinct ids, a row survives exactly when no surviving row before it restates it.\<close>

lemma survivors_at:
  fixes R :: "row_id \<Rightarrow> row_id \<Rightarrow> bool"
  assumes "distinct (xs @ i # ys)" and "set (xs @ i # ys) \<inter> kept = {}"
  defines "S \<equiv> survivors_of R kept (xs @ i # ys)"
  shows "i \<in> S \<longleftrightarrow> \<not> (\<exists>s \<in> S. s \<in> kept \<union> set xs \<and> R i s)"
proof -
  let ?K = "survivors_of R kept xs"
  have S: "S = survivors_of R (if \<exists>s \<in> ?K. R i s then ?K else insert i ?K) ys"
    unfolding S_def by (simp add: survivors_append)
  have K: "?K \<subseteq> kept \<union> set xs" by (rule survivors_bound)
  have up: "S \<subseteq> (if \<exists>s \<in> ?K. R i s then ?K else insert i ?K) \<union> set ys"
    unfolding S by (rule survivors_bound)
  have lo: "(if \<exists>s \<in> ?K. R i s then ?K else insert i ?K) \<subseteq> S"
    unfolding S by (rule survivors_mono)
  have "S \<inter> (kept \<union> set xs) = ?K"
    using up lo K assms(1,2) by (auto split: if_splits)
  moreover have "i \<in> S \<longleftrightarrow> \<not> (\<exists>s \<in> ?K. R i s)"
    using up lo K assms(1,2) by (auto split: if_splits)
  ultimately show ?thesis by blast
qed

lemma collapse_loop_dropped:
  "distinct (map fst rs) \<Longrightarrow> set (map fst rs) \<inter> kept = {} \<Longrightarrow>
     fst (snd (collapse_loop pairs kept dropped disp rs)) =
     dropped \<union> (set (map fst rs) - survivors_of (restates pairs) kept (map fst rs))"
proof (induction rs arbitrary: kept dropped disp)
  case Nil
  then show ?case by simp
next
  case (Cons r rs)
  let ?R = "restates pairs"
  show ?case
  proof (cases "\<exists>s \<in> kept. ?R (fst r) s")
    case True
    have "fst r \<notin> survivors_of ?R kept (map fst rs)"
      using survivors_bound[of ?R kept "map fst rs"] Cons.prems by auto
    then show ?thesis using True Cons.prems Cons.IH[of kept] by (auto simp: collapse_loop_step)
  next
    case False
    have "fst r \<in> survivors_of ?R (insert (fst r) kept) (map fst rs)"
      using survivors_mono[of "insert (fst r) kept" ?R] by auto
    then show ?thesis using False Cons.prems Cons.IH[of "insert (fst r) kept"]
      by (auto simp: collapse_loop_step)
  qed
qed

subsection \<open>The digest order\<close>

lemma digest_key_inj [simp]: "digest_key x = digest_key y \<longleftrightarrow> x = y"
  by (auto simp: digest_key_def prod_eq_iff)

definition one_age :: "aged_row list \<Rightarrow> bool" where
  "one_age rows \<longleftrightarrow> (\<forall>x \<in> set rows. \<forall>y \<in> set rows. fst x = fst y \<longrightarrow> x = y)"

lemma dedup_ids_adj: "one_age xs \<Longrightarrow> dedup_ids xs = remdups_adj xs"
  by (induction xs rule: dedup_ids.induct) (auto simp: one_age_def)

lemma sorted_key_remdups_adj:
  "sorted (map digest_key xs) \<Longrightarrow> sorted_wrt (\<lambda>a b. digest_key a < digest_key b) (remdups_adj xs)"
  by (induction xs rule: remdups_adj.induct) (auto simp: less_le)

lemma sorted_key_distinct:
  "sorted_wrt (\<lambda>a b. digest_key a < digest_key b) xs \<Longrightarrow> distinct xs"
  by (induction xs) auto

lemma digest_order_sorted:
  assumes "one_age rows"
  shows "sorted_wrt (\<lambda>a b. digest_key a < digest_key b) (digest_order rows)"
    and "set (digest_order rows) = set rows"
    and "distinct (map fst (digest_order rows))"
proof -
  have age: "one_age (sort_key digest_key rows)" using assms by (simp add: one_age_def)
  have eq: "digest_order rows = remdups_adj (sort_key digest_key rows)"
    by (simp add: digest_order_def dedup_ids_adj[OF age])
  show sw: "sorted_wrt (\<lambda>a b. digest_key a < digest_key b) (digest_order rows)"
    unfolding eq by (rule sorted_key_remdups_adj) simp
  show st: "set (digest_order rows) = set rows" by (simp add: eq)
  have "distinct (digest_order rows)" by (rule sorted_key_distinct[OF sw])
  moreover have "inj_on fst (set (digest_order rows))"
    using assms st by (auto simp: one_age_def inj_on_def)
  ultimately show "distinct (map fst (digest_order rows))" by (simp add: distinct_map)
qed

lemma sorted_key_before:
  assumes "sorted_wrt (\<lambda>a b. digest_key a < digest_key b) (xs @ r # ys)" and "s \<in> set (xs @ r # ys)"
  shows "s \<in> set xs \<longleftrightarrow> digest_key s < digest_key r"
  using assms by (fastforce simp: sorted_wrt_append dest: order.asym)

subsection \<open>Which twins a survivor displaced\<close>

lemma displaced_foldl:
  "(case foldl (add_twin i) disp ss s of None \<Rightarrow> [] | Some ts \<Rightarrow> ts) =
     (case disp s of None \<Rightarrow> [] | Some ts \<Rightarrow> ts) @ replicate (count_list ss s) i"
  by (induction ss arbitrary: disp) (auto simp: add_twin_def replicate_append_same[symmetric])

definition twins_in :: "(row_id \<rightharpoonup> row_id list) \<Rightarrow> row_id \<Rightarrow> row_id set" where
  "twins_in disp s = set (case disp s of None \<Rightarrow> [] | Some ts \<Rightarrow> ts)"

lemma twins_in_foldl:
  "twins_in (foldl (add_twin i) disp ss) s = twins_in disp s \<union> (if s \<in> set ss then {i} else {})"
  by (auto simp: twins_in_def displaced_foldl count_list_0_iff)

lemma collapse_loop_displaced:
  "t \<in> twins_in (snd (snd (collapse_loop pairs kept dropped disp rs))) s \<longleftrightarrow>
     t \<in> twins_in disp s \<or>
     (\<exists>xs r ys. rs = xs @ r # ys \<and> fst r = t \<and> restates pairs t s \<and>
        s \<in> survivors_of (restates pairs) kept (map fst xs))"
proof (induction rs arbitrary: kept dropped disp)
  case Nil
  then show ?case by simp
next
  case (Cons r rs)
  let ?R = "restates pairs"
  let ?k = "if \<exists>s \<in> kept. ?R (fst r) s then kept else insert (fst r) kept"
  have tail: "(\<exists>xs q ys. r # rs = xs @ q # ys \<and> fst q = t \<and> ?R t s \<and> s \<in> survivors_of ?R kept (map fst xs))
     \<longleftrightarrow> (fst r = t \<and> ?R t s \<and> s \<in> kept) \<or>
        (\<exists>xs q ys. rs = xs @ q # ys \<and> fst q = t \<and> ?R t s \<and> s \<in> survivors_of ?R ?k (map fst xs))"
    by (subst split_Cons_ex) simp
  show ?case
  proof (cases "\<exists>s \<in> kept. ?R (fst r) s")
    case True
    then show ?thesis unfolding tail
      by (subst collapse_loop_step) (auto simp: Cons.IH twins_in_foldl)
  next
    case False
    then show ?thesis unfolding tail
      by (subst collapse_loop_step) (auto simp: Cons.IH)
  qed
qed

section \<open>Properties of the collapse\<close>

lemma selection_new_fields:
  "sel_dropped (selection_new rows pairs) =
     fst (snd (collapse_loop pairs {} {} Map.empty (digest_order rows)))"
  "sel_displaced (selection_new rows pairs) =
     snd (snd (collapse_loop pairs {} {} Map.empty (digest_order rows)))"
  "sel_chosen (selection_new rows pairs) = {}"
  by (auto simp: selection_new_def split: prod.splits)

lemma dropped_iff:
  assumes "one_age rows" and "r \<in> set rows"
  shows "fst r \<in> sel_dropped (selection_new rows pairs) \<longleftrightarrow>
     (\<exists>s \<in> set rows. fst s \<notin> sel_dropped (selection_new rows pairs) \<and>
        restates pairs (fst r) (fst s) \<and> digest_key s < digest_key r)"
proof -
  note order = digest_order_sorted[OF assms(1)]
  let ?L = "digest_order rows" and ?R = "restates pairs"
  let ?S = "survivors_of ?R {} (map fst ?L)"
  have D: "sel_dropped (selection_new rows pairs) = fst ` set rows - ?S"
    using collapse_loop_dropped[OF order(3), of "{}"] order(2) by (simp add: selection_new_fields)
  have S: "?S \<subseteq> fst ` set rows" using survivors_bound[of ?R "{}" "map fst ?L"] order(2) by simp
  obtain xs ys where L: "?L = xs @ r # ys"
    using assms(2) order(2) by (metis in_set_conv_decomp)
  have dist: "distinct (map fst xs @ fst r # map fst ys)" using order(3) L by simp
  have "fst r \<in> ?S \<longleftrightarrow> \<not> (\<exists>s \<in> ?S. s \<in> {} \<union> set (map fst xs) \<and> ?R (fst r) s)"
    using survivors_at[OF dist, of "{}" ?R] L by simp
  also have "(\<exists>s \<in> ?S. s \<in> {} \<union> set (map fst xs) \<and> ?R (fst r) s) \<longleftrightarrow>
      (\<exists>s \<in> set xs. fst s \<in> ?S \<and> ?R (fst r) (fst s))" by auto
  also have "\<dots> \<longleftrightarrow> (\<exists>s \<in> set rows. fst s \<in> ?S \<and> ?R (fst r) (fst s) \<and> digest_key s < digest_key r)"
    using sorted_key_before[of xs r ys] order(1,2) L by (metis in_set_conv_decomp UnCI set_append)
  finally show ?thesis using D S assms(2) by auto
qed

lemma digest_order_unique:
  assumes "one_age rows" and "set rows' = set rows"
  shows "digest_order rows' = digest_order rows"
proof -
  have age: "one_age rows'" using assms by (simp add: one_age_def)
  have key: "sorted_wrt (<) (map digest_key (digest_order r))" if "one_age r" for r
    using digest_order_sorted(1)[OF that] by (simp add: sorted_wrt_map)
  have "map digest_key (digest_order rows') = map digest_key (digest_order rows)"
    using key[OF assms(1)] key[OF age] digest_order_sorted(2)[OF assms(1)]
      digest_order_sorted(2)[OF age] assms(2)
    by (intro sorted_distinct_set_unique) (auto simp: strict_sorted_iff)
  moreover have "inj digest_key" by (simp add: inj_def)
  ultimately show ?thesis by (simp add: inj_map_eq_map)
qed

lemma survivors_cong_pairs:
  "restates pairs' = restates pairs \<Longrightarrow>
     fst (snd (collapse_loop pairs' kept dropped disp' rs)) =
     fst (snd (collapse_loop pairs kept dropped disp rs))"
  by (induction rs arbitrary: kept dropped disp disp') (simp_all add: collapse_loop_step)

lemma displaced_by_iff:
  assumes "one_age rows" and "r \<in> set rows"
  shows "fst r \<in> set (displaced_by (selection_new rows pairs) s) \<longleftrightarrow>
     restates pairs (fst r) s \<and>
     (\<exists>x \<in> set rows. fst x = s \<and> s \<notin> sel_dropped (selection_new rows pairs) \<and>
        digest_key x < digest_key r)"
proof -
  note order = digest_order_sorted[OF assms(1)]
  let ?L = "digest_order rows" and ?R = "restates pairs"
  let ?S = "survivors_of ?R {} (map fst ?L)"
  have D: "sel_dropped (selection_new rows pairs) = fst ` set rows - ?S"
    using collapse_loop_dropped[OF order(3), of "{}"] order(2) by (simp add: selection_new_fields)
  obtain xs ys where L: "?L = xs @ r # ys"
    using assms(2) order(2) by (metis in_set_conv_decomp)
  have uniq: "zs = xs \<and> q = r \<and> ws = ys" if "?L = zs @ q # ws" "fst q = fst r" for zs q ws
  proof -
    have q: "q = r" using that assms order(2) by (auto simp: one_age_def)
    have "distinct ?L" using order(3) by (simp add: distinct_map)
    then show ?thesis using that(1) L q by (auto simp: append_eq_append_conv2 Cons_eq_append_conv append_eq_Cons_conv)
  qed
  have K: "survivors_of ?R {} (map fst xs) = ?S \<inter> fst ` set xs"
    using survivors_prefix[of "map fst xs" "map fst (r # ys)" "{}" ?R] order(3) L by auto
  have before: "x \<in> set xs \<longleftrightarrow> x \<in> set rows \<and> digest_key x < digest_key r" for x
    using sorted_key_before[of xs r ys x] order(1,2) L by auto
  have img: "s \<in> fst ` set xs \<longleftrightarrow> (\<exists>x \<in> set rows. fst x = s \<and> digest_key x < digest_key r)"
    unfolding image_iff Bex_def before by blast
  have "fst r \<in> set (displaced_by (selection_new rows pairs) s) \<longleftrightarrow>
      (\<exists>zs q ws. ?L = zs @ q # ws \<and> fst q = fst r \<and> ?R (fst r) s \<and>
         s \<in> survivors_of ?R {} (map fst zs))"
    using collapse_loop_displaced[of "fst r" pairs "{}" "{}" Map.empty ?L s]
    by (simp add: displaced_by_def twins_in_def selection_new_fields)
  also have "\<dots> \<longleftrightarrow> ?R (fst r) s \<and> s \<in> survivors_of ?R {} (map fst xs)"
    using uniq L by blast
  also have "s \<in> survivors_of ?R {} (map fst xs) \<longleftrightarrow>
      (\<exists>x \<in> set rows. fst x = s \<and> s \<in> ?S \<and> digest_key x < digest_key r)"
    unfolding K Int_iff img by blast
  finally show ?thesis using D by auto
qed

lemma collapse_newest_wins_parts:
  assumes "one_age rows"
  shows "r \<in> set rows \<Longrightarrow>
       is_dropped (selection_new rows pairs) (fst r) \<longleftrightarrow>
       (\<exists>s \<in> set rows. \<not> is_dropped (selection_new rows pairs) (fst s) \<and>
          restates pairs (fst r) (fst s) \<and> digest_key s < digest_key r)"
    and "r \<in> set rows \<Longrightarrow>
       fst r \<in> set (displaced_by (selection_new rows pairs) s) \<longleftrightarrow>
       restates pairs (fst r) s \<and>
       (\<exists>x \<in> set rows. fst x = s \<and> \<not> is_dropped (selection_new rows pairs) s \<and>
          digest_key x < digest_key r)"
    and "set rows' = set rows \<Longrightarrow> restates pairs' = restates pairs \<Longrightarrow>
       sel_dropped (selection_new rows' pairs') = sel_dropped (selection_new rows pairs)"
proof -
  show "r \<in> set rows \<Longrightarrow>
       is_dropped (selection_new rows pairs) (fst r) \<longleftrightarrow>
       (\<exists>s \<in> set rows. \<not> is_dropped (selection_new rows pairs) (fst s) \<and>
          restates pairs (fst r) (fst s) \<and> digest_key s < digest_key r)"
    unfolding is_dropped_def by (rule dropped_iff[OF assms])
  show "r \<in> set rows \<Longrightarrow>
       fst r \<in> set (displaced_by (selection_new rows pairs) s) \<longleftrightarrow>
       restates pairs (fst r) s \<and>
       (\<exists>x \<in> set rows. fst x = s \<and> \<not> is_dropped (selection_new rows pairs) s \<and>
          digest_key x < digest_key r)"
    unfolding is_dropped_def by (rule displaced_by_iff[OF assms])
  assume *: "set rows' = set rows" "restates pairs' = restates pairs"
  show "sel_dropped (selection_new rows' pairs') = sel_dropped (selection_new rows pairs)"
    unfolding selection_new_fields digest_order_unique[OF assms *(1)]
    by (rule survivors_cong_pairs[OF *(2)])
qed

text \<open>
  The collapse is newest-wins and independent of input order: a pooled row is
  dropped exactly when a surviving newer row (older loses, ties by id) restates it, a survivor
  lists exactly the older rows it restates as displaced, and neither the order or repetition of
  the pooled rows nor the orientation of the pairs changes what is dropped.
\<close>

theorem collapse_newest_wins:
  assumes "one_age rows"
  shows "(r \<in> set rows \<longrightarrow>
       is_dropped (selection_new rows pairs) (fst r) \<longleftrightarrow>
       (\<exists>s \<in> set rows. \<not> is_dropped (selection_new rows pairs) (fst s) \<and>
          restates pairs (fst r) (fst s) \<and> digest_key s < digest_key r)) \<and>
     (r \<in> set rows \<longrightarrow>
       fst r \<in> set (displaced_by (selection_new rows pairs) s) \<longleftrightarrow>
       restates pairs (fst r) s \<and>
       (\<exists>x \<in> set rows. fst x = s \<and> \<not> is_dropped (selection_new rows pairs) s \<and>
          digest_key x < digest_key r)) \<and>
     (set rows' = set rows \<longrightarrow> restates pairs' = restates pairs \<longrightarrow>
       sel_dropped (selection_new rows' pairs') = sel_dropped (selection_new rows pairs))"
proof -
  have p1: "r \<in> set rows \<longrightarrow>
       is_dropped (selection_new rows pairs) (fst r) \<longleftrightarrow>
       (\<exists>s \<in> set rows. \<not> is_dropped (selection_new rows pairs) (fst s) \<and>
          restates pairs (fst r) (fst s) \<and> digest_key s < digest_key r)"
    by ((intro impI)?, rule collapse_newest_wins_parts(1)[OF assms]; assumption)
  have p2: "r \<in> set rows \<longrightarrow>
       fst r \<in> set (displaced_by (selection_new rows pairs) s) \<longleftrightarrow>
       restates pairs (fst r) s \<and>
       (\<exists>x \<in> set rows. fst x = s \<and> \<not> is_dropped (selection_new rows pairs) s \<and>
          digest_key x < digest_key r)"
    by ((intro impI)?, rule collapse_newest_wins_parts(2)[OF assms]; assumption)
  have p3: "set rows' = set rows \<longrightarrow> restates pairs' = restates pairs \<longrightarrow>
       sel_dropped (selection_new rows' pairs') = sel_dropped (selection_new rows pairs)"
    by ((intro impI)?, rule collapse_newest_wins_parts(3)[OF assms]; assumption)
  show ?thesis by (rule conjI[OF p1 conjI[OF p2 p3]])
qed

theorem collapse_newest_wins_witness:
  "\<not> is_dropped (selection_new [(u ''a'', 1), (u ''b'', 2), (u ''c'', 3)]
       [(u ''a'', u ''b''), (u ''b'', u ''c'')]) (u ''a'') \<and>
   is_dropped (selection_new [(u ''a'', 1), (u ''b'', 2), (u ''c'', 3)]
       [(u ''a'', u ''b''), (u ''b'', u ''c'')]) (u ''b'')"
proof -
  let ?rows = "[(u ''a'', 1 :: int), (u ''b'', 2), (u ''c'', 3)]"
  let ?pairs = "[(u ''a'', u ''b''), (u ''b'', u ''c'')]"
  have age: "one_age ?rows" by (simp add: one_age_def)
  have key: "digest_key (u ''c'', 3) < digest_key (u ''b'', 2)"
    "\<not> digest_key (u ''a'', 1) < digest_key (u ''b'', 2)"
    "\<not> digest_key (u ''a'', 1) < digest_key (u ''c'', 3)"
    "\<not> digest_key (u ''b'', 2) < digest_key (u ''c'', 3)"
    by (simp_all add: digest_key_def)
  note spec = collapse_newest_wins[OF age, THEN conjunct1, rule_format, where pairs = ?pairs]
  have c: "\<not> is_dropped (selection_new ?rows ?pairs) (u ''c'')"
    using spec[of "(u ''c'', 3)"] by (auto simp: restates_def digest_key_def)
  have b: "is_dropped (selection_new ?rows ?pairs) (u ''b'')"
    using spec[of "(u ''b'', 2)"] c key by (auto simp: restates_def)
  have "\<not> is_dropped (selection_new ?rows ?pairs) (u ''a'')"
    using spec[of "(u ''a'', 1)"] b by (auto simp: restates_def)
  then show ?thesis using b by simp
qed

section \<open>Filling a section\<close>

text \<open>The first occurrences outside a set, with their positions.\<close>

fun fresh :: "row_id set \<Rightarrow> (nat \<times> row_id) list \<Rightarrow> (nat \<times> row_id) list" where
  "fresh seen [] = []"
| "fresh seen (e # es) =
     (if snd e \<in> seen then fresh seen es else e # fresh (insert (snd e) seen) es)"

lemma fresh_subseq: "subseq (fresh seen es) es"
  by (induction es arbitrary: seen) auto

lemma fresh_outside: "snd ` set (fresh seen es) \<inter> seen = {}"
proof (induction es arbitrary: seen)
  case (Cons e es)
  show ?case using Cons[of seen] Cons[of "insert (snd e) seen"] by auto
qed simp

lemma fresh_distinct: "distinct (map snd (fresh seen es))"
proof (induction es arbitrary: seen)
  case (Cons e es)
  show ?case using Cons[of seen] Cons[of "insert (snd e) seen"]
      fresh_outside[of "insert (snd e) seen" es] by auto
qed simp

lemma fresh_of_distinct:
  "distinct (map snd es) \<Longrightarrow> fresh seen es = filter (\<lambda>e. snd e \<notin> seen) es"
proof (induction es arbitrary: seen)
  case (Cons e es)
  have "filter (\<lambda>x. snd x \<notin> insert (snd e) seen) es = filter (\<lambda>x. snd x \<notin> seen) es"
  proof (rule filter_cong[OF refl])
    fix x assume "x \<in> set es"
    moreover have "snd e \<notin> snd ` set es" using Cons.prems by simp
    ultimately have "snd x \<noteq> snd e" by (metis image_eqI)
    then show "(snd x \<notin> insert (snd e) seen) = (snd x \<notin> seen)" by simp
  qed
  then show ?case using Cons by simp
qed simp

lemma pick_loop_spec:
  "pick_loop sel out limit es =
     (let new = take (limit - length out) (fresh (sel_chosen sel \<union> sel_dropped sel) es)
      in (out @ map fst new, sel\<lparr>sel_chosen := sel_chosen sel \<union> snd ` set new\<rparr>))"
proof (induction sel out limit es rule: pick_loop.induct)
  case (1 sel out limit)
  then show ?case by simp
next
  case (2 sel out limit i r rest)
  consider "length out \<ge> limit" | "length out < limit" "r \<in> sel_chosen sel \<union> sel_dropped sel"
    | "length out < limit" "r \<notin> sel_chosen sel \<union> sel_dropped sel" by force
  then show ?case
  proof cases
    case 1
    then show ?thesis by simp
  next
    case 2
    then show ?thesis using "2.IH"(1) by (auto simp: Let_def)
  next
    case 3
    have "limit - length out = Suc (limit - Suc (length out))" using 3 by simp
    then show ?thesis using 3 "2.IH"(2) by (auto simp: Let_def)
  qed
qed

lemma enumerate_fst_sorted: "sorted_wrt (<) (map fst (List.enumerate 0 xs))"
  by (simp add: strict_sorted_iff)

lemma subseq_map_fst: "subseq xs ys \<Longrightarrow> subseq (map fst xs) (map fst ys)"
  by (rule subseq_map)

lemma pick_fields:
  fixes sel pool limit
  defines "new \<equiv> take limit (fresh (sel_chosen sel \<union> sel_dropped sel) (List.enumerate 0 pool))"
  shows "pick sel pool limit = (map fst new, sel\<lparr>sel_chosen := sel_chosen sel \<union> snd ` set new\<rparr>)"
    and "sorted_wrt (<) (map fst new)" and "\<forall>e \<in> set new. fst e < length pool \<and> pool ! fst e = snd e"
    and "distinct (map snd new)" and "snd ` set new \<inter> (sel_chosen sel \<union> sel_dropped sel) = {}"
proof -
  show "pick sel pool limit = (map fst new, sel\<lparr>sel_chosen := sel_chosen sel \<union> snd ` set new\<rparr>)"
    by (simp add: pick_def pick_loop_spec new_def Let_def)
  have sub: "subseq new (List.enumerate 0 pool)"
    unfolding new_def using fresh_subseq by (meson prefix_imp_subseq subseq_order.trans take_is_prefix)
  show "sorted_wrt (<) (map fst new)"
    using subseq_map_fst[OF sub] enumerate_fst_sorted subseq_sorted_wrt by blast
  show "\<forall>e \<in> set new. fst e < length pool \<and> pool ! fst e = snd e"
    using list_emb_set[OF sub] by (auto simp: in_set_enumerate_eq)
  have fr: "distinct (map snd (fresh S es))" "snd ` set (fresh S es) \<inter> S = {}" for S es
    by (rule fresh_distinct fresh_outside)+
  show "distinct (map snd new)" unfolding new_def using fr(1) by (metis distinct_take take_map)
  show "snd ` set new \<inter> (sel_chosen sel \<union> sel_dropped sel) = {}"
    unfolding new_def using fr(2) by (blast dest: in_set_takeD)
qed

lemma set_fresh: "snd ` set (fresh seen es) = snd ` set es - seen"
proof (induction es arbitrary: seen)
  case (Cons e es)
  show ?case using Cons[of seen] Cons[of "insert (snd e) seen"] by auto
qed simp

lemma map_snd_filter: "map snd (filter (\<lambda>e. P (snd e)) es) = filter P (map snd es)"
  by (induction es) auto

lemma nth_fst_snd:
  "\<forall>e \<in> set new. fst e < length pool \<and> pool ! fst e = snd e \<Longrightarrow>
     map (\<lambda>i. pool ! i) (map fst new) = map snd new"
  by simp

lemma pick_fills_section_parts:
  assumes "pick sel pool limit = (out, sel')"
  shows "sorted_wrt (<) out" and "length out \<le> limit" and "distinct (map (\<lambda>i. pool ! i) out)"
    and "i \<in> set out \<Longrightarrow>
           i < length pool \<and> pool ! i \<notin> sel_chosen sel \<and> pool ! i \<notin> sel_dropped sel"
    and "length out < limit \<Longrightarrow> set pool \<subseteq> sel_chosen sel' \<union> sel_dropped sel"
    and "sel' = sel\<lparr>sel_chosen := sel_chosen sel \<union> set (map (\<lambda>i. pool ! i) out)\<rparr>"
    and "distinct pool \<Longrightarrow> lost_from sel pool limit =
           filter (\<lambda>r. r \<in> sel_dropped sel)
             (map (\<lambda>i. pool ! i) (fst (pick (sel\<lparr>sel_dropped := {}\<rparr>) pool limit)))"
proof -
  let ?es = "List.enumerate 0 pool" and ?seen = "sel_chosen sel \<union> sel_dropped sel"
  let ?new = "take limit (fresh ?seen ?es)"
  note f = pick_fields[where sel = sel and pool = pool and limit = limit]
  have out: "out = map fst ?new" and sel': "sel' = sel\<lparr>sel_chosen := sel_chosen sel \<union> snd ` set ?new\<rparr>"
    using f(1) assms by simp_all
  have vals: "map (\<lambda>i. pool ! i) out = map snd ?new" unfolding out by (rule nth_fst_snd[OF f(3)])
  show "sorted_wrt (<) out" using f(2) out by simp
  show "length out \<le> limit" using out by simp
  show "distinct (map (\<lambda>i. pool ! i) out)" unfolding vals by (rule f(4))
  show "i \<in> set out \<Longrightarrow> i < length pool \<and> pool ! i \<notin> sel_chosen sel \<and> pool ! i \<notin> sel_dropped sel"
    unfolding out using f(3,5) by force
  show "sel' = sel\<lparr>sel_chosen := sel_chosen sel \<union> set (map (\<lambda>i. pool ! i) out)\<rparr>"
    unfolding vals sel' by simp
  show "set pool \<subseteq> sel_chosen sel' \<union> sel_dropped sel" if "length out < limit"
  proof -
    have "?new = fresh ?seen ?es" using that unfolding out by simp
    then have "snd ` set ?new = snd ` set ?es - ?seen" using set_fresh by metis
    moreover have "snd ` set ?es = set pool" by (metis list.set_map map_snd_enumerate)
    ultimately show ?thesis unfolding sel' by auto
  qed
  show "lost_from sel pool limit = filter (\<lambda>r. r \<in> sel_dropped sel)
      (map (\<lambda>i. pool ! i) (fst (pick (sel\<lparr>sel_dropped := {}\<rparr>) pool limit)))" if "distinct pool"
  proof -
    note g = pick_fields[where sel = "sel\<lparr>sel_dropped := {}\<rparr>" and pool = pool and limit = limit]
    have "fresh (sel_chosen sel) ?es = filter (\<lambda>e. snd e \<notin> sel_chosen sel) ?es"
      using that by (intro fresh_of_distinct) simp
    moreover have "map snd (filter (\<lambda>e. snd e \<notin> sel_chosen sel) ?es) =
        filter (\<lambda>r. r \<notin> sel_chosen sel) (map snd ?es)" by (rule map_snd_filter)
    ultimately have "map snd (take limit (fresh (sel_chosen sel) ?es)) =
        take limit (filter (\<lambda>r. r \<notin> sel_chosen sel) pool)"
      by (metis map_snd_enumerate take_map)
    moreover have "map (\<lambda>i. pool ! i) (fst (pick (sel\<lparr>sel_dropped := {}\<rparr>) pool limit)) =
        map snd (take limit (fresh (sel_chosen sel) ?es))"
      using g(1) nth_fst_snd[OF g(3)] by simp
    ultimately show ?thesis by (simp add: lost_from_def)
  qed
qed

text \<open>
  A section prints the first \<open>limit\<close> rows of its pool, in pool order, that no
  earlier section chose and the collapse did not drop, each once; it stops short only when the
  pool is exhausted, and it marks exactly the rows it printed. \<open>lost_from\<close> names the dropped
  rows the same section would have printed with no near-duplicate pass.
\<close>

theorem pick_fills_section:
  assumes "pick sel pool limit = (out, sel')"
  shows "(sorted_wrt (<) out) \<and>
     (length out \<le> limit) \<and>
     (distinct (map (\<lambda>i. pool ! i) out)) \<and>
     (i \<in> set out \<longrightarrow>
           i < length pool \<and> pool ! i \<notin> sel_chosen sel \<and> pool ! i \<notin> sel_dropped sel) \<and>
     (length out < limit \<longrightarrow> set pool \<subseteq> sel_chosen sel' \<union> sel_dropped sel) \<and>
     (sel' = sel\<lparr>sel_chosen := sel_chosen sel \<union> set (map (\<lambda>i. pool ! i) out)\<rparr>) \<and>
     (distinct pool \<longrightarrow> lost_from sel pool limit =
           filter (\<lambda>r. r \<in> sel_dropped sel)
             (map (\<lambda>i. pool ! i) (fst (pick (sel\<lparr>sel_dropped := {}\<rparr>) pool limit))))"
proof -
  have p1: "sorted_wrt (<) out"
    by ((intro impI)?, rule pick_fills_section_parts(1)[OF assms]; assumption)
  have p2: "length out \<le> limit"
    by ((intro impI)?, rule pick_fills_section_parts(2)[OF assms]; assumption)
  have p3: "distinct (map (\<lambda>i. pool ! i) out)"
    by ((intro impI)?, rule pick_fills_section_parts(3)[OF assms]; assumption)
  have p4: "i \<in> set out \<longrightarrow>
           i < length pool \<and> pool ! i \<notin> sel_chosen sel \<and> pool ! i \<notin> sel_dropped sel"
    by ((intro impI)?, rule pick_fills_section_parts(4)[OF assms]; assumption)
  have p5: "length out < limit \<longrightarrow> set pool \<subseteq> sel_chosen sel' \<union> sel_dropped sel"
    by ((intro impI)?, rule pick_fills_section_parts(5)[OF assms]; assumption)
  have p6: "sel' = sel\<lparr>sel_chosen := sel_chosen sel \<union> set (map (\<lambda>i. pool ! i) out)\<rparr>"
    by ((intro impI)?, rule pick_fills_section_parts(6)[OF assms]; assumption)
  have p7: "distinct pool \<longrightarrow> lost_from sel pool limit =
           filter (\<lambda>r. r \<in> sel_dropped sel)
             (map (\<lambda>i. pool ! i) (fst (pick (sel\<lparr>sel_dropped := {}\<rparr>) pool limit)))"
    by ((intro impI)?, rule pick_fills_section_parts(7)[OF assms]; assumption)
  show ?thesis by (rule conjI[OF p1 conjI[OF p2 conjI[OF p3 conjI[OF p4 conjI[OF p5 conjI[OF p6 p7]]]]]])
qed

theorem pick_fills_section_witness:
  "sorted_wrt (<) [0, 2 :: nat] \<and> distinct (map (\<lambda>i. [u ''a'', u ''b'', u ''c'', u ''d''] ! i) [0, 2])"
proof -
  have p: "pick \<lparr>sel_dropped = {u ''b''}, sel_chosen = {}, sel_displaced = Map.empty\<rparr>
      [u ''a'', u ''b'', u ''c'', u ''d''] 2 =
      ([0, 2], \<lparr>sel_dropped = {u ''b''}, sel_chosen = {u ''c'', u ''a''}, sel_displaced = Map.empty\<rparr>)"
    by (simp add: pick_def numeral_2_eq_2 insert_commute)
  show ?thesis using pick_fills_section[OF p, THEN conjunct1, rule_format] pick_fills_section[OF p, THEN conjunct2, THEN conjunct2, THEN conjunct1, rule_format] by simp
qed

section \<open>Profile order\<close>

record profile_row =
  pr_id :: row_id
  pr_created_at :: instant
  pr_preference :: bool
  pr_dropped :: bool

definition is_standing :: "str list \<Rightarrow> str list \<Rightarrow> bool" where
  "is_standing tags rule_tags = list_ex (\<lambda>t. t \<in> set rule_tags) tags"

text \<open>
  The comparator \<open>ranked\<close> as a sort key, smallest first: scored rows, then the score
  downwards, then newest, then id. Scores are reals: the adapter filters a NaN out before this
  pass, so \<open>partial_cmp\<close> never falls through.
\<close>

definition rank_key ::
  "profile_row list \<Rightarrow> (row_id \<rightharpoonup> real) \<Rightarrow> nat \<Rightarrow> (nat \<times> real) \<times> int \<times> str" where
  "rank_key rows scores i =
     ((case scores (pr_id (rows ! i)) of Some x \<Rightarrow> (0, - x) | None \<Rightarrow> (1, 0)),
      - pr_created_at (rows ! i), pr_id (rows ! i))"

fun lead_loop :: "profile_row list \<Rightarrow> nat \<Rightarrow> nat \<Rightarrow> nat list \<Rightarrow> nat list \<Rightarrow> nat list" where
  "lead_loop rows limit slots lead [] = lead"
| "lead_loop rows limit slots lead (i # rest) =
     (if slots = limit then lead
      else lead_loop rows limit (if pr_dropped (rows ! i) then slots else slots + 1) (lead @ [i]) rest)"

definition profile_order :: "profile_row list \<Rightarrow> (row_id \<rightharpoonup> real) \<Rightarrow> nat \<Rightarrow> nat list" where
  "profile_order rows scores preference_limit =
     (let candidates = sort_key (rank_key rows scores)
            (filter (\<lambda>i. pr_preference (rows ! i)) [0..<length rows]);
          lead = lead_loop rows preference_limit 0 [] candidates;
          rest = sort_key (rank_key rows scores) (filter (\<lambda>i. i \<notin> set lead) [0..<length rows])
      in lead @ rest)"

definition taking_slots :: "profile_row list \<Rightarrow> nat list \<Rightarrow> nat" where
  "taking_slots rows is = length (filter (\<lambda>i. \<not> pr_dropped (rows ! i)) is)"

lemma lead_loop_prefix:
  "slots \<le> limit \<Longrightarrow>
     \<exists>taken left. cands = taken @ left \<and> lead_loop rows limit slots lead cands = lead @ taken \<and>
       slots + taking_slots rows taken \<le> limit \<and>
       (left \<noteq> [] \<longrightarrow> slots + taking_slots rows taken = limit)"
proof (induction rows limit slots lead cands rule: lead_loop.induct)
  case (1 rows limit slots lead)
  then show ?case by (simp add: taking_slots_def)
next
  case (2 rows limit slots lead i rest)
  show ?case
  proof (cases "slots = limit")
    case True
    then show ?thesis by (intro exI[of _ "[]"] exI[of _ "i # rest"]) (simp add: taking_slots_def)
  next
    case False
    let ?s = "if pr_dropped (rows ! i) then slots else slots + 1"
    have "?s \<le> limit" using 2 False by simp
    from "2.IH"[OF False this] obtain taken left where *: "rest = taken @ left"
      "lead_loop rows limit ?s (lead @ [i]) rest = (lead @ [i]) @ taken"
      "?s + taking_slots rows taken \<le> limit" "left \<noteq> [] \<longrightarrow> ?s + taking_slots rows taken = limit"
      by blast
    have "slots + taking_slots rows (i # taken) = ?s + taking_slots rows taken"
      by (simp add: taking_slots_def)
    then show ?thesis using False *
      by (intro exI[of _ "i # taken"] exI[of _ left]) simp
  qed
qed

text \<open>
  \<open>profile_order\<close> lists every row exactly once: a lead of preferences holding at
  most \<open>preference_limit\<close> rows that take a slot, then the rest, each part in rank order; and
  a preference is left out of the lead only when the slots are full, and then no row of the lead
  ranks below it.
\<close>

theorem profile_order_spec:
  shows "\<exists>lead rest. profile_order rows scores limit = lead @ rest \<and>
     distinct (lead @ rest) \<and> set (lead @ rest) = {0..<length rows} \<and>
     sorted (map (rank_key rows scores) lead) \<and> sorted (map (rank_key rows scores) rest) \<and>
     (\<forall>i \<in> set lead. pr_preference (rows ! i)) \<and> taking_slots rows lead \<le> limit \<and>
     (\<forall>i \<in> set rest. pr_preference (rows ! i) \<longrightarrow> taking_slots rows lead = limit \<and>
        (\<forall>j \<in> set lead. rank_key rows scores j \<le> rank_key rows scores i))"
proof -
  let ?k = "rank_key rows scores"
  let ?c = "sort_key ?k (filter (\<lambda>i. pr_preference (rows ! i)) [0..<length rows])"
  obtain lead left where L: "?c = lead @ left" "lead_loop rows limit 0 [] ?c = [] @ lead"
    "0 + taking_slots rows lead \<le> limit" "left \<noteq> [] \<longrightarrow> 0 + taking_slots rows lead = limit"
    using lead_loop_prefix[of 0 limit ?c rows "[]"] by blast
  let ?rest = "sort_key ?k (filter (\<lambda>i. i \<notin> set lead) [0..<length rows])"
  have order: "profile_order rows scores limit = lead @ ?rest"
    using L(2) by (simp add: profile_order_def)
  have c: "distinct ?c" "set ?c = {i. i < length rows \<and> pr_preference (rows ! i)}"
    "sorted (map ?k ?c)" by auto
  then have lead: "distinct lead" "set lead \<subseteq> {i. i < length rows \<and> pr_preference (rows ! i)}"
    "sorted (map ?k lead)" "\<forall>j \<in> set lead. \<forall>i \<in> set left. ?k j \<le> ?k i"
    unfolding L(1) by (auto simp: sorted_append)
  have pref: "i \<in> set left" if "i \<in> set ?rest" "pr_preference (rows ! i)" for i
  proof -
    have "i \<in> set ?c" using that by simp
    then show ?thesis using that(1) unfolding L(1) by auto
  qed
  have "distinct (lead @ ?rest)" "set (lead @ ?rest) = {0..<length rows}"
    using lead(1,2) by auto
  moreover have "sorted (map ?k ?rest)" by simp
  moreover have "\<forall>i \<in> set ?rest. pr_preference (rows ! i) \<longrightarrow> taking_slots rows lead = limit \<and>
        (\<forall>j \<in> set lead. ?k j \<le> ?k i)"
  proof (intro ballI impI)
    fix i assume "i \<in> set ?rest" "pr_preference (rows ! i)"
    then have i: "i \<in> set left" by (rule pref)
    then have "left \<noteq> []" by auto
    then show "taking_slots rows lead = limit \<and> (\<forall>j \<in> set lead. ?k j \<le> ?k i)"
      using L(4) lead(4) i by simp
  qed
  moreover have "\<forall>i \<in> set lead. pr_preference (rows ! i)" "taking_slots rows lead \<le> limit"
    using lead(2) L(3) by auto
  ultimately show ?thesis
    using order lead(3) by (intro exI[of _ lead] exI[of _ ?rest] conjI) assumption+
qed

definition sample_profile :: "profile_row list" where
  "sample_profile =
     [\<lparr>pr_id = u ''a'', pr_created_at = 5, pr_preference = True, pr_dropped = False\<rparr>,
      \<lparr>pr_id = u ''b'', pr_created_at = 9, pr_preference = False, pr_dropped = False\<rparr>,
      \<lparr>pr_id = u ''c'', pr_created_at = 7, pr_preference = True, pr_dropped = True\<rparr>]"

theorem profile_order_spec_witness:
  "\<exists>lead rest. profile_order sample_profile (\<lambda>_. None) 1 = lead @ rest \<and>
     set (lead @ rest) = {0..<length sample_profile}"
  using profile_order_spec[of sample_profile "\<lambda>_. None" 1] by blast

end
