(* ===== verification/Lr_Embedding.thy ===== *)
theory Lr_Embedding
  imports Lr_Types
begin

text \<open>
  The state and the phase rules of an embedding-model migration:
  \<open>src/src/domain/embedding_slot.rs\<close>, \<open>embedding_migration.rs\<close> and \<open>embedding_phase.rs\<close>.
  Model and unit ids are strings, a rollback window is counted in nanoseconds, and the
  operator-facing refusals are symbolic constructors carrying what the text interpolates.
  \<open>active_model\<close> panics in the source when the active slot is unnamed; here it is \<open>the\<close>,
  unspecified there, and the theorems that rest on it assume \<open>active_named\<close>, the constraint
  every reader of the table checks.
\<close>

section \<open>Slots\<close>

datatype vector_slot = SlotA | SlotB

fun column :: "vector_slot \<Rightarrow> str" where
  "column SlotA = u ''embedding''"
| "column SlotB = u ''embedding_b''"

fun other_slot :: "vector_slot \<Rightarrow> vector_slot" where
  "other_slot SlotA = SlotB"
| "other_slot SlotB = SlotA"

fun slot_as_str :: "vector_slot \<Rightarrow> str" where
  "slot_as_str SlotA = u ''a''"
| "slot_as_str SlotB = u ''b''"

definition parse_slot :: "str \<Rightarrow> vector_slot option" where
  "parse_slot s = (if s = u ''a'' then Some SlotA else if s = u ''b'' then Some SlotB else None)"

interpretation slot_codec: strict_codec slot_as_str parse_slot
proof
  show "parse_slot (slot_as_str x) = Some x" for x by (cases x) (simp_all add: parse_slot_def)
  show "parse_slot s = Some x \<Longrightarrow> slot_as_str x = s" for s x
    by (auto simp: parse_slot_def split: if_splits)
qed

lemma other_slot_neq [simp]: "other_slot s \<noteq> s" "s \<noteq> other_slot s"
  and other_other [simp]: "other_slot (other_slot s) = s"
  by (cases s; simp)+

lemma slot_cases: "s = t \<or> s = other_slot t"
  by (cases s; cases t) simp_all

section \<open>State, view and status\<close>

record unit_state =
  us_unit :: str
  us_active_slot :: vector_slot
  us_model_a :: "str option"
  us_model_b :: "str option"
  us_flipped_at :: "instant option"

fun slot_model :: "unit_state \<Rightarrow> vector_slot \<Rightarrow> str option" where
  "slot_model st SlotA = us_model_a st"
| "slot_model st SlotB = us_model_b st"

definition active_model :: "unit_state \<Rightarrow> str" where
  "active_model st = the (slot_model st (us_active_slot st))"

definition other_model :: "unit_state \<Rightarrow> str option" where
  "other_model st = slot_model st (other_slot (us_active_slot st))"

text \<open>The table's two CHECK constraints, \<open>embedding_state_active_named\<close> and \<open>_two_models\<close>.\<close>

definition active_named :: "unit_state \<Rightarrow> bool" where
  "active_named st \<longleftrightarrow> slot_model st (us_active_slot st) \<noteq> None"

definition two_models :: "unit_state \<Rightarrow> bool" where
  "two_models st \<longleftrightarrow> us_model_a st = None \<or> us_model_b st = None \<or> us_model_a st \<noteq> us_model_b st"

datatype phase_name = Steady | Filling | Held | Ready | Flipped | Retiring | BlockedP

datatype blocked = OtherHoldsThird str | Kek | Failed int | Guessed "str list"

datatype rollback_state = Instant | NeedsFill | RollbackUnavailable

datatype flip_scope = FlipAll | FlipNone | FlipUnits "str list"

fun flip_allows :: "flip_scope \<Rightarrow> str \<Rightarrow> bool" where
  "flip_allows FlipAll _ = True"
| "flip_allows FlipNone _ = False"
| "flip_allows (FlipUnits us) unit = list_ex (\<lambda>x. x = unit) us"

record configured =
  cf_current :: str
  cf_previous :: "str option"
  cf_retire :: "str option"
  cf_flip :: flip_scope
  cf_rollback_days :: int
  cf_guessed_acting :: "str \<rightharpoonup> str list"
  cf_generation :: "int option"

datatype verb = Start | Flip | Rollback | Retire

fun verb_as_str :: "verb \<Rightarrow> str" where
  "verb_as_str Start = u ''start''"
| "verb_as_str Flip = u ''flip''"
| "verb_as_str Rollback = u ''rollback''"
| "verb_as_str Retire = u ''retire''"

record intent =
  in_generation :: int
  in_target :: "str option"
  in_flip :: bool
  in_retire :: "str option"
  in_verb :: "verb option"

record intent_change =
  ch_target :: "str option"
  ch_flip :: bool
  ch_retire :: "str option"
  ch_verb :: verb

record published =
  pb_applied_generation :: int
  pb_server_models :: "str list"
  pb_seen_at :: "instant option"

record counts =
  ct_eligible :: int
  ct_other_pending :: int
  ct_active_holes :: int
  ct_foreign_model :: int
  ct_failed :: int
  ct_without_vector :: int
  ct_retire_pending :: int

record unit_status =
  st_unit :: str
  st_active :: str
  st_other :: "str option"
  st_counts :: counts
  st_flipped_at :: "instant option"

record disk_status =
  dk_free_bytes :: nat
  dk_floor_bytes :: nat

record pending_row =
  pd_id :: nat
  pd_sensitivity :: sensitivity
  pd_content :: "str option"
  pd_chars :: int

section \<open>Phase rules\<close>

definition target :: "unit_state \<Rightarrow> configured \<Rightarrow> str option" where
  "target st cfg =
     (case cf_previous cfg of
        None \<Rightarrow> None
      | Some previous \<Rightarrow>
          if active_model st = previous then Some (cf_current cfg)
          else if active_model st = cf_current cfg then Some previous
          else None)"

definition guessed_keys :: "configured \<Rightarrow> str \<Rightarrow> str list" where
  "guessed_keys cfg m = (case cf_guessed_acting cfg m of None \<Rightarrow> [] | Some ks \<Rightarrow> ks)"

definition third_model :: "unit_state \<Rightarrow> configured \<Rightarrow> str option" where
  "third_model st cfg =
     (case other_model st of
        None \<Rightarrow> None
      | Some third \<Rightarrow>
          if third \<noteq> cf_current cfg \<and> Some third \<noteq> cf_previous cfg \<and> Some third \<noteq> cf_retire cfg
          then Some third else None)"

definition phase ::
  "unit_state \<Rightarrow> configured \<Rightarrow> counts \<Rightarrow> blocked option \<Rightarrow> phase_name \<times> blocked option" where
  "phase st cfg cts service =
     (let active = active_model st; other = other_model st; current = cf_current cfg;
          report = (\<lambda>beneath. case service of Some reason \<Rightarrow> (BlockedP, Some reason)
                                            | None \<Rightarrow> (beneath, None))
      in case third_model st cfg of
           Some third \<Rightarrow> (BlockedP, Some (OtherHoldsThird third))
         | None \<Rightarrow>
             if other \<noteq> None \<and> other = cf_retire cfg then report Retiring
             else if active = current
               then report (if cf_previous cfg \<noteq> None then Flipped else Steady)
             else if Some active = cf_previous cfg then
               (if other \<noteq> Some current \<or> ct_other_pending cts > 0 then report Filling
                else if \<not> flip_allows (cf_flip cfg) (us_unit st) then report Held
                else if guessed_keys cfg current \<noteq> [] \<and> service = None
                  then (BlockedP, Some (Guessed (guessed_keys cfg current)))
                else report Ready)
             else (BlockedP, None))"

definition days :: "int \<Rightarrow> int" where
  "days n = n * 86400 * 1000000000"

definition retire_after :: "unit_state \<Rightarrow> configured \<Rightarrow> instant option" where
  "retire_after st cfg =
     (case cf_retire cfg of
        None \<Rightarrow> None
      | Some retire \<Rightarrow>
          if other_model st \<noteq> Some retire then None
          else Some (case us_flipped_at st of
                       Some flipped \<Rightarrow> flipped + days (cf_rollback_days cfg)
                     | None \<Rightarrow> 0))"

definition rollback :: "unit_status list \<Rightarrow> configured \<Rightarrow> rollback_state" where
  "rollback statuses cfg =
     (case cf_previous cfg of
        None \<Rightarrow> (if list_ex (\<lambda>s. st_flipped_at s \<noteq> None) statuses then NeedsFill
                 else RollbackUnavailable)
      | Some previous \<Rightarrow>
          (let on_current = filter (\<lambda>s. st_active s = cf_current cfg) statuses
           in if on_current = [] then RollbackUnavailable
              else if list_all (\<lambda>s. st_other s = Some previous \<and>
                                    ct_other_pending (st_counts s) = 0) on_current
              then Instant else NeedsFill))"

datatype boot_refusal =
    B_SamePrevious str
  | B_Stuck "(str \<times> str) list" str
  | B_RetireConfigured str
  | B_RetireServing str "str list"
  | B_PreviousGuessed str "str list"
  | B_CurrentGuessed str "str list" bool

definition retire_refusals :: "unit_state list \<Rightarrow> configured \<Rightarrow> boot_refusal list" where
  "retire_refusals states cfg =
     (case cf_retire cfg of
        None \<Rightarrow> []
      | Some retire \<Rightarrow>
          (let serving = map us_unit (filter (\<lambda>s. active_model s = retire) states)
           in (if retire = cf_current cfg \<or> Some retire = cf_previous cfg
               then [B_RetireConfigured retire] else []) @
              (if serving \<noteq> [] then [B_RetireServing retire serving] else [])))"

definition guessed_refusals :: "configured \<Rightarrow> boot_refusal list" where
  "guessed_refusals cfg =
     (case cf_previous cfg of
        None \<Rightarrow> []
      | Some p \<Rightarrow>
          (let keys = guessed_keys cfg (cf_current cfg); command_mode = (cf_generation cfg \<noteq> None)
           in (if guessed_keys cfg p \<noteq> [] then [B_PreviousGuessed p (guessed_keys cfg p)] else []) @
              (if cf_flip cfg \<noteq> FlipNone \<and> keys \<noteq> []
               then [B_CurrentGuessed (cf_current cfg) keys command_mode] else [])))"

definition boot_check :: "unit_state list \<Rightarrow> configured \<Rightarrow> (boot_refusal list, unit) result" where
  "boot_check states cfg =
     (let stuck = map (\<lambda>s. (us_unit s, active_model s))
                    (filter (\<lambda>s. active_model s \<noteq> cf_current cfg \<and>
                                 Some (active_model s) \<noteq> cf_previous cfg) states);
          refusals =
            (if cf_previous cfg = Some (cf_current cfg) then [B_SamePrevious (cf_current cfg)] else []) @
            (if stuck \<noteq> [] then [B_Stuck stuck (cf_current cfg)] else []) @
            retire_refusals states cfg @ guessed_refusals cfg
      in if refusals = [] then Inr () else Inl refusals)"

section \<open>Fill pacing, packing and the flip scope\<close>

definition fill_sleep :: "nat \<Rightarrow> nat \<Rightarrow> nat" where
  "fill_sleep took duty_percent =
     (let duty = max 1 (min 100 duty_percent) in took * (100 - duty) div duty)"

definition row_chars :: "pending_row \<Rightarrow> nat" where
  "row_chars r = nat (pd_chars r)"

fun pack_loop ::
  "nat \<Rightarrow> pending_row list list \<Rightarrow> pending_row list \<Rightarrow> nat \<Rightarrow> pending_row list \<Rightarrow> pending_row list list" where
  "pack_loop max_chars batches opened held [] = (if opened = [] then batches else batches @ [opened])"
| "pack_loop max_chars batches opened held (r # rs) =
     (if opened \<noteq> [] \<and> held + row_chars r > max_chars
      then pack_loop max_chars (batches @ [opened]) [r] (row_chars r) rs
      else pack_loop max_chars batches (opened @ [r]) (held + row_chars r) rs)"

definition pack :: "pending_row list \<Rightarrow> nat \<Rightarrow> pending_row list list" where
  "pack rows max_chars = pack_loop max_chars [] [] 0 rows"

datatype flip_scope_error = NothingGiven | EmptyUnit str

fun flip_units :: "str \<Rightarrow> str list \<Rightarrow> str list \<Rightarrow> (flip_scope_error, str list) result" where
  "flip_units raw units [] = Inr units"
| "flip_units raw units (part # parts) =
     (let unit = trim part
      in if unit = [] then Inl (EmptyUnit raw)
         else flip_units raw (if unit \<in> set units then units else units @ [unit]) parts)"

definition parse_flip_scope :: "str \<Rightarrow> (flip_scope_error, flip_scope) result" where
  "parse_flip_scope raw =
     (if trim raw = u ''all'' then Inr FlipAll
      else if trim raw = u ''none'' then Inr FlipNone
      else if trim raw = [] then Inl NothingGiven
      else and_then (flip_units raw [] (split_on 44 raw)) (\<lambda>us. Inr (FlipUnits us)))"

section \<open>What a phase means\<close>

lemma active_model_Some: "active_named st \<Longrightarrow> slot_model st (us_active_slot st) = Some (active_model st)"
  by (auto simp: active_named_def active_model_def)

lemma other_not_active:
  assumes "active_named st" and "two_models st"
  shows "other_model st \<noteq> Some (active_model st)"
  using assms active_model_Some[OF assms(1)]
  by (cases "us_active_slot st") (auto simp: two_models_def other_model_def)

lemma third_model_None:
  "third_model st cfg = None \<longleftrightarrow>
     other_model st = None \<or> other_model st = Some (cf_current cfg) \<or>
     (other_model st \<noteq> None \<and> (other_model st = cf_previous cfg \<or> other_model st = cf_retire cfg))"
  by (auto simp: third_model_def split: option.splits)

lemma third_model_Some: "third_model st cfg = Some t \<Longrightarrow> other_model st = Some t"
  by (auto simp: third_model_def split: option.splits if_splits)

lemma boot_check_ok:
  assumes "boot_check states cfg = Inr ()"
  shows "cf_previous cfg \<noteq> Some (cf_current cfg)"
    and "s \<in> set states \<Longrightarrow> active_model s = cf_current cfg \<or> Some (active_model s) = cf_previous cfg"
    and "cf_retire cfg = Some r \<Longrightarrow> r \<noteq> cf_current cfg \<and> Some r \<noteq> cf_previous cfg"
    and "cf_retire cfg = Some r \<Longrightarrow> s \<in> set states \<Longrightarrow> active_model s \<noteq> r"
    and "cf_previous cfg = Some p \<Longrightarrow> guessed_keys cfg p = []"
    and "cf_previous cfg \<noteq> None \<Longrightarrow> cf_flip cfg \<noteq> FlipNone \<Longrightarrow> guessed_keys cfg (cf_current cfg) = []"
proof -
  have one: "cf_previous cfg \<noteq> Some (cf_current cfg)"
    and two: "filter (\<lambda>s. active_model s \<noteq> cf_current cfg \<and> Some (active_model s) \<noteq> cf_previous cfg) states = []"
    and three: "retire_refusals states cfg = []" and four: "guessed_refusals cfg = []"
    using assms by (simp_all add: boot_check_def Let_def split: if_splits)
  show "cf_previous cfg \<noteq> Some (cf_current cfg)" by (rule one)
  show "s \<in> set states \<Longrightarrow> active_model s = cf_current cfg \<or> Some (active_model s) = cf_previous cfg"
    using two by (auto simp: filter_empty_conv)
  show "cf_retire cfg = Some r \<Longrightarrow> r \<noteq> cf_current cfg \<and> Some r \<noteq> cf_previous cfg"
    using three by (simp add: retire_refusals_def Let_def split: if_splits)
  show "cf_retire cfg = Some r \<Longrightarrow> s \<in> set states \<Longrightarrow> active_model s \<noteq> r"
    using three by (simp add: retire_refusals_def Let_def filter_empty_conv split: if_splits)
  show "cf_previous cfg = Some p \<Longrightarrow> guessed_keys cfg p = []"
    using four by (auto simp: guessed_refusals_def Let_def split: if_splits)
  show "cf_previous cfg \<noteq> None \<Longrightarrow> cf_flip cfg \<noteq> FlipNone \<Longrightarrow> guessed_keys cfg (cf_current cfg) = []"
    using four by (auto simp: guessed_refusals_def Let_def split: if_splits)
qed

lemma phase_ready:
  assumes "phase st cfg cts service = (Ready, reason)"
  shows "service = None" "reason = None" "Some (active_model st) = cf_previous cfg"
    "other_model st = Some (cf_current cfg)" "\<not> ct_other_pending cts > 0"
    "flip_allows (cf_flip cfg) (us_unit st)" "guessed_keys cfg (cf_current cfg) = []"
    "active_model st \<noteq> cf_current cfg"
  using assms
  by (auto simp: phase_def Let_def split: option.splits if_splits)

text \<open>
  A unit is Ready to flip only when its inactive slot already holds the current
  model with nothing pending, the operator's scope allows the unit, no acting threshold of the
  current model is guessed and the service reported no obstacle; the model it flips to differs
  from the one it reads.
\<close>

theorem ready_is_safe:
  assumes "phase st cfg cts service = (Ready, reason)"
  shows "other_model st = Some (cf_current cfg) \<and> target st cfg = other_model st \<and>
     ct_other_pending cts \<le> 0 \<and> flip_allows (cf_flip cfg) (us_unit st) \<and>
     guessed_keys cfg (cf_current cfg) = [] \<and> service = None \<and>
     active_model st \<noteq> cf_current cfg"
  using phase_ready[OF assms] phase_ready(3)[OF assms, symmetric] by (simp add: target_def)

definition sample_state :: unit_state where
  "sample_state = \<lparr>us_unit = u ''me'', us_active_slot = SlotA, us_model_a = Some (u ''old''),
     us_model_b = Some (u ''new''), us_flipped_at = None\<rparr>"

definition sample_cfg :: configured where
  "sample_cfg = \<lparr>cf_current = u ''new'', cf_previous = Some (u ''old''), cf_retire = None,
     cf_flip = FlipAll, cf_rollback_days = 14, cf_guessed_acting = Map.empty, cf_generation = None\<rparr>"

definition sample_counts :: counts where
  "sample_counts = \<lparr>ct_eligible = 9, ct_other_pending = 0, ct_active_holes = 0, ct_foreign_model = 0,
     ct_failed = 0, ct_without_vector = 0, ct_retire_pending = 0\<rparr>"

lemmas samples = sample_state_def sample_cfg_def sample_counts_def

theorem ready_is_safe_witness:
  "other_model sample_state = Some (u ''new'') \<and> active_model sample_state \<noteq> u ''new''"
proof -
  have "phase sample_state sample_cfg sample_counts None = (Ready, None)"
    by (simp add: samples phase_def third_model_def other_model_def active_model_def guessed_keys_def)
  from ready_is_safe[OF this] show ?thesis by (simp add: samples)
qed

lemma fill_target_owns_slot_parts:
  assumes "boot_check states cfg = Inr ()" and "st \<in> set states"
    and "active_named st" and "two_models st"
  shows "phase st cfg cts service = (p, reason) \<Longrightarrow> p \<in> {Filling, Held, Ready, Flipped} \<Longrightarrow>
           (\<exists>t. target st cfg = Some t \<and> t \<noteq> active_model st \<and>
                (other_model st = None \<or> other_model st = Some t))"
    and "third_model st cfg = Some m \<Longrightarrow> fst (phase st cfg cts service) = BlockedP"
proof -
  assume ph: "phase st cfg cts service = (p, reason)" "p \<in> {Filling, Held, Ready, Flipped}"
  note ok = boot_check_ok(1)[OF assms(1)] boot_check_ok(2)[OF assms(1,2)]
  have three: "third_model st cfg = None"
    using ph by (auto simp: phase_def Let_def split: option.splits if_splits)
  have notretire: "\<not> (other_model st \<noteq> None \<and> other_model st = cf_retire cfg)"
    using ph three by (auto simp: phase_def Let_def split: option.splits if_splits)
  have prev: "cf_previous cfg \<noteq> None"
  proof
    assume "cf_previous cfg = None"
    then show False
      using ph three notretire by (auto simp: phase_def Let_def split: option.splits if_splits)
  qed
  then obtain q where q: "cf_previous cfg = Some q" by auto
  have other: "other_model st = None \<or> other_model st = Some (cf_current cfg) \<or> other_model st = Some q"
    using three notretire q by (auto simp: third_model_None)
  have "other_model st \<noteq> Some (active_model st)" by (rule other_not_active[OF assms(3,4)])
  then show "\<exists>t. target st cfg = Some t \<and> t \<noteq> active_model st \<and>
                (other_model st = None \<or> other_model st = Some t)"
    using other ok q by (auto simp: target_def)
next
  assume "third_model st cfg = Some m"
  then show "fst (phase st cfg cts service) = BlockedP" by (simp add: phase_def)
qed

text \<open>
  A sweep never fills over a model nobody configured. With a view boot accepts,
  whenever the phase is one the sweep fills or flips in (filling, held, ready, flipped) the unit
  has a fill target, and an inactive slot that is already named holds exactly that target; while
  a slot holding any third model blocks the unit whatever the service reports.
\<close>

theorem fill_target_owns_slot:
  assumes "boot_check states cfg = Inr ()" and "st \<in> set states"
    and "active_named st" and "two_models st"
  shows "(phase st cfg cts service = (p, reason) \<longrightarrow> p \<in> {Filling, Held, Ready, Flipped} \<longrightarrow>
           (\<exists>t. target st cfg = Some t \<and> t \<noteq> active_model st \<and>
                (other_model st = None \<or> other_model st = Some t))) \<and>
     (third_model st cfg = Some m \<longrightarrow> fst (phase st cfg cts service) = BlockedP)"
proof -
  have p1: "phase st cfg cts service = (p, reason) \<longrightarrow> p \<in> {Filling, Held, Ready, Flipped} \<longrightarrow>
           (\<exists>t. target st cfg = Some t \<and> t \<noteq> active_model st \<and>
                (other_model st = None \<or> other_model st = Some t))"
    by ((intro impI)?, rule fill_target_owns_slot_parts(1)[OF assms]; assumption)
  have p2: "third_model st cfg = Some m \<longrightarrow> fst (phase st cfg cts service) = BlockedP"
    by ((intro impI)?, rule fill_target_owns_slot_parts(2)[OF assms]; assumption)
  show ?thesis by (rule conjI[OF p1 p2])
qed

theorem fill_target_owns_slot_witness:
  "\<exists>t. target sample_state sample_cfg = Some t \<and> t \<noteq> active_model sample_state \<and>
       (other_model sample_state = None \<or> other_model sample_state = Some t)"
proof -
  have "phase sample_state sample_cfg sample_counts None = (Ready, None)"
    by (simp add: samples phase_def third_model_def other_model_def active_model_def guessed_keys_def)
  moreover have "boot_check [sample_state] sample_cfg = Inr ()"
    by (simp add: samples boot_check_def retire_refusals_def guessed_refusals_def active_model_def guessed_keys_def)
  moreover have "active_named sample_state" "two_models sample_state"
    by (simp_all add: samples active_named_def two_models_def)
  ultimately show ?thesis
    using fill_target_owns_slot[of "[sample_state]" sample_cfg sample_state, THEN conjunct1, rule_format] by simp
qed

section \<open>Requests and scopes\<close>

lemma pack_loop_concat:
  "concat (pack_loop m batches opened held rs) = concat batches @ opened @ rs"
  by (induction m batches opened held rs rule: pack_loop.induct) auto

definition batch_chars :: "pending_row list \<Rightarrow> nat" where
  "batch_chars b = sum_list (map row_chars b)"

definition fits :: "nat \<Rightarrow> pending_row list \<Rightarrow> bool" where
  "fits m b \<longleftrightarrow> length b = 1 \<or> (b \<noteq> [] \<and> batch_chars b \<le> m)"

lemma pack_loop_fits:
  "list_all (fits m) batches \<Longrightarrow> held = batch_chars opened \<Longrightarrow> opened = [] \<or> fits m opened \<Longrightarrow>
     list_all (fits m) (pack_loop m batches opened held rs)"
proof (induction m batches opened held rs rule: pack_loop.induct)
  case (1 m batches opened held)
  then show ?case by auto
next
  case (2 m batches opened held r rs)
  show ?case
  proof (cases "opened \<noteq> [] \<and> held + row_chars r > m")
    case True
    have r: "fits m [r]" "row_chars r = batch_chars [r]" by (simp_all add: fits_def batch_chars_def)
    have "opened \<noteq> []" using True by simp
    then have "list_all (fits m) (batches @ [opened])" using "2.prems"(1,3) by simp
    from "2.IH"(1)[OF True this r(2)] r(1) show ?thesis using True by simp
  next
    case False
    have chars: "held + row_chars r = batch_chars (opened @ [r])"
      using "2.prems"(2) by (simp add: batch_chars_def)
    have "fits m (opened @ [r])"
      using False chars by (cases "opened = []") (auto simp: fits_def)
    with "2.IH"(2)[OF False "2.prems"(1) chars]
    show ?thesis using False by (simp only: pack_loop.simps if_False) simp
  qed
qed

lemma pack_spec_parts:
  shows "concat (pack rows max_chars) = rows"
    and "list_all (\<lambda>b. length b = 1 \<or> (b \<noteq> [] \<and> batch_chars b \<le> max_chars)) (pack rows max_chars)"
proof -
  show "concat (pack rows max_chars) = rows" by (simp add: pack_def pack_loop_concat)
  have "list_all (fits max_chars) (pack rows max_chars)"
    unfolding pack_def by (rule pack_loop_fits) (simp_all add: batch_chars_def)
  then show "list_all (\<lambda>b. length b = 1 \<or> (b \<noteq> [] \<and> batch_chars b \<le> max_chars)) (pack rows max_chars)"
    by (simp add: fits_def[abs_def])
qed

text \<open>
  \<open>pack\<close> loses, repeats and reorders no row; every request is non-empty and stays
  within the character budget, unless it is a single row that alone exceeds it.
\<close>

theorem pack_spec:
  shows "(concat (pack rows max_chars) = rows) \<and>
     (list_all (\<lambda>b. length b = 1 \<or> (b \<noteq> [] \<and> batch_chars b \<le> max_chars)) (pack rows max_chars))"
proof -
  have p1: "concat (pack rows max_chars) = rows"
    by ((intro impI)?, rule pack_spec_parts(1); assumption)
  have p2: "list_all (\<lambda>b. length b = 1 \<or> (b \<noteq> [] \<and> batch_chars b \<le> max_chars)) (pack rows max_chars)"
    by ((intro impI)?, rule pack_spec_parts(2); assumption)
  show ?thesis by (rule conjI[OF p1 p2])
qed

lemma flip_units_spec:
  "flip_units raw units parts =
     (if [] \<in> set (map trim parts) then Inl (EmptyUnit raw)
      else Inr (units @ dedupe_seen units (map trim parts)))"
proof (induction parts arbitrary: units)
  case (Cons part parts)
  have "dedupe_seen (units @ [x]) ys = dedupe_seen (x # units) ys" for x and ys :: "str list"
    by (rule dedupe_seen_set) auto
  then show ?case using Cons by (simp add: Let_def)
qed simp

lemma parse_flip_scope_spec_parts:
  assumes "trim raw \<noteq> u ''all''" and "trim raw \<noteq> u ''none''"
  shows "parse_flip_scope raw =
     (if trim raw = [] then Inl NothingGiven
      else if [] \<in> trim ` set (split_on 44 raw) then Inl (EmptyUnit raw)
      else Inr (FlipUnits (dedupe_seen [] (map trim (split_on 44 raw)))))"
    and "parse_flip_scope raw = Inr scope \<Longrightarrow>
       flip_allows scope unit \<longleftrightarrow> unit \<in> trim ` set (split_on 44 raw)"
proof -
  show main: "parse_flip_scope raw =
     (if trim raw = [] then Inl NothingGiven
      else if [] \<in> trim ` set (split_on 44 raw) then Inl (EmptyUnit raw)
      else Inr (FlipUnits (dedupe_seen [] (map trim (split_on 44 raw)))))"
    using assms unfolding parse_flip_scope_def flip_units_spec by (simp del: u_Cons)
  show "flip_allows scope unit \<longleftrightarrow> unit \<in> trim ` set (split_on 44 raw)"
    if "parse_flip_scope raw = Inr scope"
    using that unfolding main by (auto simp: list_ex_iff set_dedupe_seen split: if_splits)
qed

text \<open>
  \<open>EMBED_FLIP\<close> is read fail-closed: a comma list with a blank entry, or nothing at
  all, is an error; otherwise the scope is the trimmed entries, each once in the order first
  seen, and it allows a unit exactly when the unit is one of them.
\<close>

theorem parse_flip_scope_spec:
  assumes "trim raw \<noteq> u ''all''" and "trim raw \<noteq> u ''none''"
  shows "(parse_flip_scope raw =
     (if trim raw = [] then Inl NothingGiven
      else if [] \<in> trim ` set (split_on 44 raw) then Inl (EmptyUnit raw)
      else Inr (FlipUnits (dedupe_seen [] (map trim (split_on 44 raw)))))) \<and>
     (parse_flip_scope raw = Inr scope \<longrightarrow>
       flip_allows scope unit \<longleftrightarrow> unit \<in> trim ` set (split_on 44 raw))"
proof -
  have p1: "parse_flip_scope raw =
     (if trim raw = [] then Inl NothingGiven
      else if [] \<in> trim ` set (split_on 44 raw) then Inl (EmptyUnit raw)
      else Inr (FlipUnits (dedupe_seen [] (map trim (split_on 44 raw)))))"
    by ((intro impI)?, rule parse_flip_scope_spec_parts(1)[OF assms]; assumption)
  have p2: "parse_flip_scope raw = Inr scope \<longrightarrow>
       flip_allows scope unit \<longleftrightarrow> unit \<in> trim ` set (split_on 44 raw)"
    by ((intro impI)?, rule parse_flip_scope_spec_parts(2)[OF assms]; assumption)
  show ?thesis by (rule conjI[OF p1 p2])
qed

theorem parse_flip_scope_spec_witness:
  "parse_flip_scope (u ''me, work ,me'') = Inr (FlipUnits [u ''me'', u ''work'']) \<and>
   \<not> flip_allows (FlipUnits [u ''me'', u ''work'']) (u ''home'')"
proof -
  have p: "parse_flip_scope (u ''me, work ,me'') = Inr (FlipUnits [u ''me'', u ''work''])"
    by code_simp
  have "trim (u ''me, work ,me'') \<noteq> u ''all''" "trim (u ''me, work ,me'') \<noteq> u ''none''" by code_simp+
  from parse_flip_scope_spec[OF this, THEN conjunct2, rule_format, OF p, of "u ''home''"]
  have "\<not> flip_allows (FlipUnits [u ''me'', u ''work'']) (u ''home'') \<longleftrightarrow>
      u ''home'' \<notin> trim ` set (split_on 44 (u ''me, work ,me''))" by simp
  also have "u ''home'' \<notin> trim ` set (split_on 44 (u ''me, work ,me''))" by code_simp
  finally show ?thesis using p by simp
qed

text \<open>The sleep keeps the busy share at the duty: \<open>took\<close> is at least \<open>duty\<close> percent of the cycle.\<close>

lemma fill_sleep_duty:
  assumes "1 \<le> duty" and "duty \<le> 100"
  shows "duty * (took + fill_sleep took duty) \<le> 100 * took"
proof -
  have "max 1 (min 100 duty) = duty" using assms by simp
  then have "fill_sleep took duty * duty \<le> took * (100 - duty)"
    by (simp add: fill_sleep_def)
  moreover have "took * (100 - duty) + took * duty = 100 * took"
    using assms by (simp add: algebra_simps flip: add_mult_distrib2)
  ultimately show ?thesis by (simp add: algebra_simps)
qed

end
