(* ===== verification/Lr_Embedding_Store.thy ===== *)
theory Lr_Embedding_Store
  imports Lr_Embedding
begin

text \<open>
  The statements of \<open>src/src/adapters/postgres/embedding_migration.rs\<close> over one unit's rows.
  Each SQL statement is a function on the tables it reads and writes, with its WHERE clause as
  the guard; the A and B twins are one definition with the slot as argument. A vector is of an
  abstract type; \<open>embedding\<close>/\<open>embedding_model\<close> and \<open>embedding_b\<close>/\<open>embedding_b_model\<close> are kept
  as the four columns they are. The sweep of \<open>services/embedding_migration.rs\<close> is the sequence
  of these statements, in any order and interleaving.
\<close>

section \<open>Tables\<close>

record 'v vrow =
  vr_id :: nat
  vr_sensitivity :: sensitivity
  vr_has_content :: bool
  vr_vec_a :: "'v option"
  vr_model_a :: "str option"
  vr_vec_b :: "'v option"
  vr_model_b :: "str option"

fun vec :: "vector_slot \<Rightarrow> 'v vrow \<Rightarrow> 'v option" where
  "vec SlotA r = vr_vec_a r"
| "vec SlotB r = vr_vec_b r"

fun vec_model :: "vector_slot \<Rightarrow> 'v vrow \<Rightarrow> str option" where
  "vec_model SlotA r = vr_model_a r"
| "vec_model SlotB r = vr_model_b r"

fun put_vec :: "vector_slot \<Rightarrow> 'v option \<Rightarrow> str option \<Rightarrow> 'v vrow \<Rightarrow> 'v vrow" where
  "put_vec SlotA v m r = r\<lparr>vr_vec_a := v, vr_model_a := m\<rparr>"
| "put_vec SlotB v m r = r\<lparr>vr_vec_b := v, vr_model_b := m\<rparr>"

record 'v mig_db =
  db_rows :: "'v vrow list"
  db_state :: "unit_state option"
  db_generation :: "int option"
  db_pairs :: "(nat \<times> nat) list"
  db_scans :: "nat list"

definition eligible :: "'v vrow \<Rightarrow> bool" where
  "eligible r \<longleftrightarrow>
     vr_sensitivity r \<noteq> Sealed \<and> (vr_has_content r \<or> vr_vec_a r \<noteq> None \<or> vr_vec_b r \<noteq> None)"

definition pending :: "vector_slot \<Rightarrow> str \<Rightarrow> 'v vrow \<Rightarrow> bool" where
  "pending slot m r \<longleftrightarrow> eligible r \<and> (vec slot r = None \<or> vec_model slot r \<noteq> Some m)"

definition active_hole :: "vector_slot \<Rightarrow> 'v vrow \<Rightarrow> bool" where
  "active_hole active r \<longleftrightarrow>
     vr_sensitivity r \<noteq> Sealed \<and> (vr_has_content r \<or> vec (other_slot active) r \<noteq> None) \<and>
     vec active r = None"

definition read_counts :: "unit_state \<Rightarrow> str option \<Rightarrow> str option \<Rightarrow> 'v mig_db \<Rightarrow> counts" where
  "read_counts st goal retire db =
     (let active = us_active_slot st; inactive = other_slot active;
          n = (\<lambda>P. int (length (filter P (db_rows db))))
      in \<lparr>ct_eligible = n eligible,
          ct_other_pending = n (\<lambda>r. case goal of None \<Rightarrow> False | Some t \<Rightarrow> pending inactive t r),
          ct_active_holes = n (active_hole active),
          ct_foreign_model = n (\<lambda>r. vec active r \<noteq> None \<and> vec_model active r \<noteq> Some (active_model st)),
          ct_failed = 0,
          ct_without_vector = n (\<lambda>r. vr_sensitivity r \<noteq> Sealed \<and> \<not> vr_has_content r \<and>
                                     vr_vec_a r = None \<and> vr_vec_b r = None),
          ct_retire_pending = n (\<lambda>r. case retire of None \<Rightarrow> False
                                           | Some t \<Rightarrow> vec_model inactive r = Some t)\<rparr>)"

section \<open>Seeding\<close>

definition majority_step ::
  "(str \<rightharpoonup> str \<times> int) \<Rightarrow> str \<times> str \<times> int \<Rightarrow> (str \<rightharpoonup> str \<times> int)" where
  "majority_step best e =
     (case e of (unit, model, n) \<Rightarrow>
        (let wins = (case best unit of None \<Rightarrow> True
                     | Some (held, held_n) \<Rightarrow> n > held_n \<or> (n = held_n \<and> model < held))
         in if wins then best(unit \<mapsto> (model, n)) else best))"

definition majorities :: "(str \<times> str \<times> int) list \<Rightarrow> (str \<rightharpoonup> str \<times> int)" where
  "majorities cts = foldl majority_step Map.empty cts"

definition seed_state :: "str option \<Rightarrow> str option \<Rightarrow> str \<Rightarrow> unit_state" where
  "seed_state model_a model_b unit =
     \<lparr>us_unit = unit, us_active_slot = (if model_a \<noteq> None then SlotA else SlotB),
      us_model_a = model_a,
      us_model_b = (case model_b of None \<Rightarrow> None
                    | Some m \<Rightarrow> if Some m \<noteq> model_a then Some m else None),
      us_flipped_at = None\<rparr>"

definition seed_plan :: "(str \<times> str \<times> int) list \<Rightarrow> (str \<times> str \<times> int) list \<Rightarrow> unit_state list" where
  "seed_plan a b =
     (let ma = majorities a; mb = majorities b;
          units = remdups_adj (sort (map fst a @ map fst b))
      in map (\<lambda>unit. seed_state (map_option fst (ma unit)) (map_option fst (mb unit)) unit) units)"

definition unit_state_of_row ::
  "str \<Rightarrow> str \<Rightarrow> str option \<Rightarrow> str option \<Rightarrow> instant option \<Rightarrow> unit_state res" where
  "unit_state_of_row unit active_slot model_a model_b flipped_at =
     (case parse_slot active_slot of
        None \<Rightarrow> Inl (internal (R_UnknownSlot unit active_slot))
      | Some slot \<Rightarrow>
          (let st = \<lparr>us_unit = unit, us_active_slot = slot, us_model_a = model_a,
                     us_model_b = model_b, us_flipped_at = flipped_at\<rparr>
           in if slot_model st slot = None
              then Inl (internal (R_ActiveSlotUnnamed unit (slot_as_str slot)))
              else Inr st))"

definition verb_from_db :: "str option \<Rightarrow> verb option res" where
  "verb_from_db stored =
     (case stored of
        None \<Rightarrow> Inr None
      | Some s \<Rightarrow>
          (case List.find (\<lambda>v. verb_as_str v = s) [Start, Flip, Rollback, Retire] of
             Some v \<Rightarrow> Inr (Some v)
           | None \<Rightarrow> Inl (internal (R_UnknownVerb s))))"

section \<open>The sweep's statements\<close>

definition set_model :: "vector_slot \<Rightarrow> str option \<Rightarrow> unit_state \<Rightarrow> unit_state" where
  "set_model slot m st =
     (case slot of SlotA \<Rightarrow> st\<lparr>us_model_a := m\<rparr> | SlotB \<Rightarrow> st\<lparr>us_model_b := m\<rparr>)"

definition name_slot :: "vector_slot \<Rightarrow> str \<Rightarrow> 'v mig_db \<Rightarrow> bool \<times> 'v mig_db" where
  "name_slot slot m db =
     (case db_state db of
        None \<Rightarrow> (False, db)
      | Some st \<Rightarrow>
          if us_active_slot st = other_slot slot \<and> slot_model st slot = None \<and>
             slot_model st (other_slot slot) \<noteq> Some m
          then (True, db\<lparr>db_state := Some (set_model slot (Some m) st)\<rparr>)
          else (False, db))"

definition state_names :: "'v mig_db \<Rightarrow> vector_slot \<Rightarrow> str \<Rightarrow> bool" where
  "state_names db slot m =
     (case db_state db of None \<Rightarrow> False | Some st \<Rightarrow> slot_model st slot = Some m)"

definition storable :: "'v mig_db \<Rightarrow> nat \<Rightarrow> vector_slot \<Rightarrow> str \<Rightarrow> 'v vrow \<Rightarrow> bool" where
  "storable db i slot m r \<longleftrightarrow> vr_id r = i \<and> pending slot m r \<and> state_names db slot m"

definition store :: "nat \<Rightarrow> vector_slot \<Rightarrow> str \<Rightarrow> 'v \<Rightarrow> 'v mig_db \<Rightarrow> bool \<times> 'v mig_db" where
  "store i slot m v db =
     (length (filter (storable db i slot m) (db_rows db)) = 1,
      db\<lparr>db_rows := map (\<lambda>r. if storable db i slot m r then put_vec slot (Some v) (Some m) r else r)
                       (db_rows db)\<rparr>)"

definition inactive_in :: "'v mig_db \<Rightarrow> vector_slot \<Rightarrow> bool" where
  "inactive_in db slot =
     (case db_state db of None \<Rightarrow> False | Some st \<Rightarrow> us_active_slot st = other_slot slot)"

definition retire_ids :: "vector_slot \<Rightarrow> str \<Rightarrow> nat \<Rightarrow> 'v mig_db \<Rightarrow> nat list" where
  "retire_ids slot m limit db =
     (if inactive_in db slot
      then take limit (sort (map vr_id (filter (\<lambda>r. vec_model slot r = Some m) (db_rows db))))
      else [])"

definition retire_batch :: "vector_slot \<Rightarrow> str \<Rightarrow> nat \<Rightarrow> 'v mig_db \<Rightarrow> nat \<times> 'v mig_db" where
  "retire_batch slot m limit db =
     (let ids = retire_ids slot m limit db
      in (length (filter (\<lambda>r. vr_id r \<in> set ids) (db_rows db)),
          db\<lparr>db_rows := map (\<lambda>r. if vr_id r \<in> set ids then put_vec slot None None r else r)
                           (db_rows db)\<rparr>))"

definition clear_slot :: "vector_slot \<Rightarrow> str \<Rightarrow> 'v mig_db \<Rightarrow> bool \<times> 'v mig_db" where
  "clear_slot slot m db =
     (case db_state db of
        None \<Rightarrow> (False, db)
      | Some st \<Rightarrow>
          if slot_model st slot = Some m \<and> us_active_slot st = other_slot slot \<and>
             \<not> list_ex (\<lambda>r. vec_model slot r = Some m) (db_rows db)
          then (True, db\<lparr>db_state := Some (set_model slot None st)\<rparr>)
          else (False, db))"

record flip_request =
  fr_expect :: unit_state
  fr_target_slot :: vector_slot
  fr_target_model :: str
  fr_expect_generation :: "int option"

datatype flip_outcome = FlipDone | FlipStale | FlipIncomplete nat | FlipLockTimeout

definition check_flip_request :: "flip_request \<Rightarrow> (reason, unit) result" where
  "check_flip_request req =
     (let expect = fr_expect req; slot = fr_target_slot req
      in if slot = us_active_slot expect
         then Inl (R_FlipTargetsActive (us_unit expect) (slot_as_str slot))
         else if slot_model expect slot \<noteq> Some (fr_target_model req)
         then Inl (R_FlipTargetsOther (us_unit expect) (fr_target_model req) (slot_as_str slot)
                     (slot_model expect slot))
         else Inr ())"

definition stale_state ::
  "unit_state \<Rightarrow> (vector_slot \<times> str option \<times> str option) option \<Rightarrow> bool" where
  "stale_state expect locked =
     (case locked of
        Some (slot, a, b) \<Rightarrow>
          slot \<noteq> us_active_slot expect \<or> a \<noteq> us_model_a expect \<or> b \<noteq> us_model_b expect
      | None \<Rightarrow> True)"

definition stale_generation :: "int option \<Rightarrow> int option \<Rightarrow> bool" where
  "stale_generation expect locked \<longleftrightarrow> expect \<noteq> None \<and> expect \<noteq> locked"

text \<open>
  The flip's transaction. \<open>row_lock\<close> and \<open>key_lock\<close> say whether the state row and the conflict
  key came within \<open>lock_timeout\<close>; a refusal or a timeout rolls back, so the tables are those it
  started from.
\<close>

definition flip_tx ::
  "flip_request \<Rightarrow> bool \<Rightarrow> bool \<Rightarrow> instant \<Rightarrow> 'v mig_db \<Rightarrow> flip_outcome \<times> 'v mig_db" where
  "flip_tx req row_lock key_lock now db =
     (let locked = map_option (\<lambda>st. (us_active_slot st, us_model_a st, us_model_b st)) (db_state db);
          waiting = length (filter (pending (fr_target_slot req) (fr_target_model req)) (db_rows db))
      in if \<not> row_lock then (FlipLockTimeout, db)
         else if stale_state (fr_expect req) locked then (FlipStale, db)
         else if stale_generation (fr_expect_generation req) (db_generation db) then (FlipStale, db)
         else if waiting > 0 then (FlipIncomplete waiting, db)
         else if \<not> key_lock then (FlipLockTimeout, db)
         else (FlipDone,
               db\<lparr>db_state := map_option (\<lambda>st. st\<lparr>us_active_slot := fr_target_slot req,
                                                     us_flipped_at := Some now\<rparr>) (db_state db),
                  db_pairs := [], db_scans := []\<rparr>))"

definition flip_unit ::
  "flip_request \<Rightarrow> bool \<Rightarrow> bool \<Rightarrow> instant \<Rightarrow> 'v mig_db \<Rightarrow> flip_outcome res \<times> 'v mig_db" where
  "flip_unit req row_lock key_lock now db =
     (case check_flip_request req of
        Inl why \<Rightarrow> (Inl (internal why), db)
      | Inr _ \<Rightarrow> (let (out, db') = flip_tx req row_lock key_lock now db in (Inr out, db')))"

text \<open>The batch loop of \<open>Sweep::retire\<close>, ending at the first batch that clears nothing.\<close>

function retire_loop :: "vector_slot \<Rightarrow> str \<Rightarrow> nat \<Rightarrow> 'v mig_db \<Rightarrow> 'v mig_db" where
  "retire_loop slot m limit db =
     (let (n, db') = retire_batch slot m limit db
      in if n = 0 then db' else retire_loop slot m limit db')"
  by pat_completeness auto

section \<open>Basic facts\<close>

lemma put_vec_simps [simp]:
  "vr_id (put_vec s v m r) = vr_id r"
  "vr_sensitivity (put_vec s v m r) = vr_sensitivity r"
  "vr_has_content (put_vec s v m r) = vr_has_content r"
  "vec s (put_vec s v m r) = v" "vec_model s (put_vec s v m r) = m"
  by (cases s; simp)+

lemma put_vec_other:
  "s \<noteq> t \<Longrightarrow> vec t (put_vec s v m r) = vec t r" "s \<noteq> t \<Longrightarrow> vec_model t (put_vec s v m r) = vec_model t r"
  by (cases s; cases t; simp)+

lemma eligible_slot:
  "eligible r \<longleftrightarrow> vr_sensitivity r \<noteq> Sealed \<and>
     (vr_has_content r \<or> vec s r \<noteq> None \<or> vec (other_slot s) r \<noteq> None)"
  by (cases s) (auto simp: eligible_def)

lemma active_hole_iff: "active_hole s r \<longleftrightarrow> eligible r \<and> vec s r = None"
  by (auto simp: active_hole_def eligible_slot[of r s])

lemma set_model_simps [simp]:
  "slot_model (set_model s m st) s = m"
  "us_active_slot (set_model s m st) = us_active_slot st"
  "us_unit (set_model s m st) = us_unit st"
  by (cases s; simp add: set_model_def)+

lemma set_model_other: "s \<noteq> t \<Longrightarrow> slot_model (set_model s m st) t = slot_model st t"
  by (cases s; cases t; simp add: set_model_def)

lemma two_models_slot:
  "two_models st \<longleftrightarrow> slot_model st s = None \<or> slot_model st (other_slot s) = None \<or>
     slot_model st s \<noteq> slot_model st (other_slot s)"
  by (cases s) (auto simp: two_models_def)

section \<open>The migration as a state machine\<close>

datatype 'v mig_event =
    EName vector_slot str
  | EStore nat vector_slot str 'v
  | EFlip flip_request bool bool instant
  | ERetire vector_slot str nat
  | EClear vector_slot str

fun mig_step :: "'v mig_db \<Rightarrow> 'v mig_event \<Rightarrow> 'v mig_db" where
  "mig_step db (EName s m) = snd (name_slot s m db)"
| "mig_step db (EStore i s m v) = snd (store i s m v db)"
| "mig_step db (EFlip req l1 l2 now) = snd (flip_unit req l1 l2 now db)"
| "mig_step db (ERetire s m limit) = snd (retire_batch s m limit db)"
| "mig_step db (EClear s m) = snd (clear_slot s m db)"

text \<open>The table's constraints hold, and no slot holds a vector of a model its state does not name.\<close>

definition constraints_ok :: "'v mig_db \<Rightarrow> bool" where
  "constraints_ok db = (case db_state db of None \<Rightarrow> True | Some st \<Rightarrow> active_named st \<and> two_models st)"

definition slot_discipline :: "'v mig_db \<Rightarrow> bool" where
  "slot_discipline db =
     (\<forall>r \<in> set (db_rows db). \<forall>s m. vec_model s r = Some m \<longrightarrow> state_names db s m)"

definition no_active_holes :: "'v mig_db \<Rightarrow> bool" where
  "no_active_holes db =
     (case db_state db of None \<Rightarrow> True
      | Some st \<Rightarrow> (\<forall>r \<in> set (db_rows db). \<not> active_hole (us_active_slot st) r))"

definition mig_inv :: "'v mig_db \<Rightarrow> bool" where
  "mig_inv db \<longleftrightarrow> constraints_ok db \<and> slot_discipline db \<and> no_active_holes db"

lemmas inv_defs = mig_inv_def constraints_ok_def slot_discipline_def no_active_holes_def

lemma name_slot_cases:
  "(b, db') = name_slot s m db \<Longrightarrow>
     (\<not> b \<and> db' = db) \<or>
     (b \<and> (\<exists>st. db_state db = Some st \<and> us_active_slot st = other_slot s \<and> slot_model st s = None \<and>
        slot_model st (other_slot s) \<noteq> Some m \<and> db' = db\<lparr>db_state := Some (set_model s (Some m) st)\<rparr>))"
  by (auto simp: name_slot_def split: option.splits if_splits)

lemma clear_slot_cases:
  "(b, db') = clear_slot s m db \<Longrightarrow>
     (\<not> b \<and> db' = db) \<or>
     (b \<and> (\<exists>st. db_state db = Some st \<and> us_active_slot st = other_slot s \<and> slot_model st s = Some m \<and>
        (\<forall>r \<in> set (db_rows db). vec_model s r \<noteq> Some m) \<and>
        db' = db\<lparr>db_state := Some (set_model s None st)\<rparr>))"
  by (auto simp: clear_slot_def list_ex_iff split: option.splits if_splits)

lemma flip_unit_cases:
  assumes "(out, db') = flip_unit req l1 l2 now db"
  shows "(out \<noteq> Inr FlipDone \<and> db' = db) \<or>
     (out = Inr FlipDone \<and> (\<exists>st. db_state db = Some st \<and>
        us_active_slot st = other_slot (fr_target_slot req) \<and>
        slot_model st (fr_target_slot req) = Some (fr_target_model req) \<and>
        (\<forall>r \<in> set (db_rows db). \<not> pending (fr_target_slot req) (fr_target_model req) r) \<and>
        \<not> stale_generation (fr_expect_generation req) (db_generation db) \<and>
        db' = db\<lparr>db_state := Some (st\<lparr>us_active_slot := fr_target_slot req, us_flipped_at := Some now\<rparr>),
                 db_pairs := [], db_scans := []\<rparr>))"
proof (cases "check_flip_request req")
  case (Inl why)
  then show ?thesis using assms by (simp add: flip_unit_def)
next
  case (Inr ok)
  have slot: "fr_target_slot req \<noteq> us_active_slot (fr_expect req)"
    "slot_model (fr_expect req) (fr_target_slot req) = Some (fr_target_model req)"
    using Inr by (auto simp: check_flip_request_def Let_def split: if_splits)
  show ?thesis
  proof (cases "fst (flip_tx req l1 l2 now db) = FlipDone")
    case False
    then have "snd (flip_tx req l1 l2 now db) = db"
      by (auto simp: flip_tx_def Let_def split: if_splits)
    then show ?thesis using assms Inr False by (auto simp: flip_unit_def split: prod.splits)
  next
    case True
    then obtain st where st: "db_state db = Some st"
      by (cases "db_state db") (auto simp: flip_tx_def Let_def stale_state_def split: if_splits)
    have same: "us_active_slot st = us_active_slot (fr_expect req)"
      "us_model_a st = us_model_a (fr_expect req)" "us_model_b st = us_model_b (fr_expect req)"
      using True st by (auto simp: flip_tx_def Let_def stale_state_def split: if_splits)
    have a: "us_active_slot st = other_slot (fr_target_slot req)"
      using slot(1) same slot_cases[of "us_active_slot st" "fr_target_slot req"] by simp
    have b: "slot_model st (fr_target_slot req) = Some (fr_target_model req)"
      using slot(2) same by (cases "fr_target_slot req") simp_all
    have c: "\<forall>r \<in> set (db_rows db). \<not> pending (fr_target_slot req) (fr_target_model req) r"
      "\<not> stale_generation (fr_expect_generation req) (db_generation db)"
      using True by (auto simp: flip_tx_def Let_def filter_empty_conv split: if_splits)
    have "snd (flip_tx req l1 l2 now db) =
        db\<lparr>db_state := Some (st\<lparr>us_active_slot := fr_target_slot req, us_flipped_at := Some now\<rparr>),
           db_pairs := [], db_scans := []\<rparr>"
      using True st by (auto simp: flip_tx_def Let_def split: if_splits)
    then show ?thesis using assms Inr True st a b c by (auto simp: flip_unit_def split: prod.splits)
  qed
qed

lemma retire_ids_from:
  "i \<in> set (retire_ids s m limit db) \<Longrightarrow>
     inactive_in db s \<and> (\<exists>r \<in> set (db_rows db). vr_id r = i \<and> vec_model s r = Some m)"
  by (auto simp: retire_ids_def dest!: in_set_takeD split: if_splits)

definition carrying :: "vector_slot \<Rightarrow> str \<Rightarrow> 'v mig_db \<Rightarrow> nat" where
  "carrying s m db = length (filter (\<lambda>r. vec_model s r = Some m) (db_rows db))"

lemma retire_carrying:
  fixes db :: "'v mig_db"
  shows "fst (retire_batch s m limit db) \<noteq> 0 \<Longrightarrow>
           carrying s m (snd (retire_batch s m limit db)) < carrying s m db"
proof -
  let ?ids = "retire_ids s m limit db" and ?rows = "db_rows db"
  let ?f = "\<lambda>r. if vr_id r \<in> set ?ids then put_vec s None None r else r"
  have count: "filter (\<lambda>r. vec_model s r = Some m) (map ?f rows) =
      filter (\<lambda>r. vr_id r \<notin> set ?ids) (filter (\<lambda>r. vec_model s r = Some m) rows)"
    for rows :: "'v vrow list" by (induction rows) auto
  assume "fst (retire_batch s m limit db) \<noteq> 0"
  then obtain i where "i \<in> set ?ids" by (auto simp: retire_batch_def Let_def filter_empty_conv)
  then obtain r where r: "r \<in> set ?rows" "vr_id r \<in> set ?ids" "vec_model s r = Some m"
    using retire_ids_from by blast
  then have "r \<in> set (filter (\<lambda>r. vec_model s r = Some m) ?rows)" by simp
  then have "length (filter (\<lambda>r. vr_id r \<notin> set ?ids) (filter (\<lambda>r. vec_model s r = Some m) ?rows)) <
      length (filter (\<lambda>r. vec_model s r = Some m) ?rows)"
    using r(2) by (intro length_filter_less) auto
  then show "carrying s m (snd (retire_batch s m limit db)) < carrying s m db"
    by (simp add: carrying_def retire_batch_def Let_def count)
qed

termination retire_loop
proof (relation "measure (\<lambda>(s, m, limit, db). carrying s m db)")
  fix s m limit and db :: "'v mig_db" and x n db'
  assume "x = retire_batch s m limit db" "(n, db') = x" "n \<noteq> 0"
  then show "((s, m, limit, db'), s, m, limit, db) \<in> measure (\<lambda>(s, m, limit, db). carrying s m db)"
    using retire_carrying[of s m limit db] by (metis case_prod_conv fst_conv in_measure snd_conv)
qed simp

lemma inactive_inD: "inactive_in db s \<Longrightarrow> db_state db = Some st \<Longrightarrow> us_active_slot st = other_slot s"
  by (simp add: inactive_in_def)

lemma retire_batch_simps:
  "db_state (snd (retire_batch s m limit db)) = db_state db"
  "r \<in> set (db_rows (snd (retire_batch s m limit db))) \<Longrightarrow>
     \<exists>q \<in> set (db_rows db). r = (if vr_id q \<in> set (retire_ids s m limit db) then put_vec s None None q else q)"
  by (auto simp: retire_batch_def Let_def)

lemma store_simps:
  "db_state (snd (store i s m v db)) = db_state db"
  "r \<in> set (db_rows (snd (store i s m v db))) \<Longrightarrow>
     \<exists>q \<in> set (db_rows db). r = (if storable db i s m q then put_vec s (Some v) (Some m) q else q)"
  by (auto simp: store_def)

subsection \<open>Each statement keeps the invariant\<close>

lemma inv_name_slot: "mig_inv db \<Longrightarrow> mig_inv (snd (name_slot s m db))"
proof -
  assume inv: "mig_inv db"
  obtain b db' where e: "(b, db') = name_slot s m db" by (metis prod.collapse)
  from name_slot_cases[OF e] show ?thesis
  proof (elim disjE conjE exE)
    assume "db' = db"
    then show ?thesis using e inv by (metis snd_conv)
  next
    fix st
    assume st: "db_state db = Some st" "us_active_slot st = other_slot s" "slot_model st s = None"
      "slot_model st (other_slot s) \<noteq> Some m" "db' = db\<lparr>db_state := Some (set_model s (Some m) st)\<rparr>"
    have other: "slot_model (set_model s (Some m) st) (other_slot s) = slot_model st (other_slot s)"
      by (rule set_model_other) simp
    have "constraints_ok db'"
      using inv st other by (simp add: inv_defs active_named_def two_models_slot[of _ s])
    moreover have "slot_discipline db'"
      unfolding slot_discipline_def
    proof (intro ballI allI impI)
      fix r t n assume r: "r \<in> set (db_rows db')" "vec_model t r = Some n"
      then have named: "slot_model st t = Some n"
        using inv st(1,5) by (auto simp: inv_defs state_names_def)
      then have "t \<noteq> s" using st(3) by auto
      then show "state_names db' t n"
        using named st(5) by (simp add: state_names_def set_model_other)
    qed
    moreover have "no_active_holes db'" using inv st by (simp add: inv_defs)
    ultimately show ?thesis using e by (metis mig_inv_def snd_conv)
  qed
qed

lemma inv_clear_slot: "mig_inv db \<Longrightarrow> mig_inv (snd (clear_slot s m db))"
proof -
  assume inv: "mig_inv db"
  obtain b db' where e: "(b, db') = clear_slot s m db" by (metis prod.collapse)
  from clear_slot_cases[OF e] show ?thesis
  proof (elim disjE conjE exE)
    assume "db' = db"
    then show ?thesis using e inv by (metis snd_conv)
  next
    fix st
    assume st: "db_state db = Some st" "us_active_slot st = other_slot s" "slot_model st s = Some m"
      "\<forall>r \<in> set (db_rows db). vec_model s r \<noteq> Some m" "db' = db\<lparr>db_state := Some (set_model s None st)\<rparr>"
    have other: "slot_model (set_model s None st) (other_slot s) = slot_model st (other_slot s)"
      by (rule set_model_other) simp
    have "constraints_ok db'"
      using inv st other by (simp add: inv_defs active_named_def two_models_slot[of _ s])
    moreover have "slot_discipline db'"
      unfolding slot_discipline_def
    proof (intro ballI allI impI)
      fix r t n assume r: "r \<in> set (db_rows db')" "vec_model t r = Some n"
      then have named: "slot_model st t = Some n"
        using inv st(1,5) by (auto simp: inv_defs state_names_def)
      have "t \<noteq> s" using named r st(3,4,5) by auto
      then show "state_names db' t n"
        using named st(5) by (simp add: state_names_def set_model_other)
    qed
    moreover have "no_active_holes db'" using inv st by (simp add: inv_defs)
    ultimately show ?thesis using e by (metis mig_inv_def snd_conv)
  qed
qed

lemma inv_store: "mig_inv db \<Longrightarrow> mig_inv (snd (store i s m v db))"
proof -
  assume inv: "mig_inv db"
  let ?db = "snd (store i s m v db)"
  have st: "db_state ?db = db_state db" by (rule store_simps)
  have names: "state_names ?db = state_names db" by (simp add: state_names_def fun_eq_iff st)
  have "constraints_ok ?db" using inv by (simp add: inv_defs st)
  moreover have "slot_discipline ?db"
    unfolding slot_discipline_def names
  proof (intro ballI allI impI)
    fix r t n assume r: "r \<in> set (db_rows ?db)" "vec_model t r = Some n"
    obtain q where q: "q \<in> set (db_rows db)"
      "r = (if storable db i s m q then put_vec s (Some v) (Some m) q else q)"
      using store_simps(2)[OF r(1)] by blast
    show "state_names db t n"
    proof (cases "storable db i s m q \<and> t = s")
      case True
      then show ?thesis using q r(2) by (auto simp: storable_def)
    next
      case False
      then have "vec_model t q = Some n" using q(2) r(2) by (auto simp: put_vec_other split: if_splits)
      then show ?thesis using inv q(1) by (auto simp: inv_defs)
    qed
  qed
  moreover have "no_active_holes ?db"
    unfolding no_active_holes_def st
  proof (cases "db_state db")
    case (Some state)
    have "\<not> active_hole (us_active_slot state) r" if r: "r \<in> set (db_rows ?db)" for r
    proof -
      obtain q where q: "q \<in> set (db_rows db)"
        "r = (if storable db i s m q then put_vec s (Some v) (Some m) q else q)"
        using store_simps(2)[OF r] by blast
      have hole: "\<not> active_hole (us_active_slot state) q" using inv q(1) Some by (auto simp: inv_defs)
      show ?thesis
      proof (cases "storable db i s m q")
        case True
        then have "eligible q" by (simp add: storable_def pending_def)
        then show ?thesis using hole q(2) True slot_cases[of "us_active_slot state" s]
          by (auto simp: active_hole_iff put_vec_other)
      qed (use hole q in simp)
    qed
    then show "case db_state db of None \<Rightarrow> True
       | Some state \<Rightarrow> \<forall>r \<in> set (db_rows ?db). \<not> active_hole (us_active_slot state) r"
      using Some by simp
  qed simp
  ultimately show ?thesis by (simp add: mig_inv_def)
qed

declare retire_loop.simps [simp del]

lemma inv_retire: "mig_inv db \<Longrightarrow> mig_inv (snd (retire_batch s m limit db))"
proof -
  assume inv: "mig_inv db"
  let ?db = "snd (retire_batch s m limit db)" and ?ids = "retire_ids s m limit db"
  have st: "db_state ?db = db_state db" by (rule retire_batch_simps)
  have names: "state_names ?db = state_names db" by (simp add: state_names_def fun_eq_iff st)
  have "constraints_ok ?db" using inv by (simp add: inv_defs st)
  moreover have "slot_discipline ?db"
    unfolding slot_discipline_def names
  proof (intro ballI allI impI)
    fix r t n assume r: "r \<in> set (db_rows ?db)" "vec_model t r = Some n"
    obtain q where q: "q \<in> set (db_rows db)"
      "r = (if vr_id q \<in> set ?ids then put_vec s None None q else q)"
      using retire_batch_simps(2)[OF r(1)] by blast
    have "vec_model t q = Some n"
    proof (cases "t = s")
      case True
      then show ?thesis using q(2) r(2) by (simp split: if_splits)
    next
      case False
      then have "vec_model t (put_vec s None None q) = vec_model t q" by (intro put_vec_other) simp
      then show ?thesis using q(2) r(2) by (simp split: if_splits)
    qed
    then show "state_names db t n" using inv q(1) by (auto simp: inv_defs)
  qed
  moreover have "no_active_holes ?db"
    unfolding no_active_holes_def st
  proof (cases "db_state db")
    case (Some state)
    have "\<not> active_hole (us_active_slot state) r" if r: "r \<in> set (db_rows ?db)" for r
    proof -
      obtain q where q: "q \<in> set (db_rows db)"
        "r = (if vr_id q \<in> set ?ids then put_vec s None None q else q)"
        using retire_batch_simps(2)[OF r] by blast
      have hole: "\<not> active_hole (us_active_slot state) q" using inv q(1) Some by (auto simp: inv_defs)
      show ?thesis
      proof (cases "vr_id q \<in> set ?ids")
        case True
        then have active: "us_active_slot state = other_slot s"
          using retire_ids_from inactive_inD Some by blast
        have same: "vec (other_slot s) r = vec (other_slot s) q"
          using q(2) True by (simp add: put_vec_other)
        have "eligible r \<Longrightarrow> eligible q"
          using q(2) True same by (auto simp: eligible_slot[of _ s])
        then show ?thesis using hole same active by (auto simp: active_hole_iff)
      qed (use hole q in simp)
    qed
    then show "case db_state db of None \<Rightarrow> True
       | Some state \<Rightarrow> \<forall>r \<in> set (db_rows ?db). \<not> active_hole (us_active_slot state) r"
      using Some by simp
  qed simp
  ultimately show ?thesis by (simp add: mig_inv_def)
qed

lemma inv_flip: "mig_inv db \<Longrightarrow> mig_inv (snd (flip_unit req l1 l2 now db))"
proof -
  assume inv: "mig_inv db"
  obtain out db' where e: "(out, db') = flip_unit req l1 l2 now db" by (metis prod.collapse)
  let ?s = "fr_target_slot req"
  from flip_unit_cases[OF e] show ?thesis
  proof (elim disjE conjE exE)
    assume "db' = db"
    then show ?thesis using e inv by (metis snd_conv)
  next
    fix st
    assume st: "db_state db = Some st" "us_active_slot st = other_slot ?s"
      "slot_model st ?s = Some (fr_target_model req)"
      "\<forall>r \<in> set (db_rows db). \<not> pending ?s (fr_target_model req) r"
      "db' = db\<lparr>db_state := Some (st\<lparr>us_active_slot := ?s, us_flipped_at := Some now\<rparr>),
                 db_pairs := [], db_scans := []\<rparr>"
    have model: "slot_model (st\<lparr>us_active_slot := x, us_flipped_at := y\<rparr>) t = slot_model st t" for x y t
      by (cases t) simp_all
    have "constraints_ok db'"
      using inv st(1,3,5) by (simp add: inv_defs active_named_def two_models_def model)
    moreover have "slot_discipline db'"
      using inv st(1,5) by (simp add: inv_defs state_names_def model)
    moreover have "no_active_holes db'"
      using st(4,5) by (auto simp: inv_defs active_hole_iff pending_def)
    ultimately show ?thesis using e by (metis mig_inv_def snd_conv)
  qed
qed

interpretation migration: invariant_machine mig_step mig_inv
proof
  fix db :: "'a mig_db" and e
  assume "mig_inv db"
  then show "mig_inv (mig_step db e)"
    by (cases e) (simp_all add: inv_name_slot inv_store inv_flip inv_retire inv_clear_slot)
qed

section \<open>Properties\<close>

text \<open>
  A migration hides nothing: from a unit whose constraints hold, whose vectors
  carry only models its state names and whose every searchable row has an active vector, any
  sequence of the sweep's statements (naming, storing, flipping, retiring, clearing, in any
  order, with any arguments, losing any lock) keeps all three.
\<close>

theorem sweep_keeps_rows_searchable:
  assumes "mig_inv db"
  shows "mig_inv (run mig_step db es)"
  by (rule migration.run_inv[OF assms])

definition sample_db :: "nat mig_db" where
  "sample_db =
     \<lparr>db_rows = [\<lparr>vr_id = 1, vr_sensitivity = Open, vr_has_content = True, vr_vec_a = Some 7,
                  vr_model_a = Some (u ''old''), vr_vec_b = None, vr_model_b = None\<rparr>],
      db_state = Some \<lparr>us_unit = u ''me'', us_active_slot = SlotA, us_model_a = Some (u ''old''),
                       us_model_b = None, us_flipped_at = None\<rparr>,
      db_generation = None, db_pairs = [(1, 2)], db_scans = []\<rparr>"

lemma sample_db_inv: "mig_inv sample_db"
proof -
  have "vec_model s (hd (db_rows sample_db)) = Some m \<Longrightarrow> state_names sample_db s m" for s m
    by (cases s) (auto simp: sample_db_def state_names_def)
  then show ?thesis
    by (auto simp: mig_inv_def constraints_ok_def slot_discipline_def no_active_holes_def
        active_named_def two_models_def active_hole_def sample_db_def)
qed

theorem sweep_keeps_rows_searchable_witness:
  "mig_inv (run mig_step sample_db [EName SlotB (u ''new''), EStore 1 SlotB (u ''new'') 9])"
  by (rule sweep_keeps_rows_searchable[OF sample_db_inv])

lemma flip_done_complete_parts:
  assumes "flip_unit req row_lock key_lock now db = (out, db')"
  shows "out = Inr FlipDone \<Longrightarrow> r \<in> set (db_rows db') \<Longrightarrow> eligible r \<Longrightarrow>
           \<exists>st. db_state db' = Some st \<and> vec (us_active_slot st) r \<noteq> None \<and>
             vec_model (us_active_slot st) r = Some (fr_target_model req) \<and>
             slot_model st (us_active_slot st) = Some (fr_target_model req)"
    and "out = Inr FlipDone \<Longrightarrow>
           db_rows db' = db_rows db \<and> db_pairs db' = [] \<and> db_scans db' = [] \<and>
           \<not> stale_generation (fr_expect_generation req) (db_generation db)"
    and "out \<noteq> Inr FlipDone \<Longrightarrow> db' = db"
proof -
  note c = flip_unit_cases[OF assms[symmetric]]
  show "out \<noteq> Inr FlipDone \<Longrightarrow> db' = db" using c by blast
  show "out = Inr FlipDone \<Longrightarrow>
           db_rows db' = db_rows db \<and> db_pairs db' = [] \<and> db_scans db' = [] \<and>
           \<not> stale_generation (fr_expect_generation req) (db_generation db)"
    using c by auto
  assume fin: "out = Inr FlipDone" "r \<in> set (db_rows db')" "eligible r"
  then obtain st where st: "slot_model st (fr_target_slot req) = Some (fr_target_model req)"
      "\<forall>r \<in> set (db_rows db). \<not> pending (fr_target_slot req) (fr_target_model req) r"
      "db' = db\<lparr>db_state := Some (st\<lparr>us_active_slot := fr_target_slot req, us_flipped_at := Some now\<rparr>),
                 db_pairs := [], db_scans := []\<rparr>"
    using c by blast
  have model: "slot_model (st\<lparr>us_active_slot := x, us_flipped_at := y\<rparr>) t = slot_model st t" for x y t
    by (cases t) simp_all
  show "\<exists>st. db_state db' = Some st \<and> vec (us_active_slot st) r \<noteq> None \<and>
             vec_model (us_active_slot st) r = Some (fr_target_model req) \<and>
             slot_model st (us_active_slot st) = Some (fr_target_model req)"
    using st fin by (auto simp: pending_def model)
qed


definition sample_ready :: "nat mig_db" where
  "sample_ready = run mig_step sample_db [EName SlotB (u ''new''), EStore 1 SlotB (u ''new'') 9]"

definition sample_request :: flip_request where
  "sample_request =
     \<lparr>fr_expect = \<lparr>us_unit = u ''me'', us_active_slot = SlotA, us_model_a = Some (u ''old''),
                   us_model_b = Some (u ''new''), us_flipped_at = None\<rparr>,
      fr_target_slot = SlotB, fr_target_model = u ''new'', fr_expect_generation = None\<rparr>"


lemma retire_batch_zero:
  assumes "inactive_in db s" and "0 < limit" and "fst (retire_batch s m limit db) = 0"
  shows "carrying s m db = 0"
proof (rule ccontr)
  assume "carrying s m db \<noteq> 0"
  then have "filter (\<lambda>r. vec_model s r = Some m) (db_rows db) \<noteq> []" by (simp add: carrying_def)
  then have "sort (map vr_id (filter (\<lambda>r. vec_model s r = Some m) (db_rows db))) \<noteq> []"
    by (metis length_0_conv length_map length_sort)
  then have "retire_ids s m limit db \<noteq> []" using assms(1,2) by (simp add: retire_ids_def)
  then obtain i where i: "i \<in> set (retire_ids s m limit db)" by (meson list.set_sel(1))
  then obtain r where "r \<in> set (db_rows db)" "vr_id r = i" using retire_ids_from by blast
  then show False using assms(3) i by (auto simp: retire_batch_def Let_def filter_empty_conv)
qed

lemma retire_batch_active:
  "map (vec (other_slot s)) (db_rows (snd (retire_batch s m limit db))) =
     map (vec (other_slot s)) (db_rows db)"
  by (simp add: retire_batch_def Let_def put_vec_other comp_def)

lemma inactive_in_state: "db_state db' = db_state db \<Longrightarrow> inactive_in db' s = inactive_in db s"
  by (simp add: inactive_in_def)

lemma retire_loop_step:
  "retire_loop s m limit db =
     (if fst (retire_batch s m limit db) = 0 then snd (retire_batch s m limit db)
      else retire_loop s m limit (snd (retire_batch s m limit db)))"
  by (subst retire_loop.simps) (simp add: split_beta Let_def)

lemma retire_batch_le: "carrying s m (snd (retire_batch s m limit db)) \<le> carrying s m db"
proof (cases "fst (retire_batch s m limit db) = 0")
  case True
  then have "\<forall>r \<in> set (db_rows db). vr_id r \<notin> set (retire_ids s m limit db)"
    by (auto simp: retire_batch_def Let_def filter_empty_conv)
  then have "db_rows (snd (retire_batch s m limit db)) = db_rows db"
    by (auto simp: retire_batch_def Let_def intro: map_idI)
  then show ?thesis by (simp add: carrying_def)
next
  case False
  then show ?thesis using retire_carrying[OF False] by simp
qed

lemma retire_finishes_parts:
  assumes "inactive_in db s" and "0 < limit"
  shows "carrying s m (retire_loop s m limit db) = 0"
    and "map (vec (other_slot s)) (db_rows (retire_loop s m limit db)) =
           map (vec (other_slot s)) (db_rows db)"
    and "db_state (retire_loop s m limit db) = db_state db"
    and "state_names db s m \<Longrightarrow> fst (clear_slot s m (retire_loop s m limit db))"
proof -
  let ?P = "\<lambda>db. inactive_in db s \<longrightarrow> carrying s m (retire_loop s m limit db) = 0 \<and>
     map (vec (other_slot s)) (db_rows (retire_loop s m limit db)) = map (vec (other_slot s)) (db_rows db) \<and>
     db_state (retire_loop s m limit db) = db_state db"
  have "?P d" for d :: "'a mig_db"
  proof (induction "carrying s m d" arbitrary: d rule: less_induct)
    case less
    let ?d = "snd (retire_batch s m limit d)"
    have same: "db_state ?d = db_state d" "inactive_in ?d s = inactive_in d s"
      by (simp_all add: retire_batch_simps inactive_in_def)
    show ?case
    proof (cases "fst (retire_batch s m limit d) = 0")
      case True
      then have loop: "retire_loop s m limit d = ?d" by (subst retire_loop_step) simp
      show ?thesis
        using retire_batch_zero[OF _ assms(2) True] retire_batch_le[of s m limit d]
          retire_batch_active[of s m limit d] same(1) unfolding loop by linarith
    next
      case False
      then have loop: "retire_loop s m limit d = retire_loop s m limit ?d"
        by (subst retire_loop_step) simp
      have "?P ?d" by (rule less[OF retire_carrying[OF False]])
      then show ?thesis using same retire_batch_active[of s m limit d] by (simp add: loop)
    qed
  qed
  from this[of db] assms(1) show main: "carrying s m (retire_loop s m limit db) = 0"
    "map (vec (other_slot s)) (db_rows (retire_loop s m limit db)) = map (vec (other_slot s)) (db_rows db)"
    "db_state (retire_loop s m limit db) = db_state db" by simp_all
  have "\<not> list_ex (\<lambda>r. vec_model s r = Some m) (db_rows (retire_loop s m limit db))"
    using main(1) by (auto simp: carrying_def filter_empty_conv list_ex_iff)
  then show "state_names db s m \<Longrightarrow> fst (clear_slot s m (retire_loop s m limit db))"
    using main(3) assms(1)
    by (auto simp: clear_slot_def state_names_def inactive_in_def split: option.splits)
qed



definition majority_of :: "(str \<times> str \<times> int) list \<Rightarrow> str \<Rightarrow> str \<Rightarrow> bool" where
  "majority_of cts unit m \<longleftrightarrow>
     (\<exists>n. (unit, m, n) \<in> set cts \<and>
        (\<forall>m' n'. (unit, m', n') \<in> set cts \<longrightarrow> n' < n \<or> (n' = n \<and> m \<le> m')))"

lemma majorities_snoc: "majorities (cts @ [e]) = majority_step (majorities cts) e"
  by (simp add: majorities_def)

lemma majorities_spec:
  "(case majorities cts unit of
      None \<Rightarrow> unit \<notin> fst ` set cts
    | Some (m, n) \<Rightarrow> (unit, m, n) \<in> set cts \<and>
        (\<forall>m' n'. (unit, m', n') \<in> set cts \<longrightarrow> n' < n \<or> (n' = n \<and> m \<le> m')))"
proof (induction cts rule: rev_induct)
  case Nil
  then show ?case by (simp add: majorities_def)
next
  case (snoc e cts)
  obtain v m n where e: "e = (v, m, n)" by (cases e)
  show ?case
  proof (cases "v = unit")
    case False
    then show ?thesis using snoc
      by (auto simp: majorities_snoc majority_step_def e Let_def split: option.splits)
  next
    case True
    show ?thesis
    proof (cases "majorities cts unit")
      case None
      then have "unit \<notin> fst ` set cts" using snoc by simp
      then show ?thesis using None True
        by (force simp: majorities_snoc majority_step_def e)
    next
      case (Some p)
      obtain held hn where p: "p = (held, hn)" by (cases p)
      have held: "(unit, held, hn) \<in> set cts"
        "\<And>m' n'. (unit, m', n') \<in> set cts \<Longrightarrow> n' < hn \<or> (n' = hn \<and> held \<le> m')"
        using snoc Some p by auto
      show ?thesis
      proof (cases "n > hn \<or> (n = hn \<and> m < held)")
        case wins: True
        have "n' < n \<or> (n' = n \<and> m \<le> m')" if "(unit, m', n') \<in> set cts" for m' n'
          using held(2)[OF that] wins by force
        then show ?thesis using Some p True wins
          by (auto simp: majorities_snoc majority_step_def e)
      next
        case False
        have "n < hn \<or> (n = hn \<and> held \<le> m)" using False by force
        then show ?thesis using Some p True False held
          by (auto simp: majorities_snoc majority_step_def e)
      qed
    qed
  qed
qed

lemma majorities_None: "majorities cts unit = None \<longleftrightarrow> unit \<notin> fst ` set cts"
  using majorities_spec[where cts = cts and unit = unit] by (cases "majorities cts unit") force+

lemma majorities_Some: "majorities cts unit = Some (m, n) \<Longrightarrow> majority_of cts unit m"
  using majorities_spec[where cts = cts and unit = unit] by (auto simp: majority_of_def)

lemma majorities_fst: "map_option fst (majorities cts unit) = Some m \<Longrightarrow> majority_of cts unit m"
  using majorities_Some by (cases "majorities cts unit") auto

lemma seed_state_ok:
  "a \<noteq> None \<or> b \<noteq> None \<Longrightarrow>
     active_named (seed_state a b v) \<and> two_models (seed_state a b v)"
  by (cases a; cases b) (auto simp: seed_state_def active_named_def two_models_def)

lemma seed_plan_spec_parts:
  shows "sorted_wrt (<) (map us_unit (seed_plan a b))"
    and "set (map us_unit (seed_plan a b)) = fst ` set a \<union> fst ` set b"
    and "st \<in> set (seed_plan a b) \<Longrightarrow> active_named st \<and> two_models st"
    and "st \<in> set (seed_plan a b) \<Longrightarrow> us_model_a st = Some m \<Longrightarrow> majority_of a (us_unit st) m"
    and "st \<in> set (seed_plan a b) \<Longrightarrow> us_model_b st = Some m \<Longrightarrow> majority_of b (us_unit st) m"
    and "st \<in> set (seed_plan a b) \<Longrightarrow> us_unit st \<in> fst ` set a \<Longrightarrow> us_active_slot st = SlotA"
proof -
  let ?units = "remdups_adj (sort (map fst a @ map fst b))"
  have units: "map us_unit (seed_plan a b) = ?units"
    by (simp add: seed_plan_def Let_def seed_state_def comp_def)
  have "sorted_wrt (<) (remdups_adj xs)" if "sorted xs" for xs :: "str list"
    using that by (induction xs rule: remdups_adj.induct) (auto simp: less_le)
  then show "sorted_wrt (<) (map us_unit (seed_plan a b))" unfolding units by simp
  show set_units: "set (map us_unit (seed_plan a b)) = fst ` set a \<union> fst ` set b"
    unfolding units by simp
  have st: "st = seed_state (map_option fst (majorities a (us_unit st)))
      (map_option fst (majorities b (us_unit st))) (us_unit st)" "us_unit st \<in> fst ` set a \<union> fst ` set b"
    if st: "st \<in> set (seed_plan a b)" for st
  proof -
    obtain v where v: "v \<in> set ?units"
      "st = seed_state (map_option fst (majorities a v)) (map_option fst (majorities b v)) v"
      using st by (auto simp: seed_plan_def Let_def simp del: set_append)
    then have "us_unit st = v" by (simp add: seed_state_def)
    then show "st = seed_state (map_option fst (majorities a (us_unit st)))
        (map_option fst (majorities b (us_unit st))) (us_unit st)"
      and "us_unit st \<in> fst ` set a \<union> fst ` set b" using v by simp_all
  qed
  show "active_named st \<and> two_models st" if "st \<in> set (seed_plan a b)" for st
  proof -
    have "majorities a (us_unit st) \<noteq> None \<or> majorities b (us_unit st) \<noteq> None"
      using st(2)[OF that] by (auto simp: majorities_None)
    then have "map_option fst (majorities a (us_unit st)) \<noteq> None \<or>
        map_option fst (majorities b (us_unit st)) \<noteq> None" by auto
    from seed_state_ok[OF this, of "us_unit st"] show ?thesis
      by (simp only: st(1)[OF that, symmetric])
  qed
  show "majority_of a (us_unit st) m" if "st \<in> set (seed_plan a b)" "us_model_a st = Some m" for st m
  proof -
    have "us_model_a st = map_option fst (majorities a (us_unit st))"
      by (subst st(1)[OF that(1)]) (simp add: seed_state_def)
    then show ?thesis using that(2) by (intro majorities_fst) simp
  qed
  show "majority_of b (us_unit st) m" if "st \<in> set (seed_plan a b)" "us_model_b st = Some m" for st m
  proof -
    have "us_model_b st = (case map_option fst (majorities b (us_unit st)) of None \<Rightarrow> None
        | Some m \<Rightarrow> if Some m \<noteq> map_option fst (majorities a (us_unit st)) then Some m else None)"
      by (subst st(1)[OF that(1)]) (simp add: seed_state_def)
    then show ?thesis using that(2)
      by (intro majorities_fst) (auto split: option.splits if_splits)
  qed
  show "us_active_slot st = SlotA" if "st \<in> set (seed_plan a b)" "us_unit st \<in> fst ` set a" for st
  proof -
    have "majorities a (us_unit st) \<noteq> None" using that(2) by (auto simp: majorities_None)
    then show ?thesis by (subst st(1)[OF that(1)]) (auto simp: seed_state_def)
  qed
qed

text \<open>
  Seeding names every unit that holds a vector, once each in unit order, and every
  row it proposes satisfies the table's constraints: the active slot is named, the two slots
  never name one model, each named slot names a majority model of its column (ties to the lower
  id), and slot A is the active one whenever column A holds a vector.
\<close>

theorem seed_plan_spec:
  shows "(sorted_wrt (<) (map us_unit (seed_plan a b))) \<and>
     (set (map us_unit (seed_plan a b)) = fst ` set a \<union> fst ` set b) \<and>
     (st \<in> set (seed_plan a b) \<longrightarrow> active_named st \<and> two_models st) \<and>
     (st \<in> set (seed_plan a b) \<longrightarrow> us_model_a st = Some m \<longrightarrow> majority_of a (us_unit st) m) \<and>
     (st \<in> set (seed_plan a b) \<longrightarrow> us_model_b st = Some m \<longrightarrow> majority_of b (us_unit st) m) \<and>
     (st \<in> set (seed_plan a b) \<longrightarrow> us_unit st \<in> fst ` set a \<longrightarrow> us_active_slot st = SlotA)"
proof -
  have p1: "sorted_wrt (<) (map us_unit (seed_plan a b))"
    by ((intro impI)?, rule seed_plan_spec_parts(1); assumption)
  have p2: "set (map us_unit (seed_plan a b)) = fst ` set a \<union> fst ` set b"
    by ((intro impI)?, rule seed_plan_spec_parts(2); assumption)
  have p3: "st \<in> set (seed_plan a b) \<longrightarrow> active_named st \<and> two_models st"
    by ((intro impI)?, rule seed_plan_spec_parts(3); assumption)
  have p4: "st \<in> set (seed_plan a b) \<longrightarrow> us_model_a st = Some m \<longrightarrow> majority_of a (us_unit st) m"
    by ((intro impI)?, rule seed_plan_spec_parts(4); assumption)
  have p5: "st \<in> set (seed_plan a b) \<longrightarrow> us_model_b st = Some m \<longrightarrow> majority_of b (us_unit st) m"
    by ((intro impI)?, rule seed_plan_spec_parts(5); assumption)
  have p6: "st \<in> set (seed_plan a b) \<longrightarrow> us_unit st \<in> fst ` set a \<longrightarrow> us_active_slot st = SlotA"
    by ((intro impI)?, rule seed_plan_spec_parts(6); assumption)
  show ?thesis by (rule conjI[OF p1 conjI[OF p2 conjI[OF p3 conjI[OF p4 conjI[OF p5 p6]]]]])
qed

theorem seed_plan_spec_witness:
  "set (map us_unit (seed_plan [(u ''me'', u ''old'', 3)] [(u ''me'', u ''old'', 2)])) = {u ''me''} \<and>
   two_models (hd (seed_plan [(u ''me'', u ''old'', 3)] [(u ''me'', u ''old'', 2)]))"
proof -
  let ?p = "seed_plan [(u ''me'', u ''old'', 3)] [(u ''me'', u ''old'', 2)]"
  have s: "set (map us_unit ?p) = {u ''me''}" using seed_plan_spec[THEN conjunct2, THEN conjunct1, rule_format] by force
  then have "?p \<noteq> []" by auto
  then have "hd ?p \<in> set ?p" by simp
  then show ?thesis using s seed_plan_spec[THEN conjunct2, THEN conjunct2, THEN conjunct1, rule_format] by blast
qed

end
