(* ===== verification/Lr_Embedding_Command.thy ===== *)
theory Lr_Embedding_Command
  imports Lr_Embedding
begin

text \<open>
  What \<open>lumberroom-server embeddings\<close> decides, \<open>src/src/domain/embedding_command.rs\<close>: the four
  verbs as functions of the control row's intent and the view the command gathered, the view
  the phase rules read back out of the intent, and the drift check. Operator messages are
  symbolic constructors carrying what the text interpolates; the check of each verb stands in
  the order of the source's early returns.
\<close>

section \<open>Inputs and answers\<close>

record view =
  vw_sweep_on :: bool
  vw_blocks :: "str list"
  vw_states :: "unit_state list"
  vw_statuses :: "unit_status list"
  vw_guessed_acting :: "str \<rightharpoonup> str list"
  vw_rollback_days :: int
  vw_now :: instant
  vw_disk :: "disk_status option"
  vw_probe :: "(str, unit) result option"

datatype spread = NoUnit | Spread "(str \<times> str list) list"

datatype refusal =
    SweepOff verb
  | StartOneBlock "str list"
  | StartSameBlocks str
  | StartNoUnits str
  | StartSpread spread
  | StartUnknownActive "str list" str "str list"
  | StartGuessed "str list" str "str list" str
  | StartRetiring str "(str \<times> str) list"
  | StartThird str "(str \<times> str) list"
  | StartDisk nat nat
  | StartProbe str str
  | FlipNoTarget
  | FlipUnknownTarget str "str list"
  | FlipGuessed str "str list" str
  | RollbackNoOld "str list" str
  | RollbackManyOld str "str list"
  | RollbackOldGone "str list" str str "str list"
  | RetireSpread spread
  | RetireBehind str "(str \<times> str) list"
  | RetireMany "str list"
  | RetireBothSlots str
  | RetireUnpublished "str list"
  | RetireFailing "(str \<times> int) list"
  | RetireWindowOpen "(str \<times> instant \<times> instant) list"

datatype nothing_to_do =
    StartAlready str int
  | FlipAllActive "str list" str
  | FlipRequested int "str list"
  | RollbackCancelling str int
  | RollbackNothing
  | RollbackRequested str int "str list"
  | RetireNoUnits
  | RetireNoSecond str
  | RetireAlready str int

datatype written =
    W_StartResumes str "str list"
  | W_Start "str list" str str "int option"
  | W_Flip "str list" str
  | W_FlipWaits str "(str \<times> int) list"
  | W_RollbackCancels str "int option" "str list"
  | W_RollbackRefills str int "str list"
  | W_RollbackFills str int "str list"
  | W_RollbackInstant str "str list"
  | W_Retire str "str list"

datatype decision = Write intent_change written | NoOp nothing_to_do | Refuse refusal

section \<open>Helpers\<close>

definition names :: "unit_state list \<Rightarrow> str list" where
  "names states = map us_unit states"

definition common_active :: "unit_state list \<Rightarrow> (spread, str) result" where
  "common_active states =
     (case states of
        [] \<Rightarrow> Inl NoUnit
      | first # _ \<Rightarrow>
          (if list_all (\<lambda>s. active_model s = active_model first) states then Inr (active_model first)
           else Inl (Spread (map (\<lambda>m. (m, names (filter (\<lambda>s. active_model s = m) states)))
                               (remdups_adj (sort (map active_model states)))))))"

definition start_target :: "str list \<Rightarrow> unit_state list \<Rightarrow> str option" where
  "start_target blocks states =
     (case blocks of
        [first, second] \<Rightarrow>
          (if first = second then None
           else (case common_active states of
                   Inl _ \<Rightarrow> None
                 | Inr active \<Rightarrow> if active = first then Some second
                                else if active = second then Some first else None))
      | _ \<Rightarrow> None)"

definition threshold_variable :: "str list \<Rightarrow> str \<Rightarrow> str" where
  "threshold_variable blocks m =
     (case List.find (\<lambda>(i, b). b = m) (List.enumerate 0 blocks) of
        Some (i, _) \<Rightarrow> (if i = Suc 0 then u ''EMBED_PREVIOUS_THRESHOLDS'' else u ''EMBED_THRESHOLDS'')
      | None \<Rightarrow> u ''EMBED_THRESHOLDS'')"

definition guessed :: "view \<Rightarrow> str \<Rightarrow> str list" where
  "guessed vw m = (case vw_guessed_acting vw m of None \<Rightarrow> [] | Some ks \<Rightarrow> ks)"

definition status_of :: "view \<Rightarrow> str \<Rightarrow> unit_status option" where
  "status_of vw unit = List.find (\<lambda>s. st_unit s = unit) (vw_statuses vw)"

definition other_models :: "unit_state list \<Rightarrow> str list" where
  "other_models states = remdups_adj (sort (filter_map other_model states))"

definition held_pairs :: "unit_state list \<Rightarrow> (str \<times> str) list" where
  "held_pairs states = map (\<lambda>s. (us_unit s, case other_model s of None \<Rightarrow> [] | Some m \<Rightarrow> m)) states"

section \<open>The verbs\<close>

definition disk_full :: "view \<Rightarrow> (nat \<times> nat) option" where
  "disk_full vw =
     (case vw_disk vw of
        Some d \<Rightarrow> (if dk_free_bytes d \<le> dk_floor_bytes d
                   then Some (dk_free_bytes d, dk_floor_bytes d) else None)
      | None \<Rightarrow> None)"

definition probe_failed :: "view \<Rightarrow> str option" where
  "probe_failed vw = (case vw_probe vw of Some (Inl e) \<Rightarrow> Some e | _ \<Rightarrow> None)"

definition start_message :: "intent \<Rightarrow> view \<Rightarrow> str \<Rightarrow> str \<Rightarrow> written" where
  "start_message it vw active goal =
     (if in_retire it = Some goal then W_StartResumes goal (names (vw_states vw))
      else W_Start (names (vw_states vw)) active goal
             (if vw_statuses vw = [] then None
              else Some (sum_list (map (\<lambda>s. ct_eligible (st_counts s)) (vw_statuses vw)))))"

definition start_checked :: "intent \<Rightarrow> view \<Rightarrow> str \<Rightarrow> str \<Rightarrow> decision" where
  "start_checked it vw active goal =
     (let blocks = vw_blocks vw; states = vw_states vw; leaving = guessed vw active;
          third = filter (\<lambda>s. case other_model s of None \<Rightarrow> False | Some m \<Rightarrow> m \<noteq> goal) states
      in if in_target it = Some goal \<and> in_retire it = None
           then NoOp (StartAlready goal (in_generation it))
         else if leaving \<noteq> []
           then Refuse (StartGuessed (names states) active leaving (threshold_variable blocks active))
         else if third \<noteq> []
           then (let held = (case other_model (hd third) of None \<Rightarrow> [] | Some m \<Rightarrow> m)
                 in if in_retire it = Some held then Refuse (StartRetiring held (held_pairs third))
                    else Refuse (StartThird goal (held_pairs third)))
         else (case disk_full vw of
             Some (free, least) \<Rightarrow> Refuse (StartDisk free least)
           | None \<Rightarrow> (case probe_failed vw of
               Some e \<Rightarrow> Refuse (StartProbe goal e)
             | None \<Rightarrow> Write \<lparr>ch_target = Some goal, ch_flip = False, ch_retire = None, ch_verb = Start\<rparr>
                         (start_message it vw active goal))))"

definition decide_start :: "intent \<Rightarrow> view \<Rightarrow> decision" where
  "decide_start it vw =
     (let blocks = vw_blocks vw; states = vw_states vw
      in if length blocks \<noteq> 2 then Refuse (StartOneBlock blocks)
         else if blocks ! 0 = blocks ! 1 then Refuse (StartSameBlocks (blocks ! 0))
         else (case common_active states of
             Inl spread \<Rightarrow> (if states = [] then Refuse (StartNoUnits (blocks ! 0))
                            else Refuse (StartSpread spread))
           | Inr active \<Rightarrow>
               (case start_target blocks states of
                  None \<Rightarrow> Refuse (StartUnknownActive (names states) active blocks)
                | Some goal \<Rightarrow> start_checked it vw active goal)))"

definition decide_flip :: "intent \<Rightarrow> view \<Rightarrow> decision" where
  "decide_flip it vw =
     (case in_target it of
        None \<Rightarrow> Refuse FlipNoTarget
      | Some goal \<Rightarrow>
          (let waiting = filter (\<lambda>s. active_model s \<noteq> goal) (vw_states vw); keys = guessed vw goal;
               filling = filter_map (\<lambda>s. case status_of vw (us_unit s) of
                             Some st \<Rightarrow> (if ct_other_pending (st_counts st) > 0
                                        then Some (st_unit st, ct_other_pending (st_counts st)) else None)
                           | None \<Rightarrow> None) waiting
           in if goal \<notin> set (vw_blocks vw) then Refuse (FlipUnknownTarget goal (vw_blocks vw))
              else if waiting = [] then NoOp (FlipAllActive (names (vw_states vw)) goal)
              else if in_flip it then NoOp (FlipRequested (in_generation it) (names waiting))
              else if keys \<noteq> [] then Refuse (FlipGuessed goal keys (threshold_variable (vw_blocks vw) goal))
              else Write \<lparr>ch_target = Some goal, ch_flip = True, ch_retire = in_retire it, ch_verb = Flip\<rparr>
                     (if filling = [] then W_Flip (names waiting) goal else W_FlipWaits goal filling)))"

definition rollback_cancel :: "view \<Rightarrow> str \<Rightarrow> decision" where
  "rollback_cancel vw goal =
     Write \<lparr>ch_target = None, ch_flip = False, ch_retire = Some goal, ch_verb = Rollback\<rparr>
       (W_RollbackCancels goal
          (if vw_statuses vw = [] then None
           else Some (sum_list (map (\<lambda>s. max 0 (ct_eligible (st_counts s) - ct_other_pending (st_counts s)))
                                    (vw_statuses vw))))
          (names (vw_states vw)))"

definition rollback_write :: "intent \<Rightarrow> view \<Rightarrow> unit_state list \<Rightarrow> str \<Rightarrow> decision" where
  "rollback_write it vw on_target old =
     (let retire_touched = (in_retire it = Some old \<or> list_ex (\<lambda>s. other_model s = None) on_target);
          refill = sum_list (filter_map (\<lambda>s. map_option (\<lambda>st.
              if other_model s = None then ct_eligible (st_counts st)
              else if retire_touched
                then max 0 (ct_eligible (st_counts st) - ct_retire_pending (st_counts st))
              else ct_other_pending (st_counts st)) (status_of vw (us_unit s))) on_target);
          units = names on_target
      in Write \<lparr>ch_target = Some old, ch_flip = True, ch_retire = None, ch_verb = Rollback\<rparr>
           (if retire_touched then W_RollbackRefills old refill units
            else if refill > 0 then W_RollbackFills old refill units
            else W_RollbackInstant old units))"

definition decide_rollback :: "intent \<Rightarrow> view \<Rightarrow> decision" where
  "decide_rollback it vw =
     (case in_target it of
        None \<Rightarrow> NoOp (case in_retire it of Some r \<Rightarrow> RollbackCancelling r (in_generation it)
                                        | None \<Rightarrow> RollbackNothing)
      | Some goal \<Rightarrow>
          (let on_target = filter (\<lambda>s. active_model s = goal) (vw_states vw);
               finish = (\<lambda>old. if old \<notin> set (vw_blocks vw)
                               then Refuse (RollbackOldGone (names on_target) goal old (vw_blocks vw))
                               else rollback_write it vw on_target old)
           in if on_target = [] then
                (if in_verb it = Some Rollback \<and> in_flip it
                 then NoOp (RollbackRequested goal (in_generation it) (names (vw_states vw)))
                 else rollback_cancel vw goal)
              else (case other_models on_target of
                  [one] \<Rightarrow> finish one
                | [] \<Rightarrow> (case List.find (\<lambda>b. b \<noteq> goal) (vw_blocks vw) of
                           Some b \<Rightarrow> finish b
                         | None \<Rightarrow> Refuse (RollbackNoOld (names on_target) goal))
                | many \<Rightarrow> Refuse (RollbackManyOld goal many))))"

definition retire_failing :: "view \<Rightarrow> (str \<times> int) list" where
  "retire_failing vw =
     filter_map (\<lambda>s. case status_of vw (us_unit s) of
         Some st \<Rightarrow> (if ct_failed (st_counts st) > 0 then Some (st_unit st, ct_failed (st_counts st)) else None)
       | None \<Rightarrow> None) (vw_states vw)"

definition retire_open :: "view \<Rightarrow> (str \<times> instant \<times> instant) list" where
  "retire_open vw =
     filter_map (\<lambda>s. case us_flipped_at s of
         Some f \<Rightarrow> (if f + days (vw_rollback_days vw) > vw_now vw
                    then Some (us_unit s, f, f + days (vw_rollback_days vw)) else None)
       | None \<Rightarrow> None) (vw_states vw)"

definition retire_checked :: "intent \<Rightarrow> view \<Rightarrow> str \<Rightarrow> str \<Rightarrow> decision" where
  "retire_checked it vw goal retire =
     (let unpublished = filter (\<lambda>s. status_of vw (us_unit s) = None) (vw_states vw)
      in if in_retire it = Some retire then NoOp (RetireAlready retire (in_generation it))
         else if retire = goal then Refuse (RetireBothSlots goal)
         else if unpublished \<noteq> [] then Refuse (RetireUnpublished (names unpublished))
         else if retire_failing vw \<noteq> [] then Refuse (RetireFailing (retire_failing vw))
         else if retire_open vw \<noteq> [] then Refuse (RetireWindowOpen (retire_open vw))
         else Write \<lparr>ch_target = in_target it, ch_flip = in_flip it, ch_retire = Some retire,
                     ch_verb = Retire\<rparr> (W_Retire retire (names (vw_states vw))))"

definition decide_retire :: "intent \<Rightarrow> view \<Rightarrow> decision" where
  "decide_retire it vw =
     (let states = vw_states vw
      in if states = [] then NoOp RetireNoUnits
         else (case (case in_target it of Some t \<Rightarrow> Inr t | None \<Rightarrow> common_active states) of
             Inl spread \<Rightarrow> Refuse (RetireSpread spread)
           | Inr goal \<Rightarrow>
               (let behind = filter (\<lambda>s. active_model s \<noteq> goal) states
                in if behind \<noteq> [] then Refuse (RetireBehind goal (map (\<lambda>s. (us_unit s, active_model s)) behind))
                   else (case other_models states of
                       [] \<Rightarrow> NoOp (RetireNoSecond goal)
                     | [one] \<Rightarrow> retire_checked it vw goal one
                     | many \<Rightarrow> Refuse (RetireMany many)))))"

definition decide :: "verb \<Rightarrow> intent \<Rightarrow> view \<Rightarrow> decision" where
  "decide vb it vw =
     (if \<not> vw_sweep_on vw then Refuse (SweepOff vb)
      else (case vb of
          Start \<Rightarrow> decide_start it vw
        | Flip \<Rightarrow> decide_flip it vw
        | Rollback \<Rightarrow> decide_rollback it vw
        | Retire \<Rightarrow> decide_retire it vw))"

section \<open>Reading the intent back\<close>

datatype view_error = NoBlock | TargetNotConfigured str "str list"

definition configured_from_intent ::
  "intent \<Rightarrow> str list \<Rightarrow> str option \<Rightarrow> int \<Rightarrow> (str \<rightharpoonup> str list) \<Rightarrow> (view_error, configured) result" where
  "configured_from_intent it blocks default_active rollback_days guessed_acting =
     (let mk = (\<lambda>current previous flip.
          \<lparr>cf_current = current, cf_previous = previous, cf_retire = in_retire it, cf_flip = flip,
           cf_rollback_days = rollback_days, cf_guessed_acting = guessed_acting,
           cf_generation = Some (in_generation it)\<rparr>)
      in case in_target it of
           None \<Rightarrow>
             (case (case default_active of Some a \<Rightarrow> Some a
                      | None \<Rightarrow> (case blocks of [] \<Rightarrow> None | b # _ \<Rightarrow> Some b)) of
                None \<Rightarrow> Inl NoBlock
              | Some active \<Rightarrow> Inr (mk active None FlipNone))
         | Some goal \<Rightarrow>
             if goal \<notin> set blocks then Inl (TargetNotConfigured goal blocks)
             else if in_retire it \<noteq> None then Inr (mk goal None FlipAll)
             else Inr (mk goal (List.find (\<lambda>b. b \<noteq> goal) blocks)
                         (if in_flip it then FlipAll else FlipNone)))"

datatype drift_error = OtherModels "str list" instant "str list"
datatype drift_warning = NoRecentPass int "instant option"

text \<open>\<open>num_seconds\<close> truncates toward zero; \<open>saturating_mul\<close> stops at \<open>u64::MAX\<close> and the window
  at \<open>i64::MAX\<close>.\<close>

definition drift ::
  "str list \<Rightarrow> published \<Rightarrow> nat \<Rightarrow> instant \<Rightarrow> (drift_error, drift_warning option) result" where
  "drift blocks pb interval_secs now =
     (let window = min (2 ^ 64 - 1) (int interval_secs * 3);
          window_i64 = min (2 ^ 63 - 1) window;
          recent = (case pb_seen_at pb of
              None \<Rightarrow> None
            | Some seen \<Rightarrow>
                (let d = now - seen;
                     secs = (if d < 0 then - ((- d) div 1000000000) else d div 1000000000)
                 in if secs \<le> window_i64 then Some seen else None))
      in case recent of
           None \<Rightarrow> Inr (Some (NoRecentPass window (pb_seen_at pb)))
         | Some seen \<Rightarrow>
             if pb_server_models pb = blocks then Inr None
             else Inl (OtherModels blocks seen (pb_server_models pb)))"

text \<open>\<open>change_intent\<close>: the repository adds one to the generation when a decision writes.\<close>

definition apply_change :: "intent \<Rightarrow> intent_change \<Rightarrow> intent" where
  "apply_change it ch =
     \<lparr>in_generation = in_generation it + 1, in_target = ch_target ch, in_flip = ch_flip ch,
      in_retire = ch_retire ch, in_verb = Some (ch_verb ch)\<rparr>"

section \<open>Facts\<close>

lemma common_active_Inr: "common_active states = Inr m \<Longrightarrow> states \<noteq> [] \<and> (\<forall>s \<in> set states. active_model s = m)"
  by (auto simp: common_active_def list_all_iff split: list.splits if_splits)

lemma start_target_Some:
  assumes "start_target blocks states = Some goal"
  shows "\<exists>active. set blocks = {active, goal} \<and> active \<noteq> goal \<and> common_active states = Inr active"
  using assms by (auto simp: start_target_def split: list.splits sum.splits if_splits)

lemma set_other_models: "m \<in> set (other_models states) \<longleftrightarrow> (\<exists>s \<in> set states. other_model s = Some m)"
  by (auto simp: other_models_def set_filter_map)

lemma filter_map_Nil: "filter_map f xs = [] \<longleftrightarrow> (\<forall>x \<in> set xs. f x = None)"
  by (induction xs) (auto split: option.splits)

lemma decide_start_Write:
  assumes "decide_start it vw = Write ch w"
  obtains active goal where "set (vw_blocks vw) = {active, goal}" "active \<noteq> goal"
    "\<forall>s \<in> set (vw_states vw). active_model s = active" "vw_states vw \<noteq> []"
    "\<forall>s \<in> set (vw_states vw). other_model s = None \<or> other_model s = Some goal"
    "guessed vw active = []" "disk_full vw = None" "probe_failed vw = None"
    "ch = \<lparr>ch_target = Some goal, ch_flip = False, ch_retire = None, ch_verb = Start\<rparr>"
proof -
  obtain active goal where g: "common_active (vw_states vw) = Inr active"
    "start_target (vw_blocks vw) (vw_states vw) = Some goal" "start_checked it vw active goal = Write ch w"
    using assms by (auto simp: decide_start_def Let_def split: if_splits sum.splits option.splits)
  obtain a where a: "set (vw_blocks vw) = {a, goal}" "a \<noteq> goal" "common_active (vw_states vw) = Inr a"
    using start_target_Some[OF g(2)] by blast
  have c: "guessed vw active = []" "disk_full vw = None" "probe_failed vw = None"
    "filter (\<lambda>s. case other_model s of None \<Rightarrow> False | Some m \<Rightarrow> m \<noteq> goal) (vw_states vw) = []"
    "ch = \<lparr>ch_target = Some goal, ch_flip = False, ch_retire = None, ch_verb = Start\<rparr>"
    using g(3) by (auto simp: start_checked_def Let_def split: if_splits option.splits)
  have "other_model s = None \<or> other_model s = Some goal" if "s \<in> set (vw_states vw)" for s
    using c(4) that by (cases "other_model s") (auto simp: filter_empty_conv)
  then show ?thesis using that a c common_active_Inr[OF g(1)] g(1) by auto
qed

lemma decide_rollback_Write:
  assumes "decide_rollback it vw = Write ch w"
  obtains (cancel) goal where "in_target it = Some goal" "\<forall>s \<in> set (vw_states vw). active_model s \<noteq> goal"
      "ch = \<lparr>ch_target = None, ch_flip = False, ch_retire = Some goal, ch_verb = Rollback\<rparr>"
  | (returns) goal old where "in_target it = Some goal" "\<exists>s \<in> set (vw_states vw). active_model s = goal"
      "old \<in> set (vw_blocks vw)"
      "\<forall>s \<in> set (vw_states vw). active_model s = goal \<longrightarrow> other_model s = None \<or> other_model s = Some old"
      "ch = \<lparr>ch_target = Some old, ch_flip = True, ch_retire = None, ch_verb = Rollback\<rparr>"
proof -
  obtain goal where goal: "in_target it = Some goal"
    using assms by (auto simp: decide_rollback_def split: option.splits)
  let ?on = "filter (\<lambda>s. active_model s = goal) (vw_states vw)"
  show ?thesis
  proof (cases "?on = []")
    case True
    then have "ch = \<lparr>ch_target = None, ch_flip = False, ch_retire = Some goal, ch_verb = Rollback\<rparr>"
      using assms goal by (auto simp: decide_rollback_def Let_def rollback_cancel_def split: if_splits)
    then show ?thesis using cancel goal True by (auto simp: filter_empty_conv)
  next
    case False
    obtain old where old: "old \<in> set (vw_blocks vw)" "rollback_write it vw ?on old = Write ch w"
      "set (other_models ?on) \<subseteq> {old}"
      using assms goal False
      by (auto simp: decide_rollback_def Let_def split: list.splits option.splits if_splits)
    have "ch = \<lparr>ch_target = Some old, ch_flip = True, ch_retire = None, ch_verb = Rollback\<rparr>"
      using old(2) by (auto simp: rollback_write_def Let_def)
    moreover have "other_model s = None \<or> other_model s = Some old"
      if "s \<in> set (vw_states vw)" "active_model s = goal" for s
      using old(3) that set_other_models[of _ ?on] by (cases "other_model s") auto
    ultimately show ?thesis using returns[OF goal _ old(1)] False by (auto simp: filter_empty_conv)
  qed
qed

lemma decide_retire_Write:
  assumes "decide_retire it vw = Write ch w"
  obtains goal r where "vw_states vw \<noteq> []" "\<forall>s \<in> set (vw_states vw). active_model s = goal" "r \<noteq> goal"
    "\<forall>s \<in> set (vw_states vw). other_model s = None \<or> other_model s = Some r"
    "\<forall>s \<in> set (vw_states vw). status_of vw (us_unit s) \<noteq> None"
    "retire_failing vw = []" "retire_open vw = []"
    "ch = \<lparr>ch_target = in_target it, ch_flip = in_flip it, ch_retire = Some r, ch_verb = Retire\<rparr>"
proof -
  let ?goal = "case in_target it of Some t \<Rightarrow> Inr t | None \<Rightarrow> common_active (vw_states vw)"
  obtain goal where goal: "?goal = Inr goal"
    using assms by (auto simp: decide_retire_def Let_def split: if_splits sum.splits)
  have behind: "filter (\<lambda>s. active_model s \<noteq> goal) (vw_states vw) = []" "vw_states vw \<noteq> []"
    using assms goal by (auto simp: decide_retire_def Let_def split: if_splits)
  obtain r where r: "other_models (vw_states vw) = [r]" "retire_checked it vw goal r = Write ch w"
    using assms goal behind by (auto simp: decide_retire_def Let_def split: list.splits)
  have c: "r \<noteq> goal" "retire_failing vw = []" "retire_open vw = []"
    "filter (\<lambda>s. status_of vw (us_unit s) = None) (vw_states vw) = []"
    "ch = \<lparr>ch_target = in_target it, ch_flip = in_flip it, ch_retire = Some r, ch_verb = Retire\<rparr>"
    using r(2) by (auto simp: retire_checked_def Let_def split: if_splits)
  have "other_model s = None \<or> other_model s = Some r" if "s \<in> set (vw_states vw)" for s
    using r(1) that set_other_models[of _ "vw_states vw"] by (cases "other_model s") auto
  then have "\<forall>s \<in> set (vw_states vw). other_model s = None \<or> other_model s = Some r" by blast
  moreover have "\<forall>s \<in> set (vw_states vw). active_model s = goal"
    "\<forall>s \<in> set (vw_states vw). status_of vw (us_unit s) \<noteq> None"
    using behind(1) c(4) by (auto simp: filter_empty_conv)
  ultimately show ?thesis by (intro that[of goal r]) (use behind(2) c in simp_all)
qed

section \<open>Properties\<close>

definition spares_active :: "unit_state list \<Rightarrow> str option \<Rightarrow> bool" where
  "spares_active states retire \<longleftrightarrow> (\<forall>r. retire = Some r \<longrightarrow> (\<forall>s \<in> set states. active_model s \<noteq> r))"

text \<open>
  No command can aim the retire at a model some unit reads: if the control row
  does not, then no change any verb writes does, and the change always names the verb that
  wrote it. Nothing is written at all while the sweep is off.
\<close>

theorem decide_spares_active:
  assumes "spares_active (vw_states vw) (in_retire it)" and "decide vb it vw = Write ch w"
  shows "spares_active (vw_states vw) (in_retire (apply_change it ch)) \<and> ch_verb ch = vb \<and> vw_sweep_on vw"
proof -
  have on: "vw_sweep_on vw" using assms(2) by (auto simp: decide_def split: if_splits)
  have "spares_active (vw_states vw) (ch_retire ch) \<and> ch_verb ch = vb"
  proof (cases vb)
    case Start
    then have "decide_start it vw = Write ch w" using assms(2) on by (simp add: decide_def)
    then show ?thesis by (rule decide_start_Write) (simp add: spares_active_def Start)
  next
    case Flip
    then show ?thesis using assms on
      by (auto simp: decide_def decide_flip_def Let_def split: option.splits if_splits)
  next
    case Rollback
    then have "decide_rollback it vw = Write ch w" using assms(2) on by (simp add: decide_def)
    then show ?thesis by (rule decide_rollback_Write) (simp_all add: spares_active_def Rollback)
  next
    case Retire
    then have "decide_retire it vw = Write ch w" using assms(2) on by (simp add: decide_def)
    then show ?thesis by (rule decide_retire_Write) (simp add: spares_active_def Retire)
  qed
  then show ?thesis using on by (simp add: apply_change_def)
qed

definition sample_intent :: intent where
  "sample_intent = \<lparr>in_generation = 4, in_target = Some (u ''new''), in_flip = True, in_retire = None,
     in_verb = Some Flip\<rparr>"

definition sample_moved :: unit_state where
  "sample_moved = \<lparr>us_unit = u ''me'', us_active_slot = SlotB, us_model_a = Some (u ''old''),
     us_model_b = Some (u ''new''), us_flipped_at = Some 0\<rparr>"

definition sample_view :: view where
  "sample_view =
     \<lparr>vw_sweep_on = True, vw_blocks = [u ''new'', u ''old''], vw_states = [sample_moved],
      vw_statuses = [\<lparr>st_unit = u ''me'', st_active = u ''new'', st_other = Some (u ''old''),
                      st_counts = sample_counts, st_flipped_at = Some 0\<rparr>],
      vw_guessed_acting = Map.empty, vw_rollback_days = 14, vw_now = days 15, vw_disk = None,
      vw_probe = None\<rparr>"

theorem decide_spares_active_witness:
  "spares_active [sample_moved] (Some (u ''old'')) \<and>
   decide Retire sample_intent sample_view =
     Write \<lparr>ch_target = Some (u ''new''), ch_flip = True, ch_retire = Some (u ''old''), ch_verb = Retire\<rparr>
       (W_Retire (u ''old'') [u ''me''])"
proof -
  have d: "decide Retire sample_intent sample_view =
     Write \<lparr>ch_target = Some (u ''new''), ch_flip = True, ch_retire = Some (u ''old''), ch_verb = Retire\<rparr>
       (W_Retire (u ''old'') [u ''me''])" by code_simp
  have "spares_active (vw_states sample_view) (in_retire sample_intent)"
    by (simp add: spares_active_def sample_intent_def)
  from decide_spares_active[OF this d] d show ?thesis
    by (simp add: sample_view_def apply_change_def)
qed

text \<open>
  What a retire costs is settled before it is written: every unit is on one model
  other than the retired one, no inactive slot holds a third model, the server has published a
  status with no failed row for each unit, and each unit that flipped did so at least the
  rollback window ago.
\<close>

theorem retire_write_guards:
  assumes "decide Retire it vw = Write ch w"
  shows "\<exists>goal r. ch_retire ch = Some r \<and> r \<noteq> goal \<and>
     (\<forall>s \<in> set (vw_states vw). active_model s = goal \<and>
        (other_model s = None \<or> other_model s = Some r) \<and>
        (\<exists>st. status_of vw (us_unit s) = Some st \<and> ct_failed (st_counts st) \<le> 0) \<and>
        (\<forall>f. us_flipped_at s = Some f \<longrightarrow> f + days (vw_rollback_days vw) \<le> vw_now vw))"
proof -
  have "decide_retire it vw = Write ch w"
    using assms by (auto simp: decide_def split: if_splits)
  then obtain goal r where *: "\<forall>s \<in> set (vw_states vw). active_model s = goal" "r \<noteq> goal"
    "\<forall>s \<in> set (vw_states vw). other_model s = None \<or> other_model s = Some r"
    "\<forall>s \<in> set (vw_states vw). status_of vw (us_unit s) \<noteq> None"
    "retire_failing vw = []" "retire_open vw = []"
    "ch = \<lparr>ch_target = in_target it, ch_flip = in_flip it, ch_retire = Some r, ch_verb = Retire\<rparr>"
    by (rule decide_retire_Write)
  have "\<exists>st. status_of vw (us_unit s) = Some st \<and> ct_failed (st_counts st) \<le> 0"
    if "s \<in> set (vw_states vw)" for s
    using *(4,5) that by (force simp: retire_failing_def filter_map_Nil split: option.splits if_splits)
  moreover have "f + days (vw_rollback_days vw) \<le> vw_now vw"
    if "s \<in> set (vw_states vw)" "us_flipped_at s = Some f" for s f
    using *(6) that by (force simp: retire_open_def filter_map_Nil split: option.splits if_splits)
  ultimately show ?thesis using * by (intro exI[of _ goal] exI[of _ r]) auto
qed

theorem retire_write_guards_witness:
  "\<exists>goal r. Some (u ''old'') = Some r \<and> r \<noteq> goal \<and> active_model sample_moved = goal"
proof -
  have d: "decide Retire sample_intent sample_view =
     Write \<lparr>ch_target = Some (u ''new''), ch_flip = True, ch_retire = Some (u ''old''), ch_verb = Retire\<rparr>
       (W_Retire (u ''old'') [u ''me''])" by code_simp
  have m: "sample_moved \<in> set (vw_states sample_view)" by (simp add: sample_view_def)
  show ?thesis using retire_write_guards[OF d] m by auto
qed

lemma find_other:
  assumes "set blocks = {a, b}" and "a \<noteq> b"
  shows "List.find (\<lambda>x. x \<noteq> a) blocks = Some b"
proof -
  have "b \<in> set blocks" using assms by simp
  then obtain c where c: "List.find (\<lambda>x. x \<noteq> a) blocks = Some c"
    using assms(2) by (cases "List.find (\<lambda>x. x \<noteq> a) blocks") (auto simp: find_None_iff)
  then show ?thesis using find_Some_set[OF c] assms by auto
qed

lemma verbs_drive_phases_parts:
  assumes "configured_from_intent (apply_change it ch) (vw_blocks vw) default_active rollback_days ga = Inr cfg"
    and "st \<in> set (vw_states vw)"
  shows "decide Start it vw = Write ch w \<Longrightarrow>
           fst (phase st cfg cts None) \<in> {Filling, Held} \<and> target st cfg = ch_target ch"
    and "decide Rollback it vw = Write ch w \<Longrightarrow> ch_target ch = Some old \<Longrightarrow>
           in_target it = Some (active_model st) \<Longrightarrow> set (vw_blocks vw) = {old, active_model st} \<Longrightarrow>
           active_named st \<Longrightarrow> two_models st \<Longrightarrow> other_model st \<noteq> None \<Longrightarrow>
           ct_other_pending cts \<le> 0 \<Longrightarrow> guessed_keys cfg old = [] \<Longrightarrow>
           phase st cfg cts None = (Ready, None)"
proof -
  assume "decide Start it vw = Write ch w"
  then have "decide_start it vw = Write ch w" by (auto simp: decide_def split: if_splits)
  then obtain active goal where *: "set (vw_blocks vw) = {active, goal}" "active \<noteq> goal"
    "\<forall>s \<in> set (vw_states vw). active_model s = active"
    "\<forall>s \<in> set (vw_states vw). other_model s = None \<or> other_model s = Some goal"
    "ch = \<lparr>ch_target = Some goal, ch_flip = False, ch_retire = None, ch_verb = Start\<rparr>"
    by (rule decide_start_Write)
  have "List.find (\<lambda>b. b \<noteq> goal) (vw_blocks vw) = Some active"
    using *(1,2) by (intro find_other) auto
  then have cfg: "cf_current cfg = goal" "cf_previous cfg = Some active" "cf_retire cfg = None"
    "cf_flip cfg = FlipNone"
    using assms(1) *(1,5) by (auto simp: configured_from_intent_def apply_change_def split: if_splits)
  have st: "active_model st = active" "other_model st = None \<or> other_model st = Some goal"
    using *(3,4) assms(2) by auto
  have "third_model st cfg = None" using st(2) cfg by (auto simp: third_model_None)
  then show "fst (phase st cfg cts None) \<in> {Filling, Held} \<and> target st cfg = ch_target ch"
    using st cfg *(2,5) by (cases "0 < ct_other_pending cts") (auto simp: phase_def target_def)
next
  assume r: "decide Rollback it vw = Write ch w" "ch_target ch = Some old"
    "in_target it = Some (active_model st)" "set (vw_blocks vw) = {old, active_model st}"
    "active_named st" "two_models st" "other_model st \<noteq> None" "ct_other_pending cts \<le> 0"
    "guessed_keys cfg old = []"
  then have d: "decide_rollback it vw = Write ch w" by (auto simp: decide_def split: if_splits)
  have b: "\<forall>s \<in> set (vw_states vw). active_model s = active_model st \<longrightarrow>
        other_model s = None \<or> other_model s = Some old"
    "ch = \<lparr>ch_target = Some old, ch_flip = True, ch_retire = None, ch_verb = Rollback\<rparr>"
    using d r(2,3) by (cases rule: decide_rollback_Write; auto)+
  then have other: "other_model st = Some old" using assms(2) r(7) by auto
  have ne: "old \<noteq> active_model st" using other other_not_active[OF r(5,6)] by auto
  have "List.find (\<lambda>b. b \<noteq> old) (vw_blocks vw) = Some (active_model st)"
    using find_other[OF r(4) ne] .
  then have cfg: "cf_current cfg = old" "cf_previous cfg = Some (active_model st)"
    "cf_retire cfg = None" "cf_flip cfg = FlipAll"
    using assms(1) r(4) b(2) by (auto simp: configured_from_intent_def apply_change_def split: if_splits)
  have "third_model st cfg = None" using other cfg by (auto simp: third_model_None)
  then show "phase st cfg cts None = (Ready, None)"
    using cfg other ne r(8,9) by (simp add: phase_def)
qed

text \<open>
  The verbs drive the phases they announce, through the control row and back:
  after \<open>start\<close> every unit is filling or held, its fill target is the new model and no unit can
  flip; and after a \<open>rollback\<close> that returns to the old model, a flipped unit whose old slot is
  complete and whose thresholds are settled is ready to flip back on the very next pass.
\<close>

theorem verbs_drive_phases:
  assumes "configured_from_intent (apply_change it ch) (vw_blocks vw) default_active rollback_days ga = Inr cfg"
    and "st \<in> set (vw_states vw)"
  shows "(decide Start it vw = Write ch w \<longrightarrow>
           fst (phase st cfg cts None) \<in> {Filling, Held} \<and> target st cfg = ch_target ch) \<and>
     (decide Rollback it vw = Write ch w \<longrightarrow> ch_target ch = Some old \<longrightarrow>
           in_target it = Some (active_model st) \<longrightarrow> set (vw_blocks vw) = {old, active_model st} \<longrightarrow>
           active_named st \<longrightarrow> two_models st \<longrightarrow> other_model st \<noteq> None \<longrightarrow>
           ct_other_pending cts \<le> 0 \<longrightarrow> guessed_keys cfg old = [] \<longrightarrow>
           phase st cfg cts None = (Ready, None))"
proof -
  have p1: "decide Start it vw = Write ch w \<longrightarrow>
           fst (phase st cfg cts None) \<in> {Filling, Held} \<and> target st cfg = ch_target ch"
    by ((intro impI)?, rule verbs_drive_phases_parts(1)[OF assms]; assumption)
  have p2: "decide Rollback it vw = Write ch w \<longrightarrow> ch_target ch = Some old \<longrightarrow>
           in_target it = Some (active_model st) \<longrightarrow> set (vw_blocks vw) = {old, active_model st} \<longrightarrow>
           active_named st \<longrightarrow> two_models st \<longrightarrow> other_model st \<noteq> None \<longrightarrow>
           ct_other_pending cts \<le> 0 \<longrightarrow> guessed_keys cfg old = [] \<longrightarrow>
           phase st cfg cts None = (Ready, None)"
    by ((intro impI)?, rule verbs_drive_phases_parts(2)[OF assms]; assumption)
  show ?thesis by (rule conjI[OF p1 p2])
qed

theorem verbs_drive_phases_witness:
  "phase sample_moved
     \<lparr>cf_current = u ''old'', cf_previous = Some (u ''new''), cf_retire = None, cf_flip = FlipAll,
      cf_rollback_days = 14, cf_guessed_acting = Map.empty, cf_generation = Some 5\<rparr>
     sample_counts None = (Ready, None)"
proof -
  let ?ch = "\<lparr>ch_target = Some (u ''old''), ch_flip = True, ch_retire = None, ch_verb = Rollback\<rparr>"
  have d: "decide Rollback sample_intent sample_view = Write ?ch (W_RollbackInstant (u ''old'') [u ''me''])"
    by code_simp
  have c: "configured_from_intent (apply_change sample_intent ?ch) (vw_blocks sample_view) None 14 Map.empty =
      Inr \<lparr>cf_current = u ''old'', cf_previous = Some (u ''new''), cf_retire = None, cf_flip = FlipAll,
      cf_rollback_days = 14, cf_guessed_acting = Map.empty, cf_generation = Some 5\<rparr>"
    by (simp add: configured_from_intent_def apply_change_def sample_view_def sample_intent_def)
  have m: "sample_moved \<in> set (vw_states sample_view)" by (simp add: sample_view_def)
  show ?thesis
    by (rule verbs_drive_phases[OF c m, THEN conjunct2, rule_format, OF d])
       (auto simp: sample_view_def sample_moved_def sample_intent_def active_model_def active_named_def
          two_models_def other_model_def sample_counts_def guessed_keys_def)
qed

end
