(* ===== verification/Lr_OAuth.thy ===== *)
theory Lr_OAuth
  imports Lr_Policy "HOL-Library.Word"
begin

text \<open>
  The pure rules of the built-in authorization server, \<open>src/src/domain/oauth.rs\<close>: authorize
  requests, resource indicators, credentials, redirect URIs and the client names the consent
  page shows. The \<open>url\<close> crate, SHA-256 and base64, and Unicode NFKC with lowercasing are
  parameters (\<open>url_crate\<close>, \<open>crypto\<close>, \<open>fold_name\<close>); addresses are kept as the 8-bit and 16-bit
  words \<open>std::net\<close> hands over, and its range predicates are written out.
\<close>

unbundle bit_operations_syntax

section \<open>Libraries the rules call\<close>

datatype host = Domain str | Ipv4 "8 word list" | Ipv6 "16 word list"

record url =
  ul_scheme :: str
  ul_username :: str
  ul_password :: "str option"
  ul_host :: "host option"
  ul_host_str :: "str option"
  ul_port_or_known_default :: "nat option"
  ul_path :: str
  ul_cannot_be_a_base :: bool
  ul_text :: str

record url_crate =
  parse_url :: "str \<Rightarrow> url option"
  set_path :: "str \<Rightarrow> url \<Rightarrow> url"

record crypto =
  sha256_hex :: "str \<Rightarrow> str"
  s256_challenge :: "str \<Rightarrow> str"

section \<open>Authorize requests\<close>

definition default_scope :: str where
  "default_scope = u ''lumberroom:memory''"

record authorize_request =
  ar_response_type :: str
  ar_client_id :: str
  ar_redirect_uri :: str
  ar_code_challenge :: str
  ar_code_challenge_method :: "str option"
  ar_state :: "str option"
  ar_scope :: "str option"
  ar_resource :: "str option"

record authorize_intent =
  ai_client_id :: str
  ai_redirect_uri :: str
  ai_code_challenge :: str
  ai_state :: "str option"
  ai_scope :: str
  ai_resource :: "str option"

definition is_base64url :: "str \<Rightarrow> bool" where
  "is_base64url s = list_all (\<lambda>c. is_ascii_alphanumeric c \<or> c = 45 \<or> c = 95) s"

definition bad_resource :: "url_crate \<Rightarrow> str option \<Rightarrow> bool" where
  "bad_resource uc r =
     (case r of None \<Rightarrow> False | Some s \<Rightarrow> 35 \<in> set s \<or> parse_url uc s = None)"

definition validate_authorize ::
  "url_crate \<Rightarrow> authorize_request \<Rightarrow> str list \<Rightarrow> authorize_intent res" where
  "validate_authorize uc rq registered =
     (if ar_redirect_uri rq \<notin> set registered then Inl (validation R_RedirectMismatch)
      else if ar_response_type rq \<noteq> u ''code''
        then Inl (validation (R_UnsupportedResponseType (ar_response_type rq)))
      else (case ar_code_challenge_method rq of
          None \<Rightarrow> Inl (validation R_MissingChallengeMethod)
        | Some m \<Rightarrow>
            if m \<noteq> u ''S256'' then Inl (validation (R_UnsupportedChallengeMethod m))
            else if str_len (ar_code_challenge rq) \<noteq> 43 \<or> \<not> is_base64url (ar_code_challenge rq)
              then Inl (validation R_BadChallenge)
            else if bad_resource uc (ar_resource rq) then Inl (validation R_BadResource)
            else Inr \<lparr>ai_client_id = ar_client_id rq, ai_redirect_uri = ar_redirect_uri rq,
                      ai_code_challenge = ar_code_challenge rq, ai_state = ar_state rq,
                      ai_scope = (case map_option trim (ar_scope rq) of
                          Some s \<Rightarrow> if s \<noteq> [] then s else default_scope
                        | None \<Rightarrow> default_scope),
                      ai_resource = ar_resource rq\<rparr>))"

section \<open>Resource indicators\<close>

definition max_resource_len :: nat where
  "max_resource_len = 2048"

definition canonical_resource :: "url_crate \<Rightarrow> str \<Rightarrow> str option" where
  "canonical_resource uc raw =
     (let r = trim raw
      in if r = [] \<or> 35 \<in> set r then None
         else if str_len r > max_resource_len then None
         else (case parse_url uc r of
                 None \<Rightarrow> None
               | Some url \<Rightarrow>
                   if ul_cannot_be_a_base url then Some (ul_text url)
                   else Some (ul_text (set_path uc (trim_end_matches (\<lambda>c. c = 47) (ul_path url)) url))))"

definition resource_matches :: "url_crate \<Rightarrow> str \<Rightarrow> str \<Rightarrow> bool" where
  "resource_matches uc bound served =
     (case (canonical_resource uc bound, canonical_resource uc served) of
        (Some a, Some b) \<Rightarrow> a = b
      | _ \<Rightarrow> False)"

section \<open>Credentials\<close>

definition random_token :: "(nat \<Rightarrow> str option) \<Rightarrow> nat \<Rightarrow> str res" where
  "random_token draw bytes =
     (if bytes < 16 \<or> 64 < bytes then Inl (internal (R_TokenLength bytes))
      else (case draw bytes of None \<Rightarrow> Inl (internal R_NoRandomness) | Some t \<Rightarrow> Inr t))"

definition hash_token :: "crypto \<Rightarrow> str \<Rightarrow> str" where
  "hash_token cr token = sha256_hex cr token"

definition hashes_match :: "str \<Rightarrow> str \<Rightarrow> bool" where
  "hashes_match a b \<longleftrightarrow> a = b"

definition is_valid_verifier :: "str \<Rightarrow> bool" where
  "is_valid_verifier v \<longleftrightarrow>
     list_all (\<lambda>c. is_ascii_alphanumeric c \<or> c = 45 \<or> c = 46 \<or> c = 95 \<or> c = 126) v \<and>
     43 \<le> str_len v \<and> str_len v \<le> 128"

definition verify_pkce_s256 :: "crypto \<Rightarrow> str \<Rightarrow> str \<Rightarrow> bool" where
  "verify_pkce_s256 cr challenge verifier \<longleftrightarrow>
     is_valid_verifier verifier \<and> s256_challenge cr verifier = challenge"

section \<open>Addresses\<close>

definition v4_is_private :: "8 word list \<Rightarrow> bool" where
  "v4_is_private o4 \<longleftrightarrow>
     o4 ! 0 = 10 \<or> (o4 ! 0 = 172 \<and> 16 \<le> o4 ! 1 \<and> o4 ! 1 \<le> 31) \<or> (o4 ! 0 = 192 \<and> o4 ! 1 = 168)"

definition v4_is_link_local :: "8 word list \<Rightarrow> bool" where
  "v4_is_link_local o4 \<longleftrightarrow> o4 ! 0 = 169 \<and> o4 ! 1 = 254"

definition v4_is_loopback :: "8 word list \<Rightarrow> bool" where
  "v4_is_loopback o4 \<longleftrightarrow> o4 ! 0 = 127"

definition v6_is_loopback :: "16 word list \<Rightarrow> bool" where
  "v6_is_loopback s \<longleftrightarrow> s = [0, 0, 0, 0, 0, 0, 0, 1]"

text \<open>\<open>to_ipv4_mapped\<close>: \<open>::ffff:a.b.c.d\<close> and nothing else.\<close>

definition to_ipv4_mapped :: "16 word list \<Rightarrow> 8 word list option" where
  "to_ipv4_mapped s =
     (if take 6 s = [0, 0, 0, 0, 0, 0xFFFF] \<and> length s = 8
      then Some [ucast (drop_bit 8 (s ! 6)), ucast (s ! 6), ucast (drop_bit 8 (s ! 7)), ucast (s ! 7)]
      else None)"

definition private_v4 :: "8 word list \<Rightarrow> bool" where
  "private_v4 ip \<longleftrightarrow>
     v4_is_private ip \<or> v4_is_link_local ip \<or> (ip ! 0 = 100 \<and> (ip ! 1 AND 0xC0) = 64)"

definition private_v6 :: "16 word list \<Rightarrow> bool" where
  "private_v6 ip =
     (case to_ipv4_mapped ip of
        Some v4 \<Rightarrow> private_v4 v4
      | None \<Rightarrow> (ip ! 0 AND 0xFE00) = 0xFC00 \<or> (ip ! 0 AND 0xFFC0) = 0xFE80)"

section \<open>Redirect URIs\<close>

definition max_redirect_uris :: nat where "max_redirect_uris = 8"
definition max_redirect_uri :: nat where "max_redirect_uri = 2048"

definition lan_suffixes :: "str list" where
  "lan_suffixes = [u ''.local'', u ''.lan'', u ''.internal'', u ''.home.arpa'']"

definition strip_dot :: "str \<Rightarrow> str" where
  "strip_dot d = (case strip_suffix [46] d of Some r \<Rightarrow> r | None \<Rightarrow> d)"

definition lan_name :: "str \<Rightarrow> bool" where
  "lan_name d =
     (if 46 \<notin> set d then d \<noteq> []
      else list_ex (\<lambda>s. case strip_suffix s (strip_dot d) of
                          None \<Rightarrow> False
                        | Some name \<Rightarrow> name \<noteq> [] \<and> \<not> ends_with name [46]) lan_suffixes)"

definition is_lan_only :: "url \<Rightarrow> bool" where
  "is_lan_only url =
     (case ul_host url of
        Some (Ipv4 ip) \<Rightarrow> private_v4 ip
      | Some (Ipv6 ip) \<Rightarrow> private_v6 ip
      | Some (Domain d) \<Rightarrow> lan_name d
      | None \<Rightarrow> False)"

definition is_loopback :: "url \<Rightarrow> bool" where
  "is_loopback url =
     (case ul_host url of
        Some (Domain d) \<Rightarrow> d = u ''localhost''
      | Some (Ipv4 ip) \<Rightarrow> v4_is_loopback ip
      | Some (Ipv6 ip) \<Rightarrow> v6_is_loopback ip
      | None \<Rightarrow> False)"

definition validate_redirect_uri :: "url_crate \<Rightarrow> str \<Rightarrow> unit res" where
  "validate_redirect_uri uc uri =
     (if 35 \<in> set uri then Inl (validation R_RedirectFragment)
      else (case parse_url uc uri of
          None \<Rightarrow> Inl (validation R_RedirectNotAbsolute)
        | Some url \<Rightarrow>
            if ul_username url \<noteq> [] \<or> ul_password url \<noteq> None
              then Inl (validation R_RedirectUserinfo)
            else if ul_scheme url = u ''https''
              then (if ul_host url = None then Inl (validation R_RedirectNoHost) else Inr ())
            else if ul_scheme url = u ''http''
              then (if is_loopback url \<or> is_lan_only url then Inr ()
                    else Inl (validation R_RedirectPlainHttp))
            else if 46 \<in> set (ul_scheme url) then Inr ()
            else Inl (validation (R_RedirectScheme (ul_scheme url)))))"

fun validate_each :: "url_crate \<Rightarrow> str list \<Rightarrow> unit res" where
  "validate_each uc [] = Inr ()"
| "validate_each uc (uri # uris) =
     (if str_len uri > max_redirect_uri then Inl (validation R_RedirectTooLong)
      else (case validate_redirect_uri uc uri of
              Inl e \<Rightarrow> Inl (validation (R_RedirectRefused uri (client_message e)))
            | Inr _ \<Rightarrow> validate_each uc uris))"

definition validate_redirect_uris :: "url_crate \<Rightarrow> str list \<Rightarrow> unit res" where
  "validate_redirect_uris uc uris =
     (if uris = [] then Inl (validation R_NoRedirectUris)
      else if length uris > max_redirect_uris then Inl (validation R_TooManyRedirectUris)
      else validate_each uc uris)"

section \<open>Where a code goes\<close>

text \<open>
  \<open>KNOWN_SERVICES\<close>: the hosts of each known client service and the words of a client name
  that claim it.
\<close>

record known_service =
  ks_shown :: str
  ks_hosts :: "str list"
  ks_names :: "(str \<times> str) list"

definition known_services :: "known_service list" where
  "known_services =
     [\<lparr>ks_shown = u ''Claude'', ks_hosts = [u ''claude.ai'', u ''claude.com''],
       ks_names = [(u ''claude'', u ''Claude''), (u ''anthropic'', u ''Anthropic'')]\<rparr>,
      \<lparr>ks_shown = u ''ChatGPT'', ks_hosts = [u ''chatgpt.com''],
       ks_names = [(u ''chatgpt'', u ''ChatGPT''), (u ''openai'', u ''OpenAI'')]\<rparr>]"

definition service_at :: "str \<Rightarrow> known_service option" where
  "service_at h = List.find (\<lambda>service. h \<in> set (ks_hosts service)) known_services"

datatype redirect_destination =
    DHost (dh_host: str) (dh_recognised: bool) (dh_local: bool) (dh_plain_http: bool)
  | DApp str
  | DUnreadable

fun recognised :: "redirect_destination \<Rightarrow> bool" where
  "recognised (DHost h r l p) = r"
| "recognised d = False"

fun is_local :: "redirect_destination \<Rightarrow> bool" where
  "is_local (DHost h r l p) = l"
| "is_local d = False"

fun service :: "redirect_destination \<Rightarrow> str option" where
  "service (DHost h r l p) = (if r \<and> \<not> l then map_option ks_shown (service_at h) else None)"
| "service d = None"

fun is_plain_http :: "redirect_destination \<Rightarrow> bool" where
  "is_plain_http (DHost h r l p) = p"
| "is_plain_http d = False"

definition redirect_destination :: "url_crate \<Rightarrow> str \<Rightarrow> redirect_destination" where
  "redirect_destination uc uri =
     (case parse_url uc uri of
        None \<Rightarrow> DUnreadable
      | Some parsed \<Rightarrow>
          if ul_scheme parsed = u ''https'' \<or> ul_scheme parsed = u ''http'' then
            (case ul_host_str parsed of
               None \<Rightarrow> DUnreadable
             | Some h \<Rightarrow>
                 let loc = is_loopback parsed;
                     plain = (ul_scheme parsed = u ''http'');
                     known = (loc \<or> (\<not> plain \<and> service_at h \<noteq> None))
                 in DHost h known loc plain)
          else DApp (ul_scheme parsed))"

section \<open>Client names\<close>

definition invisible_char :: "uchar \<Rightarrow> bool" where
  "invisible_char c \<longleftrightarrow>
     c = 0xAD \<or> c = 0x34F \<or> c = 0x61C \<or> c = 0x115F \<or> c = 0x1160 \<or> c = 0x180E \<or>
     (0x200B \<le> c \<and> c \<le> 0x200F) \<or> (0x202A \<le> c \<and> c \<le> 0x202E) \<or>
     (0x2060 \<le> c \<and> c \<le> 0x2064) \<or> (0x2066 \<le> c \<and> c \<le> 0x2069) \<or> c = 0x3164 \<or>
     (0xFE00 \<le> c \<and> c \<le> 0xFE0F) \<or> c = 0xFEFF \<or> c = 0xFFA0 \<or>
     (0xE0000 \<le> c \<and> c \<le> 0xE007F) \<or> (0xE0100 \<le> c \<and> c \<le> 0xE01EF)"

definition is_control :: "uchar \<Rightarrow> bool" where
  "is_control c \<longleftrightarrow> c \<le> 31 \<or> (127 \<le> c \<and> c \<le> 159)"

definition client_name_display :: "str \<Rightarrow> str" where
  "client_name_display name =
     join [32] (split_whitespace
       (map (\<lambda>c. if is_control c then 32 else c) (filter (\<lambda>c. \<not> invisible_char c) name)))"

text \<open>\<open>fold_name\<close> stands for NFKC followed by the Unicode lowercasing of the result.\<close>

definition comparable_client_name :: "(str \<Rightarrow> str) \<Rightarrow> str \<Rightarrow> str" where
  "comparable_client_name fold_name name = fold_name (client_name_display name)"

definition claimed_brands :: "(str \<Rightarrow> str) \<Rightarrow> str \<Rightarrow> (known_service \<times> str) list" where
  "claimed_brands fold_name name =
     (let folded = comparable_client_name fold_name name
      in map (\<lambda>(service, word, shown). (service, shown))
           (filter (\<lambda>(service, word, shown). str_contains folded word)
             (concat (map (\<lambda>service. map (\<lambda>name. (service, name)) (ks_names service))
                        known_services))))"

definition mismatched_claim ::
  "(str \<Rightarrow> str) \<Rightarrow> str \<Rightarrow> redirect_destination \<Rightarrow> str option" where
  "mismatched_claim fold_name name dst =
     (if is_local dst then None
      else map_option snd
        (List.find (\<lambda>(s, shown). service dst \<noteq> Some (ks_shown s)) (claimed_brands fold_name name)))"

definition claimed_known_client :: "(str \<Rightarrow> str) \<Rightarrow> str \<Rightarrow> str option" where
  "claimed_known_client fold_name name =
     (case claimed_brands fold_name name of [] \<Rightarrow> None | (s, shown) # _ \<Rightarrow> Some shown)"

definition max_client_name :: nat where "max_client_name = 200"

text \<open>\<open>rfind\<close> of a character, answering what follows its last occurrence.\<close>

definition after_last :: "uchar \<Rightarrow> str \<Rightarrow> str option" where
  "after_last c s = (if c \<in> set s then Some (rev (takeWhile (\<lambda>x. x \<noteq> c) (rev s))) else None)"

definition claims_a_stamp :: "(str \<Rightarrow> str) \<Rightarrow> str \<Rightarrow> bool" where
  "claims_a_stamp fold_name name =
     (case strip_suffix [41] (comparable_client_name fold_name name) of
        None \<Rightarrow> False
      | Some body \<Rightarrow>
          (case after_last 40 body of
             None \<Rightarrow> False
           | Some tail \<Rightarrow>
               let lst = trim tail
               in starts_with lst (u ''added'') \<or> lst = u ''not approved''))"

definition owner_label :: "(str \<Rightarrow> str) \<Rightarrow> str \<Rightarrow> str \<Rightarrow> str option res" where
  "owner_label fold_name typed registered =
     (let cleaned = client_name_display typed
      in if cleaned = [] \<or> cleaned = client_name_display registered then Inr None
         else if str_len cleaned > max_client_name then Inl (validation R_NameTooLong)
         else if claims_a_stamp fold_name cleaned then Inl (validation R_NameStamp)
         else Inr (Some cleaned))"

section \<open>Self-registered redirects\<close>

definition fold_host :: "host \<Rightarrow> host" where
  "fold_host h =
     (case h of
        Ipv6 ip \<Rightarrow>
          (case to_ipv4_mapped ip of
             Some v4 \<Rightarrow> if v4_is_loopback v4 then Domain (u ''localhost'') else Ipv4 v4
           | None \<Rightarrow> if v6_is_loopback ip then Domain (u ''localhost'') else Ipv6 ip)
      | Ipv4 ip \<Rightarrow> if v4_is_loopback ip then Domain (u ''localhost'') else Ipv4 ip
      | Domain d \<Rightarrow> Domain (to_ascii_lowercase (strip_dot d)))"

definition origin_key :: "url \<Rightarrow> (str \<times> host \<times> nat) option" where
  "origin_key url =
     (case ul_host url of
        None \<Rightarrow> None
      | Some h \<Rightarrow>
          map_option (\<lambda>port. (ul_scheme url, fold_host h, port)) (ul_port_or_known_default url))"

definition public_ip :: "url \<Rightarrow> bool" where
  "public_ip url =
     (case ul_host url of
        Some (Ipv4 ip) \<Rightarrow> \<not> private_v4 ip
      | Some (Ipv6 ip) \<Rightarrow> \<not> private_v6 ip
      | _ \<Rightarrow> False)"

definition check_self_registered_redirect :: "url_crate \<Rightarrow> str \<Rightarrow> str \<Rightarrow> unit res" where
  "check_self_registered_redirect uc uri public_url =
     (case parse_url uc uri of
        None \<Rightarrow> Inr ()
      | Some parsed \<Rightarrow>
          if ul_scheme parsed \<noteq> u ''https'' \<and> ul_scheme parsed \<noteq> u ''http'' then Inr ()
          else if public_ip parsed \<and> \<not> is_loopback parsed then Inl (validation R_RedirectPublicIp)
          else (case parse_url uc public_url of
              None \<Rightarrow> Inr ()
            | Some public \<Rightarrow>
                if origin_key parsed \<noteq> None \<and> origin_key parsed = origin_key public
                then Inl (validation R_RedirectOwnOrigin) else Inr ()))"

section \<open>Address ranges\<close>

text \<open>The masks of the source, as ranges of the octet or segment they test.\<close>

lemma mask_range:
  fixes x :: "'a::len word"
  assumes n: "n < LENGTH('a)" and m: "m = NOT (mask n)" and k: "uint k = 2 ^ n * q"
  shows "(x AND m) = k \<longleftrightarrow> uint k \<le> uint x \<and> uint x < uint k + 2 ^ n"
proof -
  have "uint (x AND m) = 2 ^ n * (uint x div 2 ^ n)"
  proof -
    have "uint (x AND m) = uint x AND NOT (mask n)"
      unfolding m by (rule bit_eqI) (auto simp: bit_simps dest: bit_imp_le_length)
    also have "\<dots> = push_bit n (drop_bit n (uint x))"
      by (auto intro!: bit_eqI simp: bit_simps)
    also have "\<dots> = 2 ^ n * (uint x div 2 ^ n)" by (simp add: push_bit_eq_mult drop_bit_eq_div)
    finally show ?thesis .
  qed
  then have "(x AND m) = k \<longleftrightarrow> 2 ^ n * (uint x div 2 ^ n) = 2 ^ n * q"
    using k by (metis word_uint_eq_iff)
  also have "\<dots> \<longleftrightarrow> uint x div 2 ^ n = q" by simp
  also have "\<dots> \<longleftrightarrow> 2 ^ n * q \<le> uint x \<and> uint x < 2 ^ n * q + 2 ^ n"
  proof -
    have p: "(0::int) < 2 ^ n" by simp
    have e: "uint x = 2 ^ n * (uint x div 2 ^ n) + uint x mod 2 ^ n" by simp
    have b: "0 \<le> uint x mod 2 ^ n" "uint x mod 2 ^ n < 2 ^ n" by simp_all
    show ?thesis
    proof
      assume "uint x div 2 ^ n = q"
      then show "2 ^ n * q \<le> uint x \<and> uint x < 2 ^ n * q + 2 ^ n" using e b by (metis add.commute add_less_cancel_left le_add_same_cancel1)
    next
      assume "2 ^ n * q \<le> uint x \<and> uint x < 2 ^ n * q + 2 ^ n"
      then show "uint x div 2 ^ n = q" by (intro int_div_pos_eq[of _ _ _ "uint x - 2 ^ n * q"]) auto
    qed
  qed
  finally show ?thesis using k by simp
qed

lemma mask_C0: "0xC0 = NOT (mask 6 :: 8 word)"
  and mask_FE00: "0xFE00 = NOT (mask 9 :: 16 word)"
  and mask_FFC0: "0xFFC0 = NOT (mask 6 :: 16 word)"
  by (code_simp; simp)+

lemma shared_range:
  fixes x :: "8 word"
  shows "(x AND 0xC0) = 64 \<longleftrightarrow> 64 \<le> uint x \<and> uint x < 128"
  using mask_range[where n = 6 and x = x and m = "0xC0" and k = 64 and q = 1, OF _ mask_C0] by simp

lemma ula_range:
  fixes x :: "16 word"
  shows "(x AND 0xFE00) = 0xFC00 \<longleftrightarrow> 0xFC00 \<le> uint x \<and> uint x \<le> 0xFDFF"
  using mask_range[where n = 9 and x = x and m = "0xFE00" and k = "0xFC00" and q = "126", OF _ mask_FE00]
  by simp linarith

lemma link_local_range:
  fixes x :: "16 word"
  shows "(x AND 0xFFC0) = 0xFE80 \<longleftrightarrow> 0xFE80 \<le> uint x \<and> uint x \<le> 0xFEBF"
  using mask_range[where n = 6 and x = x and m = "0xFFC0" and k = "0xFE80" and q = "1018", OF _ mask_FFC0]
  by simp linarith

text \<open>An IPv4 address as a number, and membership of \<open>base/bits\<close>.\<close>

fun v4_value :: "8 word list \<Rightarrow> nat" where
  "v4_value [a, b, c, d] = unat a * 2 ^ 24 + unat b * 2 ^ 16 + unat c * 2 ^ 8 + unat d"
| "v4_value _ = 0"

definition in_v4_block :: "8 word list \<Rightarrow> 8 word list \<Rightarrow> nat \<Rightarrow> bool" where
  "in_v4_block ip base bits \<longleftrightarrow> v4_value ip div 2 ^ (32 - bits) = v4_value base div 2 ^ (32 - bits)"

definition lan_v4 :: "8 word list \<Rightarrow> bool" where
  "lan_v4 ip \<longleftrightarrow> in_v4_block ip [10, 0, 0, 0] 8 \<or> in_v4_block ip [172, 16, 0, 0] 12 \<or>
     in_v4_block ip [192, 168, 0, 0] 16 \<or> in_v4_block ip [169, 254, 0, 0] 16 \<or>
     in_v4_block ip [100, 64, 0, 0] 10"

lemma v4_prefixes:
  fixes a b c d :: "8 word"
  shows "v4_value [a, b, c, d] div 2 ^ 24 = unat a"
    and "v4_value [a, b, c, d] div 2 ^ 16 = unat a * 256 + unat b"
    and "v4_value [a, b, c, d] div 2 ^ 20 = unat a * 16 + unat b div 16"
    and "v4_value [a, b, c, d] div 2 ^ 22 = unat a * 4 + unat b div 64"
proof -
  have "unat b < 256" "unat c < 256" "unat d < 256"
    using unsigned_less[of b] unsigned_less[of c] unsigned_less[of d] by simp_all
  then show "v4_value [a, b, c, d] div 2 ^ 24 = unat a"
    "v4_value [a, b, c, d] div 2 ^ 16 = unat a * 256 + unat b"
    "v4_value [a, b, c, d] div 2 ^ 20 = unat a * 16 + unat b div 16"
    "v4_value [a, b, c, d] div 2 ^ 22 = unat a * 4 + unat b div 64"
    by simp_all
qed

lemma div_pair_eq:
  fixes a q b m :: nat
  shows "q < m \<Longrightarrow> r < m \<Longrightarrow> a * m + q = b * m + r \<longleftrightarrow> a = b \<and> q = r"
  by (metis add_left_cancel div_mult_self3 div_less add_cancel_right_right mod_less mod_mult_self3 not_less_zero)

lemma v4_blocks:
  fixes a b c d :: "8 word"
  shows "in_v4_block [a, b, c, d] [10, 0, 0, 0] 8 \<longleftrightarrow> unat a = 10"
    and "in_v4_block [a, b, c, d] [172, 16, 0, 0] 12 \<longleftrightarrow> unat a = 172 \<and> 16 \<le> unat b \<and> unat b \<le> 31"
    and "in_v4_block [a, b, c, d] [192, 168, 0, 0] 16 \<longleftrightarrow> unat a = 192 \<and> unat b = 168"
    and "in_v4_block [a, b, c, d] [169, 254, 0, 0] 16 \<longleftrightarrow> unat a = 169 \<and> unat b = 254"
    and "in_v4_block [a, b, c, d] [100, 64, 0, 0] 10 \<longleftrightarrow> unat a = 100 \<and> 64 \<le> unat b \<and> unat b < 128"
proof -
  have lt: "unat a < 256" "unat b < 256" using unsigned_less[of a] unsigned_less[of b] by simp_all
  have d: "32 - 8 = (24::nat)" "32 - 12 = (20::nat)" "32 - 16 = (16::nat)" "32 - 10 = (22::nat)"
    by simp_all
  show "in_v4_block [a, b, c, d] [10, 0, 0, 0] 8 \<longleftrightarrow> unat a = 10"
    unfolding in_v4_block_def d v4_prefixes by simp
  show "in_v4_block [a, b, c, d] [172, 16, 0, 0] 12 \<longleftrightarrow> unat a = 172 \<and> 16 \<le> unat b \<and> unat b \<le> 31"
    unfolding in_v4_block_def d v4_prefixes using div_pair_eq[of "unat b div 16" 16 1 "unat a" 172] lt
    by simp linarith
  show "in_v4_block [a, b, c, d] [192, 168, 0, 0] 16 \<longleftrightarrow> unat a = 192 \<and> unat b = 168"
    unfolding in_v4_block_def d v4_prefixes using div_pair_eq[of "unat b" 256 168 "unat a" 192] lt by simp
  show "in_v4_block [a, b, c, d] [169, 254, 0, 0] 16 \<longleftrightarrow> unat a = 169 \<and> unat b = 254"
    unfolding in_v4_block_def d v4_prefixes using div_pair_eq[of "unat b" 256 254 "unat a" 169] lt by simp
  show "in_v4_block [a, b, c, d] [100, 64, 0, 0] 10 \<longleftrightarrow> unat a = 100 \<and> 64 \<le> unat b \<and> unat b < 128"
    unfolding in_v4_block_def d v4_prefixes using div_pair_eq[of "unat b div 64" 4 1 "unat a" 100] lt
    by simp linarith
qed

lemma private_v4_lan:
  assumes "length ip = 4"
  shows "private_v4 ip \<longleftrightarrow> lan_v4 ip"
proof -
  obtain a b c d where ip: "ip = [a, b, c, d]" using assms by (auto simp: numeral_eq_Suc length_Suc_conv)
  have ui: "uint b = int (unat b)" by simp
  have sh: "(b AND 0xC0) = 64 \<longleftrightarrow> 64 \<le> unat b \<and> unat b < 128"
    unfolding shared_range ui by linarith
  have e: "(x = k) = (unat x = unat k)" for x k :: "8 word" by (rule word_unat_eq_iff)
  have le: "(16::8 word) \<le> b \<longleftrightarrow> 16 \<le> unat b" "b \<le> 31 \<longleftrightarrow> unat b \<le> 31"
    by (simp_all add: word_le_nat_alt)
  have "private_v4 ip \<longleftrightarrow> a = 10 \<or> (a = 172 \<and> 16 \<le> b \<and> b \<le> 31) \<or> (a = 192 \<and> b = 168) \<or>
      (a = 169 \<and> b = 254) \<or> (a = 100 \<and> (b AND 0xC0) = 64)"
    by (simp add: ip private_v4_def v4_is_private_def v4_is_link_local_def)
  also have "\<dots> \<longleftrightarrow> lan_v4 ip"
    unfolding lan_v4_def ip v4_blocks sh le e[of a] e[of b 168] e[of b 254] by simp
  finally show ?thesis .
qed

text \<open>The IPv6 rule: an IPv4-mapped address follows the IPv4 rule, any other its first segment.\<close>

definition lan_v6 :: "16 word list \<Rightarrow> bool" where
  "lan_v6 ip =
     (case to_ipv4_mapped ip of
        Some v4 \<Rightarrow> lan_v4 v4
      | None \<Rightarrow> uint (ip ! 0) div 2 ^ 9 = 0xFC00 div 2 ^ 9 \<or> uint (ip ! 0) div 2 ^ 6 = 0xFE80 div 2 ^ 6)"

lemma private_v6_lan: "private_v6 ip \<longleftrightarrow> lan_v6 ip"
proof (cases "to_ipv4_mapped ip")
  case None
  have "0xFC00 \<le> uint (ip ! 0) \<and> uint (ip ! 0) \<le> 0xFDFF \<longleftrightarrow> uint (ip ! 0) div 2 ^ 9 = 0xFC00 div 2 ^ 9"
    by simp linarith
  moreover have "0xFE80 \<le> uint (ip ! 0) \<and> uint (ip ! 0) \<le> 0xFEBF \<longleftrightarrow>
      uint (ip ! 0) div 2 ^ 6 = 0xFE80 div 2 ^ 6"
    by simp linarith
  ultimately show ?thesis
    by (simp add: private_v6_def lan_v6_def None ula_range link_local_range)
next
  case (Some v4)
  then have "length v4 = 4" by (auto simp: to_ipv4_mapped_def split: if_splits)
  with Some show ?thesis by (simp add: private_v6_def lan_v6_def private_v4_lan)
qed

text \<open>\<open>std::net\<close> hands over four octets or eight segments.\<close>

fun host_wf :: "host \<Rightarrow> bool" where
  "host_wf (Ipv4 ip) = (length ip = 4)"
| "host_wf (Ipv6 ip) = (length ip = 8)"
| "host_wf (Domain d) = True"

definition url_wf :: "url \<Rightarrow> bool" where
  "url_wf url = (case ul_host url of None \<Rightarrow> True | Some h \<Rightarrow> host_wf h)"

fun home_host :: "host \<Rightarrow> bool" where
  "home_host (Ipv4 ip) = (lan_v4 ip \<or> ip ! 0 = 127)"
| "home_host (Ipv6 ip) = (lan_v6 ip \<or> ip = [0, 0, 0, 0, 0, 0, 0, 1])"
| "home_host (Domain d) = (d = u ''localhost'' \<or> lan_name d)"

lemma home_host_iff:
  assumes "ul_host url = Some h" "host_wf h"
  shows "is_loopback url \<or> is_lan_only url \<longleftrightarrow> home_host h"
  using assms
  by (cases h) (auto simp: is_loopback_def is_lan_only_def private_v4_lan private_v6_lan
      v4_is_loopback_def v6_is_loopback_def)

lemma public_ip_home:
  assumes "ul_host url = Some h" "host_wf h" "\<not> (public_ip url \<and> \<not> is_loopback url)"
  shows "(case h of Domain d \<Rightarrow> True | _ \<Rightarrow> home_host h)"
  using assms
  by (cases h) (auto simp: is_loopback_def public_ip_def private_v4_lan private_v6_lan
      v4_is_loopback_def v6_is_loopback_def)

lemma validate_each_Inr:
  "validate_each uc uris = Inr () \<longleftrightarrow>
     (\<forall>uri \<in> set uris. str_len uri \<le> max_redirect_uri \<and> validate_redirect_uri uc uri = Inr ())"
  by (induction uris) (auto split: sum.splits)

lemma validate_redirect_uri_Inr:
  "validate_redirect_uri uc uri = Inr () \<longleftrightarrow>
     35 \<notin> set uri \<and> (\<exists>url. parse_url uc uri = Some url \<and> ul_username url = [] \<and>
       ul_password url = None \<and>
       (if ul_scheme url = u ''https'' then ul_host url \<noteq> None
        else if ul_scheme url = u ''http'' then is_loopback url \<or> is_lan_only url
        else 46 \<in> set (ul_scheme url)))"
  by (auto simp: validate_redirect_uri_def split: option.splits if_splits)

definition web_scheme :: "url \<Rightarrow> bool" where
  "web_scheme url \<longleftrightarrow> ul_scheme url = u ''https'' \<or> ul_scheme url = u ''http''"

lemma check_self_registered_Inr:
  assumes "parse_url uc uri = Some url" "web_scheme url"
  shows "check_self_registered_redirect uc uri public_url = Inr () \<longleftrightarrow>
    \<not> (public_ip url \<and> \<not> is_loopback url) \<and>
    (case parse_url uc public_url of None \<Rightarrow> True
     | Some public \<Rightarrow> origin_key url = None \<or> origin_key url \<noteq> origin_key public)"
  using assms unfolding check_self_registered_redirect_def web_scheme_def
  by (cases "parse_url uc public_url"; cases "origin_key url") (auto simp del: u_Cons)

lemma registered_redirect_cases:
  assumes wf: "\<forall>t url. parse_url uc t = Some url \<longrightarrow> url_wf url"
    and ok: "validate_redirect_uri uc uri = Inr ()"
    and self: "check_self_registered_redirect uc uri public_url = Inr ()"
    and p: "parse_url uc uri = Some url" and web: "web_scheme url"
  shows "\<exists>h. ul_host url = Some h \<and> (ul_scheme url = u ''http'' \<longrightarrow> home_host h) \<and>
    (case h of Domain d \<Rightarrow> True | _ \<Rightarrow> home_host h)"
proof -
  have url: "if ul_scheme url = u ''https'' then ul_host url \<noteq> None
      else if ul_scheme url = u ''http'' then is_loopback url \<or> is_lan_only url
      else 46 \<in> set (ul_scheme url)"
    using ok p by (simp only: validate_redirect_uri_Inr option.inject) (elim conjE exE, simp)
  have "ul_host url \<noteq> None"
    using url web by (cases "ul_host url") (auto simp: web_scheme_def is_loopback_def is_lan_only_def)
  then obtain h where h: "ul_host url = Some h" by blast
  have hw: "host_wf h" using wf p h unfolding url_wf_def by (metis option.simps(5))
  have "ul_scheme url = u ''http'' \<longrightarrow> home_host h"
    using url home_host_iff[OF h hw] by auto
  moreover have "case h of Domain d \<Rightarrow> True | _ \<Rightarrow> home_host h"
    using self check_self_registered_Inr[OF p web] public_ip_home[OF h hw] by blast
  ultimately show ?thesis using h by blast
qed

text \<open>
  A redirect URI that registration accepted for a self-registered client parses,
  carries no fragment and no userinfo and at most 2048 bytes; a non-web scheme is a dotted
  private-use one; over http(s) it has a host, an address host is loopback or inside the private
  blocks (10/8, 172.16/12, 192.168/16, 169.254/16, 100.64/10, fc00::/7, fe80::/10, or an
  IPv4-mapped one of these), plain http goes only to such a host, \<open>localhost\<close> or a LAN name, and
  the origin is not this server's.
\<close>

theorem registered_redirect_safe:
  assumes "\<forall>t url. parse_url uc t = Some url \<longrightarrow> url_wf url"
    and "validate_redirect_uris uc uris = Inr ()" "uri \<in> set uris"
    and "check_self_registered_redirect uc uri public_url = Inr ()"
  shows "35 \<notin> set uri \<and> str_len uri \<le> 2048 \<and> length uris \<le> 8 \<and>
    (\<exists>url. parse_url uc uri = Some url \<and> ul_username url = [] \<and> ul_password url = None \<and>
      (\<not> web_scheme url \<longrightarrow> 46 \<in> set (ul_scheme url)) \<and>
      (web_scheme url \<longrightarrow>
        (\<exists>h. ul_host url = Some h \<and> (ul_scheme url = u ''http'' \<longrightarrow> home_host h) \<and>
          (case h of Domain d \<Rightarrow> True | _ \<Rightarrow> home_host h)) \<and>
        (\<forall>public. parse_url uc public_url = Some public \<longrightarrow>
          origin_key url = None \<or> origin_key url \<noteq> origin_key public)))"
proof -
  have each: "str_len uri \<le> max_redirect_uri" "validate_redirect_uri uc uri = Inr ()"
    "length uris \<le> max_redirect_uris"
    using assms(2,3) by (auto simp: validate_redirect_uris_def validate_each_Inr split: if_splits)
  obtain url where url: "35 \<notin> set uri" "parse_url uc uri = Some url" "ul_username url = []"
    "ul_password url = None" "\<not> web_scheme url \<longrightarrow> 46 \<in> set (ul_scheme url)"
    using each(2) unfolding validate_redirect_uri_Inr web_scheme_def by (auto split: if_splits)
  have "\<forall>public. parse_url uc public_url = Some public \<longrightarrow>
      origin_key url = None \<or> origin_key url \<noteq> origin_key public" if "web_scheme url"
    using assms(4) check_self_registered_Inr[OF url(2) that] by auto
  then show ?thesis
    using url each registered_redirect_cases[OF assms(1) each(2) assms(4) url(2)]
    unfolding max_redirect_uri_def max_redirect_uris_def by blast
qed

definition sample_url :: "str \<Rightarrow> host \<Rightarrow> nat \<Rightarrow> url" where
  "sample_url scheme h port =
     \<lparr>ul_scheme = scheme, ul_username = [], ul_password = None, ul_host = Some h, ul_host_str = None,
      ul_port_or_known_default = Some port, ul_path = [47], ul_cannot_be_a_base = False, ul_text = []\<rparr>"

definition sample_url_crate :: url_crate where
  "sample_url_crate =
     \<lparr>parse_url = (\<lambda>t. if t = u ''a'' then Some (sample_url (u ''http'') (Ipv4 [192, 168, 1, 10]) 3000)
                   else if t = u ''b'' then Some (sample_url (u ''http'') (Ipv6 [0, 0, 0, 0, 0, 0xFFFF, 0xC0A8, 0x010A]) 80)
                   else if t = u ''c'' then Some (sample_url (u ''http'') (Ipv4 [192, 168, 1, 10]) 80)
                   else None),
      set_path = (\<lambda>p url. url)\<rparr>"

lemma registered_redirect_safe_witness:
  "\<exists>url. parse_url sample_url_crate (u ''a'') = Some url \<and> ul_password url = None"
proof -
  have "\<forall>t url. parse_url sample_url_crate t = Some url \<longrightarrow> url_wf url"
    by (auto simp: sample_url_crate_def sample_url_def url_wf_def)
  moreover have "validate_redirect_uris sample_url_crate [u ''a''] = Inr ()"
    "check_self_registered_redirect sample_url_crate (u ''a'') (u ''c'') = Inr ()"
    by code_simp+
  ultimately show ?thesis
    using registered_redirect_safe[of sample_url_crate "[u ''a'']" "u ''a''" "u ''c''"] by auto
qed

section \<open>Aliases of this server\<close>

text \<open>Two spellings of one host: what a resolver or a socket treats alike.\<close>

inductive same_host :: "host \<Rightarrow> host \<Rightarrow> bool" where
  host_refl: "same_host h h"
| host_sym: "same_host h k \<Longrightarrow> same_host k h"
| host_trans: "same_host h k \<Longrightarrow> same_host k l \<Longrightarrow> same_host h l"
| host_dot: "\<not> ends_with d [46] \<Longrightarrow> same_host (Domain d) (Domain (d @ [46]))"
| host_case_fold: "to_ascii_lowercase d = to_ascii_lowercase e \<Longrightarrow> same_host (Domain d) (Domain e)"
| host_mapped: "same_host (Ipv4 [a, b, c, d])
    (Ipv6 [0, 0, 0, 0, 0, 0xFFFF, push_bit 8 (ucast a) OR ucast b, push_bit 8 (ucast c) OR ucast d])"
| host_loop4: "a = 127 \<Longrightarrow> same_host (Ipv4 (a # r)) (Domain (u ''localhost''))"
| host_loop6: "same_host (Ipv6 [0, 0, 0, 0, 0, 0, 0, 1]) (Domain (u ''localhost''))"

lemma mapped_octets:
  fixes a b :: "8 word"
  shows "ucast (drop_bit 8 (push_bit 8 (ucast a) OR ucast b :: 16 word)) = a"
    and "ucast (push_bit 8 (ucast a) OR ucast b :: 16 word) = b"
  by (rule bit_word_eqI; auto simp: bit_simps dest: bit_imp_le_length)+

lemma to_ipv4_mapped_mapped:
  "to_ipv4_mapped [0, 0, 0, 0, 0, 0xFFFF, push_bit 8 (ucast a) OR ucast b, push_bit 8 (ucast c) OR ucast d]
     = Some [a, b, c, d]"
  by (simp add: to_ipv4_mapped_def mapped_octets(1)[unfolded drop_bit_or] mapped_octets(2))

lemma strip_dot_lower: "to_ascii_lowercase (strip_dot d) = strip_dot (to_ascii_lowercase d)"
proof (cases d rule: rev_cases)
  case Nil
  then show ?thesis by (simp add: strip_dot_def strip_suffix_def suffix_def)
next
  case (snoc ys y)
  have "lower1 y = 46 \<longleftrightarrow> y = 46" by (auto simp: lower1_def ascii_classes split: if_splits)
  then show ?thesis by (auto simp: snoc strip_dot_def strip_suffix_def suffix_def)
qed

lemma strip_dot_fix: "\<not> ends_with d [46] \<Longrightarrow> strip_dot d = d"
  by (auto simp: strip_dot_def ends_with_def strip_suffix_def)

lemma strip_dot_append: "strip_dot (d @ [46]) = d"
  by (simp add: strip_dot_def strip_suffix_def suffix_def)

lemma lower_localhost: "to_ascii_lowercase (strip_dot (u ''localhost'')) = u ''localhost''"
  by code_simp

lemma same_host_folds: "same_host h k \<Longrightarrow> fold_host h = fold_host k"
proof (induction rule: same_host.induct)
  case (host_dot d)
  then show ?case by (simp add: fold_host_def strip_dot_fix strip_dot_append)
next
  case (host_case_fold d e)
  then show ?case by (simp add: fold_host_def strip_dot_lower)
next
  case (host_mapped a b c d)
  show ?case by (simp add: fold_host_def to_ipv4_mapped_mapped del: u_Cons)
next
  case (host_loop4 a r)
  then show ?case by (simp add: fold_host_def v4_is_loopback_def lower_localhost del: u_Cons)
next
  case host_loop6
  have "to_ipv4_mapped [0, 0, 0, 0, 0, 0, 0, 1] = None" by (simp add: to_ipv4_mapped_def)
  then show ?case by (simp add: fold_host_def v6_is_loopback_def lower_localhost del: u_Cons)
qed simp_all

text \<open>
  A self-registered redirect on this server's own scheme and port is refused
  whatever spelling of its host it uses: trailing dot, letter case, IPv4-mapped address, or
  \<open>localhost\<close> against any loopback address.
\<close>

theorem own_origin_refused:
  assumes "parse_url uc uri = Some url" "parse_url uc public_url = Some public"
    and "web_scheme url" "ul_scheme url = ul_scheme public"
    and "ul_port_or_known_default url = Some port" "ul_port_or_known_default public = Some port"
    and "ul_host url = Some h" "ul_host public = Some k" "same_host h k"
  shows "\<exists>r \<in> {R_RedirectPublicIp, R_RedirectOwnOrigin}.
    check_self_registered_redirect uc uri public_url = Inl (validation r)"
proof -
  have "origin_key url = origin_key public" "origin_key url \<noteq> None"
    using assms(4-8) same_host_folds[OF assms(9)] by (simp_all add: origin_key_def)
  then show ?thesis
    using assms(1-3) by (simp add: check_self_registered_redirect_def web_scheme_def)
qed

lemma own_origin_refused_witness:
  "\<exists>r \<in> {R_RedirectPublicIp, R_RedirectOwnOrigin}.
     check_self_registered_redirect sample_url_crate (u ''b'') (u ''c'') = Inl (validation r)"
proof (rule own_origin_refused)
  show "parse_url sample_url_crate (u ''b'') =
      Some (sample_url (u ''http'') (Ipv6 [0, 0, 0, 0, 0, 0xFFFF, 0xC0A8, 0x010A]) 80)"
    "parse_url sample_url_crate (u ''c'') = Some (sample_url (u ''http'') (Ipv4 [192, 168, 1, 10]) 80)"
    by (simp_all add: sample_url_crate_def)
  show "same_host (Ipv6 [0, 0, 0, 0, 0, 0xFFFF, 0xC0A8, 0x010A]) (Ipv4 [192, 168, 1, 10])"
    using same_host.host_sym[OF same_host.host_mapped[of 192 168 1 10]] by simp
qed (simp_all add: sample_url_def web_scheme_def)

section \<open>The consent page's alarm\<close>

lemma service_at_Some:
  "service_at h = Some s \<Longrightarrow> s \<in> set known_services \<and> h \<in> set (ks_hosts s)"
  unfolding service_at_def by (rule find_Some_set)

lemma claimed_brands_mem:
  "(s, shown) \<in> set (claimed_brands fold_name name) \<longleftrightarrow>
     s \<in> set known_services \<and>
     (\<exists>word. (word, shown) \<in> set (ks_names s) \<and>
       str_contains (comparable_client_name fold_name name) word)"
  by (force simp: claimed_brands_def Let_def image_iff)

lemma shown_determines:
  "s \<in> set known_services \<Longrightarrow> t \<in> set known_services \<Longrightarrow> ks_shown s = ks_shown t \<Longrightarrow> s = t"
  by (auto simp: known_services_def)

lemma mismatched_None:
  "mismatched_claim fold_name name dst = None \<longleftrightarrow>
     is_local dst \<or> (\<forall>(s, shown) \<in> set (claimed_brands fold_name name). service dst = Some (ks_shown s))"
  by (auto simp: mismatched_claim_def find_None_iff)

lemma service_redirect_destination:
  "service (redirect_destination uc uri) = Some w \<Longrightarrow>
     \<exists>url h s. parse_url uc uri = Some url \<and> ul_scheme url = u ''https'' \<and> ul_host_str url = Some h \<and>
       s \<in> set known_services \<and> h \<in> set (ks_hosts s) \<and> w = ks_shown s"
  by (auto simp: redirect_destination_def Let_def dest!: service_at_Some simp del: u_Cons
      split: option.splits if_splits)

lemma is_local_redirect_destination:
  "is_local (redirect_destination uc uri) \<Longrightarrow> \<exists>url. parse_url uc uri = Some url \<and> is_loopback url"
  by (auto simp: redirect_destination_def Let_def split: option.splits if_splits)

text \<open>
  When the consent page raises no alarm about a client name, either the code stays
  on the owner's machine, or every brand word the folded name contains belongs to the one
  service whose listed host the URI names over https; in particular a name that claims two
  services is never silent off loopback.
\<close>

theorem silent_consent_page:
  assumes "mismatched_claim fold_name name (redirect_destination uc uri) = None"
    and "s \<in> set known_services" "(word, shown) \<in> set (ks_names s)"
    and "str_contains (comparable_client_name fold_name name) word"
  shows "\<exists>url. parse_url uc uri = Some url \<and>
    (is_loopback url \<or>
     (ul_scheme url = u ''https'' \<and> (\<exists>h. ul_host_str url = Some h \<and> h \<in> set (ks_hosts s)) \<and>
      (\<forall>t \<in> set known_services. \<forall>(w, sh) \<in> set (ks_names t).
        str_contains (comparable_client_name fold_name name) w \<longrightarrow> t = s)))"
proof (cases "is_local (redirect_destination uc uri)")
  case True
  then show ?thesis using is_local_redirect_destination by blast
next
  case False
  have all: "service (redirect_destination uc uri) = Some (ks_shown t)"
    if "(t, sh) \<in> set (claimed_brands fold_name name)" for t sh
    using assms(1) False that unfolding mismatched_None by blast
  have own: "service (redirect_destination uc uri) = Some (ks_shown s)"
    using assms(2-4) by (intro all[of s shown]) (auto simp: claimed_brands_mem)
  from service_redirect_destination[OF own] obtain url h s' where
    url: "parse_url uc uri = Some url" "ul_scheme url = u ''https''" "ul_host_str url = Some h"
      "s' \<in> set known_services" "h \<in> set (ks_hosts s')" "ks_shown s = ks_shown s'"
    by blast
  have "s' = s" using shown_determines[OF assms(2) url(4) url(6)] by simp
  moreover have "t = s" if "t \<in> set known_services" "(w, sh) \<in> set (ks_names t)"
    "str_contains (comparable_client_name fold_name name) w" for t w sh
  proof -
    have "service (redirect_destination uc uri) = Some (ks_shown t)"
      using that by (intro all[of t sh]) (auto simp: claimed_brands_mem)
    then show ?thesis using own shown_determines[OF that(1) assms(2)] by simp
  qed
  ultimately show ?thesis using url by blast
qed

definition claude_url_crate :: url_crate where
  "claude_url_crate =
     \<lparr>parse_url = (\<lambda>t. Some ((sample_url (u ''https'') (Domain (u ''claude.ai'')) 443)
                              \<lparr>ul_host_str := Some (u ''claude.ai'')\<rparr>)),
      set_path = (\<lambda>p url. url)\<rparr>"

lemma silent_consent_page_witness:
  "\<exists>url. parse_url claude_url_crate (u ''x'') = Some url \<and>
    (is_loopback url \<or> ul_scheme url = u ''https'')"
proof -
  have "mismatched_claim to_ascii_lowercase (u ''My Claude'')
      (redirect_destination claude_url_crate (u ''x'')) = None"
    by code_simp
  moreover have "hd known_services \<in> set known_services"
    "(u ''claude'', u ''Claude'') \<in> set (ks_names (hd known_services))"
    by (simp_all add: known_services_def)
  moreover have "str_contains (comparable_client_name to_ascii_lowercase (u ''My Claude'')) (u ''claude'')"
    by code_simp
  ultimately show ?thesis
    by (rule silent_consent_page[THEN exE]) blast
qed

section \<open>Cleaned names\<close>

lemma ws_words_append:
  "\<forall>c \<in> set w. \<not> is_whitespace c \<Longrightarrow> ws_words cur (w @ s) = ws_words (rev w @ cur) s"
  by (induction w arbitrary: cur) auto

lemma split_whitespace_join:
  "\<forall>w \<in> set ws. w \<noteq> [] \<and> (\<forall>c \<in> set w. \<not> is_whitespace c) \<Longrightarrow>
     split_whitespace (join [32] ws) = ws"
proof (induction "[32::uchar]" ws rule: join.induct)
  case (3 x y ys)
  have "split_whitespace (join [32] (x # y # ys)) = ws_words (rev x) (32 # join [32] (y # ys))"
    using 3 by (simp add: split_whitespace_def ws_words_append del: ws_words.simps)
  also have "\<dots> = x # split_whitespace (join [32] (y # ys))"
    using 3 by (simp add: split_whitespace_def)
  finally show ?case using 3 by simp
next
  case (2 x)
  then show ?case using ws_words_append[of x "[]" "[]"] by (simp add: split_whitespace_def)
qed (simp add: split_whitespace_def)

definition printable :: "uchar \<Rightarrow> bool" where
  "printable c \<longleftrightarrow> \<not> invisible_char c \<and> \<not> is_control c"

lemma space_printable: "printable 32"
  by code_simp

lemma split_whitespace_mem: "w \<in> set (split_whitespace s) \<Longrightarrow> set w \<subseteq> set s"
proof -
  have "\<forall>w \<in> set (ws_words cur s). set w \<subseteq> set cur \<union> set s" for cur
    by (induction cur s rule: ws_words.induct) (auto split: if_splits)
  then show "w \<in> set (split_whitespace s) \<Longrightarrow> set w \<subseteq> set s"
    unfolding split_whitespace_def by fastforce
qed

lemma display_printable: "c \<in> set (client_name_display name) \<Longrightarrow> printable c"
proof -
  let ?flat = "map (\<lambda>c. if is_control c then 32 else c) (filter (\<lambda>c. \<not> invisible_char c) name)"
  assume "c \<in> set (client_name_display name)"
  then have "c = 32 \<or> (\<exists>w \<in> set (split_whitespace ?flat). c \<in> set w)"
    unfolding client_name_display_def using set_join[of "[32]" "split_whitespace ?flat"] by auto
  then have "c = 32 \<or> c \<in> set ?flat" using split_whitespace_mem by blast
  then show ?thesis using space_printable by (auto simp: printable_def)
qed

lemma display_printable_words:
  "\<forall>c \<in> set name. printable c \<Longrightarrow> client_name_display name = join [32] (split_whitespace name)"
proof -
  assume p: "\<forall>c \<in> set name. printable c"
  then have "filter (\<lambda>c. \<not> invisible_char c) name = name"
    by (intro filter_True) (auto simp: printable_def)
  moreover have "map (\<lambda>c. if is_control c then 32 else c) name = name"
    using p by (intro map_idI) (auto simp: printable_def)
  ultimately show ?thesis by (simp add: client_name_display_def)
qed

lemma display_words:
  "\<exists>ws. client_name_display name = join [32] ws \<and> split_whitespace (client_name_display name) = ws \<and>
     (\<forall>w \<in> set ws. w \<noteq> [] \<and> (\<forall>c \<in> set w. \<not> is_whitespace c))"
  unfolding client_name_display_def
  using split_whitespace_wf by (intro exI conjI) (auto simp: split_whitespace_join)

lemma display_idem: "client_name_display (client_name_display name) = client_name_display name"
  using display_printable_words[of "client_name_display name"] display_printable[of _ name]
    display_words[of name] by metis

interpretation display: normaliser client_name_display
  by unfold_locales (rule display_idem)

text \<open>
  A label the owner's form stores is the cleaned text: non-empty, different from the
  cleaned registered name, at most 200 bytes of UTF-8, free of invisible and control characters,
  words separated by single spaces, unchanged by a second cleaning, and never shaped like a stamp
  the server adds; and a text in that form is stored as typed.
\<close>

theorem owner_label_clean:
  "owner_label fold_name typed registered = Inr (Some l) \<longleftrightarrow>
     l = client_name_display typed \<and> client_name_display l = l \<and> (\<forall>c \<in> set l. printable c) \<and>
     l = join [32] (split_whitespace l) \<and> l \<noteq> [] \<and> l \<noteq> client_name_display registered \<and>
     str_len l \<le> 200 \<and> \<not> claims_a_stamp fold_name l"
proof -
  have w: "client_name_display typed = join [32] (split_whitespace (client_name_display typed))"
    using display_words[of typed] by metis
  have d: "\<forall>c \<in> set (client_name_display typed). printable c" using display_printable by blast
  show ?thesis
  proof
    assume "owner_label fold_name typed registered = Inr (Some l)"
    then have l: "l = client_name_display typed" "l \<noteq> []" "l \<noteq> client_name_display registered"
      "str_len l \<le> max_client_name" "\<not> claims_a_stamp fold_name l"
      by (auto simp: owner_label_def Let_def split: if_splits)
    then show "l = client_name_display typed \<and> client_name_display l = l \<and>
        (\<forall>c \<in> set l. printable c) \<and> l = join [32] (split_whitespace l) \<and> l \<noteq> [] \<and>
        l \<noteq> client_name_display registered \<and> str_len l \<le> 200 \<and> \<not> claims_a_stamp fold_name l"
      using w d by (auto simp: display_idem max_client_name_def)
  next
    assume "l = client_name_display typed \<and> client_name_display l = l \<and>
        (\<forall>c \<in> set l. printable c) \<and> l = join [32] (split_whitespace l) \<and> l \<noteq> [] \<and>
        l \<noteq> client_name_display registered \<and> str_len l \<le> 200 \<and> \<not> claims_a_stamp fold_name l"
    then show "owner_label fold_name typed registered = Inr (Some l)"
      by (auto simp: owner_label_def Let_def max_client_name_def)
  qed
qed

lemma owner_label_clean_witness:
  "owner_label to_ascii_lowercase (u ''  My   laptop '') (u ''Claude'') = Inr (Some (u ''My laptop'')) \<and>
   str_len (u ''My laptop'') \<le> 200"
proof -
  have "owner_label to_ascii_lowercase (u ''  My   laptop '') (u ''Claude'') = Inr (Some (u ''My laptop''))"
    by code_simp
  then show ?thesis
    using owner_label_clean[of to_ascii_lowercase "u ''  My   laptop ''" "u ''Claude''" "u ''My laptop''"]
    by blast
qed

end
