(* ===== verification/Lr_OAuth_Store.thy ===== *)
theory Lr_OAuth_Store
  imports Lr_OAuth
begin

text \<open>
  The tables behind the authorization server and the statements of
  \<open>src/src/adapters/postgres/oauth.rs\<close> on them, one function per operation of the port
  \<open>src/src/ports/oauth.rs\<close>. A table is the list of its rows; a statement's WHERE clause is the
  guard of \<open>update_where\<close> or of the search, \<open>now()\<close> is an argument, and a violated primary or
  foreign key or CHECK is the database error. Any interleaving of requests is a sequence of
  these statements (\<open>store_step\<close>).
\<close>

section \<open>Rows\<close>

record oauth_client =
  cl_id :: str
  cl_secret_hash :: "str option"
  cl_name :: str
  cl_redirect_uris :: "str list"
  cl_grant_types :: "str list"
  cl_software_id :: "str option"
  cl_software_version :: "str option"
  cl_registered_via :: str
  cl_read :: "namespace_grant list"
  cl_write :: "namespace_grant list"
  cl_registry_write :: bool
  cl_sealed_capable :: bool
  cl_may_delete :: bool
  cl_may_ingest :: bool
  cl_may_read_history :: bool
  cl_consented_at :: "instant option"
  cl_profile :: "str option"
  cl_created_at :: instant
  cl_last_used_at :: "instant option"
  cl_revoked_at :: "instant option"
  cl_owner_label :: "str option"

definition is_live :: "oauth_client \<Rightarrow> bool" where
  "is_live c \<longleftrightarrow> cl_revoked_at c = None"

definition has_consent :: "oauth_client \<Rightarrow> bool" where
  "has_consent c \<longleftrightarrow> cl_consented_at c \<noteq> None"

record new_client =
  nc_client_id :: str
  nc_secret_hash :: "str option"
  nc_client_name :: str
  nc_redirect_uris :: "str list"
  nc_grant_types :: "str list"
  nc_software_id :: "str option"
  nc_software_version :: "str option"
  nc_registered_via :: str

record new_code =
  co_hash :: str
  co_client :: str
  co_redirect_uri :: str
  co_challenge :: str
  co_scope :: str
  co_resource :: "str option"
  co_expires_at :: instant

record code_row = new_code +
  co_consumed_at :: "instant option"

type_synonym uuid = "nat list"

record new_token =
  to_hash :: str
  to_client :: str
  to_scope :: str
  to_resource :: "str option"
  to_family :: uuid
  to_expires_at :: instant

record token_row = new_token +
  to_revoked_at :: "instant option"

record new_refresh =
  rf_hash :: str
  rf_client :: str
  rf_family :: uuid
  rf_expires_at :: instant

record refresh_row = new_refresh +
  rf_consumed_at :: "instant option"
  rf_revoked_at :: "instant option"

record grant_update =
  gu_profile :: "str option"
  gu_read :: "namespace_grant list"
  gu_write :: "namespace_grant list"
  gu_registry_write :: bool
  gu_sealed_capable :: bool
  gu_may_delete :: bool
  gu_may_ingest :: bool
  gu_may_read_history :: bool

record oauth_db =
  od_clients :: "oauth_client list"
  od_codes :: "code_row list"
  od_tokens :: "token_row list"
  od_refresh :: "refresh_row list"

datatype code_outcome = CodeFresh new_code | CodeAlreadyConsumed str | CodeExpired | CodeUnknown

datatype refresh_outcome =
  RefreshRotated str uuid | RefreshReplayed uuid | RefreshExpired | RefreshRevoked | RefreshUnknown

section \<open>Statements\<close>

definition find_client :: "oauth_db \<Rightarrow> str \<Rightarrow> oauth_client option" where
  "find_client db i = List.find (\<lambda>c. cl_id c = i) (od_clients db)"

definition register_client :: "instant \<Rightarrow> new_client \<Rightarrow> oauth_db \<Rightarrow> oauth_db res" where
  "register_client now c db =
     (if find_client db (nc_client_id c) \<noteq> None \<or>
         nc_registered_via c \<notin> {u ''dcr'', u ''manual''} then Inl database_error
      else Inr (db\<lparr>od_clients := od_clients db @
        [\<lparr>cl_id = nc_client_id c, cl_secret_hash = nc_secret_hash c, cl_name = nc_client_name c,
          cl_redirect_uris = nc_redirect_uris c, cl_grant_types = nc_grant_types c,
          cl_software_id = nc_software_id c, cl_software_version = nc_software_version c,
          cl_registered_via = nc_registered_via c, cl_read = [], cl_write = [],
          cl_registry_write = False, cl_sealed_capable = False, cl_may_delete = False,
          cl_may_ingest = False, cl_may_read_history = False, cl_consented_at = None,
          cl_profile = None, cl_created_at = now, cl_last_used_at = None, cl_revoked_at = None,
          cl_owner_label = None\<rparr>]\<rparr>))"

definition list_clients :: "oauth_db \<Rightarrow> bool \<Rightarrow> oauth_client list" where
  "list_clients db include_revoked =
     sort_key (\<lambda>c. - cl_created_at c)
       (if include_revoked then od_clients db
        else filter (\<lambda>c. cl_revoked_at c = None) (od_clients db))"

definition set_client_grant :: "instant \<Rightarrow> str \<Rightarrow> grant_update \<Rightarrow> oauth_db \<Rightarrow> oauth_db" where
  "set_client_grant now i g db =
     db\<lparr>od_clients := update_where (\<lambda>c. cl_id c = i)
       (\<lambda>c. c\<lparr>cl_profile := gu_profile g, cl_read := gu_read g, cl_write := gu_write g,
              cl_registry_write := gu_registry_write g, cl_sealed_capable := gu_sealed_capable g,
              cl_may_delete := gu_may_delete g, cl_may_ingest := gu_may_ingest g,
              cl_may_read_history := gu_may_read_history g, cl_consented_at := Some now\<rparr>)
       (od_clients db)\<rparr>"

definition label_ok :: "str option \<Rightarrow> bool" where
  "label_ok label = (case label of None \<Rightarrow> True | Some l \<Rightarrow> 1 \<le> str_len l \<and> str_len l \<le> 200)"

definition set_client_label :: "str \<Rightarrow> str option \<Rightarrow> oauth_db \<Rightarrow> (bool \<times> oauth_db) res" where
  "set_client_label i label db =
     (let hit = (\<lambda>c. cl_id c = i \<and> cl_consented_at c \<noteq> None)
      in if list_ex hit (od_clients db) \<and> \<not> label_ok label then Inl database_error
         else Inr (list_ex hit (od_clients db),
                   db\<lparr>od_clients := update_where hit (\<lambda>c. c\<lparr>cl_owner_label := label\<rparr>) (od_clients db)\<rparr>))"

definition revoke_client :: "instant \<Rightarrow> str \<Rightarrow> oauth_db \<Rightarrow> bool \<times> oauth_db" where
  "revoke_client now i db =
     (list_ex (\<lambda>c. cl_id c = i \<and> cl_revoked_at c = None) (od_clients db),
      db\<lparr>od_clients := update_where (\<lambda>c. cl_id c = i \<and> cl_revoked_at c = None)
           (\<lambda>c. c\<lparr>cl_revoked_at := Some now\<rparr>) (od_clients db),
         od_tokens := update_where (\<lambda>t. to_client t = i \<and> to_revoked_at t = None)
           (\<lambda>t. t\<lparr>to_revoked_at := Some now\<rparr>) (od_tokens db),
         od_refresh := update_where (\<lambda>r. rf_client r = i \<and> rf_revoked_at r = None)
           (\<lambda>r. r\<lparr>rf_revoked_at := Some now\<rparr>) (od_refresh db)\<rparr>)"

definition touch_client :: "instant \<Rightarrow> str \<Rightarrow> oauth_db \<Rightarrow> oauth_db" where
  "touch_client now i db =
     db\<lparr>od_clients := update_where (\<lambda>c. cl_id c = i) (\<lambda>c. c\<lparr>cl_last_used_at := Some now\<rparr>) (od_clients db)\<rparr>"

definition find_code :: "oauth_db \<Rightarrow> str \<Rightarrow> code_row option" where
  "find_code db h = List.find (\<lambda>c. co_hash c = h) (od_codes db)"

definition insert_code :: "new_code \<Rightarrow> oauth_db \<Rightarrow> oauth_db res" where
  "insert_code c db =
     (if find_code db (co_hash c) \<noteq> None \<or> find_client db (co_client c) = None
      then Inl database_error
      else Inr (db\<lparr>od_codes := od_codes db @ [new_code.extend c \<lparr>co_consumed_at = None\<rparr>]\<rparr>))"

definition consume_code :: "instant \<Rightarrow> str \<Rightarrow> oauth_db \<Rightarrow> code_outcome \<times> oauth_db" where
  "consume_code now h db =
     (let spendable = (\<lambda>c. co_hash c = h \<and> co_consumed_at c = None \<and> co_expires_at c > now);
          db' = db\<lparr>od_codes := update_where spendable (\<lambda>c. c\<lparr>co_consumed_at := Some now\<rparr>) (od_codes db)\<rparr>
      in case List.find spendable (od_codes db) of
           Some r \<Rightarrow> (CodeFresh (new_code.truncate r), db')
         | None \<Rightarrow>
             (case find_code db' h of
                None \<Rightarrow> (CodeUnknown, db')
              | Some r \<Rightarrow>
                  if co_consumed_at r \<noteq> None then (CodeAlreadyConsumed (co_client r), db')
                  else if co_expires_at r \<le> now then (CodeExpired, db')
                  else (CodeAlreadyConsumed (co_client r), db')))"

definition find_token :: "oauth_db \<Rightarrow> str \<Rightarrow> token_row option" where
  "find_token db h = List.find (\<lambda>t. to_hash t = h) (od_tokens db)"

definition insert_token :: "new_token \<Rightarrow> oauth_db \<Rightarrow> oauth_db res" where
  "insert_token t db =
     (if find_token db (to_hash t) \<noteq> None \<or> find_client db (to_client t) = None
      then Inl database_error
      else Inr (db\<lparr>od_tokens := od_tokens db @ [new_token.extend t \<lparr>to_revoked_at = None\<rparr>]\<rparr>))"

definition revoke_token :: "instant \<Rightarrow> str \<Rightarrow> oauth_db \<Rightarrow> bool \<times> oauth_db" where
  "revoke_token now h db =
     (list_ex (\<lambda>t. to_hash t = h \<and> to_revoked_at t = None) (od_tokens db),
      db\<lparr>od_tokens := update_where (\<lambda>t. to_hash t = h \<and> to_revoked_at t = None)
           (\<lambda>t. t\<lparr>to_revoked_at := Some now\<rparr>) (od_tokens db)\<rparr>)"

definition find_refresh :: "oauth_db \<Rightarrow> str \<Rightarrow> refresh_row option" where
  "find_refresh db h = List.find (\<lambda>r. rf_hash r = h) (od_refresh db)"

definition insert_refresh :: "new_refresh \<Rightarrow> oauth_db \<Rightarrow> oauth_db res" where
  "insert_refresh r db =
     (if find_refresh db (rf_hash r) \<noteq> None \<or> find_client db (rf_client r) = None
      then Inl database_error
      else Inr (db\<lparr>od_refresh := od_refresh db @
             [new_refresh.extend r \<lparr>rf_consumed_at = None, rf_revoked_at = None\<rparr>]\<rparr>))"

definition refresh_live :: "instant \<Rightarrow> str \<Rightarrow> refresh_row \<Rightarrow> bool" where
  "refresh_live now h r \<longleftrightarrow>
     rf_hash r = h \<and> rf_consumed_at r = None \<and> rf_revoked_at r = None \<and> rf_expires_at r > now"

definition rotate_refresh :: "instant \<Rightarrow> str \<Rightarrow> oauth_db \<Rightarrow> refresh_outcome \<times> oauth_db" where
  "rotate_refresh now h db =
     (let db' = db\<lparr>od_refresh := update_where (refresh_live now h)
                     (\<lambda>r. r\<lparr>rf_consumed_at := Some now\<rparr>) (od_refresh db)\<rparr>
      in case List.find (refresh_live now h) (od_refresh db) of
           Some r \<Rightarrow> (RefreshRotated (rf_client r) (rf_family r), db')
         | None \<Rightarrow>
             (case find_refresh db' h of
                None \<Rightarrow> (RefreshUnknown, db')
              | Some r \<Rightarrow>
                  if rf_consumed_at r \<noteq> None then (RefreshReplayed (rf_family r), db')
                  else if rf_revoked_at r \<noteq> None then (RefreshRevoked, db')
                  else if rf_expires_at r \<le> now then (RefreshExpired, db')
                  else (RefreshReplayed (rf_family r), db')))"

definition refresh_owner :: "instant \<Rightarrow> str \<Rightarrow> oauth_db \<Rightarrow> str option" where
  "refresh_owner now h db = map_option rf_client (List.find (refresh_live now h) (od_refresh db))"

definition revoke_family :: "instant \<Rightarrow> uuid \<Rightarrow> oauth_db \<Rightarrow> oauth_db" where
  "revoke_family now f db =
     db\<lparr>od_tokens := update_where (\<lambda>t. to_family t = f \<and> to_revoked_at t = None)
          (\<lambda>t. t\<lparr>to_revoked_at := Some now\<rparr>) (od_tokens db),
        od_refresh := update_where (\<lambda>r. rf_family r = f \<and> rf_revoked_at r = None)
          (\<lambda>r. r\<lparr>rf_revoked_at := Some now\<rparr>) (od_refresh db)\<rparr>"

text \<open>Deleting a client takes its codes and tokens along (ON DELETE CASCADE).\<close>

definition day :: int where "day = 24 * 3600 * 1000000000"

definition abandoned :: "instant \<Rightarrow> oauth_client \<Rightarrow> bool" where
  "abandoned now c \<longleftrightarrow> cl_registered_via c = u ''dcr'' \<and> cl_consented_at c = None \<and>
     cl_revoked_at c = None \<and> cl_created_at c < now - day"

definition purge_codes :: "instant \<Rightarrow> oauth_db \<Rightarrow> oauth_db" where
  "purge_codes now db = db\<lparr>od_codes := filter (\<lambda>c. \<not> co_expires_at c < now - day) (od_codes db)\<rparr>"

definition purge_tokens :: "instant \<Rightarrow> oauth_db \<Rightarrow> oauth_db" where
  "purge_tokens now db = db\<lparr>od_tokens := filter (\<lambda>t. \<not> to_expires_at t < now - day) (od_tokens db)\<rparr>"

definition purge_refresh :: "instant \<Rightarrow> oauth_db \<Rightarrow> oauth_db" where
  "purge_refresh now db =
     db\<lparr>od_refresh := filter (\<lambda>r. \<not> rf_expires_at r < now - 30 * day) (od_refresh db)\<rparr>"

definition purge_clients :: "instant \<Rightarrow> oauth_db \<Rightarrow> oauth_db" where
  "purge_clients now db =
     (let gone = map cl_id (filter (abandoned now) (od_clients db))
      in \<lparr>od_clients = filter (\<lambda>c. \<not> abandoned now c) (od_clients db),
          od_codes = filter (\<lambda>c. co_client c \<notin> set gone) (od_codes db),
          od_tokens = filter (\<lambda>t. to_client t \<notin> set gone) (od_tokens db),
          od_refresh = filter (\<lambda>r. rf_client r \<notin> set gone) (od_refresh db)\<rparr>)"

definition purge_expired :: "instant \<Rightarrow> oauth_db \<Rightarrow> nat \<times> oauth_db" where
  "purge_expired now db =
     (let db1 = purge_codes now db; db2 = purge_tokens now db1; db3 = purge_refresh now db2;
          db4 = purge_clients now db3
      in ((length (od_codes db) - length (od_codes db1)) +
          (length (od_tokens db1) - length (od_tokens db2)) +
          (length (od_refresh db2) - length (od_refresh db3)) +
          (length (od_clients db3) - length (od_clients db4)), db4))"

section \<open>Any interleaving of statements\<close>

datatype store_op =
    SRegister new_client | SGrant str grant_update | SLabel str "str option"
  | SRevokeClient str | STouch str
  | SInsertCode new_code | SConsume str
  | SInsertToken new_token | SRevokeToken str
  | SInsertRefresh new_refresh | SRotate str | SRevokeFamily uuid
  | SPurgeCodes | SPurgeTokens | SPurgeRefresh | SPurgeClients

definition or_same :: "'a res \<Rightarrow> 'a \<Rightarrow> 'a" where
  "or_same r db = (case r of Inl e \<Rightarrow> db | Inr db' \<Rightarrow> db')"

fun store_step :: "oauth_db \<Rightarrow> instant \<times> store_op \<Rightarrow> oauth_db" where
  "store_step db (now, SRegister c) = or_same (register_client now c db) db"
| "store_step db (now, SGrant i g) = set_client_grant now i g db"
| "store_step db (now, SLabel i l) =
     (case set_client_label i l db of Inl e \<Rightarrow> db | Inr (b, db') \<Rightarrow> db')"
| "store_step db (now, SRevokeClient i) = snd (revoke_client now i db)"
| "store_step db (now, STouch i) = touch_client now i db"
| "store_step db (now, SInsertCode c) = or_same (insert_code c db) db"
| "store_step db (now, SConsume h) = snd (consume_code now h db)"
| "store_step db (now, SInsertToken t) = or_same (insert_token t db) db"
| "store_step db (now, SRevokeToken h) = snd (revoke_token now h db)"
| "store_step db (now, SInsertRefresh r) = or_same (insert_refresh r db) db"
| "store_step db (now, SRotate h) = snd (rotate_refresh now h db)"
| "store_step db (now, SRevokeFamily f) = revoke_family now f db"
| "store_step db (now, SPurgeCodes) = purge_codes now db"
| "store_step db (now, SPurgeTokens) = purge_tokens now db"
| "store_step db (now, SPurgeRefresh) = purge_refresh now db"
| "store_step db (now, SPurgeClients) = purge_clients now db"

section \<open>Rows through statements\<close>

lemma find_filter_keep:
  "List.find p xs = Some x \<Longrightarrow> q x \<Longrightarrow> List.find p (filter q xs) = Some x"
  by (induction xs) (auto split: if_splits)

lemmas op_defs =
  register_client_def set_client_grant_def set_client_label_def revoke_client_def touch_client_def
  insert_code_def consume_code_def insert_token_def revoke_token_def insert_refresh_def
  rotate_refresh_def revoke_family_def purge_codes_def purge_tokens_def purge_refresh_def
  purge_clients_def or_same_def Let_def

lemma snd_consume_code:
  "snd (consume_code now h db) = db\<lparr>od_codes :=
     update_where (\<lambda>c. co_hash c = h \<and> co_consumed_at c = None \<and> co_expires_at c > now)
       (\<lambda>c. c\<lparr>co_consumed_at := Some now\<rparr>) (od_codes db)\<rparr>"
  by (simp add: consume_code_def Let_def split: option.splits)

lemma snd_rotate_refresh:
  "snd (rotate_refresh now h db) = db\<lparr>od_refresh :=
     update_where (refresh_live now h) (\<lambda>r. r\<lparr>rf_consumed_at := Some now\<rparr>) (od_refresh db)\<rparr>"
  by (simp add: rotate_refresh_def Let_def split: option.splits)

section \<open>Revocation is permanent\<close>

definition client_revoked :: "str \<Rightarrow> oauth_db \<Rightarrow> bool" where
  "client_revoked i db \<longleftrightarrow> (\<exists>c. find_client db i = Some c \<and> cl_revoked_at c \<noteq> None)"

lemma client_revoked_update:
  assumes "client_revoked i db" "od_clients db' = update_where p f (od_clients db)"
    and "\<And>c. cl_id (f c) = cl_id c"
    and "\<And>c. cl_revoked_at c \<noteq> None \<Longrightarrow> cl_revoked_at (f c) \<noteq> None"
  shows "client_revoked i db'"
proof -
  obtain c where c: "find_client db i = Some c" "cl_revoked_at c \<noteq> None"
    using assms(1) by (auto simp: client_revoked_def)
  have "find_client db' i = Some (if p c then f c else c)"
    using c(1) find_update[of cl_id f i p "od_clients db", OF assms(3)]
    unfolding find_client_def assms(2) by simp
  moreover have "cl_revoked_at (if p c then f c else c) \<noteq> None" using c(2) assms(4) by simp
  ultimately show ?thesis unfolding client_revoked_def by blast
qed

lemma client_revoked_cong: "od_clients db' = od_clients db \<Longrightarrow> client_revoked i db \<Longrightarrow> client_revoked i db'"
  by (simp add: client_revoked_def find_client_def)

lemma client_revoked_step: "client_revoked i db \<Longrightarrow> client_revoked i (store_step db e)"
proof (cases e)
  case (Pair now oper)
  assume inv: "client_revoked i db"
  show ?thesis
  proof (cases oper)
    case (SRegister c)
    with inv Pair show ?thesis
      by (auto simp: client_revoked_def find_client_def register_client_def or_same_def
          intro: find_append_Some)
  next
    case (SLabel j l)
    have "client_revoked i (db\<lparr>od_clients := update_where p (\<lambda>c. c\<lparr>cl_owner_label := l\<rparr>) (od_clients db)\<rparr>)" for p
      by (rule client_revoked_update[OF inv, where p = p and f = "\<lambda>c. c\<lparr>cl_owner_label := l\<rparr>"]) auto
    with inv Pair SLabel show ?thesis by (simp add: set_client_label_def Let_def)
  next
    case (SGrant j g)
    show ?thesis unfolding Pair SGrant store_step.simps set_client_grant_def
      by (rule client_revoked_update[OF inv], simp, auto)
  next
    case (SRevokeClient j)
    show ?thesis unfolding Pair SRevokeClient store_step.simps revoke_client_def snd_conv
      by (rule client_revoked_update[OF inv], simp, auto)
  next
    case (STouch j)
    show ?thesis unfolding Pair STouch store_step.simps touch_client_def
      by (rule client_revoked_update[OF inv], simp, auto)
  next
    case SPurgeClients
    with inv Pair show ?thesis
      by (auto simp: client_revoked_def find_client_def purge_clients_def Let_def abandoned_def
          intro: find_filter_keep)
  qed (insert inv Pair, auto intro!: client_revoked_cong[OF _ inv] simp: op_defs snd_consume_code[unfolded Let_def]
         snd_rotate_refresh split: if_splits option.splits)
qed

interpretation revoked_client: invariant_machine store_step "client_revoked i" for i
  by unfold_locales (rule client_revoked_step)

lemma revoke_client_revokes:
  assumes "find_client db i \<noteq> None"
  shows "client_revoked i (store_step db (now, SRevokeClient i))"
proof -
  let ?p = "\<lambda>c. cl_id c = i \<and> cl_revoked_at c = None" and ?f = "\<lambda>c. c\<lparr>cl_revoked_at := Some now\<rparr>"
  obtain c where c: "find_client db i = Some c" using assms by blast
  then have "cl_id c = i" unfolding find_client_def by (auto dest: find_Some_set)
  moreover have "find_client (store_step db (now, SRevokeClient i)) i = Some (if ?p c then ?f c else c)"
    using c find_update[of cl_id ?f i ?p "od_clients db"]
    by (simp add: find_client_def revoke_client_def)
  ultimately show ?thesis unfolding client_revoked_def by auto
qed

section \<open>Single use\<close>

text \<open>
  A budget that only some events top up: what a run spends is bounded by what it started with
  plus what was added. A code or a refresh token is worth one.
\<close>

fun spend_run :: "('s \<Rightarrow> 'e \<Rightarrow> 's) \<Rightarrow> ('s \<Rightarrow> 'e \<Rightarrow> nat) \<Rightarrow> 's \<Rightarrow> 'e list \<Rightarrow> nat" where
  "spend_run step spent s [] = 0"
| "spend_run step spent s (e # es) = spent s e + spend_run step spent (step s e) es"

locale budget =
  fixes step :: "'s \<Rightarrow> 'e \<Rightarrow> 's"
    and worth :: "'s \<Rightarrow> nat" and gained :: "'e \<Rightarrow> nat" and spent :: "'s \<Rightarrow> 'e \<Rightarrow> nat"
  assumes balance: "spent s e + worth (step s e) \<le> worth s + gained e"
begin

lemma total_bound: "spend_run step spent s es + worth (run step s es) \<le> worth s + sum_list (map gained es)"
proof (induction es arbitrary: s)
  case (Cons e es)
  show ?case using Cons.IH[of "step s e"] balance[of s e] by simp
qed simp

end

definition code_worth :: "str \<Rightarrow> oauth_db \<Rightarrow> nat" where
  "code_worth h db = length (filter (\<lambda>c. co_hash c = h \<and> co_consumed_at c = None) (od_codes db))"

fun code_issued :: "str \<Rightarrow> instant \<times> store_op \<Rightarrow> nat" where
  "code_issued h (now, SInsertCode c) = (if co_hash c = h then 1 else 0)"
| "code_issued h e = 0"

definition is_fresh :: "code_outcome \<Rightarrow> bool" where
  "is_fresh r = (case r of CodeFresh c \<Rightarrow> True | _ \<Rightarrow> False)"

fun code_spent :: "str \<Rightarrow> oauth_db \<Rightarrow> instant \<times> store_op \<Rightarrow> nat" where
  "code_spent h db (now, SConsume h') = (if h' = h \<and> is_fresh (fst (consume_code now h db)) then 1 else 0)"
| "code_spent h db e = 0"

definition refresh_worth :: "str \<Rightarrow> oauth_db \<Rightarrow> nat" where
  "refresh_worth h db = length (filter (\<lambda>r. rf_hash r = h \<and> rf_consumed_at r = None) (od_refresh db))"

fun refresh_issued :: "str \<Rightarrow> instant \<times> store_op \<Rightarrow> nat" where
  "refresh_issued h (now, SInsertRefresh r) = (if rf_hash r = h then 1 else 0)"
| "refresh_issued h e = 0"

definition is_rotated :: "refresh_outcome \<Rightarrow> bool" where
  "is_rotated r = (case r of RefreshRotated i f \<Rightarrow> True | _ \<Rightarrow> False)"

fun refresh_spent :: "str \<Rightarrow> oauth_db \<Rightarrow> instant \<times> store_op \<Rightarrow> nat" where
  "refresh_spent h db (now, SRotate h') =
     (if h' = h \<and> is_rotated (fst (rotate_refresh now h db)) then 1 else 0)"
| "refresh_spent h db e = 0"

lemma filter_update_spent:
  assumes "\<And>r. p r \<Longrightarrow> q r" "\<And>r. p r \<Longrightarrow> \<not> q (f r)"
  shows "length (filter q (update_where p f rows)) + length (filter p rows) = length (filter q rows)"
  using assms by (induction rows) auto

lemma filter_update_same:
  assumes "\<And>r. q (f r) = q r"
  shows "length (filter q (update_where p f rows)) = length (filter q rows)"
  using assms by (induction rows) auto

lemma filter_filter_le: "length (filter q (filter p rows)) \<le> length (filter q rows)"
  by (induction rows) auto

lemma filter_pos: "x \<in> set rows \<Longrightarrow> p x \<Longrightarrow> 1 \<le> length (filter p rows)"
  by (induction rows) auto

lemma fresh_iff:
  "is_fresh (fst (consume_code now h db)) \<longleftrightarrow>
     (\<exists>c \<in> set (od_codes db). co_hash c = h \<and> co_consumed_at c = None \<and> co_expires_at c > now)"
  by (auto simp: consume_code_def Let_def is_fresh_def find_None_iff dest!: find_Some_set
      split: option.splits)

lemma rotated_iff:
  "is_rotated (fst (rotate_refresh now h db)) \<longleftrightarrow> (\<exists>r \<in> set (od_refresh db). refresh_live now h r)"
  by (auto simp: rotate_refresh_def Let_def is_rotated_def find_None_iff dest!: find_Some_set
      split: option.splits)

lemma not_find: "\<not> (\<exists>y. List.find p xs = Some y) \<Longrightarrow> x \<in> set xs \<Longrightarrow> \<not> p x"
  by (metis find_None_iff not_Some_eq)

lemma code_balance: "code_spent h db e + code_worth h (store_step db e) \<le> code_worth h db + code_issued h e"
proof (cases e)
  case (Pair now oper)
  show ?thesis
  proof (cases oper)
    case (SConsume h')
    let ?p = "\<lambda>c. co_hash c = h' \<and> co_consumed_at c = None \<and> co_expires_at c > now"
    let ?q = "\<lambda>c. co_hash c = h \<and> co_consumed_at c = None"
    have w: "code_worth h (store_step db e) =
        length (filter ?q (update_where ?p (\<lambda>c. c\<lparr>co_consumed_at := Some now\<rparr>) (od_codes db)))"
      unfolding Pair SConsume store_step.simps snd_consume_code by (simp add: code_worth_def)
    show ?thesis
    proof (cases "h' = h")
      case True
      have "length (filter ?q (update_where ?p (\<lambda>c. c\<lparr>co_consumed_at := Some now\<rparr>) (od_codes db))) +
          length (filter ?p (od_codes db)) = length (filter ?q (od_codes db))"
        by (rule filter_update_spent) (auto simp: True)
      moreover have "code_spent h db e \<le> length (filter ?p (od_codes db))"
        using True filter_pos[of _ "od_codes db" ?p] by (auto simp: Pair SConsume fresh_iff)
      ultimately show ?thesis unfolding w by (simp add: code_worth_def Pair SConsume)
    next
      case False
      have "filter ?q (update_where ?p (\<lambda>c. c\<lparr>co_consumed_at := Some now\<rparr>) rows) = filter ?q rows"
        for rows :: "code_row list"
        using False by (induction rows) auto
      then show ?thesis using False unfolding w by (simp add: code_worth_def Pair SConsume)
    qed
  next
    case (SInsertCode c)
    then show ?thesis
      by (auto simp: Pair code_worth_def insert_code_def or_same_def new_code.defs split: if_splits)
  qed (auto simp: Pair code_worth_def op_defs snd_rotate_refresh filter_filter_le
         simp del: filter_filter split: if_splits option.splits)
qed

lemma refresh_balance:
  "refresh_spent h db e + refresh_worth h (store_step db e) \<le> refresh_worth h db + refresh_issued h e"
proof (cases e)
  case (Pair now oper)
  have same: "length (filter (\<lambda>r. rf_hash r = h \<and> rf_consumed_at r = None)
      (update_where p (\<lambda>r. r\<lparr>rf_revoked_at := Some now\<rparr>) rows)) =
      length (filter (\<lambda>r. rf_hash r = h \<and> rf_consumed_at r = None) rows)" for p and rows :: "refresh_row list"
    by (rule filter_update_same) simp
  show ?thesis
  proof (cases oper)
    case (SRotate h')
    let ?q = "\<lambda>r. rf_hash r = h \<and> rf_consumed_at r = None"
    have w: "refresh_worth h (store_step db e) =
        length (filter ?q (update_where (refresh_live now h') (\<lambda>c. c\<lparr>rf_consumed_at := Some now\<rparr>) (od_refresh db)))"
      unfolding Pair SRotate store_step.simps snd_rotate_refresh by (simp add: refresh_worth_def)
    show ?thesis
    proof (cases "h' = h")
      case True
      have "length (filter ?q (update_where (refresh_live now h') (\<lambda>c. c\<lparr>rf_consumed_at := Some now\<rparr>) (od_refresh db))) +
          length (filter (refresh_live now h') (od_refresh db)) = length (filter ?q (od_refresh db))"
        by (rule filter_update_spent) (auto simp: True refresh_live_def)
      moreover have "refresh_spent h db e \<le> length (filter (refresh_live now h') (od_refresh db))"
        using True filter_pos[of _ "od_refresh db" "refresh_live now h'"]
        by (auto simp: Pair SRotate rotated_iff)
      ultimately show ?thesis unfolding w by (simp add: refresh_worth_def Pair SRotate)
    next
      case False
      have "filter ?q (update_where (refresh_live now h') (\<lambda>c. c\<lparr>rf_consumed_at := Some now\<rparr>) rows) = filter ?q rows" for rows
        using False by (induction rows) (auto simp: refresh_live_def)
      then show ?thesis using False unfolding w by (simp add: refresh_worth_def Pair SRotate)
    qed
  next
    case (SInsertRefresh r)
    then show ?thesis
      by (auto simp: Pair refresh_worth_def insert_refresh_def or_same_def new_refresh.defs split: if_splits)
  qed (auto simp: Pair refresh_worth_def op_defs snd_consume_code[unfolded Let_def] filter_filter_le same
         simp del: filter_filter split: if_splits option.splits)
qed

interpretation code_budget: budget store_step "code_worth h" "code_issued h" "code_spent h" for h
  by unfold_locales (rule code_balance)

interpretation refresh_budget: budget store_step "refresh_worth h" "refresh_issued h" "refresh_spent h" for h
  by unfold_locales (rule refresh_balance)

lemma spend_run_append:
  "spend_run step spent s (xs @ ys) = spend_run step spent s xs + spend_run step spent (run step s xs) ys"
  by (induction xs arbitrary: s) auto

text \<open>
  Property C10. However the statements of concurrent requests interleave, the number of times an
  authorization code is accepted never exceeds the unspent rows holding its hash at the start plus
  the rows inserted for that hash since, and the same holds of a refresh token; a code or token
  present once and not issued again is therefore accepted at most once.
\<close>

theorem credentials_single_use:
  "spend_run store_step (code_spent h) db es
     \<le> length (filter (\<lambda>c. co_hash c = h \<and> co_consumed_at c = None) (od_codes db)) +
       sum_list (map (code_issued h) es) \<and>
   spend_run store_step (refresh_spent h) db es
     \<le> length (filter (\<lambda>r. rf_hash r = h \<and> rf_consumed_at r = None) (od_refresh db)) +
       sum_list (map (refresh_issued h) es)"
  using code_budget.total_bound[of h db es] refresh_budget.total_bound[of h db es]
  by (simp add: code_worth_def refresh_worth_def)

section \<open>Killing a family\<close>

definition family_dead :: "uuid \<Rightarrow> oauth_db \<Rightarrow> bool" where
  "family_dead f db \<longleftrightarrow>
     (\<forall>t \<in> set (od_tokens db). to_family t = f \<longrightarrow> to_revoked_at t \<noteq> None) \<and>
     (\<forall>r \<in> set (od_refresh db). rf_family r = f \<longrightarrow> rf_revoked_at r \<noteq> None)"

fun joins_family :: "uuid \<Rightarrow> instant \<times> store_op \<Rightarrow> bool" where
  "joins_family f (now, SInsertToken t) = (to_family t = f)"
| "joins_family f (now, SInsertRefresh r) = (rf_family r = f)"
| "joins_family f e = False"

definition token_dead :: "uuid \<Rightarrow> token_row \<Rightarrow> bool" where
  "token_dead f t \<longleftrightarrow> (to_family t = f \<longrightarrow> to_revoked_at t \<noteq> None)"

definition refresh_dead :: "uuid \<Rightarrow> refresh_row \<Rightarrow> bool" where
  "refresh_dead f r \<longleftrightarrow> (rf_family r = f \<longrightarrow> rf_revoked_at r \<noteq> None)"

lemma family_dead_alt:
  "family_dead f db \<longleftrightarrow> list_all (token_dead f) (od_tokens db) \<and> list_all (refresh_dead f) (od_refresh db)"
  by (simp add: family_dead_def token_dead_def refresh_dead_def list_all_iff)

lemma revoke_family_dead: "family_dead f (revoke_family now f db)"
  unfolding family_dead_alt revoke_family_def
  by (auto intro!: list_all_update_hit simp: token_dead_def refresh_dead_def)

lemma list_all_filter_weak: "list_all q rows \<Longrightarrow> list_all q (filter p rows)"
  by (induction rows) auto

lemma dead_updates:
  "list_all (token_dead f) ts \<Longrightarrow> list_all (token_dead f) (update_where p (\<lambda>t. t\<lparr>to_revoked_at := Some now\<rparr>) ts)"
  "list_all (refresh_dead f) rs \<Longrightarrow> list_all (refresh_dead f) (update_where q (\<lambda>r. r\<lparr>rf_revoked_at := Some now\<rparr>) rs)"
  "list_all (refresh_dead f) rs \<Longrightarrow> list_all (refresh_dead f) (update_where q (\<lambda>r. r\<lparr>rf_consumed_at := Some now\<rparr>) rs)"
  by (auto intro!: list_all_update simp: token_dead_def refresh_dead_def)

lemma family_dead_step: "family_dead f db \<Longrightarrow> \<not> joins_family f e \<Longrightarrow> family_dead f (store_step db e)"
proof (cases e)
  case (Pair now oper)
  assume dead: "family_dead f db" and nj: "\<not> joins_family f e"
  show ?thesis
  proof (cases oper)
    case (SInsertToken t)
    with dead nj Pair show ?thesis
      by (auto simp: family_dead_def insert_token_def or_same_def new_token.defs)
  next
    case (SInsertRefresh r)
    with dead nj Pair show ?thesis
      by (auto simp: family_dead_def insert_refresh_def or_same_def new_refresh.defs)
  next
    case (SConsume h)
    with dead Pair show ?thesis by (simp add: snd_consume_code family_dead_alt)
  next
    case (SRotate h)
    with dead Pair show ?thesis by (simp add: snd_rotate_refresh family_dead_alt dead_updates)
  qed (use dead Pair in \<open>simp_all add: family_dead_alt op_defs dead_updates list_all_filter_weak
        split: option.splits\<close>)
qed

lemma family_dead_run:
  "family_dead f db \<Longrightarrow> \<forall>e \<in> set es. \<not> joins_family f e \<Longrightarrow> family_dead f (run store_step db es)"
  by (induction es arbitrary: db) (auto intro: family_dead_step)

end
