(* ===== verification/Lr_Token.thy ===== *)
theory Lr_Token
  imports Lr_OAuth_Store
begin

text \<open>
  The token and revocation endpoints of \<open>src/src/authserver/routes.rs\<close>: client credentials, the
  code exchange, refresh rotation, token issuance and revocation, each handler whole, as a
  function from the form and the tables to the response and the tables. Drawing a random token
  is the parameter \<open>draw\<close> (one per call); one \<open>now\<close> serves a request. Statements of the store
  are taken to reach the database: only constraint failures are errors here.
\<close>

section \<open>Requests and responses\<close>

datatype resource_audience = AudienceOff | AudienceLenient | AudienceStrict

record token_config =
  tc_resource_url :: str
  tc_audience :: resource_audience
  tc_access_ttl :: int
  tc_refresh_ttl :: int

datatype oauth_code =
  InvalidRequest | InvalidGrant | InvalidClient | InvalidTarget | UnsupportedGrantType

datatype oauth_text =
    O_BadBasic | O_BasicShape | O_BasicMismatch
  | O_GrantType str | O_NoGrantType
  | O_CodeFields | O_CodeUsed | O_CodeExpired | O_CodeUnknown | O_CodeOtherClient
  | O_CodeRedirect | O_CodeVerifier
  | O_RefreshField | O_RefreshUsed | O_RefreshExpired | O_RefreshRevoked | O_RefreshUnknown
  | O_RefreshOtherClient
  | O_ClientUnknown | O_ClientRevoked | O_ClientUnapproved | O_SecretWrong | O_SecretMissing
  | O_SecretUnexpected
  | O_ResourceOther | O_ResourceShape | O_ResourceUnserved
  | O_NoToken

datatype oauth_error = OauthError (oe_error: oauth_code) (oe_description: oauth_text)

fun oauth_status :: "oauth_error \<Rightarrow> nat" where
  "oauth_status (OauthError InvalidClient d) = 401"
| "oauth_status (OauthError c d) = 400"

datatype token_reply =
    ROauthError oauth_error
  | RInternal
  | RTokens (rt_access: str) (rt_expires_in: int) (rt_refresh: "str option") (rt_scope: str)
  | RRevoked

type_synonym form = "str \<Rightarrow> str option"

definition field :: "form \<Rightarrow> str \<Rightarrow> str option" where
  "field f name = (case f name of Some v \<Rightarrow> if v = [] then None else Some v | None \<Rightarrow> None)"

record credentials =
  cr_client_id :: "str option"
  cr_secret :: "str option"

fun split_once :: "uchar \<Rightarrow> str \<Rightarrow> (str \<times> str) option" where
  "split_once c [] = None"
| "split_once c (x # s) =
     (if x = c then Some ([], s) else map_option (\<lambda>(a, b). (x # a, b)) (split_once c s))"

text \<open>\<open>decode\<close> stands for base64 decoding followed by the UTF-8 check.\<close>

definition client_credentials ::
  "(str \<Rightarrow> str option) \<Rightarrow> str option \<Rightarrow> form \<Rightarrow> (oauth_error, credentials) result" where
  "client_credentials decode authorization f =
     (let from_form = \<lparr>cr_client_id = field f (u ''client_id''), cr_secret = field f (u ''client_secret'')\<rparr>;
          basic = (case authorization of
              None \<Rightarrow> None
            | Some h \<Rightarrow>
                (case strip_prefix (u ''Basic '') h of
                   Some r \<Rightarrow> Some (trim r)
                 | None \<Rightarrow> map_option trim (strip_prefix (u ''basic '') h)))
      in case basic of
           None \<Rightarrow> Inr from_form
         | Some encoded \<Rightarrow>
             (case decode encoded of
                None \<Rightarrow> Inl (OauthError InvalidClient O_BadBasic)
              | Some decoded \<Rightarrow>
                  (case split_once 58 decoded of
                     None \<Rightarrow> Inl (OauthError InvalidClient O_BasicShape)
                   | Some (i, secret) \<Rightarrow>
                       if cr_client_id from_form \<noteq> None \<and> cr_client_id from_form \<noteq> Some i
                       then Inl (OauthError InvalidClient O_BasicMismatch)
                       else Inr \<lparr>cr_client_id = Some i, cr_secret = Some secret\<rparr>)))"

definition authenticate_client ::
  "crypto \<Rightarrow> oauth_client \<Rightarrow> credentials \<Rightarrow> (oauth_error, unit) result" where
  "authenticate_client cr client creds =
     (case (cl_secret_hash client, cr_secret creds) of
        (Some expected, Some presented) \<Rightarrow>
          if hashes_match (hash_token cr presented) expected then Inr ()
          else Inl (OauthError InvalidClient O_SecretWrong)
      | (Some _, None) \<Rightarrow> Inl (OauthError InvalidClient O_SecretMissing)
      | (None, Some _) \<Rightarrow> Inl (OauthError InvalidClient O_SecretUnexpected)
      | (None, None) \<Rightarrow> Inr ())"

section \<open>Audiences\<close>

definition resource_for_exchange ::
  "url_crate \<Rightarrow> str option \<Rightarrow> str option \<Rightarrow> (oauth_error, str option) result" where
  "resource_for_exchange uc bnd asked =
     (case (bnd, asked) of
        (Some b, Some a) \<Rightarrow>
          if resource_matches uc b a then Inr (Some b)
          else Inl (OauthError InvalidTarget O_ResourceOther)
      | (Some b, None) \<Rightarrow> Inr (Some b)
      | (None, Some a) \<Rightarrow>
          if canonical_resource uc a = None then Inl (OauthError InvalidTarget O_ResourceShape)
          else Inr (Some a)
      | (None, None) \<Rightarrow> Inr None)"

definition resource_for_issue ::
  "url_crate \<Rightarrow> str option \<Rightarrow> str \<Rightarrow> resource_audience \<Rightarrow> (oauth_error, str) result" where
  "resource_for_issue uc asked served audience =
     (case asked of
        None \<Rightarrow> Inr served
      | Some a \<Rightarrow>
          if canonical_resource uc a = None then Inl (OauthError InvalidTarget O_ResourceShape)
          else if audience \<noteq> AudienceOff \<and> \<not> resource_matches uc a served
            then Inl (OauthError InvalidTarget O_ResourceUnserved)
          else Inr a)"

definition live_consented_client :: "oauth_db \<Rightarrow> str \<Rightarrow> (oauth_error, oauth_client) result" where
  "live_consented_client db i =
     (case find_client db i of
        None \<Rightarrow> Inl (OauthError InvalidClient O_ClientUnknown)
      | Some c \<Rightarrow>
          if \<not> is_live c then Inl (OauthError InvalidClient O_ClientRevoked)
          else if \<not> has_consent c then Inl (OauthError InvalidGrant O_ClientUnapproved)
          else Inr c)"

section \<open>Families\<close>

definition hex_val :: "uchar \<Rightarrow> nat option" where
  "hex_val c =
     (if 48 \<le> c \<and> c \<le> 57 then Some (c - 48)
      else if 97 \<le> c \<and> c \<le> 102 then Some (c - 87)
      else if 65 \<le> c \<and> c \<le> 70 then Some (c - 55) else None)"

fun hex_decode :: "str \<Rightarrow> nat list option" where
  "hex_decode [] = Some []"
| "hex_decode [c] = None"
| "hex_decode (a # b # s) =
     (case (hex_val a, hex_val b, hex_decode s) of
        (Some x, Some y, Some bs) \<Rightarrow> Some ((16 * x + y) # bs)
      | _ \<Rightarrow> None)"

definition family_for :: "str \<Rightarrow> uuid" where
  "family_for code_hash =
     (case hex_decode code_hash of
        Some bytes \<Rightarrow> take 16 bytes @ replicate (16 - length bytes) 0
      | None \<Rightarrow> replicate 16 0)"

section \<open>Issuing\<close>

definition secs :: "int \<Rightarrow> int" where "secs n = n * 1000000000"

definition issue_tokens ::
  "token_config \<Rightarrow> url_crate \<Rightarrow> crypto \<Rightarrow> instant \<Rightarrow> (nat \<Rightarrow> str option) \<Rightarrow> (nat \<Rightarrow> str option) \<Rightarrow>
   oauth_client \<Rightarrow> uuid \<Rightarrow> str \<Rightarrow> str option \<Rightarrow> oauth_db \<Rightarrow> token_reply \<times> oauth_db" where
  "issue_tokens cfg uc cr now draw1 draw2 client family scope asked db =
     (case resource_for_issue uc asked (tc_resource_url cfg) (tc_audience cfg) of
        Inl e \<Rightarrow> (ROauthError e, db)
      | Inr resource \<Rightarrow>
        (case random_token draw1 32 of
           Inl e \<Rightarrow> (RInternal, db)
         | Inr access \<Rightarrow>
           (case insert_token \<lparr>to_hash = hash_token cr access, to_client = cl_id client,
                to_scope = scope, to_resource = Some resource, to_family = family,
                to_expires_at = now + secs (tc_access_ttl cfg)\<rparr> db of
              Inl e \<Rightarrow> (RInternal, db)
            | Inr db1 \<Rightarrow>
                if u ''refresh_token'' \<in> set (cl_grant_types client) then
                  (case random_token draw2 32 of
                     Inl e \<Rightarrow> (RInternal, db1)
                   | Inr t \<Rightarrow>
                     (case insert_refresh \<lparr>rf_hash = hash_token cr t, rf_client = cl_id client,
                          rf_family = family, rf_expires_at = now + secs (tc_refresh_ttl cfg)\<rparr> db1 of
                        Inl e \<Rightarrow> (RInternal, db1)
                      | Inr db2 \<Rightarrow> (RTokens access (tc_access_ttl cfg) (Some t) scope, db2)))
                else (RTokens access (tc_access_ttl cfg) None scope, db1))))"

section \<open>The code exchange\<close>

definition exchange_code ::
  "token_config \<Rightarrow> url_crate \<Rightarrow> crypto \<Rightarrow> instant \<Rightarrow> (nat \<Rightarrow> str option) \<Rightarrow> (nat \<Rightarrow> str option) \<Rightarrow>
   form \<Rightarrow> credentials \<Rightarrow> oauth_db \<Rightarrow> token_reply \<times> oauth_db" where
  "exchange_code cfg uc cr now draw1 draw2 f creds db =
     (case (field f (u ''code''), field f (u ''redirect_uri''), field f (u ''code_verifier'')) of
        (Some code, Some redirect_uri, Some verifier) \<Rightarrow>
          (let code_hash = hash_token cr code
           in case consume_code now code_hash db of
                (CodeAlreadyConsumed client_id, db1) \<Rightarrow>
                  (ROauthError (OauthError InvalidGrant O_CodeUsed),
                   revoke_family now (family_for code_hash) db1)
              | (CodeExpired, db1) \<Rightarrow> (ROauthError (OauthError InvalidGrant O_CodeExpired), db1)
              | (CodeUnknown, db1) \<Rightarrow> (ROauthError (OauthError InvalidGrant O_CodeUnknown), db1)
              | (CodeFresh record, db1) \<Rightarrow>
                  if cr_client_id creds \<noteq> None \<and> cr_client_id creds \<noteq> Some (co_client record)
                    then (ROauthError (OauthError InvalidGrant O_CodeOtherClient), db1)
                  else if redirect_uri \<noteq> co_redirect_uri record
                    then (ROauthError (OauthError InvalidGrant O_CodeRedirect), db1)
                  else if \<not> verify_pkce_s256 cr (co_challenge record) verifier
                    then (ROauthError (OauthError InvalidGrant O_CodeVerifier), db1)
                  else (case live_consented_client db1 (co_client record) of
                      Inl e \<Rightarrow> (ROauthError e, db1)
                    | Inr client \<Rightarrow>
                        (case authenticate_client cr client creds of
                           Inl e \<Rightarrow> (ROauthError e, db1)
                         | Inr _ \<Rightarrow>
                             (case resource_for_exchange uc (co_resource record)
                                     (field f (u ''resource'')) of
                                Inl e \<Rightarrow> (ROauthError e, db1)
                              | Inr resource \<Rightarrow>
                                  issue_tokens cfg uc cr now draw1 draw2 client (family_for code_hash)
                                    (co_scope record) resource db1))))
      | _ \<Rightarrow> (ROauthError (OauthError InvalidRequest O_CodeFields), db))"

section \<open>Refresh rotation\<close>

definition refresh_caller ::
  "crypto \<Rightarrow> oauth_db \<Rightarrow> str \<Rightarrow> credentials \<Rightarrow> (oauth_error, oauth_client) result" where
  "refresh_caller cr db owner creds =
     (if cr_client_id creds \<noteq> None \<and> cr_client_id creds \<noteq> Some owner
      then Inl (OauthError InvalidGrant O_RefreshOtherClient)
      else and_then (live_consented_client db owner) (\<lambda>client.
        and_then (authenticate_client cr client creds) (\<lambda>_. Inr client)))"

definition rotate_grant ::
  "token_config \<Rightarrow> url_crate \<Rightarrow> crypto \<Rightarrow> instant \<Rightarrow> (nat \<Rightarrow> str option) \<Rightarrow> (nat \<Rightarrow> str option) \<Rightarrow>
   form \<Rightarrow> credentials \<Rightarrow> oauth_db \<Rightarrow> token_reply \<times> oauth_db" where
  "rotate_grant cfg uc cr now draw1 draw2 f creds db =
     (case field f (u ''refresh_token'') of
        None \<Rightarrow> (ROauthError (OauthError InvalidRequest O_RefreshField), db)
      | Some presented \<Rightarrow>
        (let resource = field f (u ''resource'')
         in case resource_for_issue uc resource (tc_resource_url cfg) (tc_audience cfg) of
              Inl e \<Rightarrow> (ROauthError e, db)
            | Inr _ \<Rightarrow>
              (let token_hash = hash_token cr presented
               in case (case refresh_owner now token_hash db of
                          Some owner \<Rightarrow> and_then (refresh_caller cr db owner creds) (\<lambda>_. Inr ())
                        | None \<Rightarrow> Inr ()) of
                    Inl e \<Rightarrow> (ROauthError e, db)
                  | Inr _ \<Rightarrow>
                    (case rotate_refresh now token_hash db of
                       (RefreshReplayed family, db1) \<Rightarrow>
                         (ROauthError (OauthError InvalidGrant O_RefreshUsed), revoke_family now family db1)
                     | (RefreshExpired, db1) \<Rightarrow> (ROauthError (OauthError InvalidGrant O_RefreshExpired), db1)
                     | (RefreshRevoked, db1) \<Rightarrow> (ROauthError (OauthError InvalidGrant O_RefreshRevoked), db1)
                     | (RefreshUnknown, db1) \<Rightarrow> (ROauthError (OauthError InvalidGrant O_RefreshUnknown), db1)
                     | (RefreshRotated client_id family, db1) \<Rightarrow>
                         (case refresh_caller cr db1 client_id creds of
                            Inl e \<Rightarrow> (ROauthError e, db1)
                          | Inr client \<Rightarrow>
                              issue_tokens cfg uc cr now draw1 draw2 client family default_scope
                                resource db1)))))"

definition token_endpoint ::
  "token_config \<Rightarrow> url_crate \<Rightarrow> crypto \<Rightarrow> (str \<Rightarrow> str option) \<Rightarrow> instant \<Rightarrow> (nat \<Rightarrow> str option) \<Rightarrow>
   (nat \<Rightarrow> str option) \<Rightarrow> str option \<Rightarrow> form \<Rightarrow> oauth_db \<Rightarrow> token_reply \<times> oauth_db" where
  "token_endpoint cfg uc cr decode now draw1 draw2 authorization f db =
     (case client_credentials decode authorization f of
        Inl e \<Rightarrow> (ROauthError e, db)
      | Inr creds \<Rightarrow>
          (case field f (u ''grant_type'') of
             None \<Rightarrow> (ROauthError (OauthError InvalidRequest O_NoGrantType), db)
           | Some g \<Rightarrow>
               if g = u ''authorization_code'' then exchange_code cfg uc cr now draw1 draw2 f creds db
               else if g = u ''refresh_token'' then rotate_grant cfg uc cr now draw1 draw2 f creds db
               else (ROauthError (OauthError UnsupportedGrantType (O_GrantType g)), db)))"

section \<open>Revocation\<close>

definition revoke_endpoint :: "crypto \<Rightarrow> instant \<Rightarrow> form \<Rightarrow> oauth_db \<Rightarrow> token_reply \<times> oauth_db" where
  "revoke_endpoint cr now f db =
     (case field f (u ''token'') of
        None \<Rightarrow> (ROauthError (OauthError InvalidRequest O_NoToken), db)
      | Some presented \<Rightarrow>
          (let h = hash_token cr presented
           in case revoke_token now h db of
                (True, db1) \<Rightarrow> (RRevoked, db1)
              | (False, db1) \<Rightarrow>
                  (case rotate_refresh now h db1 of
                     (RefreshRotated i family, db2) \<Rightarrow> (RRevoked, revoke_family now family db2)
                   | (RefreshReplayed family, db2) \<Rightarrow> (RRevoked, revoke_family now family db2)
                   | (_, db2) \<Rightarrow> (RRevoked, db2))))"

section \<open>What issuing does\<close>

definition new_access :: "token_config \<Rightarrow> crypto \<Rightarrow> instant \<Rightarrow> oauth_client \<Rightarrow> uuid \<Rightarrow> str \<Rightarrow> str \<Rightarrow> str \<Rightarrow> token_row" where
  "new_access cfg cr now client family scope resource access =
     \<lparr>to_hash = hash_token cr access, to_client = cl_id client, to_scope = scope,
      to_resource = Some resource, to_family = family,
      to_expires_at = now + secs (tc_access_ttl cfg), to_revoked_at = None\<rparr>"

lemma insert_token_Inr:
  "insert_token t db = Inr db' \<longleftrightarrow>
     find_token db (to_hash t) = None \<and> find_client db (to_client t) \<noteq> None \<and>
     db' = db\<lparr>od_tokens := od_tokens db @ [new_token.extend t \<lparr>to_revoked_at = None\<rparr>]\<rparr>"
  by (auto simp: insert_token_def)

lemma insert_refresh_Inr:
  "insert_refresh r db = Inr db' \<longleftrightarrow>
     find_refresh db (rf_hash r) = None \<and> find_client db (rf_client r) \<noteq> None \<and>
     db' = db\<lparr>od_refresh := od_refresh db @
       [new_refresh.extend r \<lparr>rf_consumed_at = None, rf_revoked_at = None\<rparr>]\<rparr>"
  by (auto simp: insert_refresh_def)

lemma issue_tokens_RTokens:
  assumes "issue_tokens cfg uc cr now d1 d2 client family scope asked db = (RTokens access e r sc, db')"
  shows "\<exists>resource. resource_for_issue uc asked (tc_resource_url cfg) (tc_audience cfg) = Inr resource \<and>
    d1 32 = Some access \<and> sc = scope \<and> e = tc_access_ttl cfg \<and>
    find_token db (hash_token cr access) = None \<and>
    od_tokens db' = od_tokens db @ [new_access cfg cr now client family scope resource access] \<and>
    od_clients db' = od_clients db \<and> od_codes db' = od_codes db \<and>
    (r = None \<longleftrightarrow> u ''refresh_token'' \<notin> set (cl_grant_types client)) \<and>
    (\<forall>t. r = Some t \<longrightarrow> find_refresh db (hash_token cr t) = None) \<and>
    od_refresh db' = od_refresh db @ (case r of None \<Rightarrow> [] | Some t \<Rightarrow>
      [\<lparr>rf_hash = hash_token cr t, rf_client = cl_id client, rf_family = family,
        rf_expires_at = now + secs (tc_refresh_ttl cfg), rf_consumed_at = None, rf_revoked_at = None\<rparr>])"
  using assms unfolding issue_tokens_def random_token_def
  by (auto simp: find_refresh_def insert_token_Inr insert_refresh_Inr new_access_def new_token.defs new_refresh.defs
      eq_commute[of "Some x" "d2 32" for x] simp del: u_Cons split: sum.splits option.splits if_splits)

lemma issue_tokens_keeps:
  "od_clients (snd (issue_tokens cfg uc cr now d1 d2 client family scope asked db)) = od_clients db"
  "od_codes (snd (issue_tokens cfg uc cr now d1 d2 client family scope asked db)) = od_codes db"
  by (auto simp: issue_tokens_def insert_token_Inr insert_refresh_Inr split: sum.splits)

lemma live_consented_client_Inr:
  "live_consented_client db i = Inr c \<longleftrightarrow> find_client db i = Some c \<and> is_live c \<and> has_consent c"
  by (auto simp: live_consented_client_def split: option.splits)

lemma find_client_id: "find_client db i = Some c \<Longrightarrow> cl_id c = i"
  unfolding find_client_def by (auto dest: find_Some_set)

lemma refresh_caller_Inr:
  "refresh_caller cr db owner creds = Inr c \<longleftrightarrow>
     (cr_client_id creds = None \<or> cr_client_id creds = Some owner) \<and>
     find_client db owner = Some c \<and> is_live c \<and> has_consent c \<and> authenticate_client cr c creds = Inr ()"
  by (auto simp: refresh_caller_def and_then_Inr live_consented_client_Inr)

lemma consume_fresh:
  assumes "consume_code now h db = (CodeFresh r, db1)"
  shows "\<exists>row \<in> set (od_codes db). co_hash row = h \<and> co_consumed_at row = None \<and>
    now < co_expires_at row \<and> r = new_code.truncate row"
    and "od_clients db1 = od_clients db" "od_tokens db1 = od_tokens db" "od_refresh db1 = od_refresh db"
    and "\<forall>row \<in> set (od_codes db1). co_hash row = h \<longrightarrow> co_consumed_at row \<noteq> None \<or> co_expires_at row \<le> now"
proof -
  show "\<exists>row \<in> set (od_codes db). co_hash row = h \<and> co_consumed_at row = None \<and>
    now < co_expires_at row \<and> r = new_code.truncate row"
    using assms by (auto simp: consume_code_def Let_def dest!: find_Some_set split: option.splits if_splits)
  have db1: "db1 = snd (consume_code now h db)" using assms by simp
  show "od_clients db1 = od_clients db" "od_tokens db1 = od_tokens db" "od_refresh db1 = od_refresh db"
    unfolding db1 snd_consume_code by simp_all
  have "list_all (\<lambda>row. co_hash row = h \<longrightarrow> co_consumed_at row \<noteq> None \<or> co_expires_at row \<le> now) (od_codes db1)"
    unfolding db1 snd_consume_code by (simp, rule list_all_update_hit, auto)
  then show "\<forall>row \<in> set (od_codes db1). co_hash row = h \<longrightarrow> co_consumed_at row \<noteq> None \<or> co_expires_at row \<le> now"
    by (simp add: list_all_iff)
qed

section \<open>The exchange\<close>

lemma exchange_code_RTokens:
  assumes "exchange_code cfg uc cr now d1 d2 f creds db = (RTokens access e r sc, db')"
  shows "\<exists>code uri verifier rcd db1 client resource.
    field f (u ''code'') = Some code \<and> field f (u ''redirect_uri'') = Some uri \<and>
    field f (u ''code_verifier'') = Some verifier \<and>
    consume_code now (hash_token cr code) db = (CodeFresh rcd, db1) \<and>
    (cr_client_id creds = None \<or> cr_client_id creds = Some (co_client rcd)) \<and>
    uri = co_redirect_uri rcd \<and> verify_pkce_s256 cr (co_challenge rcd) verifier \<and>
    live_consented_client db1 (co_client rcd) = Inr client \<and>
    authenticate_client cr client creds = Inr () \<and>
    resource_for_exchange uc (co_resource rcd) (field f (u ''resource'')) = Inr resource \<and>
    issue_tokens cfg uc cr now d1 d2 client (family_for (hash_token cr code)) (co_scope rcd) resource db1
      = (RTokens access e r sc, db')"
proof -
  obtain code uri verifier where flds: "field f (u ''code'') = Some code"
    "field f (u ''redirect_uri'') = Some uri" "field f (u ''code_verifier'') = Some verifier"
    using assms unfolding exchange_code_def by (auto simp del: u_Cons split: option.splits)
  obtain oc db1 where oc: "consume_code now (hash_token cr code) db = (oc, db1)" by fastforce
  obtain rcd where rec: "oc = CodeFresh rcd"
    using assms flds oc unfolding exchange_code_def by (cases oc) (auto simp del: u_Cons)
  have g: "\<not> (cr_client_id creds \<noteq> None \<and> cr_client_id creds \<noteq> Some (co_client rcd))"
    "uri = co_redirect_uri rcd" "verify_pkce_s256 cr (co_challenge rcd) verifier"
    using assms flds oc rec unfolding exchange_code_def
    by (auto simp del: u_Cons split: if_splits)
  obtain client where c: "live_consented_client db1 (co_client rcd) = Inr client"
    using assms flds oc rec g unfolding exchange_code_def by (auto simp del: u_Cons split: sum.splits)
  have a: "authenticate_client cr client creds = Inr ()"
    using assms flds oc rec g c unfolding exchange_code_def by (auto simp del: u_Cons split: sum.splits)
  obtain resource where res: "resource_for_exchange uc (co_resource rcd) (field f (u ''resource'')) = Inr resource"
    using assms flds oc rec g c a unfolding exchange_code_def by (auto simp del: u_Cons split: sum.splits)
  have "issue_tokens cfg uc cr now d1 d2 client (family_for (hash_token cr code)) (co_scope rcd) resource db1
      = (RTokens access e r sc, db')"
    using assms unfolding exchange_code_def
    by (simp only: flds oc rec g c a res option.case prod.case code_outcome.case sum.case Let_def
        simp_thms if_False if_True)
  moreover have "cr_client_id creds = None \<or> cr_client_id creds = Some (co_client rcd)" using g(1) by blast
  moreover have "consume_code now (hash_token cr code) db = (CodeFresh rcd, db1)" using oc rec by simp
  ultimately show ?thesis
    using flds g(2,3) c a res by (intro exI conjI) assumption+
qed

definition code_spent_at :: "instant \<Rightarrow> str \<Rightarrow> oauth_db \<Rightarrow> bool" where
  "code_spent_at now h db \<longleftrightarrow> (\<forall>t \<ge> now. \<not> is_fresh (fst (consume_code t h db)))"

text \<open>
  Property C9. The exchange hands out tokens only for a stored, unspent, unexpired code, to its
  own client (when the caller named one), at its exact redirect URI, with a verifier matching its
  PKCE challenge, while the client is live, approved and authenticated; it adds exactly one access
  token, bound to that client, the code's scope and the code's family, with a resource, and
  afterwards the code can never be spent again.
\<close>

theorem exchange_sound:
  assumes "exchange_code cfg uc cr now d1 d2 f creds db = (RTokens access e r sc, db')"
  shows "\<exists>code verifier row c resource.
    field f (u ''code'') = Some code \<and> field f (u ''code_verifier'') = Some verifier \<and>
    row \<in> set (od_codes db) \<and> co_hash row = hash_token cr code \<and> co_consumed_at row = None \<and>
    now < co_expires_at row \<and> field f (u ''redirect_uri'') = Some (co_redirect_uri row) \<and>
    verify_pkce_s256 cr (co_challenge row) verifier \<and>
    (cr_client_id creds = None \<or> cr_client_id creds = Some (co_client row)) \<and>
    find_client db (co_client row) = Some c \<and> is_live c \<and> has_consent c \<and>
    authenticate_client cr c creds = Inr () \<and>
    od_tokens db' = od_tokens db @
      [new_access cfg cr now c (family_for (hash_token cr code)) (co_scope row) resource access] \<and>
    code_spent_at now (hash_token cr code) db'"
proof -
  obtain code verifier rcd db1 c resource where x:
    "field f (u ''code'') = Some code" "field f (u ''redirect_uri'') = Some (co_redirect_uri rcd)"
    "field f (u ''code_verifier'') = Some verifier"
    "consume_code now (hash_token cr code) db = (CodeFresh rcd, db1)"
    "cr_client_id creds = None \<or> cr_client_id creds = Some (co_client rcd)"
    "verify_pkce_s256 cr (co_challenge rcd) verifier"
    "live_consented_client db1 (co_client rcd) = Inr c" "authenticate_client cr c creds = Inr ()"
    "issue_tokens cfg uc cr now d1 d2 c (family_for (hash_token cr code)) (co_scope rcd) resource db1
      = (RTokens access e r sc, db')"
    using exchange_code_RTokens[OF assms] by auto
  note cf = consume_fresh[OF x(4)]
  obtain row where row: "row \<in> set (od_codes db)" "co_hash row = hash_token cr code"
    "co_consumed_at row = None" "now < co_expires_at row" "rcd = new_code.truncate row"
    using cf(1) by blast
  have sel: "co_client rcd = co_client row" "co_redirect_uri rcd = co_redirect_uri row"
    "co_challenge rcd = co_challenge row" "co_scope rcd = co_scope row"
    by (simp_all add: row(5) new_code.defs)
  obtain res where res: "od_tokens db' = od_tokens db1 @
      [new_access cfg cr now c (family_for (hash_token cr code)) (co_scope rcd) res access]"
    "od_codes db' = od_codes db1"
    using issue_tokens_RTokens[OF x(9)] by auto
  have spent: "code_spent_at now (hash_token cr code) db'"
    unfolding code_spent_at_def fresh_iff res(2) using cf(5) by fastforce
  have cl: "find_client db (co_client row) = Some c" "is_live c" "has_consent c"
    using x(7) cf(2) unfolding live_consented_client_Inr find_client_def by (auto simp: sel)
  show ?thesis
    using x(1-3,5,6,8) row(1-4) cl res(1) spent cf(3) unfolding sel by metis
qed

section \<open>Rotation\<close>

lemma rotate_live:
  assumes "List.find (refresh_live now h) (od_refresh db) = Some row"
  shows "\<exists>db1. rotate_refresh now h db = (RefreshRotated (rf_client row) (rf_family row), db1) \<and>
    od_clients db1 = od_clients db \<and> od_tokens db1 = od_tokens db \<and>
    find_refresh db1 h \<noteq> None \<and>
    (\<forall>r \<in> set (od_refresh db1). rf_hash r = h \<longrightarrow>
      rf_consumed_at r \<noteq> None \<or> rf_revoked_at r \<noteq> None \<or> rf_expires_at r \<le> now)"
proof -
  let ?db1 = "snd (rotate_refresh now h db)"
  have "rotate_refresh now h db = (RefreshRotated (rf_client row) (rf_family row), ?db1)"
    using assms by (simp add: rotate_refresh_def Let_def)
  moreover have "list_all (\<lambda>r. rf_hash r = h \<longrightarrow>
      rf_consumed_at r \<noteq> None \<or> rf_revoked_at r \<noteq> None \<or> rf_expires_at r \<le> now) (od_refresh ?db1)"
    unfolding snd_rotate_refresh by (simp, rule list_all_update_hit, auto simp: refresh_live_def)
  moreover have "find_refresh ?db1 h \<noteq> None"
  proof -
    have "row \<in> set (od_refresh db)" "rf_hash row = h"
      using assms by (auto simp: refresh_live_def dest: find_Some_set)
    then have "row\<lparr>rf_consumed_at := Some now\<rparr> \<in> set (od_refresh ?db1)" "rf_hash (row\<lparr>rf_consumed_at := Some now\<rparr>) = h"
      using find_Some_set[OF assms] unfolding snd_rotate_refresh
      by (auto simp: set_update_where image_iff intro!: bexI[of _ row])
    then show ?thesis unfolding find_refresh_def find_None_iff by blast
  qed
  moreover have "od_clients ?db1 = od_clients db" "od_tokens ?db1 = od_tokens db"
    by (simp_all add: snd_rotate_refresh)
  ultimately show ?thesis unfolding list_all_iff by (intro exI[of _ ?db1] conjI)
qed

lemma refresh_caller_cong: "od_clients db1 = od_clients db \<Longrightarrow> refresh_caller cr db1 i creds = refresh_caller cr db i creds"
  by (simp add: refresh_caller_def live_consented_client_def find_client_def)

lemma issue_not_refused:
  "resource_for_issue uc asked (tc_resource_url cfg) (tc_audience cfg) = Inr r \<Longrightarrow>
     fst (issue_tokens cfg uc cr now d1 d2 client family scope asked db) \<noteq> ROauthError e"
  by (auto simp: issue_tokens_def split: sum.splits)

text \<open>
  The grant with a live token: refused before anything is spent, or the token is spent and the
  reply is tokens or our own fault.
\<close>

lemma rotate_grant_live:
  assumes "field f (u ''refresh_token'') = Some presented"
    and "List.find (refresh_live now (hash_token cr presented)) (od_refresh db) = Some row"
    and "rotate_grant cfg uc cr now d1 d2 f creds db = (reply, db')"
  shows "(\<exists>e. reply = ROauthError e \<and> db' = db) \<or>
    (\<exists>c db1 res. refresh_caller cr db (rf_client row) creds = Inr c \<and>
       resource_for_issue uc (field f (u ''resource'')) (tc_resource_url cfg) (tc_audience cfg) = Inr res \<and>
       rotate_refresh now (hash_token cr presented) db = (RefreshRotated (rf_client row) (rf_family row), db1) \<and>
       issue_tokens cfg uc cr now d1 d2 c (rf_family row) default_scope (field f (u ''resource'')) db1
         = (reply, db'))"
proof (cases "resource_for_issue uc (field f (u ''resource'')) (tc_resource_url cfg) (tc_audience cfg)")
  case (Inl e)
  then show ?thesis using assms by (auto simp: rotate_grant_def Let_def simp del: u_Cons)
next
  case res: (Inr r)
  have owner: "refresh_owner now (hash_token cr presented) db = Some (rf_client row)"
    using assms(2) by (simp add: refresh_owner_def)
  show ?thesis
  proof (cases "refresh_caller cr db (rf_client row) creds")
    case (Inl e)
    then show ?thesis using assms(1,3) res owner by (auto simp: rotate_grant_def Let_def simp del: u_Cons)
  next
    case (Inr c)
    obtain db1 where db1: "rotate_refresh now (hash_token cr presented) db =
        (RefreshRotated (rf_client row) (rf_family row), db1)" "od_clients db1 = od_clients db"
      using rotate_live[OF assms(2)] by blast
    have "refresh_caller cr db1 (rf_client row) creds = Inr c"
      using Inr refresh_caller_cong[OF db1(2)] by simp
    then have "issue_tokens cfg uc cr now d1 d2 c (rf_family row) default_scope (field f (u ''resource'')) db1
         = (reply, db')"
      using assms(1,3) res owner Inr db1(1) by (simp add: rotate_grant_def Let_def del: u_Cons)
    then show ?thesis using Inr db1(1) res by blast
  qed
qed

text \<open>
  Refusing a live refresh token spends nothing: whatever the caller got wrong (the
  resource, the client id, the secret, an unapproved or revoked client), an error reply leaves
  every table as it was, so the owner's retry is not read as a replay.
\<close>

theorem refused_refresh_spends_nothing:
  assumes "field f (u ''refresh_token'') = Some presented"
    and "List.find (refresh_live now (hash_token cr presented)) (od_refresh db) = Some row"
    and "rotate_grant cfg uc cr now d1 d2 f creds db = (ROauthError e, db')"
  shows "db' = db"
  using rotate_grant_live[OF assms] issue_not_refused by (metis fst_conv token_reply.inject(1))

text \<open>
  Rotation hands out tokens only to the live, approved and authenticated client the
  stored token belongs to; the new access token joins the same family, carries a resource and
  belongs to that client, and the presented refresh token cannot be rotated again.
\<close>

theorem rotation_sound:
  assumes "field f (u ''refresh_token'') = Some presented"
    and "List.find (refresh_live now (hash_token cr presented)) (od_refresh db) = Some row"
    and "rotate_grant cfg uc cr now d1 d2 f creds db = (RTokens access e r sc, db')"
  shows "\<exists>c resource. find_client db (rf_client row) = Some c \<and> is_live c \<and> has_consent c \<and>
    authenticate_client cr c creds = Inr () \<and>
    (cr_client_id creds = None \<or> cr_client_id creds = Some (rf_client row)) \<and>
    od_tokens db' = od_tokens db @
      [new_access cfg cr now c (rf_family row) default_scope resource access] \<and>
    (\<forall>t \<ge> now. \<not> is_rotated (fst (rotate_refresh t (hash_token cr presented) db')))"
proof -
  let ?h = "hash_token cr presented"
  obtain c db1 where x: "refresh_caller cr db (rf_client row) creds = Inr c"
    "rotate_refresh now ?h db = (RefreshRotated (rf_client row) (rf_family row), db1)"
    "issue_tokens cfg uc cr now d1 d2 c (rf_family row) default_scope (field f (u ''resource'')) db1
         = (RTokens access e r sc, db')"
    using rotate_grant_live[OF assms] by auto
  from issue_tokens_RTokens[OF x(3)] obtain resource where y:
    "od_tokens db' = od_tokens db1 @ [new_access cfg cr now c (rf_family row) default_scope resource access]"
    "\<forall>t. r = Some t \<longrightarrow> find_refresh db1 (hash_token cr t) = None"
    "\<forall>rr \<in> set (od_refresh db'). rr \<in> set (od_refresh db1) \<or> (\<exists>t. r = Some t \<and> rf_hash rr = hash_token cr t)"
    by (auto split: option.splits)
  have db1: "od_tokens db1 = od_tokens db" "find_refresh db1 ?h \<noteq> None"
    "\<forall>r \<in> set (od_refresh db1). rf_hash r = ?h \<longrightarrow>
      rf_consumed_at r \<noteq> None \<or> rf_revoked_at r \<noteq> None \<or> rf_expires_at r \<le> now"
    using rotate_live[OF assms(2)] x(2) by auto
  have "\<not> refresh_live t ?h rr" if "rr \<in> set (od_refresh db')" "now \<le> t" for rr t
    using y(2,3) db1(2,3) that unfolding refresh_live_def by fastforce
  then have "\<forall>t \<ge> now. \<not> is_rotated (fst (rotate_refresh t ?h db'))"
    unfolding rotated_iff by blast
  then show ?thesis
    using x(1) y(1) db1(1) unfolding refresh_caller_Inr by auto
qed

section \<open>Replays\<close>

lemma consume_spent:
  assumes "\<exists>row \<in> set (od_codes db). co_hash row = h"
    and "\<forall>row \<in> set (od_codes db). co_hash row = h \<longrightarrow> co_consumed_at row \<noteq> None"
  shows "\<exists>i. consume_code now h db = (CodeAlreadyConsumed i, db)"
proof -
  let ?p = "\<lambda>c. co_hash c = h \<and> co_consumed_at c = None \<and> co_expires_at c > now"
  have none: "List.find ?p (od_codes db) = None" using assms(2) by (auto simp: find_None_iff)
  have same: "update_where ?p f (od_codes db) = od_codes db" for f
    unfolding update_where_def by (rule map_idI) (use assms(2) in auto)
  obtain row where row: "find_code db h = Some row"
    using assms(1) unfolding find_code_def
    by (cases "List.find (\<lambda>c. co_hash c = h) (od_codes db)") (auto simp: find_None_iff)
  then have "co_consumed_at row \<noteq> None"
    using assms(2) find_Some_set[of "\<lambda>c. co_hash c = h" "od_codes db" row] unfolding find_code_def by blast
  then show ?thesis using none same row by (simp add: consume_code_def Let_def)
qed

lemma rotate_spent:
  assumes "find_refresh db h = Some row"
    and "\<forall>r \<in> set (od_refresh db). rf_hash r = h \<longrightarrow> rf_consumed_at r \<noteq> None"
  shows "rotate_refresh now h db = (RefreshReplayed (rf_family row), db)"
    and "refresh_owner now h db = None"
proof -
  have none: "List.find (refresh_live now h) (od_refresh db) = None"
    using assms(2) by (auto simp: find_None_iff refresh_live_def)
  have same: "update_where (refresh_live now h) f (od_refresh db) = od_refresh db" for f
    unfolding update_where_def by (rule map_idI) (use assms(2) in \<open>auto simp: refresh_live_def\<close>)
  have "row \<in> set (od_refresh db) \<and> rf_hash row = h"
    using assms(1) unfolding find_refresh_def by (rule find_Some_set)
  then have "rf_consumed_at row \<noteq> None" using assms(2) by blast
  then show "rotate_refresh now h db = (RefreshReplayed (rf_family row), db)"
    using none same assms(1) by (simp add: rotate_refresh_def Let_def)
  show "refresh_owner now h db = None" using none by (simp add: refresh_owner_def)
qed


text \<open>
  Revoking a refresh token at the revocation endpoint kills its whole family, live or
  already spent; a token the endpoint does not know changes nothing; the reply is the same.
\<close>

theorem revoke_endpoint_spec:
  assumes "field f (u ''token'') = Some presented"
    and "find_token db (hash_token cr presented) = None"
  shows "\<exists>db'. revoke_endpoint cr now f db = (RRevoked, db') \<and>
    (find_refresh db (hash_token cr presented) = None \<longrightarrow> db' = db) \<and>
    (\<forall>row. List.find (refresh_live now (hash_token cr presented)) (od_refresh db) = Some row \<or>
       (find_refresh db (hash_token cr presented) = Some row \<and>
        (\<forall>r \<in> set (od_refresh db). rf_hash r = hash_token cr presented \<longrightarrow> rf_consumed_at r \<noteq> None))
       \<longrightarrow> family_dead (rf_family row) db')"
proof -
  let ?h = "hash_token cr presented"
  have nt: "\<not> list_ex (\<lambda>t. to_hash t = ?h \<and> to_revoked_at t = None) (od_tokens db)"
    using assms(2) by (auto simp: find_token_def find_None_iff list_ex_iff)
  have "update_where (\<lambda>t. to_hash t = ?h \<and> to_revoked_at t = None) g (od_tokens db) = od_tokens db" for g
    unfolding update_where_def by (rule map_idI) (use nt in \<open>auto simp: list_ex_iff\<close>)
  then have rt: "revoke_token now ?h db = (False, db)" using nt by (simp add: revoke_token_def)
  obtain oc db2 where oc: "rotate_refresh now ?h db = (oc, db2)" by fastforce
  have reply: "revoke_endpoint cr now f db = (RRevoked,
      (case oc of RefreshRotated i fam \<Rightarrow> revoke_family now fam db2
       | RefreshReplayed fam \<Rightarrow> revoke_family now fam db2 | _ \<Rightarrow> db2))"
    using assms(1) rt oc by (cases oc) (simp_all add: revoke_endpoint_def Let_def del: u_Cons)
  have unknown: "oc = RefreshUnknown \<and> db2 = db" if "find_refresh db ?h = None"
  proof -
    have no: "\<forall>r \<in> set (od_refresh db). \<not> refresh_live now ?h r"
      using that by (auto simp: find_refresh_def find_None_iff refresh_live_def)
    then have "update_where (refresh_live now ?h) g (od_refresh db) = od_refresh db" for g
      unfolding update_where_def by (intro map_idI) auto
    moreover have "List.find (refresh_live now ?h) (od_refresh db) = None" using no by (simp add: find_None_iff)
    ultimately show ?thesis using oc that by (simp add: rotate_refresh_def Let_def)
  qed
  have live: "oc = RefreshRotated (rf_client row) (rf_family row)"
    if "List.find (refresh_live now ?h) (od_refresh db) = Some row" for row
    using rotate_live[OF that] oc by auto
  have spent: "oc = RefreshReplayed (rf_family row)"
    if "find_refresh db ?h = Some row" "\<forall>r \<in> set (od_refresh db). rf_hash r = ?h \<longrightarrow> rf_consumed_at r \<noteq> None" for row
    using rotate_spent(1)[OF that, of now] oc by auto
  show ?thesis
    using reply unknown live spent revoke_family_dead by auto
qed

section \<open>A sample deployment\<close>

definition sample_client :: oauth_client where
  "sample_client =
     \<lparr>cl_id = u ''c'', cl_secret_hash = None, cl_name = u ''Claude'', cl_redirect_uris = [u ''r''],
      cl_grant_types = [u ''authorization_code'', u ''refresh_token''], cl_software_id = None,
      cl_software_version = None, cl_registered_via = u ''dcr'', cl_read = [grant_open (u ''global'')],
      cl_write = [], cl_registry_write = False, cl_sealed_capable = False, cl_may_delete = False,
      cl_may_ingest = False, cl_may_read_history = False, cl_consented_at = Some 1,
      cl_profile = None, cl_created_at = 0, cl_last_used_at = None, cl_revoked_at = None,
      cl_owner_label = None\<rparr>"

definition sample_code :: code_row where
  "sample_code =
     \<lparr>co_hash = u ''ab'', co_client = u ''c'', co_redirect_uri = u ''r'', co_challenge = replicate 43 97,
      co_scope = u ''s'', co_resource = None, co_expires_at = 100, co_consumed_at = None\<rparr>"

definition sample_refresh :: refresh_row where
  "sample_refresh =
     \<lparr>rf_hash = u ''cd'', rf_client = u ''c'', rf_family = [7], rf_expires_at = 100,
      rf_consumed_at = None, rf_revoked_at = None\<rparr>"

definition sample_db :: oauth_db where
  "sample_db = \<lparr>od_clients = [sample_client], od_codes = [sample_code], od_tokens = [],
     od_refresh = [sample_refresh]\<rparr>"

definition sample_crypto :: crypto where
  "sample_crypto = \<lparr>sha256_hex = (\<lambda>t. t), s256_challenge = (\<lambda>v. v)\<rparr>"

definition sample_crate :: url_crate where
  "sample_crate =
     \<lparr>parse_url = (\<lambda>t. Some ((sample_url (u ''https'') (Domain (u ''h'')) 443)\<lparr>ul_text := t\<rparr>)),
      set_path = (\<lambda>p url. url)\<rparr>"

definition sample_cfg :: token_config where
  "sample_cfg = \<lparr>tc_resource_url = u ''https://h/mcp'', tc_audience = AudienceStrict,
     tc_access_ttl = 3600, tc_refresh_ttl = 7200\<rparr>"

definition sample_form :: form where
  "sample_form k =
     (if k = u ''code'' then Some (u ''ab'') else if k = u ''redirect_uri'' then Some (u ''r'')
      else if k = u ''code_verifier'' then Some (replicate 43 97)
      else if k = u ''refresh_token'' then Some (u ''cd'')
      else if k = u ''token'' then Some (u ''cd'') else None)"

definition no_creds :: credentials where
  "no_creds = \<lparr>cr_client_id = None, cr_secret = None\<rparr>"

definition draw_a :: "nat \<Rightarrow> str option" where "draw_a n = Some (replicate 43 98)"
definition draw_b :: "nat \<Rightarrow> str option" where "draw_b n = Some (replicate 43 99)"

lemma exchange_sound_witness:
  "\<exists>db'. exchange_code sample_cfg sample_crate sample_crypto 10 draw_a draw_b sample_form no_creds sample_db
     = (RTokens (replicate 43 98) 3600 (Some (replicate 43 99)) (u ''s''), db') \<and>
   code_spent_at 10 (hash_token sample_crypto (u ''ab'')) db'"
proof -
  let ?x = "exchange_code sample_cfg sample_crate sample_crypto 10 draw_a draw_b sample_form no_creds sample_db"
  have 1: "fst ?x = RTokens (replicate 43 98) 3600 (Some (replicate 43 99)) (u ''s'')" by code_simp
  have 2: "field sample_form (u ''code'') = Some (u ''ab'')" by code_simp
  from 1 have "?x = (RTokens (replicate 43 98) 3600 (Some (replicate 43 99)) (u ''s''), snd ?x)"
    by (metis prod.collapse)
  from exchange_sound[OF this] 2 this show ?thesis by (metis option.inject)
qed

lemma refused_refresh_spends_nothing_witness:
  "snd (rotate_grant sample_cfg sample_crate sample_crypto 10 draw_a draw_b sample_form
     \<lparr>cr_client_id = Some (u ''d''), cr_secret = None\<rparr> sample_db) = sample_db"
proof -
  let ?x = "rotate_grant sample_cfg sample_crate sample_crypto 10 draw_a draw_b sample_form
     \<lparr>cr_client_id = Some (u ''d''), cr_secret = None\<rparr> sample_db"
  have 1: "fst ?x = ROauthError (OauthError InvalidGrant O_RefreshOtherClient)" by code_simp
  have 2: "field sample_form (u ''refresh_token'') = Some (u ''cd'')" by code_simp
  have 3: "List.find (refresh_live 10 (hash_token sample_crypto (u ''cd''))) (od_refresh sample_db)
    = Some sample_refresh" by code_simp
  from 1 have "?x = (ROauthError (OauthError InvalidGrant O_RefreshOtherClient), snd ?x)"
    by (metis prod.collapse)
  from refused_refresh_spends_nothing[OF 2 3 this] show ?thesis .
qed

lemma rotation_sound_witness:
  "\<exists>c. find_client sample_db (u ''c'') = Some c \<and> is_live c \<and>
     fst (rotate_grant sample_cfg sample_crate sample_crypto 10 draw_a draw_b sample_form no_creds sample_db)
       = RTokens (replicate 43 98) 3600 (Some (replicate 43 99)) default_scope"
proof -
  let ?x = "rotate_grant sample_cfg sample_crate sample_crypto 10 draw_a draw_b sample_form no_creds sample_db"
  have 1: "fst ?x = RTokens (replicate 43 98) 3600 (Some (replicate 43 99)) default_scope" by code_simp
  have 2: "field sample_form (u ''refresh_token'') = Some (u ''cd'')" by code_simp
  have 3: "List.find (refresh_live 10 (hash_token sample_crypto (u ''cd''))) (od_refresh sample_db)
    = Some sample_refresh" by code_simp
  have 4: "rf_client sample_refresh = u ''c''" by code_simp
  from 1 have "?x = (RTokens (replicate 43 98) 3600 (Some (replicate 43 99)) default_scope, snd ?x)"
    by (metis prod.collapse)
  from rotation_sound[OF 2 3 this] 1 show ?thesis unfolding 4 by blast
qed

definition spent_db :: oauth_db where
  "spent_db = sample_db\<lparr>od_codes := [sample_code\<lparr>co_consumed_at := Some 5\<rparr>],
     od_refresh := [sample_refresh\<lparr>rf_consumed_at := Some 5\<rparr>]\<rparr>"


lemma revoke_endpoint_spec_witness:
  "\<exists>db'. revoke_endpoint sample_crypto 10 sample_form sample_db = (RRevoked, db') \<and> family_dead [7] db'"
proof -
  have 2: "field sample_form (u ''token'') = Some (u ''cd'')" by code_simp
  have 3: "find_token sample_db (hash_token sample_crypto (u ''cd'')) = None" by code_simp
  have 4: "List.find (refresh_live 10 (hash_token sample_crypto (u ''cd''))) (od_refresh sample_db)
    = Some sample_refresh" by code_simp
  have 5: "rf_family sample_refresh = [7]" by (simp add: sample_refresh_def)
  from revoke_endpoint_spec[OF 2 3, of 10] 4 show ?thesis unfolding 5[symmetric] by blast
qed

section \<open>Interleaved requests\<close>

text \<open>
  The family kill does not reach a token issued after it: when the two requests that
  present one code interleave so that the second is refused as a replay, and the family revoked,
  between the first's spend and its insert, the first still inserts its access token, live, into
  the revoked family.
\<close>

theorem replay_race:
  "let h = hash_token sample_crypto (u ''ab'');
       (o1, db1) = consume_code 10 h sample_db;
       (o2, db2) = consume_code 11 h db1;
       db3 = revoke_family 12 (family_for h) db2;
       (reply, db4) = issue_tokens sample_cfg sample_crate sample_crypto 13 draw_a draw_b sample_client
                        (family_for h) (co_scope sample_code) None db3
   in is_fresh o1 \<and> o2 = CodeAlreadyConsumed (u ''c'') \<and> family_dead (family_for h) db3 \<and>
      reply = RTokens (replicate 43 98) 3600 (Some (replicate 43 99)) (u ''s'') \<and>
      \<not> family_dead (family_for h) db4"
  unfolding family_dead_alt by code_simp

end
