(* ===== verification/Lr_Auth.thy ===== *)
theory Lr_Auth
  imports Lr_Token
begin

text \<open>
  How a request becomes a principal: static bearer tokens (\<open>src/src/adapters/auth/token.rs\<close>),
  opaque access tokens of the built-in server (\<open>opaque.rs\<close>), the chain that tries them in order
  (\<open>chain.rs\<close>) and its construction (\<open>mod.rs\<close>), with the configured grants of
  \<open>src/src/config.rs\<close>. An authenticator is its mode and a function of the header and the
  tables; the JWT link of \<open>oidc.rs\<close>, which rests on an external issuer and JWT library, enters
  the chain as such a pair and is not modelled further.
\<close>

section \<open>Configured grants\<close>

record client_grant =
  cg_client :: str
  cg_token :: "str option"
  cg_read :: "namespace_grant list option"
  cg_write :: "namespace_grant list option"
  cg_registry_write :: bool
  cg_sealed_capable :: bool
  cg_may_delete :: bool
  cg_may_ingest :: bool
  cg_may_read_history :: bool

definition read_grants :: "client_grant \<Rightarrow> namespace_grant list" where
  "read_grants g = (case cg_read g of Some r \<Rightarrow> r | None \<Rightarrow> grant_everything)"

definition write_grants :: "client_grant \<Rightarrow> namespace_grant list" where
  "write_grants g = (case cg_write g of Some r \<Rightarrow> r | None \<Rightarrow> grant_everything)"

definition effective_sealed_capable :: "client_grant \<Rightarrow> bool" where
  "effective_sealed_capable g \<longleftrightarrow> cg_sealed_capable g \<or> cg_read g = None"

section \<open>Static tokens\<close>

definition fingerprint :: "crypto \<Rightarrow> str \<Rightarrow> str" where
  "fingerprint cr token = take 12 (sha256_hex cr token)"

definition token_entries :: "crypto \<Rightarrow> client_grant list \<Rightarrow> (client_grant \<times> str) list" where
  "token_entries cr grants =
     filter_map (\<lambda>g. map_option (\<lambda>t. (g, sha256_hex cr t)) (cg_token g)) grants"

text \<open>The loop keeps the last entry whose digest matches.\<close>

fun last_match :: "str \<Rightarrow> (client_grant \<times> str) option \<Rightarrow> (client_grant \<times> str) list \<Rightarrow> (client_grant \<times> str) option" where
  "last_match presented matched [] = matched"
| "last_match presented matched (e # es) =
     last_match presented (if snd e = presented then Some e else matched) es"

definition token_principal :: "crypto \<Rightarrow> client_grant \<Rightarrow> str \<Rightarrow> principal" where
  "token_principal cr g token =
     \<lparr>p_client = cg_client g, p_token_id = fingerprint cr token, p_mode = u ''token'', p_scopes = [],
      p_read = read_grants g, p_write = write_grants g, p_registry_write = cg_registry_write g,
      p_sealed_capable = effective_sealed_capable g, p_may_delete = cg_may_delete g,
      p_may_ingest = cg_may_ingest g, p_may_read_history = cg_may_read_history g\<rparr>"

definition token_authenticate ::
  "crypto \<Rightarrow> (client_grant \<times> str) list \<Rightarrow> str option \<Rightarrow> principal res" where
  "token_authenticate cr entries authorization =
     and_then (bearer authorization) (\<lambda>token.
       case last_match (sha256_hex cr token) None entries of
         None \<Rightarrow> Inl (forbidden R_InvalidBearer)
       | Some (g, d) \<Rightarrow> Inr (token_principal cr g token))"

section \<open>Opaque access tokens\<close>

definition scope_words :: "str \<Rightarrow> str list" where
  "scope_words s = filter (\<lambda>w. w \<noteq> []) (split_when (\<lambda>c. is_whitespace c \<or> c = 44) s)"

definition audience_check ::
  "url_crate \<Rightarrow> resource_audience \<Rightarrow> str \<Rightarrow> str option \<Rightarrow> unit res" where
  "audience_check uc audience served bnd =
     (if audience = AudienceOff then Inr ()
      else (case bnd of
          Some b \<Rightarrow> if resource_matches uc b served then Inr () else Inl (forbidden R_OtherResource)
        | None \<Rightarrow> if audience = AudienceStrict then Inl (forbidden R_NoResource) else Inr ()))"

definition opaque_principal :: "crypto \<Rightarrow> oauth_client \<Rightarrow> token_row \<Rightarrow> str \<Rightarrow> principal" where
  "opaque_principal cr client row token =
     \<lparr>p_client = cl_id client, p_token_id = fingerprint cr token, p_mode = u ''oauth'',
      p_scopes = scope_words (to_scope row), p_read = cl_read client, p_write = cl_write client,
      p_registry_write = cl_registry_write client, p_sealed_capable = cl_sealed_capable client,
      p_may_delete = cl_may_delete client, p_may_ingest = cl_may_ingest client,
      p_may_read_history = cl_may_read_history client\<rparr>"

definition opaque_authenticate ::
  "crypto \<Rightarrow> url_crate \<Rightarrow> resource_audience \<Rightarrow> str \<Rightarrow> instant \<Rightarrow> oauth_db \<Rightarrow> str option \<Rightarrow>
   (domain_error, principal) result \<times> oauth_db" where
  "opaque_authenticate cr uc audience served now db authorization =
     (case bearer authorization of
        Inl e \<Rightarrow> (Inl e, db)
      | Inr token \<Rightarrow>
        (case find_token db (hash_token cr token) of
           None \<Rightarrow> (Inl (forbidden R_InvalidBearer), db)
         | Some row \<Rightarrow>
             if to_expires_at row \<le> now then (Inl (forbidden R_TokenExpired), db)
             else if to_revoked_at row \<noteq> None then (Inl (forbidden R_TokenRevoked), db)
             else (case audience_check uc audience served (to_resource row) of
                 Inl e \<Rightarrow> (Inl e, db)
               | Inr _ \<Rightarrow>
                   (case find_client db (to_client row) of
                      None \<Rightarrow> (Inl (forbidden R_ClientGone), db)
                    | Some client \<Rightarrow>
                        if \<not> is_live client then (Inl (forbidden R_ClientRevoked), db)
                        else if \<not> has_consent client then (Inl (forbidden R_ClientUnapproved), db)
                        else if cl_read client = [] \<and> cl_write client = [] \<and> \<not> cl_may_ingest client
                          then (Inl (forbidden R_ClientNoGrant), db)
                        else (Inr (opaque_principal cr client row token),
                              touch_client now (to_client row) db)))))"

section \<open>The chain\<close>

definition chain_is_base64url :: "str \<Rightarrow> bool" where
  "chain_is_base64url s \<longleftrightarrow> s \<noteq> [] \<and> list_all (\<lambda>c. is_ascii_alphanumeric c \<or> c = 45 \<or> c = 95) s"

definition looks_like_jwt :: "str \<Rightarrow> bool" where
  "looks_like_jwt token =
     (case split_on 46 token of
        [a, b, c] \<Rightarrow> a \<noteq> [] \<and> b \<noteq> [] \<and> c \<noteq> [] \<and>
          chain_is_base64url a \<and> chain_is_base64url b \<and> chain_is_base64url c
      | _ \<Rightarrow> False)"

definition looks_like_opaque_token :: "str \<Rightarrow> bool" where
  "looks_like_opaque_token token \<longleftrightarrow> 20 \<le> str_len token \<and> chain_is_base64url token"

definition claims_shape :: "str \<Rightarrow> str \<Rightarrow> bool" where
  "claims_shape mode token =
     (if mode = u ''oidc'' then looks_like_jwt token
      else if mode = u ''oauth'' then looks_like_opaque_token token else False)"

type_synonym 's link = "str \<times> ('s \<Rightarrow> str option \<Rightarrow> (domain_error, principal) result \<times> 's)"

fun chain_links ::
  "'s link list \<Rightarrow> str option \<Rightarrow> str \<Rightarrow> domain_error option \<Rightarrow> domain_error option \<Rightarrow> 's \<Rightarrow>
   (domain_error, principal) result \<times> 's" where
  "chain_links [] authorization token shaped fault s =
     (Inl (case shaped of Some e \<Rightarrow> e
           | None \<Rightarrow> (case fault of Some e \<Rightarrow> e | None \<Rightarrow> forbidden R_InvalidCredentials)), s)"
| "chain_links ((mode, link) # links) authorization token shaped fault s =
     (case link s authorization of
        (Inr p, s') \<Rightarrow> (Inr p, s')
      | (Inl e, s') \<Rightarrow>
          if claims_shape mode token then chain_links links authorization token (Some e) fault s'
          else if err_kind e \<noteq> Forbidden \<and> fault = None
            then chain_links links authorization token shaped (Some e) s'
          else chain_links links authorization token shaped fault s')"

definition chain_authenticate ::
  "'s link list \<Rightarrow> 's \<Rightarrow> str option \<Rightarrow> (domain_error, principal) result \<times> 's" where
  "chain_authenticate links s authorization =
     (if (case authorization of None \<Rightarrow> [] | Some h \<Rightarrow> trim h) = []
      then (Inl (forbidden R_MissingAuthorization), s)
      else (case bearer authorization of
              Inl e \<Rightarrow> (Inl e, s)
            | Inr token \<Rightarrow> chain_links links authorization token None None s))"

datatype auth_mode = ModeToken | ModeOauth | ModeOidc

definition create_links ::
  "crypto \<Rightarrow> url_crate \<Rightarrow> resource_audience \<Rightarrow> str \<Rightarrow> (instant) \<Rightarrow> client_grant list \<Rightarrow> auth_mode \<Rightarrow>
   bool \<Rightarrow> (domain_error, oauth_db link) result \<Rightarrow> oauth_db link list res" where
  "create_links cr uc audience served now grants mode has_store oidc =
     (let static = (if list_ex (\<lambda>g. cg_token g \<noteq> None) grants
                    then [(u ''token'', \<lambda>s h. (token_authenticate cr (token_entries cr grants) h, s))]
                    else [])
      in and_then
           (case mode of
              ModeToken \<Rightarrow> Inr static
            | ModeOauth \<Rightarrow>
                if has_store then Inr (static @ [(u ''oauth'', opaque_authenticate cr uc audience served now)])
                else Inl (internal R_NeedsOauthStore)
            | ModeOidc \<Rightarrow> and_then oidc (\<lambda>l. Inr (static @ [l])))
           (\<lambda>links. if links = [] then Inl (validation R_NoCredentialSource) else Inr links))"

section \<open>Fail closed\<close>

lemma opaque_Inr:
  "opaque_authenticate cr uc audience served now db h = (Inr p, db') \<longleftrightarrow>
     (\<exists>token row client. bearer h = Inr token \<and> find_token db (hash_token cr token) = Some row \<and>
        now < to_expires_at row \<and> to_revoked_at row = None \<and>
        audience_check uc audience served (to_resource row) = Inr () \<and>
        find_client db (to_client row) = Some client \<and> is_live client \<and> has_consent client \<and>
        (cl_read client \<noteq> [] \<or> cl_write client \<noteq> [] \<or> cl_may_ingest client) \<and>
        p = opaque_principal cr client row token \<and> db' = touch_client now (to_client row) db)"
  by (auto simp: opaque_authenticate_def split: sum.splits option.splits if_splits)

lemma audience_check_Inr:
  "audience_check uc audience served bnd = Inr () \<longleftrightarrow>
     audience = AudienceOff \<or>
     (case bnd of Some b \<Rightarrow> resource_matches uc b served | None \<Rightarrow> audience = AudienceLenient)"
  by (cases audience) (auto simp: audience_check_def split: option.splits)

text \<open>
  Property C7. A principal from an opaque token exists only if the presented token's hash is
  stored, unexpired and unrevoked, bound to the served resource when the audience is checked (and
  bound at all under strict), and its client is live, approved and holds some grant; the principal
  carries that client's id and exactly the grant and capabilities stored on its row, and the only
  change is the client's last-used time.
\<close>

theorem opaque_fails_closed:
  assumes "opaque_authenticate cr uc audience served now db h = (Inr p, db')"
  shows "\<exists>token row client. bearer h = Inr token \<and>
    row \<in> set (od_tokens db) \<and> to_hash row = hash_token cr token \<and>
    now < to_expires_at row \<and> to_revoked_at row = None \<and>
    (audience \<noteq> AudienceOff \<longrightarrow>
      (case to_resource row of Some b \<Rightarrow> resource_matches uc b served | None \<Rightarrow> audience = AudienceLenient)) \<and>
    client \<in> set (od_clients db) \<and> cl_id client = to_client row \<and>
    cl_revoked_at client = None \<and> cl_consented_at client \<noteq> None \<and>
    (cl_read client \<noteq> [] \<or> cl_write client \<noteq> [] \<or> cl_may_ingest client) \<and>
    p_client p = to_client row \<and> p_read p = cl_read client \<and> p_write p = cl_write client \<and>
    p_registry_write p = cl_registry_write client \<and> p_may_delete p = cl_may_delete client \<and>
    p_may_ingest p = cl_may_ingest client \<and> p_may_read_history p = cl_may_read_history client \<and>
    p_sealed_capable p = cl_sealed_capable client \<and> db' = touch_client now (to_client row) db"
proof -
  obtain token row client where x: "bearer h = Inr token"
    "find_token db (hash_token cr token) = Some row" "now < to_expires_at row" "to_revoked_at row = None"
    "audience_check uc audience served (to_resource row) = Inr ()"
    "find_client db (to_client row) = Some client" "is_live client" "has_consent client"
    "cl_read client \<noteq> [] \<or> cl_write client \<noteq> [] \<or> cl_may_ingest client"
    "p = opaque_principal cr client row token" "db' = touch_client now (to_client row) db"
    using assms unfolding opaque_Inr by blast
  have "row \<in> set (od_tokens db) \<and> to_hash row = hash_token cr token"
    using x(2) unfolding find_token_def by (rule find_Some_set)
  moreover have "client \<in> set (od_clients db) \<and> cl_id client = to_client row"
    using x(6) unfolding find_client_def by (rule find_Some_set)
  moreover have "audience \<noteq> AudienceOff \<longrightarrow>
      (case to_resource row of Some b \<Rightarrow> resource_matches uc b served | None \<Rightarrow> audience = AudienceLenient)"
    using x(5) unfolding audience_check_Inr by blast
  ultimately show ?thesis
    using x unfolding is_live_def has_consent_def opaque_principal_def
    by (intro exI[of _ token] exI[of _ row] exI[of _ client]) simp
qed

text \<open>
  Revoking a registered client is final: after it, whatever statements other requests
  run and in whatever order, no header ever authenticates as that client through an opaque token.
\<close>

theorem revoked_client_never_authenticates:
  assumes "find_client db i \<noteq> None"
    and "opaque_authenticate cr uc audience served t
           (run store_step (store_step db (now, SRevokeClient i)) es) h = (Inr p, db')"
  shows "p_client p \<noteq> i"
proof
  assume i: "p_client p = i"
  let ?db = "run store_step (store_step db (now, SRevokeClient i)) es"
  have "client_revoked i ?db"
    by (rule revoked_client.run_inv) (rule revoke_client_revokes[OF assms(1)])
  moreover obtain token row client where c: "find_client ?db (to_client row) = Some client"
    "is_live client" "p = opaque_principal cr client row token"
    using assms(2) unfolding opaque_Inr by blast
  moreover have "p_client p = cl_id client" by (simp add: c(3) opaque_principal_def)
  ultimately show False
    using i find_client_id unfolding client_revoked_def is_live_def by (metis option.inject)
qed

section \<open>From the code to a principal\<close>

lemma token_char_not_ws: "is_ascii_alphanumeric c \<or> c = 45 \<or> c = 95 \<Longrightarrow> \<not> is_whitespace c"
  by (auto simp: is_whitespace_def ascii_classes)

lemma split_once_ws_app: "\<forall>c \<in> set a. \<not> is_whitespace c \<Longrightarrow> is_whitespace w \<Longrightarrow>
    split_once_ws (a @ w # s) = Some (a, s)"
  by (induction a) auto

lemma bearer_token:
  assumes "chain_is_base64url access"
  shows "bearer (Some (u ''Bearer '' @ access)) = Inr access"
proof -
  have ws: "\<forall>c \<in> set access. \<not> is_whitespace c"
    using assms token_char_not_ws by (auto simp: chain_is_base64url_def list_all_iff)
  have ne: "access \<noteq> []" using assms by (simp add: chain_is_base64url_def)
  have "trim (u ''Bearer '' @ access) = u ''Bearer '' @ access"
    unfolding trim_def using ne ws by (intro trim_matches_fix) simp
  moreover have "split_once_ws (u ''Bearer'' @ 32 # access) = Some (u ''Bearer'', access)"
    by (rule split_once_ws_app) auto
  moreover have "trim access = access" using ws by (rule trim_fix_if_no_ws)
  ultimately show ?thesis using ne by (simp add: bearer_def)
qed

lemma resource_matches_self: "canonical_resource uc r \<noteq> None \<Longrightarrow> resource_matches uc r r"
  by (auto simp: resource_matches_def)

lemma issued_resource_served:
  assumes "resource_for_issue uc asked served audience = Inr r" "canonical_resource uc served \<noteq> None"
  shows "audience_check uc audience served (Some r) = Inr ()"
  using assms resource_matches_self[OF assms(2)]
  by (auto simp: resource_for_issue_def audience_check_Inr split: option.splits if_splits)

lemma find_append_new: "List.find P xs = None \<Longrightarrow> List.find P (xs @ ys) = List.find P ys"
  by (induction xs) (auto split: if_splits)

text \<open>
  A token the exchange hands out works: on a deployment whose own resource URL is
  well formed, presenting it as a bearer header before its expiry authenticates as the code's
  client with the client's stored grant, under any audience setting.
\<close>

theorem exchanged_token_authenticates:
  assumes "exchange_code cfg uc cr now d1 d2 f creds db = (RTokens access e r sc, db')"
    and "canonical_resource uc (tc_resource_url cfg) \<noteq> None"
    and "chain_is_base64url access" "t < now + secs (tc_access_ttl cfg)"
    and "\<forall>c \<in> set (od_clients db). cl_read c \<noteq> []"
  shows "\<exists>c p. c \<in> set (od_clients db) \<and> p_client p = cl_id c \<and> p_read p = cl_read c \<and>
    fst (opaque_authenticate cr uc (tc_audience cfg) (tc_resource_url cfg) t db'
          (Some (u ''Bearer '' @ access))) = Inr p"
proof -
  obtain code rcd db1 c resource where x:
    "consume_code now (hash_token cr code) db = (CodeFresh rcd, db1)"
    "live_consented_client db1 (co_client rcd) = Inr c"
    "issue_tokens cfg uc cr now d1 d2 c (family_for (hash_token cr code)) (co_scope rcd) resource db1
      = (RTokens access e r sc, db')"
    using exchange_code_RTokens[OF assms(1)] by auto
  obtain res where y: "resource_for_issue uc resource (tc_resource_url cfg) (tc_audience cfg) = Inr res"
    "find_token db1 (hash_token cr access) = None" "od_clients db' = od_clients db1"
    "od_tokens db' = od_tokens db1 @
      [new_access cfg cr now c (family_for (hash_token cr code)) (co_scope rcd) res access]"
    using issue_tokens_RTokens[OF x(3)] by auto
  let ?row = "new_access cfg cr now c (family_for (hash_token cr code)) (co_scope rcd) res access"
  have cl: "find_client db' (cl_id c) = Some c" "is_live c" "has_consent c" "c \<in> set (od_clients db)"
    using x(2) consume_fresh(2)[OF x(1)] y(3) find_client_id[of db1 "co_client rcd" c]
    unfolding live_consented_client_Inr find_client_def by (auto dest: find_Some_set)
  have tok: "find_token db' (hash_token cr access) = Some ?row"
    using y(2) unfolding find_token_def y(4) by (simp add: find_append_new new_access_def)
  have "audience_check uc (tc_audience cfg) (tc_resource_url cfg) (to_resource ?row) = Inr ()"
    using issued_resource_served[OF y(1) assms(2)] by (simp add: new_access_def)
  then have "opaque_authenticate cr uc (tc_audience cfg) (tc_resource_url cfg) t db'
      (Some (u ''Bearer '' @ access)) = (Inr (opaque_principal cr c ?row access), touch_client t (cl_id c) db')"
    unfolding opaque_Inr using bearer_token[OF assms(3)] tok cl assms(4,5)
    by (intro exI[of _ access] exI[of _ ?row] exI[of _ c]) (simp add: new_access_def del: u_Cons)
  then show ?thesis
    using cl(4) by (intro exI[of _ c] exI[of _ "opaque_principal cr c ?row access"])
      (simp add: opaque_principal_def del: u_Cons)
qed

section \<open>Which error the chain reports\<close>

text \<open>The links a request reaches: their errors in order, and the principal that ended the walk.\<close>

fun walk_links :: "'s link list \<Rightarrow> str option \<Rightarrow> 's \<Rightarrow> (str \<times> domain_error) list \<times> principal option" where
  "walk_links [] h s = ([], None)"
| "walk_links ((mode, link) # links) h s =
     (case link s h of
        (Inr p, s') \<Rightarrow> ([], Some p)
      | (Inl e, s') \<Rightarrow> (case walk_links links h s' of (es, r) \<Rightarrow> ((mode, e) # es, r)))"

definition reported :: "str \<Rightarrow> domain_error option \<Rightarrow> domain_error option \<Rightarrow> (str \<times> domain_error) list \<Rightarrow> domain_error" where
  "reported token shaped fault es =
     (let claims = [e. (m, e) \<leftarrow> es, claims_shape m token];
          faults = [e. (m, e) \<leftarrow> es, \<not> claims_shape m token, err_kind e \<noteq> Forbidden]
      in if claims \<noteq> [] then last claims
         else case shaped of Some e \<Rightarrow> e
         | None \<Rightarrow> (case fault of Some e \<Rightarrow> e
             | None \<Rightarrow> if faults \<noteq> [] then hd faults else forbidden R_InvalidCredentials))"

lemma chain_links_walk:
  "fst (chain_links links h token shaped fault s) =
     (case walk_links links h s of
        (es, Some p) \<Rightarrow> Inr p
      | (es, None) \<Rightarrow> Inl (reported token shaped fault es))"
proof (induction links h token shaped fault s rule: chain_links.induct)
  case (1 h token shaped fault s)
  show ?case by (simp add: reported_def split: option.splits)
next
  case (2 mode link links h token shaped fault s)
  obtain r s' where r: "link s h = (r, s')" by fastforce
  show ?case
  proof (cases r)
    case (Inr p)
    then show ?thesis using r by simp
  next
    case (Inl e)
    obtain es w where w: "walk_links links h s' = (es, w)" by fastforce
    show ?thesis
    proof (cases w)
      case (Some p)
      then show ?thesis using 2 r Inl w by simp
    next
      case None
      then show ?thesis using 2 r Inl w by (auto simp: reported_def Let_def split: option.splits)
    qed
  qed
qed

text \<open>
  A chain succeeds with the principal of the first link that accepts. When every link
  refuses, the reported error is the last one from a link whose credential format the token has;
  with none, the first that is not a refusal (an outage is never reported as bad credentials);
  and otherwise the one flat message that names no link.
\<close>

theorem chain_reports:
  "fst (chain_authenticate links s (Some h)) =
     (if trim h = [] then Inl (forbidden R_MissingAuthorization)
      else case bearer (Some h) of
        Inl e \<Rightarrow> Inl e
      | Inr token \<Rightarrow>
          (case walk_links links (Some h) s of
             (es, Some p) \<Rightarrow> Inr p
           | (es, None) \<Rightarrow>
               Inl (let claims = [e. (m, e) \<leftarrow> es, claims_shape m token];
                        faults = [e. (m, e) \<leftarrow> es, err_kind e \<noteq> Forbidden]
                    in if claims \<noteq> [] then last claims
                       else if faults \<noteq> [] then hd faults else forbidden R_InvalidCredentials)))"
proof (cases "bearer (Some h)")
  case (Inl e)
  then show ?thesis by (simp add: chain_authenticate_def)
next
  case (Inr token)
  have "[e. (m, e) \<leftarrow> es, \<not> claims_shape m token, err_kind e \<noteq> Forbidden] = [e. (m, e) \<leftarrow> es, err_kind e \<noteq> Forbidden]"
    if "[e. (m, e) \<leftarrow> es, claims_shape m token] = []" for es :: "(str \<times> domain_error) list"
    using that by (induction es) (auto split: if_splits)
  then have "reported token None None es =
      (let claims = [e. (m, e) \<leftarrow> es, claims_shape m token];
           faults = [e. (m, e) \<leftarrow> es, err_kind e \<noteq> Forbidden]
       in if claims \<noteq> [] then last claims
          else if faults \<noteq> [] then hd faults else forbidden R_InvalidCredentials)"
    for es :: "(str \<times> domain_error) list"
    unfolding reported_def Let_def by (cases "[e. (m, e) \<leftarrow> es, claims_shape m token] = []") simp_all
  then show ?thesis using Inr
    by (simp add: chain_authenticate_def chain_links_walk del: u_Cons split: prod.split option.split)
qed

section \<open>Static tokens\<close>

lemma last_match_append:
  "last_match d m es = (case filter (\<lambda>e. snd e = d) es of [] \<Rightarrow> m | ms \<Rightarrow> Some (last ms))"
  by (induction d m es rule: last_match.induct) (auto split: list.splits)

lemma last_match_mem: "last_match d None es = Some e \<Longrightarrow> e \<in> set es \<and> snd e = d"
proof -
  assume a: "last_match d None es = Some e"
  then obtain ms where ms: "filter (\<lambda>e. snd e = d) es = ms" "ms \<noteq> []" "e = last ms"
    unfolding last_match_append by (cases "filter (\<lambda>e. snd e = d) es") auto
  then have "e \<in> set (filter (\<lambda>e. snd e = d) es)" by auto
  then show ?thesis by simp
qed

text \<open>
  A static token authenticates only as a configured client whose token has the same
  digest, with that client's grant: absent lists mean everything, an explicit empty list stays
  empty, and deletion, ingest, history and registry writing come only from their own flags.
\<close>

theorem static_token_grant:
  assumes "token_authenticate cr (token_entries cr grants) h = Inr p"
  shows "\<exists>g token secret. bearer h = Inr token \<and> g \<in> set grants \<and> cg_token g = Some secret \<and>
    sha256_hex cr secret = sha256_hex cr token \<and> p_client p = cg_client g \<and>
    (cg_read g = Some [] \<longrightarrow> (\<forall>ns s. \<not> can_read p ns s)) \<and>
    (cg_write g = Some [] \<longrightarrow> (\<forall>ns s. \<not> can_write p ns s)) \<and>
    (cg_read g = None \<longrightarrow> p_read p = grant_everything) \<and>
    p_may_delete p = cg_may_delete g \<and> p_may_ingest p = cg_may_ingest g \<and>
    p_may_read_history p = cg_may_read_history g \<and> p_registry_write p = cg_registry_write g"
proof -
  obtain token where token: "bearer h = Inr token"
    using assms by (cases "bearer h") (simp_all add: token_authenticate_def)
  obtain g d where m: "last_match (sha256_hex cr token) None (token_entries cr grants) = Some (g, d)"
    and p: "p = token_principal cr g token"
    using assms token by (auto simp: token_authenticate_def split: option.splits)
  have "(g, d) \<in> set (token_entries cr grants) \<and> d = sha256_hex cr token"
    using last_match_mem[OF m] by auto
  then obtain secret where "g \<in> set grants" "cg_token g = Some secret"
    "sha256_hex cr secret = sha256_hex cr token"
    by (auto simp: token_entries_def set_filter_map)
  then show ?thesis
    using token p by (intro exI[of _ g] exI[of _ token] exI[of _ secret])
      (auto simp: token_principal_def read_grants_def write_grants_def can_read_def can_write_def
        admits_def grant_ceiling_def split: option.splits)
qed

section \<open>Instances\<close>

definition sample_token :: "str \<Rightarrow> str \<Rightarrow> token_row" where
  "sample_token h i = \<lparr>to_hash = h, to_client = i, to_scope = u ''a b'',
     to_resource = Some (u ''https://h/mcp''), to_family = [7], to_expires_at = 100, to_revoked_at = None\<rparr>"

definition two_clients_db :: oauth_db where
  "two_clients_db = sample_db\<lparr>od_clients := [sample_client, sample_client\<lparr>cl_id := u ''d''\<rparr>],
     od_tokens := [sample_token (u ''tc'') (u ''c''), sample_token (u ''td'') (u ''d'')]\<rparr>"

lemma opaque_fails_closed_witness:
  "\<exists>p db'. opaque_authenticate sample_crypto sample_crate AudienceStrict (u ''https://h/mcp'') 50
      two_clients_db (Some (u ''Bearer tc'')) = (Inr p, db') \<and> p_client p = u ''c''"
proof -
  let ?x = "opaque_authenticate sample_crypto sample_crate AudienceStrict (u ''https://h/mcp'') 50
      two_clients_db (Some (u ''Bearer tc''))"
  obtain p where "fst ?x = Inr p"
  proof -
    have "(case fst ?x of Inr p \<Rightarrow> True | Inl e \<Rightarrow> False)" by code_simp
    then show ?thesis using that by (cases "fst ?x") auto
  qed
  then have eq: "?x = (Inr p, snd ?x)" by (metis prod.collapse)
  have "bearer (Some (u ''Bearer tc'')) = Inr (u ''tc'')" by code_simp
  moreover obtain row where row: "bearer (Some (u ''Bearer tc'')) = Inr token \<Longrightarrow>
      row \<in> set (od_tokens two_clients_db) \<and> to_hash row = hash_token sample_crypto token \<and> p_client p = to_client row"
    for token
    using opaque_fails_closed[OF eq] by (metis Inr_inject)
  ultimately have "row \<in> set (od_tokens two_clients_db)" "to_hash row = hash_token sample_crypto (u ''tc'')"
    "p_client p = to_client row" using row by blast+
  then have "p_client p = u ''c''"
    by (auto simp: two_clients_db_def sample_token_def sample_crypto_def hash_token_def)
  then show ?thesis using eq by blast
qed

lemma revoked_client_never_authenticates_witness:
  "\<exists>p. fst (opaque_authenticate sample_crypto sample_crate AudienceStrict (u ''https://h/mcp'') 60
      (run store_step (store_step two_clients_db (50, SRevokeClient (u ''c''))) [(55, STouch (u ''c''))])
      (Some (u ''Bearer td''))) = Inr p \<and> p_client p \<noteq> u ''c''"
proof -
  let ?x = "opaque_authenticate sample_crypto sample_crate AudienceStrict (u ''https://h/mcp'') 60
      (run store_step (store_step two_clients_db (50, SRevokeClient (u ''c''))) [(55, STouch (u ''c''))])
      (Some (u ''Bearer td''))"
  have 1: "find_client two_clients_db (u ''c'') \<noteq> None" by code_simp
  have "(case fst ?x of Inr p \<Rightarrow> True | Inl e \<Rightarrow> False)" by code_simp
  then obtain p where p: "fst ?x = Inr p" by (cases "fst ?x") auto
  then have "?x = (Inr p, snd ?x)" by (metis prod.collapse)
  from revoked_client_never_authenticates[OF 1 this] p show ?thesis by blast
qed

lemma exchanged_token_authenticates_witness:
  "\<exists>db'. exchange_code sample_cfg sample_crate sample_crypto 10 draw_a draw_b sample_form no_creds sample_db
     = (RTokens (replicate 43 98) 3600 (Some (replicate 43 99)) (u ''s''), db') \<and>
   (\<exists>p. fst (opaque_authenticate sample_crypto sample_crate (tc_audience sample_cfg)
      (tc_resource_url sample_cfg) 1000 db' (Some (u ''Bearer '' @ replicate 43 98))) = Inr p)"
proof -
  let ?x = "exchange_code sample_cfg sample_crate sample_crypto 10 draw_a draw_b sample_form no_creds sample_db"
  have 1: "fst ?x = RTokens (replicate 43 98) 3600 (Some (replicate 43 99)) (u ''s'')" by code_simp
  have 2: "canonical_resource sample_crate (tc_resource_url sample_cfg) \<noteq> None" by code_simp
  have 3: "chain_is_base64url (replicate 43 98)" by code_simp
  have 4: "(1000::int) < 10 + secs (tc_access_ttl sample_cfg)" by code_simp
  have 5: "\<forall>c \<in> set (od_clients sample_db). cl_read c \<noteq> []"
    by (simp add: sample_db_def sample_client_def)
  from 1 have "?x = (RTokens (replicate 43 98) 3600 (Some (replicate 43 99)) (u ''s''), snd ?x)"
    by (metis prod.collapse)
  from exchanged_token_authenticates[OF this 2 3 4 5] this show ?thesis by blast
qed

definition sample_grant :: client_grant where
  "sample_grant = \<lparr>cg_client = u ''cli'', cg_token = Some (u ''secret''), cg_read = None,
     cg_write = Some [], cg_registry_write = False, cg_sealed_capable = False, cg_may_delete = False,
     cg_may_ingest = False, cg_may_read_history = False\<rparr>"

lemma static_token_grant_witness:
  "\<exists>p. token_authenticate sample_crypto (token_entries sample_crypto [sample_grant])
      (Some (u ''Bearer secret'')) = Inr p \<and> (\<forall>ns s. \<not> can_write p ns s)"
proof -
  let ?x = "token_authenticate sample_crypto (token_entries sample_crypto [sample_grant])
      (Some (u ''Bearer secret''))"
  have "(case ?x of Inr p \<Rightarrow> True | Inl e \<Rightarrow> False)" by code_simp
  then obtain p where p: "?x = Inr p" by (cases ?x) auto
  from static_token_grant[OF p] have "\<forall>ns s. \<not> can_write p ns s" by (auto simp: sample_grant_def)
  with p show ?thesis by blast
qed

end
