(* ===== verification/Lr_Session.thy ===== *)
theory Lr_Session
  imports Lr_OAuth
begin

text \<open>
  The owner's browser session, \<open>src/src/authserver/session.rs\<close>: the signed cookie, its
  verification, and the CSRF tokens bound to it. HMAC-SHA256 in hex is the parameter \<open>hmac\<close>, a
  function of the key and the message bytes; the message \<open>sign\<close> builds, with its UTF-8 bytes
  and little-endian length prefixes, is written out.
\<close>

section \<open>Bytes\<close>

definition utf8_char :: "uchar \<Rightarrow> nat list" where
  "utf8_char c =
     (if c < 128 then [c]
      else if c < 2048 then [192 + c div 64, 128 + c mod 64]
      else if c < 65536 then [224 + c div 4096, 128 + c div 64 mod 64, 128 + c mod 64]
      else [240 + c div 262144, 128 + c div 4096 mod 64, 128 + c div 64 mod 64, 128 + c mod 64])"

definition utf8 :: "str \<Rightarrow> nat list" where
  "utf8 s = concat (map utf8_char s)"

definition le64 :: "nat \<Rightarrow> nat list" where
  "le64 n = map (\<lambda>i. n div 256 ^ i mod 256) [0..<8]"

section \<open>Sessions\<close>

type_synonym mac = "str \<Rightarrow> nat list \<Rightarrow> str"

record owner_session =
  os_expires_at :: int
  os_signature :: str

record sessions =
  ss_secret :: str
  ss_ttl :: int
  ss_secure :: bool

definition cookie_name :: str where "cookie_name = u ''lumberroom_owner''"

definition sessions_from_config :: "str \<Rightarrow> int \<Rightarrow> str \<Rightarrow> sessions" where
  "sessions_from_config secret ttl public_url =
     \<lparr>ss_secret = secret, ss_ttl = ttl,
      ss_secure = (\<not> (starts_with public_url (u ''http://127.0.0.1'') \<or>
                      starts_with public_url (u ''http://localhost'') \<or>
                      starts_with public_url (u ''http://[::1]'')))\<rparr>"

definition mac_input :: "str \<Rightarrow> str list \<Rightarrow> nat list" where
  "mac_input label fs = utf8 label @ concat (map (\<lambda>f. le64 (str_len f) @ utf8 f) fs)"

definition sign :: "mac \<Rightarrow> sessions \<Rightarrow> str \<Rightarrow> str list \<Rightarrow> str" where
  "sign hmac s label fs = hmac (ss_secret s) (mac_input label fs)"

definition dec_int :: "int \<Rightarrow> str" where
  "dec_int i = (if i < 0 then 45 # dec (nat (- i)) else dec (nat i))"

text \<open>\<open>str::parse::<i64>\<close>: an optional sign, at least one digit, in range.\<close>

definition parse_i64 :: "str \<Rightarrow> int option" where
  "parse_i64 s =
     (let (neg, ds) = (case s of [] \<Rightarrow> (False, [])
                       | c # r \<Rightarrow> if c = 45 then (True, r) else if c = 43 then (False, r) else (False, s));
          v = (if neg then - int (dec_value ds) else int (dec_value ds))
      in if ds \<noteq> [] \<and> list_all is_ascii_digit ds \<and> - (2 ^ 63) \<le> v \<and> v < 2 ^ 63 then Some v else None)"

definition issue_session :: "mac \<Rightarrow> sessions \<Rightarrow> int \<Rightarrow> str" where
  "issue_session hmac s now =
     (let expires_at = now + ss_ttl s
      in u ''v1.'' @ dec_int expires_at @ [46] @ sign hmac s (u ''session'') [dec_int expires_at])"

definition set_cookie :: "sessions \<Rightarrow> str \<Rightarrow> str" where
  "set_cookie s value =
     cookie_name @ [61] @ value @ u ''; Path=/oauth; HttpOnly; SameSite=Lax; Max-Age='' @
     dec_int (ss_ttl s) @ (if ss_secure s then u ''; Secure'' else [])"

definition open_session :: "mac \<Rightarrow> sessions \<Rightarrow> str \<Rightarrow> int \<Rightarrow> owner_session option" where
  "open_session hmac s value now =
     (case split_on 46 value of
        [version, expires_at_raw, signature] \<Rightarrow>
          if version \<noteq> u ''v1'' then None
          else if \<not> hashes_match (sign hmac s (u ''session'') [expires_at_raw]) signature then None
          else (case parse_i64 expires_at_raw of
                  None \<Rightarrow> None
                | Some expires_at \<Rightarrow>
                    if expires_at \<le> now then None
                    else Some \<lparr>os_expires_at = expires_at, os_signature = signature\<rparr>)
      | _ \<Rightarrow> None)"

fun split_once_eq :: "str \<Rightarrow> (str \<times> str) option" where
  "split_once_eq [] = None"
| "split_once_eq (x # s) =
     (if x = 61 then Some ([], s) else map_option (\<lambda>(a, b). (x # a, b)) (split_once_eq s))"

definition verify_session :: "mac \<Rightarrow> sessions \<Rightarrow> str list \<Rightarrow> int \<Rightarrow> owner_session option" where
  "verify_session hmac s cookie_headers now =
     first_some (\<lambda>(name, value). open_session hmac s (trim value) now)
       (filter (\<lambda>(name, value). name = cookie_name)
         (filter_map (\<lambda>pair. split_once_eq (trim pair)) (concat (map (split_on 59) cookie_headers))))"

definition csrf :: "mac \<Rightarrow> sessions \<Rightarrow> owner_session \<Rightarrow> str \<Rightarrow> str \<Rightarrow> str \<Rightarrow> str \<Rightarrow> str" where
  "csrf hmac s sess client_id redirect_uri code_challenge st =
     sign hmac s (u ''csrf'') [os_signature sess, client_id, redirect_uri, code_challenge, st]"

definition csrf_ok :: "mac \<Rightarrow> sessions \<Rightarrow> owner_session \<Rightarrow> str \<Rightarrow> str \<Rightarrow> str \<Rightarrow> str \<Rightarrow> str \<Rightarrow> bool" where
  "csrf_ok hmac s sess client_id redirect_uri code_challenge st presented =
     hashes_match (csrf hmac s sess client_id redirect_uri code_challenge st) presented"

definition console_csrf :: "mac \<Rightarrow> sessions \<Rightarrow> owner_session \<Rightarrow> str \<Rightarrow> str \<Rightarrow> str" where
  "console_csrf hmac s sess action i = sign hmac s (u ''csrf-console'') [os_signature sess, action, i]"

definition console_csrf_ok :: "mac \<Rightarrow> sessions \<Rightarrow> owner_session \<Rightarrow> str \<Rightarrow> str \<Rightarrow> str \<Rightarrow> bool" where
  "console_csrf_ok hmac s sess action i presented = hashes_match (console_csrf hmac s sess action i) presented"

section \<open>The signed message determines what was signed\<close>

definition scalar :: "uchar \<Rightarrow> bool" where "scalar c \<longleftrightarrow> c < 0x110000"

lemma utf8_char_app:
  assumes "utf8_char c @ xs = utf8_char d @ ys" "scalar c" "scalar d"
  shows "c = d \<and> xs = ys"
proof -
  have d2: "c div 64 = d div 64 \<Longrightarrow> c mod 64 = d mod 64 \<Longrightarrow> c = d" for c d :: nat
    by (metis div_mult_mod_eq)
  have d3: "c div 4096 = d div 4096 \<Longrightarrow> c div 64 mod 64 = d div 64 mod 64 \<Longrightarrow> c div 64 = d div 64" for c d :: nat
    using d2[of "c div 64" "d div 64"] by (simp add: div_mult2_eq[symmetric])
  have d4: "c div 262144 = d div 262144 \<Longrightarrow> c div 4096 mod 64 = d div 4096 mod 64 \<Longrightarrow>
      c div 4096 = d div 4096" for c d :: nat
    using d2[of "c div 4096" "d div 4096"] by (simp add: div_mult2_eq[symmetric])
  have b: "c div 64 < 32" if "c < 2048" for c :: nat using that by simp
  have b3: "c div 4096 < 16" if "c < 65536" for c :: nat using that by simp
  consider "c < 128" | "128 \<le> c" "c < 2048" | "2048 \<le> c" "c < 65536" | "65536 \<le> c" by linarith
  then show ?thesis
  proof cases
    case 1
    then show ?thesis using assms(1) by (auto simp: utf8_char_def split: if_splits)
  next
    case 2
    then show ?thesis using assms(1) b[of c] d2[of c d] by (auto simp: utf8_char_def split: if_splits)
  next
    case 3
    then show ?thesis using assms(1) b[of d] b3[of c] d2[of c d] d3[of c d]
      by (auto simp: utf8_char_def split: if_splits)
  next
    case 4
    then show ?thesis using assms(1) b[of d] b3[of d] d2[of c d] d3[of c d] d4[of c d]
      by (auto simp: utf8_char_def split: if_splits)
  qed
qed

lemma length_utf8: "length (utf8 s) = str_len s"
  by (induction s) (auto simp: utf8_def utf8_char_def utf8_len_def)

lemma utf8_inj: "utf8 s = utf8 t \<Longrightarrow> list_all scalar s \<Longrightarrow> list_all scalar t \<Longrightarrow> s = t"
proof (induction s arbitrary: t)
  case Nil
  then show ?case by (cases t) (auto simp: utf8_def utf8_char_def split: if_splits)
next
  case (Cons c s)
  then obtain d t' where t: "t = d # t'"
    by (cases t) (auto simp: utf8_def utf8_char_def split: if_splits)
  have "utf8_char c @ utf8 s = utf8_char d @ utf8 t'" using Cons.prems(1) by (simp add: t utf8_def)
  from utf8_char_app[OF this] have "c = d" "utf8 s = utf8 t'" using Cons.prems by (auto simp: t)
  then show ?case using Cons t by auto
qed

lemma digit_shift:
  fixes n i :: nat
  shows "n div 256 div 256 ^ i mod 256 * 256 ^ i * 256 = n div 256 ^ Suc i mod 256 * 256 ^ Suc i"
  by (simp add: div_mult2_eq)

lemma le64_digits: "n < 256 ^ k \<Longrightarrow> (n::nat) = (\<Sum>i<k. (n div 256 ^ i mod 256) * 256 ^ i)"
proof (induction k arbitrary: n)
  case 0
  then show ?case by simp
next
  case (Suc k)
  have "n div 256 < 256 ^ k" using Suc.prems by (simp add: less_mult_imp_div_less mult.commute)
  from Suc.IH[OF this] have "n div 256 * 256 = (\<Sum>i<k. (n div 256 div 256 ^ i mod 256) * 256 ^ i) * 256"
    by (rule arg_cong[where f = "\<lambda>x. x * 256"])
  also have "\<dots> = (\<Sum>i<k. (n div 256 ^ Suc i mod 256) * 256 ^ Suc i)"
    unfolding sum_distrib_right by (rule sum.cong[OF HOL.refl], rule digit_shift)
  finally have "n div 256 * 256 = (\<Sum>i<k. (n div 256 ^ Suc i mod 256) * 256 ^ Suc i)" .
  moreover have "(\<Sum>i<Suc k. (n div 256 ^ i mod 256) * 256 ^ i) =
      n mod 256 + (\<Sum>i<k. (n div 256 ^ Suc i mod 256) * 256 ^ Suc i)"
    by (subst sum.lessThan_Suc_shift) simp
  moreover have "n = n div 256 * 256 + n mod 256" by simp
  ultimately show ?case by linarith
qed

lemma length_le64 [simp]: "length (le64 n) = 8"
  by (simp add: le64_def)

lemma le64_inj:
  assumes "le64 m = le64 n" "m < 2 ^ 64" "n < 2 ^ 64"
  shows "m = n"
proof -
  have "m div 256 ^ i mod 256 = n div 256 ^ i mod 256" if "i < 8" for i
  proof -
    have "le64 m ! i = le64 n ! i" using assms(1) by simp
    then show ?thesis using that by (simp add: le64_def)
  qed
  then have "(\<Sum>i<8. (m div 256 ^ i mod 256) * 256 ^ i) = (\<Sum>i<8. (n div 256 ^ i mod 256) * 256 ^ i)"
    by (intro sum.cong) auto
  then show ?thesis using le64_digits[of m 8] le64_digits[of n 8] assms(2,3) by simp
qed

definition short :: "str \<Rightarrow> bool" where
  "short f \<longleftrightarrow> list_all scalar f \<and> str_len f < 2 ^ 56"

definition framed :: "str list \<Rightarrow> nat list" where
  "framed fs = concat (map (\<lambda>f. le64 (str_len f) @ utf8 f) fs)"

lemma framed_simps [simp]: "framed [] = []" "framed (f # fs) = le64 (str_len f) @ utf8 f @ framed fs"
  by (simp_all add: framed_def)

lemma framed_inj: "framed fs = framed gs \<Longrightarrow> list_all short fs \<Longrightarrow> list_all short gs \<Longrightarrow> fs = gs"
proof (induction fs arbitrary: gs)
  case Nil
  then show ?case by (cases gs) (auto simp: append_eq_append_conv2 dest: arg_cong[of _ _ length])
next
  case (Cons f fs)
  obtain g gs' where gs: "gs = g # gs'"
    using Cons.prems(1) by (cases gs) (auto dest: arg_cong[of _ _ length])
  have eq: "le64 (str_len f) = le64 (str_len g)" "utf8 f @ framed fs = utf8 g @ framed gs'"
    using Cons.prems(1) by (simp_all add: gs append_eq_append_conv)
  have lt: "str_len f < 2 ^ 64" "str_len g < 2 ^ 64"
    using Cons.prems(2,3) by (auto simp: gs short_def)
  have "str_len f = str_len g" using le64_inj[OF eq(1) lt] .
  then have "utf8 f = utf8 g" "framed fs = framed gs'"
    using eq(2) by (simp_all add: append_eq_append_conv length_utf8)
  then show ?case
    using Cons utf8_inj[of f g] by (auto simp: gs short_def)
qed

definition labels :: "str list" where
  "labels = [u ''session'', u ''csrf'', u ''csrf-console'']"

lemma framed_not_console:
  assumes "list_all short fs"
  shows "framed fs \<noteq> map of_char ''-console'' @ r"
proof (cases fs)
  case Nil
  then show ?thesis by simp
next
  case (Cons f fs')
  show ?thesis
  proof
    assume "framed fs = map of_char ''-console'' @ r"
    then have "framed fs ! 7 = of_char CHR ''e''" by (simp add: nth_append numeral_eq_Suc)
    moreover have "framed fs ! 7 = str_len f div 256 ^ 7 mod 256"
      by (simp add: Cons nth_append le64_def)
    moreover have "str_len f div 256 ^ 7 = 0" using assms by (simp add: Cons short_def)
    ultimately show False by simp
  qed
qed

lemma utf8_label: "utf8 (u l) = map of_char l" if "\<forall>c \<in> set l. of_char c < (128::nat)" for l
  using that by (induction l) (auto simp: utf8_def utf8_char_def)

lemma mac_input_framed: "mac_input l fs = utf8 l @ framed fs"
  by (simp add: mac_input_def framed_def)

lemma utf8_labels:
  "utf8 (u ''session'') = map of_char ''session''" "utf8 (u ''csrf'') = map of_char ''csrf''"
  "utf8 (u ''csrf-console'') = map of_char ''csrf'' @ map of_char ''-console''"
  by (simp_all add: utf8_def utf8_char_def)

text \<open>
  The bytes the server signs determine the label and every field: with fields of
  less than 2^56 bytes, two signing calls feed HMAC the same message only if they are the same
  call, so a consent token cannot be spent in the console, nor a token minted for one client,
  redirect URI, challenge, state or session be valid for another.
\<close>

theorem mac_input_injective:
  assumes "l \<in> set labels" "m \<in> set labels" "list_all short fs" "list_all short gs"
  shows "mac_input l fs = mac_input m gs \<longleftrightarrow> l = m \<and> fs = gs"
proof
  assume eq: "mac_input l fs = mac_input m gs"
  have "l = m"
    using assms(1,2) eq framed_not_console[OF assms(3), of "framed gs"]
      framed_not_console[OF assms(4), of "framed fs"]
    unfolding mac_input_framed labels_def by (auto simp: utf8_labels simp del: u_Cons)
  moreover have "framed fs = framed gs" using eq \<open>l = m\<close> by (simp add: mac_input_framed)
  ultimately show "l = m \<and> fs = gs" using framed_inj[OF _ assms(3,4)] by blast
qed simp

lemma mac_input_injective_witness:
  "mac_input (u ''csrf'') [u ''a'', u ''bc''] \<noteq> mac_input (u ''csrf'') [u ''ab'', u ''c'']"
  using mac_input_injective[of "u ''csrf''" "u ''csrf''" "[u ''a'', u ''bc'']" "[u ''ab'', u ''c'']"]
  by (simp add: labels_def short_def scalar_def)

section \<open>The session's life\<close>

lemma dec_value_digits_int:
  "- (2 ^ 63) \<le> i \<Longrightarrow> i < 2 ^ 63 \<Longrightarrow> parse_i64 (dec_int i) = Some i"
proof -
  assume r: "- (2 ^ 63) \<le> i" "i < 2 ^ 63"
  have hd: "\<exists>c cs. dec n = c # cs \<and> c \<noteq> 45 \<and> c \<noteq> 43" for n
    using dec_digits[of n] by (cases "dec n") (auto simp: is_ascii_digit_def)
  show ?thesis
  proof (cases "i < 0")
    case True
    then show ?thesis using r dec_digits[of "nat (- i)"] by (simp add: parse_i64_def dec_int_def)
  next
    case False
    obtain c cs where c: "dec (nat i) = c # cs" "c \<noteq> 45" "c \<noteq> 43" using hd by blast
    have "dec_value (c # cs) = nat i" using dec_value_dec[of "nat i"] c(1) by simp
    moreover have "list_all is_ascii_digit (c # cs)" using dec_digits[of "nat i"] c(1) by simp
    ultimately show ?thesis using False r c by (simp add: parse_i64_def dec_int_def)
  qed
qed

lemma dec_int_no_dot: "46 \<notin> set (dec_int i)"
  using dec_digits[of "nat i"] dec_digits[of "nat (- i)"]
  by (auto simp: dec_int_def list_all_iff is_ascii_digit_def)

definition opens :: "mac \<Rightarrow> sessions \<Rightarrow> str \<Rightarrow> int \<Rightarrow> bool" where
  "opens hmac s value t \<longleftrightarrow> open_session hmac s value t \<noteq> None"

lemma open_session_Some:
  "open_session hmac s value t = Some x \<longleftrightarrow>
     (\<exists>raw e. value = u ''v1'' @ [46] @ raw @ [46] @ sign hmac s (u ''session'') [raw] \<and>
        split_on 46 value = [u ''v1'', raw, sign hmac s (u ''session'') [raw]] \<and>
        parse_i64 raw = Some e \<and> t < e \<and>
        x = \<lparr>os_expires_at = e, os_signature = sign hmac s (u ''session'') [raw]\<rparr>)"
proof
  assume o: "open_session hmac s value t = Some x"
  then obtain v raw sig where sp: "split_on 46 value = [v, raw, sig]"
    by (auto simp: open_session_def split: list.splits)
  then have v: "v = u ''v1''" "sign hmac s (u ''session'') [raw] = sig"
    using o by (auto simp: open_session_def hashes_match_def simp del: u_Cons split: if_splits)
  obtain e where e: "parse_i64 raw = Some e" "t < e" "x = \<lparr>os_expires_at = e, os_signature = sig\<rparr>"
    using o sp v by (auto simp: open_session_def simp del: u_Cons split: if_splits option.splits)
  have "value = join [46] [v, raw, sig]" using join_split_on[of 46 "value"] sp by simp
  then show "\<exists>raw e. value = u ''v1'' @ [46] @ raw @ [46] @ sign hmac s (u ''session'') [raw] \<and>
        split_on 46 value = [u ''v1'', raw, sign hmac s (u ''session'') [raw]] \<and>
        parse_i64 raw = Some e \<and> t < e \<and>
        x = \<lparr>os_expires_at = e, os_signature = sign hmac s (u ''session'') [raw]\<rparr>"
    using v e sp by (intro exI[of _ raw] exI[of _ e]) (simp del: u_Cons)
next
  assume "\<exists>raw e. value = u ''v1'' @ [46] @ raw @ [46] @ sign hmac s (u ''session'') [raw] \<and>
        split_on 46 value = [u ''v1'', raw, sign hmac s (u ''session'') [raw]] \<and>
        parse_i64 raw = Some e \<and> t < e \<and>
        x = \<lparr>os_expires_at = e, os_signature = sign hmac s (u ''session'') [raw]\<rparr>"
  then show "open_session hmac s value t = Some x"
    by (auto simp: open_session_def hashes_match_def simp del: u_Cons)
qed

lemma split_issued:
  assumes "46 \<notin> set (sign hmac s (u ''session'') [dec_int e])"
  shows "split_on 46 (u ''v1.'' @ dec_int e @ [46] @ sign hmac s (u ''session'') [dec_int e]) =
    [u ''v1'', dec_int e, sign hmac s (u ''session'') [dec_int e]]"
proof -
  have "u ''v1.'' @ dec_int e @ [46] @ sign hmac s (u ''session'') [dec_int e] =
      u ''v1'' @ 46 # (dec_int e @ 46 # sign hmac s (u ''session'') [dec_int e])" by simp
  then show ?thesis
    using assms dec_int_no_dot[of e] split_on_append_sep[of 46 "u ''v1''"]
      split_on_append_sep[of 46 "dec_int e"] split_on_free[of 46] by simp
qed

text \<open>
  A session issued at \<open>now\<close> opens exactly until its lifetime has passed, yielding
  that expiry; and whatever value opens at a moment carries the server's own signature over the
  expiry text it names, which parses to a later moment.
\<close>

theorem session_lifetime:
  assumes "\<forall>k m. 46 \<notin> set (hmac k m)"
    and "- (2 ^ 63) \<le> now + ss_ttl s" "now + ss_ttl s < 2 ^ 63"
  shows "(opens hmac s (issue_session hmac s now) t \<longleftrightarrow> t < now + ss_ttl s) \<and>
    (\<forall>value x. open_session hmac s value t = Some x \<longrightarrow>
      (\<exists>raw. value = u ''v1.'' @ raw @ [46] @ hmac (ss_secret s) (mac_input (u ''session'') [raw]) \<and>
         parse_i64 raw = Some (os_expires_at x) \<and> t < os_expires_at x))"
proof -
  let ?e = "now + ss_ttl s"
  have sp: "split_on 46 (issue_session hmac s now) =
      [u ''v1'', dec_int ?e, sign hmac s (u ''session'') [dec_int ?e]]"
    unfolding issue_session_def Let_def using assms(1) by (intro split_issued) (simp add: sign_def)
  have "open_session hmac s (issue_session hmac s now) t =
      (if ?e \<le> t then None else Some \<lparr>os_expires_at = ?e, os_signature = sign hmac s (u ''session'') [dec_int ?e]\<rparr>)"
    unfolding open_session_def sp using dec_value_digits_int[OF assms(2,3)]
    by (simp add: hashes_match_def del: u_Cons)
  then have 1: "opens hmac s (issue_session hmac s now) t \<longleftrightarrow> t < ?e" by (simp add: opens_def)
  have 2: "\<exists>raw. value = u ''v1.'' @ raw @ [46] @ hmac (ss_secret s) (mac_input (u ''session'') [raw]) \<and>
         parse_i64 raw = Some (os_expires_at x) \<and> t < os_expires_at x"
    if "open_session hmac s value t = Some x" for "value" x
    using that unfolding open_session_Some sign_def by auto
  show ?thesis using 1 2 by blast
qed

lemma session_lifetime_witness:
  "opens (\<lambda>k m. u ''f'') \<lparr>ss_secret = u ''k'', ss_ttl = 60, ss_secure = True\<rparr>
     (issue_session (\<lambda>k m. u ''f'') \<lparr>ss_secret = u ''k'', ss_ttl = 60, ss_secure = True\<rparr> 100) 159"
  using session_lifetime[of "\<lambda>k m. u ''f''" 100 "\<lparr>ss_secret = u ''k'', ss_ttl = 60, ss_secure = True\<rparr>" 159]
  by simp

end
