(* ===== verification/Lr_Limiter.thy ===== *)
theory Lr_Limiter
  imports Lr_Types "HOL-Library.AList"
begin

text \<open>
  Failed-login throttling, \<open>src/src/authserver/limiter.rs\<close>, and the two keys
  \<open>authserver/routes.rs\<close> charges. A hash map is an association list with distinct keys, an
  instant a number of nanoseconds; \<open>duration_since\<close> saturates at zero. \<open>len() as u32\<close> and
  \<open>saturating_mul\<close> are written out, and the invariant shows the first never truncates.
\<close>

section \<open>The limiter\<close>

definition window :: int where
  "window = 60 * 1000000000"

definition peer_multiplier :: nat where
  "peer_multiplier = 4"

definition max_keys :: nat where
  "max_keys = 4096"

type_synonym windows = "(str \<times> instant list) list"

record login_limiter =
  lm_per_minute :: nat
  lm_by_key :: windows
  lm_by_peer :: windows

definition u32_max :: nat where
  "u32_max = 2 ^ 32 - 1"

definition limiter_new :: "nat \<Rightarrow> login_limiter" where
  "limiter_new per_minute = \<lparr>lm_per_minute = max 1 per_minute, lm_by_key = [], lm_by_peer = []\<rparr>"

definition duration_since :: "instant \<Rightarrow> instant \<Rightarrow> int" where
  "duration_since now past = max 0 (now - past)"

definition prune :: "instant list \<Rightarrow> instant \<Rightarrow> instant list" where
  "prune w now = filter (\<lambda>t. duration_since now t < window) w"

definition lookup :: "windows \<Rightarrow> str \<Rightarrow> instant list" where
  "lookup m k = (case map_of m k of None \<Rightarrow> [] | Some w \<Rightarrow> w)"

definition as_u32 :: "nat \<Rightarrow> nat" where
  "as_u32 n = n mod 2 ^ 32"

definition peer_limit :: "nat \<Rightarrow> nat" where
  "peer_limit per_minute = min u32_max (per_minute * peer_multiplier)"

definition clear_full :: "windows \<Rightarrow> str \<Rightarrow> windows" where
  "clear_full m k = (if length m \<ge> max_keys \<and> map_of m k = None then [] else m)"

record reservation =
  rs_key :: str
  rs_peer :: str
  rs_at :: instant

definition reserve ::
  "login_limiter \<Rightarrow> str \<Rightarrow> str \<Rightarrow> instant \<Rightarrow> reservation option \<times> login_limiter" where
  "reserve l key peer now =
     (let by_key = clear_full (lm_by_key l) key;
          by_peer = clear_full (lm_by_peer l) peer;
          key_window = prune (lookup by_key key) now;
          by_key = AList.update key key_window by_key
      in if as_u32 (length key_window) \<ge> lm_per_minute l
         then (None, l\<lparr>lm_by_key := by_key, lm_by_peer := by_peer\<rparr>)
         else let peer_window = prune (lookup by_peer peer) now;
                  by_peer' = AList.update peer peer_window by_peer
              in if as_u32 (length peer_window) \<ge> peer_limit (lm_per_minute l)
                 then (None, l\<lparr>lm_by_key := by_key, lm_by_peer := by_peer'\<rparr>)
                 else (Some \<lparr>rs_key = key, rs_peer = peer, rs_at = now\<rparr>,
                       l\<lparr>lm_by_key := AList.update key (key_window @ [now]) by_key,
                         lm_by_peer := AList.update peer (peer_window @ [now]) by_peer'\<rparr>))"

text \<open>Exactly one charge at the instant is taken back, the first; \<open>None\<close> is a cleared window.\<close>

definition remove_one :: "windows \<Rightarrow> str \<Rightarrow> instant \<Rightarrow> windows" where
  "remove_one m k t =
     (case map_of m k of None \<Rightarrow> m | Some w \<Rightarrow> AList.update k (remove1 t w) m)"

definition release :: "login_limiter \<Rightarrow> reservation \<Rightarrow> login_limiter" where
  "release l r =
     l\<lparr>lm_by_key := remove_one (lm_by_key l) (rs_key r) (rs_at r),
       lm_by_peer := remove_one (lm_by_peer l) (rs_peer r) (rs_at r)\<rparr>"

text \<open>The keys, from the header and the peer's address text.\<close>

definition throttle_key :: "str option \<Rightarrow> str option \<Rightarrow> str" where
  "throttle_key forwarded peer_ip =
     (let first = (case forwarded of None \<Rightarrow> [] | Some f \<Rightarrow> trim (hd (split_on 44 f)))
      in if first \<noteq> [] then u ''fwd:'' @ take 48 first
         else (case peer_ip of Some ip \<Rightarrow> u ''peer:'' @ ip | None \<Rightarrow> u ''unknown''))"

definition peer_key :: "str option \<Rightarrow> str" where
  "peer_key peer_ip = (case peer_ip of Some ip \<Rightarrow> ip | None \<Rightarrow> u ''unknown'')"

section \<open>Windows stay bounded\<close>

datatype limiter_event = EReserve str str instant | ERelease reservation

fun limiter_step :: "login_limiter \<Rightarrow> limiter_event \<Rightarrow> login_limiter" where
  "limiter_step l (EReserve key peer now) = snd (reserve l key peer now)"
| "limiter_step l (ERelease r) = release l r"

definition windows_ok :: "nat \<Rightarrow> windows \<Rightarrow> bool" where
  "windows_ok limit m \<longleftrightarrow>
     distinct (map fst m) \<and> length m \<le> max_keys \<and> (\<forall>w \<in> snd ` set m. length w \<le> limit)"

definition limiter_inv :: "login_limiter \<Rightarrow> bool" where
  "limiter_inv l \<longleftrightarrow>
     1 \<le> lm_per_minute l \<and> lm_per_minute l \<le> u32_max \<and>
     windows_ok (lm_per_minute l) (lm_by_key l) \<and>
     windows_ok (peer_limit (lm_per_minute l)) (lm_by_peer l)"

lemma windows_ok_Nil [simp]: "windows_ok n []"
  by (simp add: windows_ok_def)

lemma windows_ok_clear: "windows_ok n m \<Longrightarrow> windows_ok n (clear_full m k)"
  by (simp add: clear_full_def)

lemma clear_full_room:
  assumes "windows_ok n m"
  shows "map_of (clear_full m k) k = None \<Longrightarrow> length (clear_full m k) < max_keys"
  using assms by (auto simp: clear_full_def max_keys_def split: if_splits)

lemma length_update:
  "length (AList.update k v m) = (if map_of m k = None then Suc (length m) else length m)"
  by (induction m) auto

lemma snd_update: "snd ` set (AList.update k v m) \<subseteq> insert v (snd ` set m)"
  by (induction m) auto

lemma windows_ok_update:
  assumes "windows_ok n m" and "length w \<le> n" and "map_of m k = None \<Longrightarrow> length m < max_keys"
  shows "windows_ok n (AList.update k w m)"
proof -
  have "length v \<le> n" if "v \<in> snd ` set (AList.update k w m)" for v
  proof -
    have "v \<in> insert w (snd ` set m)" using snd_update[of k w m] that by blast
    then show ?thesis using assms(1,2) by (auto simp: windows_ok_def)
  qed
  moreover have "length (AList.update k w m) \<le> max_keys"
    using assms(1,3) by (auto simp: windows_ok_def length_update)
  ultimately show ?thesis using assms(1) by (simp add: windows_ok_def distinct_update)
qed

lemma lookup_le: "windows_ok n m \<Longrightarrow> length (lookup m k) \<le> n"
  by (auto simp: windows_ok_def lookup_def split: option.splits dest!: map_of_SomeD)

lemma prune_le: "length (prune w now) \<le> length w"
  by (simp add: prune_def)

lemma map_of_update_not_None: "map_of (AList.update k v m) k \<noteq> None"
  by (simp add: update_conv')

lemma peer_limit_le: "peer_limit n \<le> u32_max"
  by (simp add: peer_limit_def)

lemma as_u32_small: "n \<le> u32_max \<Longrightarrow> as_u32 n = n"
  by (simp add: as_u32_def u32_max_def)

lemma reserve_keeps: "limiter_inv l \<Longrightarrow> limiter_inv (snd (reserve l key peer now))"
proof -
  assume inv: "limiter_inv l"
  let ?k = "clear_full (lm_by_key l) key" and ?p = "clear_full (lm_by_peer l) peer"
  let ?n = "lm_per_minute l"
  let ?kw = "prune (lookup ?k key) now" and ?pw = "prune (lookup ?p peer) now"
  have k: "windows_ok ?n ?k" and p: "windows_ok (peer_limit ?n) ?p"
    using inv by (simp_all add: limiter_inv_def windows_ok_clear)
  have kw: "length ?kw \<le> ?n" using prune_le lookup_le[OF k] le_trans by blast
  have pw: "length ?pw \<le> peer_limit ?n" using prune_le lookup_le[OF p] le_trans by blast
  have room: "map_of ?k key = None \<Longrightarrow> length ?k < max_keys"
    "map_of ?p peer = None \<Longrightarrow> length ?p < max_keys"
    using inv clear_full_room by (auto simp: limiter_inv_def)
  let ?k1 = "AList.update key ?kw ?k" and ?p1 = "AList.update peer ?pw ?p"
  have k1: "windows_ok ?n ?k1" by (rule windows_ok_update[OF k kw room(1)])
  have p1: "windows_ok (peer_limit ?n) ?p1" by (rule windows_ok_update[OF p pw room(2)])
  have lim: "1 \<le> ?n" "?n \<le> u32_max" using inv by (auto simp: limiter_inv_def)
  consider "as_u32 (length ?kw) \<ge> ?n" | "as_u32 (length ?kw) < ?n" "as_u32 (length ?pw) \<ge> peer_limit ?n"
    | "as_u32 (length ?kw) < ?n" "as_u32 (length ?pw) < peer_limit ?n" by linarith
  then show ?thesis
  proof cases
    case 1
    then show ?thesis using k1 p lim by (simp add: reserve_def Let_def limiter_inv_def)
  next
    case 2
    then show ?thesis using k1 p1 lim by (simp add: reserve_def Let_def limiter_inv_def)
  next
    case 3
    have "length (?kw @ [now]) \<le> ?n" using 3(1) as_u32_small[of "length ?kw"] kw lim by simp
    then have k2: "windows_ok ?n (AList.update key (?kw @ [now]) ?k1)"
      by (rule windows_ok_update[OF k1]) (simp add: map_of_update_not_None)
    have "length (?pw @ [now]) \<le> peer_limit ?n"
      using 3(2) as_u32_small[of "length ?pw"] pw peer_limit_le[of ?n] by simp
    then have p2: "windows_ok (peer_limit ?n) (AList.update peer (?pw @ [now]) ?p1)"
      by (rule windows_ok_update[OF p1]) (simp add: map_of_update_not_None)
    show ?thesis using 3 k2 p2 lim by (simp add: reserve_def Let_def limiter_inv_def)
  qed
qed

lemma windows_ok_remove_one: "windows_ok n m \<Longrightarrow> windows_ok n (remove_one m k t)"
proof (cases "map_of m k")
  case (Some w)
  assume ok: "windows_ok n m"
  have "length (remove1 t w) \<le> n"
    using lookup_le[OF ok, of k] Some length_remove1[of t w] by (auto simp: lookup_def)
  then have "windows_ok n (AList.update k (remove1 t w) m)"
    by (rule windows_ok_update[OF ok]) (simp add: Some)
  then show ?thesis by (simp add: remove_one_def Some)
qed (simp add: remove_one_def)

lemma release_keeps: "limiter_inv l \<Longrightarrow> limiter_inv (release l r)"
  by (simp add: limiter_inv_def release_def windows_ok_remove_one)

interpretation limiter: invariant_machine limiter_step limiter_inv
proof
  fix l e assume "limiter_inv l"
  then show "limiter_inv (limiter_step l e)"
    by (cases e) (simp_all add: reserve_keeps release_keeps)
qed

lemma new_inv: "n \<le> u32_max \<Longrightarrow> limiter_inv (limiter_new n)"
  by (simp add: limiter_inv_def limiter_new_def u32_max_def)

section \<open>The rate an attacker gets\<close>

text \<open>
  The attempts the limiter admits, in order: a log beside the state. A run is a list of
  attempts (key, peer, time) none of which is released, the sequence a guesser produces.
\<close>

type_synonym attempt = "str \<times> str \<times> instant"

fun admit :: "login_limiter \<times> attempt list \<Rightarrow> attempt \<Rightarrow> login_limiter \<times> attempt list" where
  "admit (l, trail) (key, peer, now) =
     (case reserve l key peer now of (r, l') \<Rightarrow> (l', if r = None then trail else trail @ [(key, peer, now)]))"

definition admitted :: "nat \<Rightarrow> attempt list \<Rightarrow> attempt list" where
  "admitted per_minute attempts = snd (foldl admit (limiter_new per_minute, []) attempts)"

definition recent :: "instant \<Rightarrow> instant \<Rightarrow> bool" where
  "recent now t \<longleftrightarrow> duration_since now t < window"

definition times_by :: "(attempt \<Rightarrow> str) \<Rightarrow> str \<Rightarrow> attempt list \<Rightarrow> instant list" where
  "times_by f k trail = map (snd \<circ> snd) (filter (\<lambda>a. f a = k) trail)"

definition peer_of :: "attempt \<Rightarrow> str" where "peer_of a = fst (snd a)"

lemma recent_mono: "T \<le> now \<Longrightarrow> recent now t \<Longrightarrow> recent T t"
  by (auto simp: recent_def duration_since_def)

lemma filter_recent: "T \<le> now \<Longrightarrow> filter (recent now) (filter (recent T) w) = filter (recent now) w"
  unfolding filter_filter by (intro filter_cong) (auto dest: recent_mono)

lemma prune_recent: "prune w now = filter (recent now) w"
  by (simp add: prune_def recent_def[abs_def])

lemma times_by_snoc:
  "times_by f k (trail @ [a]) = times_by f k trail @ (if f a = k then [snd (snd a)] else [])"
  by (simp add: times_by_def)

lemma lookup_update: "lookup (AList.update k v m) j = (if j = k then v else lookup m j)"
  by (simp add: lookup_def update_conv')

text \<open>A window agrees with the trail of admitted attempts on everything still recent.\<close>

definition tracks :: "instant \<Rightarrow> windows \<Rightarrow> (attempt \<Rightarrow> str) \<Rightarrow> attempt list \<Rightarrow> bool" where
  "tracks T m f trail \<longleftrightarrow>
     (\<forall>k now. T \<le> now \<longrightarrow> filter (recent now) (lookup m k) = filter (recent now) (times_by f k trail))"

lemma tracks_prune:
  assumes "tracks T m f trail" and "T \<le> now"
  shows "tracks now (AList.update k (prune (lookup m k) now) m) f trail"
    and "prune (lookup m k) now = filter (recent now) (times_by f k trail)"
proof -
  show "prune (lookup m k) now = filter (recent now) (times_by f k trail)"
    using assms by (simp add: tracks_def prune_recent)
  show "tracks now (AList.update k (prune (lookup m k) now) m) f trail"
    unfolding tracks_def
  proof (intro allI impI)
    fix j later assume l: "now \<le> later"
    then have eq: "filter (recent later) (lookup m j) = filter (recent later) (times_by f j trail)"
      using assms by (simp add: tracks_def)
    have "filter (recent later) (prune (lookup m k) now) = filter (recent later) (lookup m k)"
      unfolding prune_recent by (rule filter_recent[OF l])
    then show "filter (recent later) (lookup (AList.update k (prune (lookup m k) now) m) j) =
        filter (recent later) (times_by f j trail)"
      using eq by (auto simp: lookup_update)
  qed
qed

lemma tracks_push:
  assumes "tracks now m f trail" and "f a = k" and "snd (snd a) = now"
  shows "tracks now (AList.update k (lookup m k @ [now]) m) f (trail @ [a])"
  using assms by (auto simp: tracks_def lookup_update times_by_snoc)

lemma tracks_later: "tracks T m f trail \<Longrightarrow> T \<le> now \<Longrightarrow> tracks now m f trail"
  by (auto simp: tracks_def)

text \<open>
  Each admitted attempt was within its limits when admitted: counting it and the earlier
  admitted attempts of the same key (peer) less than a window old.
\<close>

definition within_rate :: "(attempt \<Rightarrow> str) \<Rightarrow> nat \<Rightarrow> attempt list \<Rightarrow> bool" where
  "within_rate f limit trail \<longleftrightarrow>
     (\<forall>pre a post. trail = pre @ a # post \<longrightarrow>
        length (filter (recent (snd (snd a))) (times_by f (f a) (pre @ [a]))) \<le> limit)"

lemma within_rate_Nil [simp]: "within_rate f n []"
  by (simp add: within_rate_def)

lemma within_rate_snoc:
  "within_rate f n (trail @ [a]) \<longleftrightarrow>
     within_rate f n trail \<and> length (filter (recent (snd (snd a))) (times_by f (f a) (trail @ [a]))) \<le> n"
proof
  assume w: "within_rate f n (trail @ [a])"
  then show "within_rate f n trail \<and> length (filter (recent (snd (snd a))) (times_by f (f a) (trail @ [a]))) \<le> n"
    unfolding within_rate_def by (metis append.assoc append_Cons append_Nil)
next
  assume w: "within_rate f n trail \<and> length (filter (recent (snd (snd a))) (times_by f (f a) (trail @ [a]))) \<le> n"
  show "within_rate f n (trail @ [a])"
    unfolding within_rate_def
  proof (intro allI impI)
    fix pre b post assume e: "trail @ [a] = pre @ b # post"
    show "length (filter (recent (snd (snd b))) (times_by f (f b) (pre @ [b]))) \<le> n"
    proof (cases post rule: rev_cases)
      case Nil
      then show ?thesis using e w by simp
    next
      case (snoc post' c)
      then have "trail = pre @ b # post'" using e by simp
      then show ?thesis using w unfolding within_rate_def by blast
    qed
  qed
qed

lemma reserve_open:
  assumes inv: "limiter_inv l"
    and roomk: "map_of (lm_by_key l) key = None \<longrightarrow> length (lm_by_key l) < max_keys"
    and roomp: "map_of (lm_by_peer l) peer = None \<longrightarrow> length (lm_by_peer l) < max_keys"
    and tk: "tracks now (lm_by_key l) fst trail" and tp: "tracks now (lm_by_peer l) peer_of trail"
    and wk: "within_rate fst (lm_per_minute l) trail"
    and wp: "within_rate peer_of (peer_limit (lm_per_minute l)) trail"
    and step: "admit (l, trail) (key, peer, now) = (l', trail')"
  shows "lm_per_minute l' = lm_per_minute l \<and> limiter_inv l' \<and>
     tracks now (lm_by_key l') fst trail' \<and> tracks now (lm_by_peer l') peer_of trail' \<and>
     within_rate fst (lm_per_minute l) trail' \<and> within_rate peer_of (peer_limit (lm_per_minute l)) trail' \<and>
     fst ` set (lm_by_key l') \<subseteq> insert key (fst ` set (lm_by_key l)) \<and>
     fst ` set (lm_by_peer l') \<subseteq> insert peer (fst ` set (lm_by_peer l))"
proof -
  let ?n = "lm_per_minute l" and ?K = "lm_by_key l" and ?P = "lm_by_peer l" and ?a = "(key, peer, now)"
  have open_k: "clear_full ?K key = ?K" and open_p: "clear_full ?P peer = ?P"
    using roomk roomp by (auto simp: clear_full_def)
  let ?kw = "prune (lookup ?K key) now" and ?pw = "prune (lookup ?P peer) now"
  let ?K1 = "AList.update key ?kw ?K" and ?P1 = "AList.update peer ?pw ?P"
  have inv': "limiter_inv l'" using reserve_keeps[OF inv, of key peer now] step by (auto split: prod.splits)
  have dom: "fst ` set (AList.update j v m) = insert j (fst ` set m)" for j :: str and v :: "instant list" and m
    by (simp add: dom_update)
  note k1 = tracks_prune[OF tk order_refl, of key] and p1 = tracks_prune[OF tp order_refl, of peer]
  have le: "length ?kw \<le> u32_max" "length ?pw \<le> u32_max"
  proof -
    have "length (lookup ?K key) \<le> u32_max" "length (lookup ?P peer) \<le> u32_max"
      using inv lookup_le[of ?n ?K key] lookup_le[of "peer_limit ?n" ?P peer] peer_limit_le[of ?n]
      by (simp_all add: limiter_inv_def)
    then show "length ?kw \<le> u32_max" "length ?pw \<le> u32_max"
      using prune_le[of "lookup ?K key" now] prune_le[of "lookup ?P peer" now] by linarith+
  qed
  consider "length ?kw \<ge> ?n" | "length ?kw < ?n" "length ?pw \<ge> peer_limit ?n"
    | "length ?kw < ?n" "length ?pw < peer_limit ?n" by linarith
  then show ?thesis
  proof cases
    case 1
    then have "l' = l\<lparr>lm_by_key := ?K1, lm_by_peer := ?P\<rparr>" "trail' = trail"
      using step le by (auto simp: reserve_def Let_def open_k open_p as_u32_small)
    then show ?thesis using inv' k1(1) tp wk wp dom by auto
  next
    case 2
    then have "l' = l\<lparr>lm_by_key := ?K1, lm_by_peer := ?P1\<rparr>" "trail' = trail"
      using step le by (auto simp: reserve_def Let_def open_k open_p as_u32_small)
    then show ?thesis using inv' k1(1) p1(1) wk wp dom by auto
  next
    case 3
    then have l': "l' = l\<lparr>lm_by_key := AList.update key (?kw @ [now]) ?K1,
        lm_by_peer := AList.update peer (?pw @ [now]) ?P1\<rparr>" and tr: "trail' = trail @ [?a]"
      using step le by (auto simp: reserve_def Let_def open_k open_p as_u32_small)
    have "lookup ?K1 key = ?kw" "lookup ?P1 peer = ?pw" by (simp_all add: lookup_update)
    then have t: "tracks now (lm_by_key l') fst trail'" "tracks now (lm_by_peer l') peer_of trail'"
      using tracks_push[OF k1(1), of ?a] tracks_push[OF p1(1), of ?a] l' tr by (simp_all add: peer_of_def)
    have "length (filter (recent now) (times_by fst key (trail @ [?a]))) \<le> Suc (length ?kw)"
      "length (filter (recent now) (times_by peer_of peer (trail @ [?a]))) \<le> Suc (length ?pw)"
      using k1(2) p1(2) by (simp_all add: times_by_snoc peer_of_def)
    then have w: "within_rate fst ?n trail'" "within_rate peer_of (peer_limit ?n) trail'"
      unfolding tr within_rate_snoc using wk wp 3 by (simp_all add: peer_of_def)
    show ?thesis using inv' t w dom l' by auto
  qed
qed

lemma limiter_run:
  assumes "sorted (map (snd \<circ> snd) attempts)" and "n \<le> u32_max"
    and "card (fst ` set attempts) \<le> max_keys" and "card (peer_of ` set attempts) \<le> max_keys"
  shows "case foldl admit (limiter_new n, []) attempts of (l, trail) \<Rightarrow>
     lm_per_minute l = max 1 n \<and> limiter_inv l \<and>
     (\<forall>T. (\<forall>a \<in> set attempts. snd (snd a) \<le> T) \<longrightarrow>
        tracks T (lm_by_key l) fst trail \<and> tracks T (lm_by_peer l) peer_of trail) \<and>
     within_rate fst (max 1 n) trail \<and> within_rate peer_of (peer_limit (max 1 n)) trail \<and>
     fst ` set (lm_by_key l) \<subseteq> fst ` set attempts \<and> fst ` set (lm_by_peer l) \<subseteq> peer_of ` set attempts"
  using assms(1,3,4)
proof (induction attempts rule: rev_induct)
  case Nil
  then show ?case using new_inv[OF assms(2)]
    by (simp add: limiter_new_def tracks_def lookup_def times_by_def)
next
  case (snoc a attempts)
  obtain key peer now where a: "a = (key, peer, now)" by (cases a)
  obtain l trail where lt: "foldl admit (limiter_new n, []) attempts = (l, trail)" by fastforce
  obtain l' trail' where lt': "admit (l, trail) a = (l', trail')" by fastforce
  have srt: "sorted (map (snd \<circ> snd) attempts)" "\<forall>b \<in> set attempts. snd (snd b) \<le> now"
    using snoc.prems(1) a by (simp_all add: sorted_append comp_def)
  have card: "card (fst ` set attempts) \<le> max_keys" "card (peer_of ` set attempts) \<le> max_keys"
  proof -
    have "card (fst ` set attempts) \<le> card (fst ` set (attempts @ [a]))"
      "card (peer_of ` set attempts) \<le> card (peer_of ` set (attempts @ [a]))"
      by (intro card_mono; auto)+
    then show "card (fst ` set attempts) \<le> max_keys" "card (peer_of ` set attempts) \<le> max_keys"
      using snoc.prems(2,3) by linarith+
  qed
  note IH = snoc.IH[OF srt(1) card, unfolded lt prod.case]
  have small: "length m < max_keys"
    if "distinct (map fst m)" "fst ` set m \<subseteq> S" "k \<notin> fst ` set m" "card (insert k S) \<le> max_keys" "finite S"
    for m :: windows and k S
  proof -
    have "length m = card (fst ` set m)" using that(1) by (metis distinct_card image_set length_map)
    also have "\<dots> < card (insert k (fst ` set m))" using that(3) by simp
    also have "\<dots> \<le> card (insert k S)" using that(2,5) by (intro card_mono) auto
    finally show ?thesis using that(4) by simp
  qed
  have rk: "length (lm_by_key l) < max_keys" if "map_of (lm_by_key l) key = None"
    using small[of "lm_by_key l" "fst ` set attempts" key] IH that snoc.prems(2) a
    by (auto simp: limiter_inv_def windows_ok_def map_of_eq_None_iff)
  have rp: "length (lm_by_peer l) < max_keys" if "map_of (lm_by_peer l) peer = None"
    using small[of "lm_by_peer l" "peer_of ` set attempts" peer] IH that snoc.prems(3) a
    by (auto simp: limiter_inv_def windows_ok_def map_of_eq_None_iff peer_of_def)
  have tr: "tracks now (lm_by_key l) fst trail" "tracks now (lm_by_peer l) peer_of trail"
    using IH srt(2) by auto
  have n: "lm_per_minute l = max 1 n" "limiter_inv l" using IH by auto
  have w: "within_rate fst (lm_per_minute l) trail" "within_rate peer_of (peer_limit (lm_per_minute l)) trail"
    using IH n(1) by auto
  have room: "map_of (lm_by_key l) key = None \<longrightarrow> length (lm_by_key l) < max_keys"
    "map_of (lm_by_peer l) peer = None \<longrightarrow> length (lm_by_peer l) < max_keys"
    using rk rp by simp_all
  note step = reserve_open[OF n(2) room tr w lt'[unfolded a]]
  have fold: "foldl admit (limiter_new n, []) (attempts @ [a]) = (l', trail')" using lt lt' by simp
  have "tracks T (lm_by_key l') fst trail' \<and> tracks T (lm_by_peer l') peer_of trail'" if "now \<le> T" for T
    using conjunct1[OF conjunct2[OF conjunct2[OF step]]]
      conjunct1[OF conjunct2[OF conjunct2[OF conjunct2[OF step]]]] tracks_later[OF _ that]
    by (intro conjI)
  then have tracking: "\<forall>T. (\<forall>b \<in> set (attempts @ [a]). snd (snd b) \<le> T) \<longrightarrow>
        tracks T (lm_by_key l') fst trail' \<and> tracks T (lm_by_peer l') peer_of trail'"
    using a by simp
  have keys: "fst ` set (lm_by_key l') \<subseteq> fst ` set (attempts @ [a])"
    "fst ` set (lm_by_peer l') \<subseteq> peer_of ` set (attempts @ [a])"
  proof -
    have A: "fst ` set (lm_by_key l) \<subseteq> fst ` set attempts"
      "fst ` set (lm_by_peer l) \<subseteq> peer_of ` set attempts"
      using IH by simp_all
    have B: "fst ` set (lm_by_key l') \<subseteq> insert key (fst ` set (lm_by_key l))"
      "fst ` set (lm_by_peer l') \<subseteq> insert peer (fst ` set (lm_by_peer l))"
      using step by simp_all
    have C: "fst ` set (attempts @ [a]) = insert key (fst ` set attempts)"
      "peer_of ` set (attempts @ [a]) = insert peer (peer_of ` set attempts)"
      using a by (simp_all add: peer_of_def)
    show "fst ` set (lm_by_key l') \<subseteq> fst ` set (attempts @ [a])"
      unfolding C by (rule subset_trans[OF B(1) insert_mono[OF A(1)]])
    show "fst ` set (lm_by_peer l') \<subseteq> peer_of ` set (attempts @ [a])"
      unfolding C by (rule subset_trans[OF B(2) insert_mono[OF A(2)]])
  qed
  show ?case unfolding fold prod.case
    using step n(1) by (intro conjI tracking keys; simp)
qed

lemma within_rate_interval:
  assumes "within_rate f n trail" and "sorted (map (snd \<circ> snd) trail)"
  shows "length (filter (\<lambda>a. f a = k \<and> t - window < snd (snd a) \<and> snd (snd a) \<le> t) trail) \<le> n"
proof (cases "\<exists>a \<in> set trail. f a = k \<and> t - window < snd (snd a) \<and> snd (snd a) \<le> t")
  case False
  then show ?thesis by (auto simp: filter_empty_conv)
next
  case True
  let ?Q = "\<lambda>a. f a = k \<and> t - window < snd (snd a) \<and> snd (snd a) \<le> t"
  obtain pre a post where s: "trail = pre @ a # post" "?Q a" "\<forall>b \<in> set post. \<not> ?Q b"
    using True split_list_last_prop[of trail ?Q] by blast
  have le: "snd (snd b) \<le> snd (snd a)" if "b \<in> set pre" for b
    using assms(2) that unfolding s(1) by (auto simp: sorted_append)
  have "filter ?Q trail = filter ?Q (pre @ [a])" using s(3) unfolding s(1) by (simp add: filter_empty_conv)
  also have "length (filter ?Q (pre @ [a])) \<le>
      length (filter (\<lambda>b. f b = k \<and> recent (snd (snd a)) (snd (snd b))) (pre @ [a]))"
  proof -
    have "?Q b \<Longrightarrow> b \<in> set (pre @ [a]) \<Longrightarrow> recent (snd (snd a)) (snd (snd b))" for b
      using le s(2) by (auto simp: recent_def duration_since_def window_def)
    then have "filter ?Q (pre @ [a]) =
        filter ?Q (filter (\<lambda>b. f b = k \<and> recent (snd (snd a)) (snd (snd b))) (pre @ [a]))"
      unfolding filter_filter by (intro filter_cong) auto
    from arg_cong[OF this, of length] show ?thesis by (rule ord_eq_le_trans) (rule length_filter_le)
  qed
  also have "\<dots> = length (filter (recent (snd (snd a))) (times_by f (f a) (pre @ [a])))"
    unfolding times_by_def filter_map length_map filter_filter comp_def
    using s(2) by (intro arg_cong[of _ _ length] filter_cong) auto
  also have "\<dots> \<le> n" using assms(1) s(1) unfolding within_rate_def by blast
  finally show ?thesis .
qed

lemma admit_subseq: "subseq (snd (foldl admit (l, trail) attempts)) (trail @ attempts)"
proof (induction attempts arbitrary: l trail)
  case (Cons a attempts)
  obtain l' trail' where s: "admit (l, trail) a = (l', trail')" by fastforce
  have "trail' = trail \<or> trail' = trail @ [a]"
    using s by (cases a) (auto split: prod.splits if_splits)
  then have "subseq (trail' @ attempts) (trail @ a # attempts)"
  proof
    assume "trail' = trail"
    then show ?thesis by (auto intro!: list_emb_append_mono)
  qed simp
  then show ?case using Cons[of l' trail'] s by (auto intro: subseq_order.trans)
qed simp

section \<open>Properties\<close>

text \<open>
  The limiter's memory is bounded whatever callers do: after any sequence of
  reservations and releases, with any keys, peers and clock readings, at most 4096 keys and
  4096 peers are tracked, no key holds more than \<open>per_minute\<close> charges and no peer more than
  four times that, and the \<open>u32\<close> conversions never truncated.
\<close>

theorem limiter_bounded:
  assumes "per_minute \<le> u32_max"
  shows "limiter_inv (run limiter_step (limiter_new per_minute) events)"
  by (rule limiter.run_inv[OF new_inv[OF assms]])

theorem limiter_bounded_witness:
  "limiter_inv (run limiter_step (limiter_new 5) [EReserve (u ''k'') (u ''p'') 0])"
  by (rule limiter_bounded) (simp add: u32_max_def)

text \<open>
  Guessing is rate limited in every sliding minute, not only in aligned ones: of
  any attempts arriving in time order from fewer than 4097 distinct keys and peers, those
  admitted within any 60 seconds number at most \<open>per_minute\<close> (at least one) for each key, and
  at most four times that for each peer, however often the caller rotates its forwarded address.
\<close>

theorem guessing_rate_bounded:
  assumes "sorted (map (snd \<circ> snd) attempts)" and "per_minute \<le> u32_max"
    and "card (fst ` set attempts) \<le> max_keys" and "card (peer_of ` set attempts) \<le> max_keys"
  shows "length (filter (\<lambda>a. fst a = k \<and> t - window < snd (snd a) \<and> snd (snd a) \<le> t)
           (admitted per_minute attempts)) \<le> max 1 per_minute \<and>
     length (filter (\<lambda>a. peer_of a = p \<and> t - window < snd (snd a) \<and> snd (snd a) \<le> t)
           (admitted per_minute attempts)) \<le> peer_limit (max 1 per_minute)"
proof -
  obtain l trail where lt: "foldl admit (limiter_new per_minute, []) attempts = (l, trail)" by fastforce
  have tr: "admitted per_minute attempts = trail" by (simp add: admitted_def lt)
  have "subseq trail attempts" using admit_subseq[of "limiter_new per_minute" "[]" attempts] lt by simp
  then have "subseq (map (snd \<circ> snd) trail) (map (snd \<circ> snd) attempts)" by (rule subseq_map)
  then have sorted: "sorted (map (snd \<circ> snd) trail)" using assms(1) by (rule subseq_sorted_wrt)
  have "within_rate fst (max 1 per_minute) trail"
    "within_rate peer_of (peer_limit (max 1 per_minute)) trail"
    using limiter_run[OF assms] unfolding lt by simp_all
  then show ?thesis unfolding tr using within_rate_interval[OF _ sorted] by blast
qed

theorem guessing_rate_bounded_witness:
  "length (filter (\<lambda>a. fst a = u ''k'' \<and> 3 - window < snd (snd a) \<and> snd (snd a) \<le> 3)
     (admitted 1 [(u ''k'', u ''p'', 1), (u ''k'', u ''p'', 2), (u ''j'', u ''p'', 3)])) \<le> max 1 1"
  using guessing_rate_bounded[of "[(u ''k'', u ''p'', 1), (u ''k'', u ''p'', 2), (u ''j'', u ''p'', 3)]" 1 "u ''k''" 3 "u ''p''"]
  by (simp add: u32_max_def max_keys_def peer_of_def)

end
