(* ===== verification/Lr_Consent.thy ===== *)
theory Lr_Consent
  imports Lr_Auth Lr_Session Lr_Limiter
begin

text \<open>
  Registration, login and consent, the remaining handlers of \<open>src/src/authserver/routes.rs\<close>.
  A page is the value the handler renders from (\<open>page_reply\<close>), a redirect its target URI with
  the query pairs to append. Argon2 verification is the parameter \<open>check\<close>, the free
  password-hash slot the flag \<open>slot_free\<close>, randomness \<open>draw\<close>; \<open>clock\<close> is the second the session
  code reads and \<open>now\<close> the instant everything else does.
\<close>

section \<open>Replies\<close>

datatype page_text =
    T_MissingClientId | T_UnknownClient | T_ClientRevoked | T_CannotStart reason
  | T_UnservedResource | T_NotConfigured | T_SignInExpired | T_FormNotRecognised | T_NoChoice
  | T_NameNotSaved reason

datatype login_note = N_TooManyAttempts | N_Busy | N_WrongPassword

datatype registration_fault =
    F_Disabled | F_NoRedirects | F_TooManyRedirects | F_RedirectTooLong | F_Redirect reason
  | F_GrantType str | F_NoCodeGrant | F_ResponseTypes | F_NameTooLong | F_NameStamp
  | F_SoftwareTooLong str | F_TooManyRequests

datatype page_reply =
    PError nat page_text
  | PLogin nat "login_note option"
  | PConsent (pc_client: oauth_client) (pc_intent: authorize_intent) (pc_csrf: str)
      (pc_same_name: nat) (pc_cookie: "str option")
  | PRedirect (pr_uri: str) (pr_pairs: "(str \<times> str) list")
  | PNothingGranted
  | PRegistered (pg_client_id: str) (pg_name: str) (pg_redirect_uris: "str list")
      (pg_grant_types: "str list")
  | PRegistrationError nat registration_fault
  | PServerError

record server =
  sv_public_url :: str
  sv_dcr_enabled :: bool
  sv_token_config :: token_config
  sv_code_ttl :: int
  sv_sessions :: sessions
  sv_owner_hash :: "str option"

section \<open>Registration\<close>

record registration_request =
  rr_redirect_uris :: "str list"
  rr_client_name :: "str option"
  rr_grant_types :: "str list option"
  rr_response_types :: "str list option"
  rr_software_id :: "str option"
  rr_software_version :: "str option"

definition max_software_field :: nat where "max_software_field = 100"

fun check_redirects :: "url_crate \<Rightarrow> str \<Rightarrow> str list \<Rightarrow> (registration_fault, unit) result" where
  "check_redirects uc public_url [] = Inr ()"
| "check_redirects uc public_url (uri # uris) =
     (if str_len uri > max_redirect_uri then Inl F_RedirectTooLong
      else (case and_then (validate_redirect_uri uc uri)
                   (\<lambda>_. check_self_registered_redirect uc uri public_url) of
              Inl e \<Rightarrow> Inl (F_Redirect (client_message e))
            | Inr _ \<Rightarrow> check_redirects uc public_url uris))"

definition registered_grant_types :: "str list option \<Rightarrow> (registration_fault, str list) result" where
  "registered_grant_types asked =
     (case asked of
        None \<Rightarrow> Inr [u ''authorization_code'', u ''refresh_token'']
      | Some gs \<Rightarrow>
          (case List.find (\<lambda>g. g \<noteq> u ''authorization_code'' \<and> g \<noteq> u ''refresh_token'') gs of
             Some g \<Rightarrow> Inl (F_GrantType g)
           | None \<Rightarrow> if u ''authorization_code'' \<in> set gs then Inr gs else Inl F_NoCodeGrant))"

definition registered_name :: "(str \<Rightarrow> str) \<Rightarrow> str option \<Rightarrow> (registration_fault, str) result" where
  "registered_name fold_name name =
     (case map_option client_name_display name of
        None \<Rightarrow> Inr (u ''unnamed client'')
      | Some n \<Rightarrow>
          if str_len n > max_client_name then Inl F_NameTooLong
          else if claims_a_stamp fold_name n then Inl F_NameStamp
          else Inr (if n \<noteq> [] then n else u ''unnamed client''))"

definition clean_software :: "str option \<Rightarrow> str option" where
  "clean_software v =
     (case v of None \<Rightarrow> None
      | Some s \<Rightarrow> (let d = client_name_display s in if d = [] then None else Some d))"

definition too_long :: "str option \<Rightarrow> bool" where
  "too_long v = (case v of None \<Rightarrow> False | Some s \<Rightarrow> str_len s > max_software_field)"

definition registration_record ::
  "url_crate \<Rightarrow> (str \<Rightarrow> str) \<Rightarrow> server \<Rightarrow> registration_request \<Rightarrow> (registration_fault, new_client) result" where
  "registration_record uc fold_name sv rq =
     (if rr_redirect_uris rq = [] then Inl F_NoRedirects
      else if length (rr_redirect_uris rq) > max_redirect_uris then Inl F_TooManyRedirects
      else and_then (check_redirects uc (sv_public_url sv) (rr_redirect_uris rq)) (\<lambda>_.
        and_then (registered_grant_types (rr_grant_types rq)) (\<lambda>grant_types.
          if (case rr_response_types rq of None \<Rightarrow> False | Some ts \<Rightarrow> list_ex (\<lambda>t. t \<noteq> u ''code'') ts)
          then Inl F_ResponseTypes
          else and_then (registered_name fold_name (rr_client_name rq)) (\<lambda>name.
            let software_id = clean_software (rr_software_id rq);
                software_version = clean_software (rr_software_version rq)
            in if too_long software_id then Inl (F_SoftwareTooLong (u ''software_id''))
               else if too_long software_version then Inl (F_SoftwareTooLong (u ''software_version''))
               else Inr \<lparr>nc_client_id = [], nc_secret_hash = None, nc_client_name = name,
                         nc_redirect_uris = rr_redirect_uris rq, nc_grant_types = grant_types,
                         nc_software_id = software_id, nc_software_version = software_version,
                         nc_registered_via = u ''dcr''\<rparr>))))"

definition fault_status :: "registration_fault \<Rightarrow> nat" where
  "fault_status e = (case e of F_Disabled \<Rightarrow> 403 | F_TooManyRequests \<Rightarrow> 429 | _ \<Rightarrow> 400)"

definition register ::
  "url_crate \<Rightarrow> (str \<Rightarrow> str) \<Rightarrow> server \<Rightarrow> instant \<Rightarrow> (nat \<Rightarrow> str option) \<Rightarrow> str \<Rightarrow> str \<Rightarrow>
   registration_request \<Rightarrow> login_limiter \<Rightarrow> oauth_db \<Rightarrow> page_reply \<times> login_limiter \<times> oauth_db" where
  "register uc fold_name sv now draw key from rq lm db =
     (if \<not> sv_dcr_enabled sv then (PRegistrationError 403 F_Disabled, lm, db)
      else (case registration_record uc fold_name sv rq of
          Inl e \<Rightarrow> (PRegistrationError (fault_status e) e, lm, db)
        | Inr rcd \<Rightarrow>
          (case random_token draw 24 of
             Inl e \<Rightarrow> (PServerError, lm, db)
           | Inr client_id \<Rightarrow>
             (case reserve lm key from now of
                (None, lm') \<Rightarrow> (PRegistrationError 429 F_TooManyRequests, lm', db)
              | (Some slot, lm') \<Rightarrow>
                (case register_client now (rcd\<lparr>nc_client_id := client_id\<rparr>) db of
                   Inl e \<Rightarrow> (PServerError, release lm' slot, db)
                 | Inr db' \<Rightarrow>
                     (PRegistered client_id (nc_client_name rcd) (nc_redirect_uris rcd)
                        (nc_grant_types rcd), lm', db'))))))"

section \<open>Resolving an authorization request\<close>

definition resolve_request ::
  "url_crate \<Rightarrow> server \<Rightarrow> oauth_db \<Rightarrow> authorize_request \<Rightarrow>
   (page_reply, oauth_client \<times> authorize_intent) result" where
  "resolve_request uc sv db rq =
     (if ar_client_id rq = [] then Inl (PError 400 T_MissingClientId)
      else (case find_client db (ar_client_id rq) of
          None \<Rightarrow> Inl (PError 400 T_UnknownClient)
        | Some client \<Rightarrow>
            if \<not> is_live client then Inl (PError 400 T_ClientRevoked)
            else (case validate_authorize uc rq (cl_redirect_uris client) of
                Inl e \<Rightarrow> Inl (PError 400 (T_CannotStart (client_message e)))
              | Inr intent \<Rightarrow>
                  if tc_audience (sv_token_config sv) \<noteq> AudienceOff \<and>
                     (case ai_resource intent of None \<Rightarrow> False
                      | Some asked \<Rightarrow> \<not> resource_matches uc asked (tc_resource_url (sv_token_config sv)))
                  then Inl (PError 400 T_UnservedResource)
                  else Inr (client, intent))))"

definition name_key :: "(str \<Rightarrow> str) \<Rightarrow> str \<Rightarrow> str" where
  "name_key fold_name name =
     (let cleaned = client_name_display name
      in fold_name (if cleaned = [] then u ''unnamed client'' else cleaned))"

definition same_name :: "(str \<Rightarrow> str) \<Rightarrow> oauth_client list \<Rightarrow> oauth_client \<Rightarrow> nat" where
  "same_name fold_name clients client =
     length (filter (\<lambda>c. name_key fold_name (cl_name c) = name_key fold_name (cl_name client))
       (filter (\<lambda>c. cl_id c \<noteq> cl_id client \<and> has_consent c) clients))"

definition state_or_empty :: "authorize_intent \<Rightarrow> str" where
  "state_or_empty i = (case ai_state i of Some s \<Rightarrow> s | None \<Rightarrow> [])"

definition consent_page ::
  "mac \<Rightarrow> (str \<Rightarrow> str) \<Rightarrow> server \<Rightarrow> oauth_db \<Rightarrow> oauth_client \<Rightarrow> authorize_intent \<Rightarrow> owner_session \<Rightarrow>
   str option \<Rightarrow> page_reply" where
  "consent_page hmac fold_name sv db client intent session cookie =
     PConsent client intent
       (csrf hmac (sv_sessions sv) session (ai_client_id intent) (ai_redirect_uri intent)
          (ai_code_challenge intent) (state_or_empty intent))
       (same_name fold_name (list_clients db True) client) cookie"

definition authorize ::
  "url_crate \<Rightarrow> mac \<Rightarrow> (str \<Rightarrow> str) \<Rightarrow> server \<Rightarrow> int \<Rightarrow> str list \<Rightarrow> authorize_request \<Rightarrow> oauth_db \<Rightarrow> page_reply" where
  "authorize uc hmac fold_name sv clock cookies rq db =
     (case resolve_request uc sv db rq of
        Inl r \<Rightarrow> r
      | Inr (client, intent) \<Rightarrow>
          (case verify_session hmac (sv_sessions sv) cookies clock of
             Some session \<Rightarrow> consent_page hmac fold_name sv db client intent session None
           | None \<Rightarrow> PLogin 200 None))"

section \<open>Login\<close>

definition login ::
  "url_crate \<Rightarrow> mac \<Rightarrow> (str \<Rightarrow> str) \<Rightarrow> (str \<Rightarrow> str \<Rightarrow> bool res) \<Rightarrow> bool \<Rightarrow> server \<Rightarrow> instant \<Rightarrow> int \<Rightarrow>
   str \<Rightarrow> str \<Rightarrow> authorize_request \<Rightarrow> str option \<Rightarrow> login_limiter \<Rightarrow> oauth_db \<Rightarrow> page_reply \<times> login_limiter" where
  "login uc hmac fold_name check slot_free sv now clock key from rq password lm db =
     (case resolve_request uc sv db rq of
        Inl r \<Rightarrow> (r, lm)
      | Inr (client, intent) \<Rightarrow>
        (case reserve lm key from now of
           (None, lm') \<Rightarrow> (PLogin 429 (Some N_TooManyAttempts), lm')
         | (Some slot, lm') \<Rightarrow>
           (case sv_owner_hash sv of
              None \<Rightarrow> (PError 500 T_NotConfigured, release lm' slot)
            | Some h \<Rightarrow>
                if \<not> slot_free then (PLogin 503 (Some N_Busy), release lm' slot)
                else (case check h (case password of Some p \<Rightarrow> p | None \<Rightarrow> []) of
                    Inl e \<Rightarrow> (PNothingGranted, lm')
                  | Inr False \<Rightarrow> (PLogin 401 (Some N_WrongPassword), lm')
                  | Inr True \<Rightarrow>
                      (let cookie = issue_session hmac (sv_sessions sv) clock
                       in case open_session hmac (sv_sessions sv) cookie clock of
                            None \<Rightarrow> (PNothingGranted, release lm' slot)
                          | Some session \<Rightarrow>
                              (consent_page hmac fold_name sv db client intent session
                                 (Some (set_cookie (sv_sessions sv) cookie)), release lm' slot))))))"

section \<open>Consent\<close>

record consent_form =
  cf_request :: authorize_request
  cf_csrf :: "str option"
  cf_action :: "str option"
  cf_profile :: "str option"
  cf_label :: "str option"

definition profile_update :: "grant_profile \<Rightarrow> grant_update" where
  "profile_update p =
     \<lparr>gu_profile = Some (profile_as_str p), gu_read = profile_read p, gu_write = profile_write p,
      gu_registry_write = profile_registry_write p, gu_sealed_capable = profile_sealed_capable p,
      gu_may_delete = profile_may_delete p, gu_may_ingest = profile_may_ingest p,
      gu_may_read_history = False\<rparr>"

definition redirect_error :: "authorize_intent \<Rightarrow> str \<Rightarrow> page_reply" where
  "redirect_error intent err =
     PRedirect (ai_redirect_uri intent)
       ((u ''error'', err) # (u ''error_description'', u ''the owner refused this request'') #
        (case ai_state intent of Some s \<Rightarrow> if s \<noteq> [] then [(u ''state'', s)] else [] | None \<Rightarrow> []))"

definition consent_code ::
  "server \<Rightarrow> crypto \<Rightarrow> instant \<Rightarrow> oauth_client \<Rightarrow> authorize_intent \<Rightarrow> str \<Rightarrow> new_code" where
  "consent_code sv cr now client intent code =
     \<lparr>co_hash = hash_token cr code, co_client = cl_id client, co_redirect_uri = ai_redirect_uri intent,
      co_challenge = ai_code_challenge intent, co_scope = ai_scope intent,
      co_resource = ai_resource intent, co_expires_at = now + secs (sv_code_ttl sv)\<rparr>"

definition issue_code ::
  "server \<Rightarrow> crypto \<Rightarrow> instant \<Rightarrow> (nat \<Rightarrow> str option) \<Rightarrow> oauth_client \<Rightarrow> authorize_intent \<Rightarrow> oauth_db \<Rightarrow>
   page_reply \<times> oauth_db" where
  "issue_code sv cr now draw client intent db =
     (case random_token draw 32 of
        Inl e \<Rightarrow> (PNothingGranted, db)
      | Inr code \<Rightarrow>
          (case insert_code (consent_code sv cr now client intent code) db of
             Inl e \<Rightarrow> (PNothingGranted, db)
           | Inr db' \<Rightarrow>
               (PRedirect (ai_redirect_uri intent)
                  ((u ''code'', code) #
                   (case ai_state intent of Some s \<Rightarrow> if s \<noteq> [] then [(u ''state'', s)] else []
                    | None \<Rightarrow> [])), db')))"

definition consent ::
  "url_crate \<Rightarrow> mac \<Rightarrow> crypto \<Rightarrow> (str \<Rightarrow> str) \<Rightarrow> server \<Rightarrow> instant \<Rightarrow> int \<Rightarrow> (nat \<Rightarrow> str option) \<Rightarrow>
   str list \<Rightarrow> consent_form \<Rightarrow> oauth_db \<Rightarrow> page_reply \<times> oauth_db" where
  "consent uc hmac cr fold_name sv now clock draw cookies f db =
     (case verify_session hmac (sv_sessions sv) cookies clock of
        None \<Rightarrow> (PError 401 T_SignInExpired, db)
      | Some session \<Rightarrow>
        (case resolve_request uc sv db (cf_request f) of
           Inl r \<Rightarrow> (r, db)
         | Inr (client, intent) \<Rightarrow>
             if \<not> csrf_ok hmac (sv_sessions sv) session (ai_client_id intent) (ai_redirect_uri intent)
                    (ai_code_challenge intent) (state_or_empty intent)
                    (case cf_csrf f of Some c \<Rightarrow> c | None \<Rightarrow> [])
             then (PError 403 T_FormNotRecognised, db)
             else if cf_action f \<noteq> Some (u ''allow'') then (redirect_error intent (u ''access_denied''), db)
             else (case (case cf_profile f of None \<Rightarrow> None | Some s \<Rightarrow> parse_profile s) of
                None \<Rightarrow> (PError 400 T_NoChoice, db)
              | Some profile \<Rightarrow>
                  (case map_option (\<lambda>typed. owner_label fold_name typed (cl_name client)) (cf_label f) of
                     Some (Inl e) \<Rightarrow> (PError 400 (T_NameNotSaved (client_message e)), db)
                   | None \<Rightarrow>
                       issue_code sv cr now draw client intent
                         (set_client_grant now (cl_id client) (profile_update profile) db)
                   | Some (Inr label) \<Rightarrow>
                       (let db1 = set_client_grant now (cl_id client) (profile_update profile) db
                        in issue_code sv cr now draw client intent
                             (case set_client_label (cl_id client) label db1 of
                                Inl e \<Rightarrow> db1 | Inr (b, db2) \<Rightarrow> db2))))))"

section \<open>Registration is not authorization\<close>

lemma register_client_Inr:
  "register_client now c db = Inr db' \<Longrightarrow>
     find_client db (nc_client_id c) = None \<and>
     (\<exists>row. od_clients db' = od_clients db @ [row] \<and> cl_id row = nc_client_id c \<and>
        cl_secret_hash row = nc_secret_hash c \<and> cl_name row = nc_client_name c \<and>
        cl_redirect_uris row = nc_redirect_uris c \<and> cl_grant_types row = nc_grant_types c \<and>
        cl_read row = [] \<and> cl_write row = [] \<and> \<not> cl_registry_write row \<and> \<not> cl_may_delete row \<and>
        \<not> cl_may_ingest row \<and> \<not> cl_may_read_history row \<and> \<not> cl_sealed_capable row \<and>
        cl_consented_at row = None \<and> cl_revoked_at row = None \<and> cl_owner_label row = None) \<and>
     od_codes db' = od_codes db \<and> od_tokens db' = od_tokens db \<and> od_refresh db' = od_refresh db"
  by (auto simp: register_client_def split: if_splits)

lemma check_redirects_Inr:
  "check_redirects uc public_url uris = Inr () \<longleftrightarrow>
     (\<forall>uri \<in> set uris. str_len uri \<le> max_redirect_uri \<and> validate_redirect_uri uc uri = Inr () \<and>
        check_self_registered_redirect uc uri public_url = Inr ())"
  by (induction uris) (auto simp: and_then_Inr and_then_Inl split: sum.splits)

lemma registration_record_Inr:
  assumes "registration_record uc fold_name sv rq = Inr rcd"
  shows "rr_redirect_uris rq \<noteq> [] \<and> length (rr_redirect_uris rq) \<le> max_redirect_uris \<and>
    check_redirects uc (sv_public_url sv) (rr_redirect_uris rq) = Inr () \<and>
    registered_grant_types (rr_grant_types rq) = Inr (nc_grant_types rcd) \<and>
    registered_name fold_name (rr_client_name rq) = Inr (nc_client_name rcd) \<and>
    nc_redirect_uris rcd = rr_redirect_uris rq \<and> nc_secret_hash rcd = None \<and> nc_client_id rcd = []"
  using assms by (auto simp: registration_record_def and_then_Inr Let_def split: if_splits)

lemma registered_grant_types_Inr:
  "registered_grant_types asked = Inr gs \<Longrightarrow>
     set gs \<subseteq> {u ''authorization_code'', u ''refresh_token''} \<and> u ''authorization_code'' \<in> set gs"
  by (auto simp: registered_grant_types_def find_None_iff simp del: u_Cons split: option.splits if_splits)

lemma registered_name_Inr:
  "registered_name fold_name name = Inr n \<Longrightarrow>
     n \<noteq> [] \<and> str_len n \<le> 200 \<and> client_name_display n = n"
proof -
  assume r: "registered_name fold_name name = Inr n"
  have un: "client_name_display (u ''unnamed client'') = u ''unnamed client''"
    "str_len (u ''unnamed client'') = 14" by code_simp+
  show ?thesis
    using r display_idem un
    by (auto simp: registered_name_def max_client_name_def simp del: u_Cons split: option.splits if_splits)
qed

lemma register_Registered:
  assumes "register uc fold_name sv now draw key from rq lm db = (PRegistered i name uris gs, lm', db')"
  shows "\<exists>rcd slot. registration_record uc fold_name sv rq = Inr rcd \<and> draw 24 = Some i \<and>
    reserve lm key from now = (Some slot, lm') \<and>
    register_client now (rcd\<lparr>nc_client_id := i\<rparr>) db = Inr db' \<and>
    name = nc_client_name rcd \<and> uris = nc_redirect_uris rcd \<and> gs = nc_grant_types rcd \<and> sv_dcr_enabled sv"
  using assms by (auto simp: register_def random_token_def split: if_splits sum.splits option.splits prod.splits)

text \<open>
  A successful registration took a slot of the registration budget and added one
  public client: a fresh id, no secret, no grant, no capability, no consent and no owner label, a
  clean non-empty name of at most 200 bytes, only supported grant types, and one to eight redirect
  URIs that each pass the structural and the self-registration checks.
\<close>

theorem registration_is_empty:
  assumes "register uc fold_name sv now draw key from rq lm db = (PRegistered i name uris gs, lm', db')"
  shows "find_client db i = None \<and> (\<exists>slot. reserve lm key from now = (Some slot, lm')) \<and>
    (\<exists>row. od_clients db' = od_clients db @ [row] \<and> cl_id row = i \<and> cl_secret_hash row = None \<and>
       cl_read row = [] \<and> cl_write row = [] \<and> \<not> cl_registry_write row \<and> \<not> cl_may_delete row \<and>
       \<not> cl_may_ingest row \<and> \<not> cl_may_read_history row \<and> cl_consented_at row = None \<and>
       cl_owner_label row = None \<and> cl_name row = name \<and> cl_redirect_uris row = uris) \<and>
    name \<noteq> [] \<and> str_len name \<le> 200 \<and> client_name_display name = name \<and>
    set gs \<subseteq> {u ''authorization_code'', u ''refresh_token''} \<and>
    uris \<noteq> [] \<and> length uris \<le> 8 \<and>
    (\<forall>uri \<in> set uris. validate_redirect_uri uc uri = Inr () \<and>
       check_self_registered_redirect uc uri (sv_public_url sv) = Inr ()) \<and>
    od_tokens db' = od_tokens db \<and> od_codes db' = od_codes db"
proof -
  obtain rcd slot where x: "registration_record uc fold_name sv rq = Inr rcd"
    "reserve lm key from now = (Some slot, lm')"
    "register_client now (rcd\<lparr>nc_client_id := i\<rparr>) db = Inr db'"
    "name = nc_client_name rcd" "uris = nc_redirect_uris rcd" "gs = nc_grant_types rcd"
    using register_Registered[OF assms] by blast
  note r = registration_record_Inr[OF x(1)]
  have n: "name \<noteq> [] \<and> str_len name \<le> 200 \<and> client_name_display name = name"
    using registered_name_Inr[of fold_name "rr_client_name rq" "nc_client_name rcd"] r x(4) by simp
  have g: "set gs \<subseteq> {u ''authorization_code'', u ''refresh_token''}"
    using registered_grant_types_Inr[of "rr_grant_types rq" "nc_grant_types rcd"] r x(6) by simp
  have uri: "uris \<noteq> []" "length uris \<le> 8"
    "\<forall>uri \<in> set uris. validate_redirect_uri uc uri = Inr () \<and>
       check_self_registered_redirect uc uri (sv_public_url sv) = Inr ()"
    using r x(5) by (simp_all add: check_redirects_Inr max_redirect_uris_def)
  show ?thesis
    using register_client_Inr[OF x(3)] x(2) n g uri r x(4,5) by (auto simp del: u_Cons)
qed

definition unapproved :: "str \<Rightarrow> oauth_db \<Rightarrow> bool" where
  "unapproved i db \<longleftrightarrow> list_all (\<lambda>c. cl_id c = i \<longrightarrow> cl_consented_at c = None) (od_clients db)"

fun grants_to :: "str \<Rightarrow> instant \<times> store_op \<Rightarrow> bool" where
  "grants_to i (now, SGrant j g) = (i = j)"
| "grants_to i e = False"

lemma unapproved_updates:
  "list_all (\<lambda>c. cl_id c = i \<longrightarrow> cl_consented_at c = None) cs \<Longrightarrow>
     list_all (\<lambda>c. cl_id c = i \<longrightarrow> cl_consented_at c = None) (update_where p (\<lambda>c. c\<lparr>cl_owner_label := l\<rparr>) cs)"
  "list_all (\<lambda>c. cl_id c = i \<longrightarrow> cl_consented_at c = None) cs \<Longrightarrow>
     list_all (\<lambda>c. cl_id c = i \<longrightarrow> cl_consented_at c = None) (update_where p (\<lambda>c. c\<lparr>cl_revoked_at := r\<rparr>) cs)"
  "list_all (\<lambda>c. cl_id c = i \<longrightarrow> cl_consented_at c = None) cs \<Longrightarrow>
     list_all (\<lambda>c. cl_id c = i \<longrightarrow> cl_consented_at c = None) (update_where p (\<lambda>c. c\<lparr>cl_last_used_at := r\<rparr>) cs)"
  by (auto intro!: list_all_update)

lemma unapproved_grant:
  "i \<noteq> j \<Longrightarrow> unapproved i db \<Longrightarrow> unapproved i (set_client_grant now j g db)"
  unfolding unapproved_def set_client_grant_def
  by (induction "od_clients db" arbitrary: db) (auto simp: update_where_def list_all_iff)

lemma unapproved_step: "unapproved i db \<Longrightarrow> \<not> grants_to i e \<Longrightarrow> unapproved i (store_step db e)"
proof (cases e)
  case (Pair now oper)
  assume un: "unapproved i db" and ng: "\<not> grants_to i e"
  show ?thesis
  proof (cases oper)
    case (SGrant j g)
    with un ng Pair show ?thesis by (simp add: unapproved_grant)
  next
    case (SRegister c)
    show ?thesis
    proof (cases "register_client now c db")
      case (Inl e)
      with un Pair SRegister show ?thesis by (simp add: or_same_def)
    next
      case (Inr db')
      with un Pair SRegister register_client_Inr[OF Inr] show ?thesis
        by (auto simp: or_same_def unapproved_def)
    qed
  next
    case (SConsume h)
    with un Pair show ?thesis by (simp add: snd_consume_code unapproved_def)
  next
    case (SRotate h)
    with un Pair show ?thesis by (simp add: snd_rotate_refresh unapproved_def)
  qed (use un Pair in \<open>simp_all add: unapproved_def op_defs unapproved_updates list_all_filter_weak
        split: option.splits\<close>)
qed

lemma unapproved_run:
  "unapproved i db \<Longrightarrow> \<forall>e \<in> set es. \<not> grants_to i e \<Longrightarrow> unapproved i (run store_step db es)"
  by (induction es arbitrary: db) (auto intro: unapproved_step)

lemma unapproved_find: "unapproved i db \<Longrightarrow> find_client db i = Some c \<Longrightarrow> \<not> has_consent c"
  unfolding unapproved_def find_client_def has_consent_def list_all_iff
  by (metis (mono_tags, lifting) find_Some_set)

text \<open>
  Registering is not being authorized: from a registration until some statement
  writes that client's grant, whatever else the store is asked to do, the token endpoint finds no
  live approved client under its id and no header authenticates as it through an opaque token.
\<close>

theorem registration_is_not_authorization:
  assumes "register uc fold_name sv now draw key from rq lm db = (PRegistered i name uris gs, lm', db')"
    and "\<forall>e \<in> set es. \<not> grants_to i e"
  shows "(\<forall>c. live_consented_client (run store_step db' es) i \<noteq> Inr c) \<and>
    (\<forall>cr audience served t h p db''.
       opaque_authenticate cr uc audience served t (run store_step db' es) h = (Inr p, db'') \<longrightarrow>
       p_client p \<noteq> i)"
proof -
  obtain rcd where reg: "register_client now (rcd\<lparr>nc_client_id := i\<rparr>) db = Inr db'"
    using register_Registered[OF assms(1)] by blast
  have fresh: "find_client db i = None" and row: "\<exists>row. od_clients db' = od_clients db @ [row] \<and> cl_consented_at row = None"
    using register_client_Inr[OF reg] by auto
  have "\<forall>c \<in> set (od_clients db). cl_id c \<noteq> i"
    using fresh unfolding find_client_def find_None_iff by blast
  then have "unapproved i db'" using row by (auto simp: unapproved_def list_all_iff)
  then have un: "unapproved i (run store_step db' es)" using assms(2) by (rule unapproved_run)
  have 1: "\<forall>c. live_consented_client (run store_step db' es) i \<noteq> Inr c"
    using unapproved_find[OF un] unfolding live_consented_client_Inr by blast
  have 2: "p_client p \<noteq> i"
    if o: "opaque_authenticate cr uc audience served t (run store_step db' es) h = (Inr p, db'')"
    for cr audience served t h p db''
  proof
    assume i: "p_client p = i"
    obtain token row client where c: "find_client (run store_step db' es) (to_client row) = Some client"
      "has_consent client" "p = opaque_principal cr client row token"
      using o unfolding opaque_Inr by blast
    have "to_client row = i" using c(3) i find_client_id[OF c(1)] by (simp add: opaque_principal_def)
    then show False using unapproved_find[OF un] c by blast
  qed
  show ?thesis using 1 2 by blast
qed

section \<open>What consent writes\<close>

lemma resolve_request_Inr:
  assumes "resolve_request uc sv db rq = Inr (client, intent)"
  shows "find_client db (ar_client_id rq) = Some client \<and> is_live client \<and>
    ai_client_id intent = ar_client_id rq \<and> ai_redirect_uri intent = ar_redirect_uri rq \<and>
    ai_code_challenge intent = ar_code_challenge rq \<and> ai_state intent = ar_state rq \<and>
    ai_redirect_uri intent \<in> set (cl_redirect_uris client) \<and>
    ar_code_challenge_method rq = Some (u ''S256'') \<and> str_len (ai_code_challenge intent) = 43"
  using assms unfolding resolve_request_def validate_authorize_def
  by (auto simp del: u_Cons split: if_splits option.splits sum.splits)

lemma set_client_label_keeps:
  assumes "set_client_label i l db = Inr (b, db')"
  shows "od_clients db' = update_where (\<lambda>c. cl_id c = i \<and> cl_consented_at c \<noteq> None)
      (\<lambda>c. c\<lparr>cl_owner_label := l\<rparr>) (od_clients db) \<and>
    od_codes db' = od_codes db \<and> od_tokens db' = od_tokens db \<and> od_refresh db' = od_refresh db"
  using assms by (auto simp: set_client_label_def Let_def split: if_splits)

definition granted :: "instant \<Rightarrow> str \<Rightarrow> grant_profile \<Rightarrow> oauth_db \<Rightarrow> oauth_db \<Rightarrow> bool" where
  "granted now i p db db' \<longleftrightarrow>
     (\<forall>c \<in> set (od_clients db').
        if cl_id c = i
        then cl_read c = profile_read p \<and> cl_write c = profile_write p \<and>
             cl_registry_write c = profile_registry_write p \<and>
             cl_may_delete c = profile_may_delete p \<and> cl_may_ingest c = profile_may_ingest p \<and>
             \<not> cl_may_read_history c \<and> cl_consented_at c = Some now
        else c \<in> set (od_clients db)) \<and>
     od_codes db' = od_codes db \<and> od_tokens db' = od_tokens db \<and> od_refresh db' = od_refresh db"

lemma granted_grant: "granted now i p db (set_client_grant now i (profile_update p) db)"
  by (auto simp: granted_def set_client_grant_def set_update_where profile_update_def)

lemma granted_label:
  assumes "granted now i p db db1" "set_client_label i l db1 = Inr (b, db2)"
  shows "granted now i p db db2"
proof -
  note k = set_client_label_keeps[OF assms(2)]
  have "if cl_id c = i
        then cl_read c = profile_read p \<and> cl_write c = profile_write p \<and>
             cl_registry_write c = profile_registry_write p \<and>
             cl_may_delete c = profile_may_delete p \<and> cl_may_ingest c = profile_may_ingest p \<and>
             \<not> cl_may_read_history c \<and> cl_consented_at c = Some now
        else c \<in> set (od_clients db)" if c: "c \<in> set (od_clients db2)" for c
  proof -
    obtain c0 where "c0 \<in> set (od_clients db1)"
      "c = (if cl_id c0 = i \<and> cl_consented_at c0 \<noteq> None then c0\<lparr>cl_owner_label := l\<rparr> else c0)"
      using c k by (auto simp: set_update_where)
    then show ?thesis using assms(1) unfolding granted_def by (auto split: if_splits)
  qed
  then show ?thesis using k assms(1) by (simp add: granted_def)
qed

lemma issue_code_cases:
  assumes "issue_code sv cr now draw client intent db = (reply, db')"
  shows "db' = db \<and> reply = PNothingGranted \<or>
    (\<exists>code pairs. reply = PRedirect (ai_redirect_uri intent) ((u ''code'', code) # pairs) \<and>
       db' = db\<lparr>od_codes := od_codes db @
         [new_code.extend (consent_code sv cr now client intent code) \<lparr>co_consumed_at = None\<rparr>]\<rparr>)"
  using assms by (auto simp: issue_code_def insert_code_def simp del: u_Cons split: sum.splits if_splits)


section \<open>Login\<close>

text \<open>
  The login handler opens a consent page only after the password check said yes, for
  a live client and a registered redirect URI, and then gives the attempt's charge back; a wrong
  password keeps its charge, so the limiter's bound on attempts is a bound on guesses.
\<close>

theorem login_charges_guesses:
  assumes "login uc hmac fold_name check slot_free sv now clock key from rq password lm db = (reply, lm')"
    and "resolve_request uc sv db rq = Inr (client, intent)"
    and "reserve lm key from now = (Some slot, lm1)" "sv_owner_hash sv = Some h" "slot_free"
  shows "(check h (case password of Some p \<Rightarrow> p | None \<Rightarrow> []) = Inr False \<longrightarrow>
      reply = PLogin 401 (Some N_WrongPassword) \<and> lm' = lm1) \<and>
    ((\<exists>c i t n k. reply = PConsent c i t n k) \<longrightarrow>
      check h (case password of Some p \<Rightarrow> p | None \<Rightarrow> []) = Inr True \<and> lm' = release lm1 slot \<and>
      is_live client \<and> ar_redirect_uri rq \<in> set (cl_redirect_uris client) \<and>
      reply = consent_page hmac fold_name sv db client intent
        (the (open_session hmac (sv_sessions sv) (issue_session hmac (sv_sessions sv) clock) clock))
        (Some (set_cookie (sv_sessions sv) (issue_session hmac (sv_sessions sv) clock))))"
proof -
  have i: "is_live client" "ar_redirect_uri rq \<in> set (cl_redirect_uris client)"
    using resolve_request_Inr[OF assms(2)] by auto
  show ?thesis
    using assms i unfolding login_def
    by (auto simp: Let_def split: sum.splits bool.splits option.splits)
qed

section \<open>A failure after the grant\<close>

definition consent_db :: oauth_db where
  "consent_db = sample_db\<lparr>od_clients := [sample_client\<lparr>cl_consented_at := None, cl_read := []\<rparr>]\<rparr>"

definition consent_server :: server where
  "consent_server = \<lparr>sv_public_url = u ''https://h'', sv_dcr_enabled = True, sv_token_config = sample_cfg,
     sv_code_ttl = 60, sv_sessions = \<lparr>ss_secret = u ''k'', ss_ttl = 60, ss_secure = True\<rparr>,
     sv_owner_hash = Some (u ''h'')\<rparr>"

definition flat_mac :: mac where "flat_mac k m = u ''f''"

definition consent_cookies :: "str list" where
  "consent_cookies = [cookie_name @ [61] @ issue_session flat_mac (sv_sessions consent_server) 100]"

definition sample_consent :: consent_form where
  "sample_consent = \<lparr>cf_request = \<lparr>ar_response_type = u ''code'', ar_client_id = u ''c'',
       ar_redirect_uri = u ''r'', ar_code_challenge = replicate 43 97,
       ar_code_challenge_method = Some (u ''S256''), ar_state = None, ar_scope = None, ar_resource = None\<rparr>,
     cf_csrf = Some (u ''f''), cf_action = Some (u ''allow''), cf_profile = Some (u ''narrow''),
     cf_label = None\<rparr>"

text \<open>
  The page that says nothing was granted can be shown after the grant was written:
  when no random code can be drawn, consent answers with it while the client is left approved with
  its profile's namespaces.
\<close>

theorem nothing_granted_page_after_grant:
  "let (reply, db') = consent sample_crate flat_mac sample_crypto (\<lambda>t. t) consent_server 5 110 (\<lambda>n. None)
         consent_cookies sample_consent consent_db
   in reply = PNothingGranted \<and>
      map (\<lambda>c. (cl_id c, cl_consented_at c, cl_read c)) (od_clients consent_db) = [(u ''c'', None, [])] \<and>
      map (\<lambda>c. (cl_id c, cl_consented_at c, cl_read c)) (od_clients db') =
        [(u ''c'', Some 5, profile_read ProfileNarrow)]"
  by code_simp


definition sample_registration :: registration_request where
  "sample_registration = \<lparr>rr_redirect_uris = [u ''a''], rr_client_name = Some (u ''My client''),
     rr_grant_types = None, rr_response_types = None, rr_software_id = None, rr_software_version = None\<rparr>"

lemma registration_is_empty_witness:
  "\<exists>lm db'. register sample_url_crate (\<lambda>t. t) (consent_server\<lparr>sv_public_url := u ''c''\<rparr>) 5 draw_a
     (u ''k'') (u ''p'') sample_registration (limiter_new 5) sample_db
     = (PRegistered (replicate 43 98) (u ''My client'') [u ''a''] [u ''authorization_code'', u ''refresh_token''],
        lm, db') \<and> str_len (u ''My client'') \<le> 200"
proof -
  let ?x = "register sample_url_crate (\<lambda>t. t) (consent_server\<lparr>sv_public_url := u ''c''\<rparr>) 5 draw_a
     (u ''k'') (u ''p'') sample_registration (limiter_new 5) sample_db"
  have "fst ?x = PRegistered (replicate 43 98) (u ''My client'') [u ''a''] [u ''authorization_code'', u ''refresh_token'']"
    by code_simp
  then have "?x = (PRegistered (replicate 43 98) (u ''My client'') [u ''a''] [u ''authorization_code'', u ''refresh_token''],
      fst (snd ?x), snd (snd ?x))"
    by (metis prod.collapse)
  from registration_is_empty[OF this] this show ?thesis by blast
qed

lemma registration_is_not_authorization_witness:
  "\<forall>c. live_consented_client (run store_step (snd (snd
     (register sample_url_crate (\<lambda>t. t) (consent_server\<lparr>sv_public_url := u ''c''\<rparr>) 5 draw_a
       (u ''k'') (u ''p'') sample_registration (limiter_new 5) sample_db))) [(7, STouch (u ''c''))])
     (replicate 43 98) \<noteq> Inr c"
proof -
  let ?x = "register sample_url_crate (\<lambda>t. t) (consent_server\<lparr>sv_public_url := u ''c''\<rparr>) 5 draw_a
     (u ''k'') (u ''p'') sample_registration (limiter_new 5) sample_db"
  have "fst ?x = PRegistered (replicate 43 98) (u ''My client'') [u ''a''] [u ''authorization_code'', u ''refresh_token'']"
    by code_simp
  then have x: "?x = (PRegistered (replicate 43 98) (u ''My client'') [u ''a''] [u ''authorization_code'', u ''refresh_token''],
      fst (snd ?x), snd (snd ?x))"
    by (metis prod.collapse)
  have "\<forall>e \<in> set [(7::int, STouch (u ''c''))]. \<not> grants_to (replicate 43 98) e" by simp
  from registration_is_not_authorization[OF x this] show ?thesis by blast
qed

lemma login_charges_guesses_witness:
  "\<exists>lm'. login sample_crate flat_mac (\<lambda>t. t) (\<lambda>h p. Inr False) True consent_server 5 110 (u ''k'') (u ''p'')
     (cf_request sample_consent) (Some (u ''x'')) (limiter_new 5) sample_db
     = (PLogin 401 (Some N_WrongPassword), lm') \<and> lm' = snd (reserve (limiter_new 5) (u ''k'') (u ''p'') 5)"
proof -
  let ?x = "login sample_crate flat_mac (\<lambda>t. t) (\<lambda>h p. Inr False) True consent_server 5 110 (u ''k'') (u ''p'')
     (cf_request sample_consent) (Some (u ''x'')) (limiter_new 5) sample_db"
  let ?r = "reserve (limiter_new 5) (u ''k'') (u ''p'') 5"
  have "fst ?r = Some \<lparr>rs_key = u ''k'', rs_peer = u ''p'', rs_at = 5\<rparr>" by code_simp
  then have r: "?r = (Some \<lparr>rs_key = u ''k'', rs_peer = u ''p'', rs_at = 5\<rparr>, snd ?r)" by (metis prod.collapse)
  have "(case resolve_request sample_crate consent_server sample_db (cf_request sample_consent) of
      Inr x \<Rightarrow> True | Inl e \<Rightarrow> False)" by code_simp
  then obtain client intent where i:
    "resolve_request sample_crate consent_server sample_db (cf_request sample_consent) = Inr (client, intent)"
    by (auto split: sum.splits)
  have h: "sv_owner_hash consent_server = Some (u ''h'')" by (simp add: consent_server_def)
  have x: "?x = (fst ?x, snd ?x)" by simp
  from login_charges_guesses[OF x i r h] x show ?thesis by (metis TrueI)
qed

end
