(* ===== verification/Lr_Memory_Store.thy ===== *)
theory Lr_Memory_Store
  imports Lr_Policy Lr_Embedding
begin

text \<open>
  The \<open>memory\<close> table of \<open>src/src/adapters/postgres/memory.rs\<close> for the one tenant a server has:
  its rows, and every statement that writes them (insert, supersede, confirm, expire, unexpire,
  fill_occurred_at, delete, restore_row, relink_restored) or walks the supersession chain. A
  transaction is a function from tables to an error, which leaves them as they were, or to new
  tables; the table's constraints (primary key, the two foreign keys into itself, the CHECKs on
  the content representation and on the valid period) are checked after each statement as
  Postgres checks them. \<open>now()\<close> is the argument \<open>now\<close>. Vectors and ciphertexts are of abstract
  types.
\<close>

section \<open>Rows\<close>

record ('v, 's) mem_row =
  mr_id :: nat
  mr_namespace :: str
  mr_content :: "str option"
  mr_sealed :: "'s option"
  mr_kek_id :: "str option"
  mr_vec_a :: "'v option"
  mr_model_a :: "str option"
  mr_vec_b :: "'v option"
  mr_model_b :: "str option"
  mr_tags :: "str list"
  mr_source_client :: str
  mr_sensitivity :: sensitivity
  mr_supersedes :: "nat option"
  mr_superseded_by :: "nat option"
  mr_superseded_at :: "instant option"
  mr_occurred_at :: "instant option"
  mr_occurred_until :: "instant option"
  mr_access_count :: int
  mr_last_accessed_at :: "instant option"
  mr_last_confirmed_at :: "instant option"
  mr_created_at :: instant

record ('v, 's) mem_db =
  md_rows :: "('v, 's) mem_row list"
  md_kek_id :: "str option"

definition memory_from_row :: "('v, 's) mem_row \<Rightarrow> memory" where
  "memory_from_row r =
     \<lparr>m_id = mr_id r, m_namespace = mr_namespace r,
      m_content = (case mr_content r of None \<Rightarrow> [] | Some c \<Rightarrow> c), m_tags = mr_tags r,
      m_source_client = mr_source_client r, m_embedding_model = mr_model_a r,
      m_sensitivity = mr_sensitivity r, m_supersedes = mr_supersedes r,
      m_occurred_at = mr_occurred_at r, m_occurred_until = mr_occurred_until r,
      m_superseded_by = mr_superseded_by r, m_superseded_at = mr_superseded_at r,
      m_access_count = mr_access_count r, m_last_accessed_at = mr_last_accessed_at r,
      m_last_confirmed_at = mr_last_confirmed_at r, m_created_at = mr_created_at r\<rparr>"

text \<open>The \<open>live!()\<close> filter every current read carries.\<close>

definition row_live :: "instant \<Rightarrow> ('v, 's) mem_row \<Rightarrow> bool" where
  "row_live now r \<longleftrightarrow>
     mr_superseded_by r = None \<and>
     (case mr_occurred_until r of None \<Rightarrow> True | Some until \<Rightarrow> until > now)"

section \<open>Constraints\<close>

definition period_ok :: "('v, 's) mem_row \<Rightarrow> bool" where
  "period_ok r \<longleftrightarrow>
     (case (mr_occurred_at r, mr_occurred_until r) of
        (Some start, Some until) \<Rightarrow> start \<le> until
      | _ \<Rightarrow> True)"

definition content_ok :: "('v, 's) mem_row \<Rightarrow> bool" where
  "content_ok r \<longleftrightarrow> (mr_content r = None) \<noteq> (mr_sealed r = None)"

definition checks_ok :: "('v, 's) mem_row list \<Rightarrow> bool" where
  "checks_ok rows \<longleftrightarrow> list_all (\<lambda>r. period_ok r \<and> content_ok r) rows"

definition row_ids :: "('v, 's) mem_row list \<Rightarrow> nat set" where
  "row_ids rows = mr_id ` set rows"

definition link_ok :: "nat set \<Rightarrow> nat option \<Rightarrow> bool" where
  "link_ok ids l = (case l of None \<Rightarrow> True | Some i \<Rightarrow> i \<in> ids)"

definition links_ok :: "('v, 's) mem_row list \<Rightarrow> bool" where
  "links_ok rows \<longleftrightarrow>
     list_all (\<lambda>r. link_ok (row_ids rows) (mr_supersedes r) \<and>
                   link_ok (row_ids rows) (mr_superseded_by r)) rows"

section \<open>Reads\<close>

definition find_row :: "('v, 's) mem_db \<Rightarrow> nat \<Rightarrow> ('v, 's) mem_row option" where
  "find_row db i = List.find (\<lambda>r. mr_id r = i) (md_rows db)"

definition find_by_id :: "('v, 's) mem_db \<Rightarrow> nat \<Rightarrow> memory option" where
  "find_by_id db i = map_option memory_from_row (find_row db i)"

definition newest :: "('v, 's) mem_row list \<Rightarrow> ('v, 's) mem_row list" where
  "newest rows = sort_key (\<lambda>r. - mr_created_at r) rows"

definition find_exact :: "instant \<Rightarrow> ('v, 's) mem_db \<Rightarrow> str \<Rightarrow> str \<Rightarrow> memory option" where
  "find_exact now db namespace content =
     (case newest (filter (\<lambda>r. mr_namespace r = namespace \<and> mr_content r = Some content \<and>
                               row_live now r) (md_rows db)) of
        [] \<Rightarrow> None
      | r # _ \<Rightarrow> Some (memory_from_row r))"

definition max_chain_depth :: nat where "max_chain_depth = 64"

text \<open>\<open>CHAIN_IDS_SQL\<close>: the rows from \<open>id\<close> along \<open>superseded_by\<close>, at most \<open>depth\<close> of them.\<close>

fun chain_walk :: "nat \<Rightarrow> ('v, 's) mem_db \<Rightarrow> nat \<Rightarrow> ('v, 's) mem_row list" where
  "chain_walk 0 db i = []"
| "chain_walk (Suc depth) db i =
     (case find_row db i of
        None \<Rightarrow> []
      | Some r \<Rightarrow> r # (case mr_superseded_by r of None \<Rightarrow> [] | Some j \<Rightarrow> chain_walk depth db j))"

definition chain_ids :: "('v, 's) mem_db \<Rightarrow> nat \<Rightarrow> nat list" where
  "chain_ids db i = map mr_id (chain_walk max_chain_depth db i)"

definition supersession_head :: "('v, 's) mem_db \<Rightarrow> nat \<Rightarrow> memory option" where
  "supersession_head db i =
     (case rev (chain_walk max_chain_depth db i) of [] \<Rightarrow> None | r # _ \<Rightarrow> Some (memory_from_row r))"

record chain_link =
  li_id :: nat
  li_namespace :: str
  li_sensitivity :: sensitivity

record chain_neighbours =
  ch_row :: "(nat option \<times> nat option) option"
  ch_predecessors :: "chain_link list"
  ch_successors :: "chain_link list"

definition to_link :: "('v, 's) mem_row \<Rightarrow> chain_link" where
  "to_link r =
     \<lparr>li_id = mr_id r, li_namespace = mr_namespace r, li_sensitivity = mr_sensitivity r\<rparr>"

definition oldest :: "('v, 's) mem_row list \<Rightarrow> ('v, 's) mem_row list" where
  "oldest rows = sort_key mr_created_at (sort_key mr_id rows)"

definition chain_neighbours :: "('v, 's) mem_db \<Rightarrow> nat \<Rightarrow> chain_neighbours" where
  "chain_neighbours db i =
     (case find_row db i of
        None \<Rightarrow> \<lparr>ch_row = None, ch_predecessors = [], ch_successors = []\<rparr>
      | Some r \<Rightarrow>
          (let links = oldest (filter (\<lambda>x. mr_superseded_by x = Some i \<or> mr_supersedes x = Some i)
                                      (md_rows db))
           in \<lparr>ch_row = Some (mr_supersedes r, mr_superseded_by r),
               ch_predecessors = map to_link (filter (\<lambda>x. mr_superseded_by x = Some i) links),
               ch_successors = map to_link (filter (\<lambda>x. mr_superseded_by x \<noteq> Some i) links)\<rparr>))"

section \<open>Supersession\<close>

text \<open>What a supersession writes into the predecessor's \<open>occurred_until\<close>, and when it refuses.\<close>

definition supersession_until ::
    "instant option \<Rightarrow> instant option \<Rightarrow> instant \<Rightarrow> instant option res" where
  "supersession_until predecessor_at successor_at successor_created =
     (let until = (case successor_at of None \<Rightarrow> successor_created | Some t \<Rightarrow> t)
      in case predecessor_at of
           None \<Rightarrow> Inr (Some until)
         | Some start \<Rightarrow>
             (case successor_at of
                Some s \<Rightarrow>
                  if s < start then Inl (validation (R_Memory (M_InvertedPeriod s start)))
                  else Inr (if until > start then Some until else None)
              | None \<Rightarrow> Inr (if until > start then Some until else None)))"

text \<open>\<open>RETIRE_PREDECESSOR_SQL\<close>: its guard, and the row it writes.\<close>

definition retirable :: "instant \<Rightarrow> ('v, 's) mem_row \<Rightarrow> bool" where
  "retirable now r \<longleftrightarrow>
     mr_superseded_by r = None \<and>
     (mr_superseded_at r \<noteq> None \<or>
      (case mr_occurred_until r of None \<Rightarrow> True | Some until \<Rightarrow> until > now))"

definition coalesce :: "'a option \<Rightarrow> 'a option \<Rightarrow> 'a option" where
  "coalesce a b = (case a of None \<Rightarrow> b | Some x \<Rightarrow> Some x)"

definition retired_row ::
    "instant \<Rightarrow> nat \<Rightarrow> instant option \<Rightarrow> ('v, 's) mem_row \<Rightarrow> ('v, 's) mem_row" where
  "retired_row now new until r =
     r\<lparr>mr_superseded_by := Some new, mr_superseded_at := Some now,
       mr_occurred_until := coalesce (mr_occurred_until r) until\<rparr>"

definition hits :: "('v, 's) mem_db \<Rightarrow> (('v, 's) mem_row \<Rightarrow> bool) \<Rightarrow> nat" where
  "hits db p = length (filter p (md_rows db))"

definition update_rows ::
    "(('v, 's) mem_row \<Rightarrow> bool) \<Rightarrow> (('v, 's) mem_row \<Rightarrow> ('v, 's) mem_row) \<Rightarrow>
     ('v, 's) mem_db \<Rightarrow> ('v, 's) mem_db" where
  "update_rows p f db = db\<lparr>md_rows := update_where p f (md_rows db)\<rparr>"

definition retire_predecessor ::
    "instant \<Rightarrow> nat \<Rightarrow> nat \<Rightarrow> instant option \<Rightarrow> ('v, 's) mem_db \<Rightarrow> (nat \<times> ('v, 's) mem_db) res" where
  "retire_predecessor now old new until db =
     (let hit = (\<lambda>r. mr_id r = old \<and> retirable now r);
          db' = update_rows hit (retired_row now new until) db
      in if checks_ok (md_rows db') \<and> links_ok (md_rows db') then Inr (hits db hit, db')
         else Inl database_error)"

definition retire_moved_nothing :: "('v, 's) mem_db \<Rightarrow> nat \<Rightarrow> domain_error" where
  "retire_moved_nothing db old =
     conflict (R_Memory (M_AlreadySuperseded old
       (case supersession_head db old of None \<Rightarrow> old | Some h \<Rightarrow> m_id h)))"

definition link_successor :: "nat \<Rightarrow> nat \<Rightarrow> ('v, 's) mem_db \<Rightarrow> ('v, 's) mem_db" where
  "link_successor new old db =
     update_rows (\<lambda>r. mr_id r = new \<and> mr_supersedes r = None)
                 (\<lambda>r. r\<lparr>mr_supersedes := Some old\<rparr>) db"

definition supersede ::
    "instant \<Rightarrow> nat \<Rightarrow> nat \<Rightarrow> ('v, 's) mem_db \<Rightarrow> (bool \<times> ('v, 's) mem_db) res" where
  "supersede now old new db =
     (if old = new then Inl (validation (R_Memory M_SelfSupersede))
      else case (find_row db old, find_row db new) of
        (Some p, Some s) \<Rightarrow>
          (if mr_superseded_by p = Some new
           then Inr (mr_occurred_at p \<noteq> None \<and> mr_occurred_until p = None, db)
           else case mr_superseded_by p of
             Some nxt \<Rightarrow>
               Inl (conflict (R_Memory (M_AlreadySuperseded old
                 (case supersession_head db nxt of None \<Rightarrow> nxt | Some h \<Rightarrow> m_id h))))
           | None \<Rightarrow>
               if old \<in> set (chain_ids db new) then Inl (conflict (R_Memory (M_WouldCycle new old)))
               else and_then
                 (supersession_until (mr_occurred_at p) (mr_occurred_at s) (mr_created_at s))
                 (\<lambda>until. and_then (retire_predecessor now old new until db)
                   (\<lambda>(n, db'). if n = 0 then Inl (retire_moved_nothing db old)
                               else Inr (until = None, link_successor new old db'))))
      | _ \<Rightarrow> Inl (not_found (R_Memory M_NotFound)))"

section \<open>Insert\<close>

record 'v model_vector =
  mv_vector :: 'v
  mv_model :: str

record ('v, 's) new_memory =
  nm_id :: "nat option"
  nm_namespace :: str
  nm_content :: str
  nm_embedding :: 'v
  nm_tags :: "str list"
  nm_supersedes :: "nat option"
  nm_source_client :: str
  nm_embedding_model :: str
  nm_sensitivity :: sensitivity
  nm_sealed :: "'s option"
  nm_occurred_at :: "instant option"
  nm_slot :: vector_slot
  nm_second :: "'v model_vector option"

fun slot_ordered ::
    "vector_slot \<Rightarrow> 'a \<Rightarrow> 'a option \<Rightarrow> 'a option \<times> 'a option" where
  "slot_ordered SlotA first second = (Some first, second)"
| "slot_ordered SlotB first second = (second, Some first)"

definition slot_binds ::
    "vector_slot \<Rightarrow> 'v model_vector \<Rightarrow> 'v model_vector option \<Rightarrow>
     ('v option \<times> str option) \<times> ('v option \<times> str option)" where
  "slot_binds slot active second =
     (let split = (\<lambda>v. (map_option mv_vector v, map_option mv_model v));
          (a, b) = slot_ordered slot active second
      in (split a, split b))"

text \<open>The key a sealed row is recorded under comes from \<open>kek_state\<close>, never from the caller.\<close>

definition bound_kek :: "'s option \<Rightarrow> ('v, 's) mem_db \<Rightarrow> str option res" where
  "bound_kek sealed db =
     (case sealed of
        None \<Rightarrow> Inr None
      | Some _ \<Rightarrow>
          (case md_kek_id db of
             None \<Rightarrow> Inl (unavailable (R_Memory M_NoVerifiedKey))
           | Some k \<Rightarrow> Inr (Some k)))"

definition bound_content :: "'s option \<Rightarrow> str \<Rightarrow> str option" where
  "bound_content sealed content = (if sealed = None then Some content else None)"

definition new_row ::
    "instant \<Rightarrow> nat \<Rightarrow> str option \<Rightarrow> ('v, 's) new_memory \<Rightarrow> ('v, 's) mem_row" where
  "new_row now fresh kek m =
     (let ((va, ma), (vb, mb)) = slot_binds (nm_slot m)
            \<lparr>mv_vector = nm_embedding m, mv_model = nm_embedding_model m\<rparr> (nm_second m)
      in \<lparr>mr_id = (case nm_id m of None \<Rightarrow> fresh | Some i \<Rightarrow> i), mr_namespace = nm_namespace m,
          mr_content = bound_content (nm_sealed m) (nm_content m), mr_sealed = nm_sealed m,
          mr_kek_id = kek, mr_vec_a = va, mr_model_a = ma, mr_vec_b = vb, mr_model_b = mb,
          mr_tags = nm_tags m, mr_source_client = nm_source_client m,
          mr_sensitivity = nm_sensitivity m, mr_supersedes = nm_supersedes m,
          mr_superseded_by = None, mr_superseded_at = None, mr_occurred_at = nm_occurred_at m,
          mr_occurred_until = None, mr_access_count = 0, mr_last_accessed_at = None,
          mr_last_confirmed_at = None, mr_created_at = now\<rparr>)"

definition add_row :: "('v, 's) mem_row \<Rightarrow> ('v, 's) mem_db \<Rightarrow> ('v, 's) mem_db" where
  "add_row r db = db\<lparr>md_rows := md_rows db @ [r]\<rparr>"

definition insert_memory ::
    "instant \<Rightarrow> nat \<Rightarrow> ('v, 's) new_memory \<Rightarrow> ('v, 's) mem_db \<Rightarrow> (memory \<times> ('v, 's) mem_db) res" where
  "insert_memory now fresh m db =
     and_then (bound_kek (nm_sealed m) db) (\<lambda>kek.
       let r = new_row now fresh kek m; db1 = add_row r db
       in if find_row db (mr_id r) \<noteq> None \<or> \<not> checks_ok (md_rows db1) then Inl database_error
          else if \<not> link_ok (row_ids (md_rows db1)) (mr_supersedes r)
            then Inl (validation (R_Memory M_SupersedesMissing))
          else case nm_supersedes m of
            None \<Rightarrow> Inr (memory_from_row r, db1)
          | Some old \<Rightarrow>
              and_then (supersession_until
                  (case find_row db1 old of None \<Rightarrow> None | Some p \<Rightarrow> mr_occurred_at p)
                  (nm_occurred_at m) (mr_created_at r))
                (\<lambda>until. and_then (retire_predecessor now old (mr_id r) until db1)
                  (\<lambda>(n, db2). if n = 0 then Inl (retire_moved_nothing db old)
                              else Inr (memory_from_row r, db2))))"

section \<open>One-row updates\<close>

definition confirm_row :: "instant \<Rightarrow> nat \<Rightarrow> ('v, 's) mem_db \<Rightarrow> ('v, 's) mem_db" where
  "confirm_row now i db = update_rows (\<lambda>r. mr_id r = i) (\<lambda>r. r\<lparr>mr_last_confirmed_at := Some now\<rparr>) db"

definition expirable :: "nat \<Rightarrow> ('v, 's) mem_row \<Rightarrow> bool" where
  "expirable i r \<longleftrightarrow> mr_id r = i \<and> mr_superseded_by r = None \<and> mr_occurred_until r = None"

definition expire :: "instant \<Rightarrow> nat \<Rightarrow> ('v, 's) mem_db \<Rightarrow> (instant option \<times> ('v, 's) mem_db) res" where
  "expire now i db =
     (let db' = update_rows (expirable i) (\<lambda>r. r\<lparr>mr_occurred_until := Some now\<rparr>) db
      in if \<not> checks_ok (md_rows db') then Inl database_error
         else Inr (if hits db (expirable i) = 0 then None else Some now, db'))"

definition unexpirable :: "nat \<Rightarrow> instant \<Rightarrow> ('v, 's) mem_row \<Rightarrow> bool" where
  "unexpirable i until r \<longleftrightarrow>
     mr_id r = i \<and> mr_superseded_by r = None \<and> mr_occurred_until r = Some until"

definition unexpire :: "nat \<Rightarrow> instant \<Rightarrow> ('v, 's) mem_db \<Rightarrow> bool \<times> ('v, 's) mem_db" where
  "unexpire i until db =
     (0 < hits db (unexpirable i until),
      update_rows (unexpirable i until) (\<lambda>r. r\<lparr>mr_occurred_until := None\<rparr>) db)"

definition undated_row :: "nat \<Rightarrow> ('v, 's) mem_row \<Rightarrow> bool" where
  "undated_row i r \<longleftrightarrow> mr_id r = i \<and> mr_occurred_at r = None"

definition fill_occurred_at ::
    "nat \<Rightarrow> instant \<Rightarrow> ('v, 's) mem_db \<Rightarrow> (bool \<times> ('v, 's) mem_db) res" where
  "fill_occurred_at i t db =
     (let db' = update_rows (undated_row i) (\<lambda>r. r\<lparr>mr_occurred_at := Some t\<rparr>) db
      in if \<not> checks_ok (md_rows db') then Inl database_error
         else Inr (hits db (undated_row i) = 1, db'))"

section \<open>Delete\<close>

record delete_plan =
  dp_revive :: "nat list"
  dp_splice_to :: "nat option"

record chain_edits =
  ce_revived :: "nat list"
  ce_spliced :: "nat list"
  ce_relinked :: "nat list"

datatype delete_outcome = Missing | Deleted chain_edits

definition hit_ids :: "(('v, 's) mem_row \<Rightarrow> bool) \<Rightarrow> ('v, 's) mem_db \<Rightarrow> nat list" where
  "hit_ids p db = map mr_id (filter p (md_rows db))"

definition revivable :: "nat \<Rightarrow> nat list \<Rightarrow> ('v, 's) mem_row \<Rightarrow> bool" where
  "revivable i ids r \<longleftrightarrow> mr_superseded_by r = Some i \<and> mr_id r \<in> set ids"

definition revived_row :: "('v, 's) mem_row \<Rightarrow> ('v, 's) mem_row" where
  "revived_row r =
     r\<lparr>mr_superseded_by := None, mr_superseded_at := None, mr_occurred_until := None\<rparr>"

definition revive_step :: "nat \<Rightarrow> nat list \<Rightarrow> ('v, 's) mem_db \<Rightarrow> nat list \<times> ('v, 's) mem_db" where
  "revive_step i ids db =
     (if ids = [] then ([], db)
      else (hit_ids (revivable i ids) db, update_rows (revivable i ids) revived_row db))"

definition splice_step ::
    "nat \<Rightarrow> nat option \<Rightarrow> ('v, 's) mem_db \<Rightarrow> (nat list \<times> ('v, 's) mem_db) res" where
  "splice_step i to db =
     (case to of
        None \<Rightarrow> Inr ([], db)
      | Some s \<Rightarrow>
          (let hit = (\<lambda>r. mr_superseded_by r = Some i);
               db' = update_rows hit (\<lambda>r. r\<lparr>mr_superseded_by := Some s\<rparr>) db
           in if links_ok (md_rows db') then Inr (hit_ids hit db, db')
              else Inl (conflict (R_Memory (M_DeleteBlocked i)))))"

definition relink_step ::
    "nat \<Rightarrow> nat option \<Rightarrow> ('v, 's) mem_db \<Rightarrow> (nat list \<times> ('v, 's) mem_db) res" where
  "relink_step i own db =
     (let hit = (\<lambda>r. mr_supersedes r = Some i);
          db' = update_rows hit (\<lambda>r. r\<lparr>mr_supersedes := own\<rparr>) db
      in if links_ok (md_rows db') then Inr (hit_ids hit db, db') else Inl database_error)"

definition drop_row :: "nat \<Rightarrow> ('v, 's) mem_db \<Rightarrow> ('v, 's) mem_db" where
  "drop_row i db = db\<lparr>md_rows := filter (\<lambda>r. mr_id r \<noteq> i) (md_rows db)\<rparr>"

definition delete_memory ::
    "nat \<Rightarrow> delete_plan \<Rightarrow> ('v, 's) mem_db \<Rightarrow> (delete_outcome \<times> ('v, 's) mem_db) res" where
  "delete_memory i plan db =
     (case find_row db i of
        None \<Rightarrow> Inr (Missing, db)
      | Some doomed \<Rightarrow>
          (let (revived, db1) = revive_step i (dp_revive plan) db
           in and_then (splice_step i (dp_splice_to plan) db1) (\<lambda>(spliced, db2).
                and_then (relink_step i (mr_supersedes doomed) db2) (\<lambda>(relinked, db3).
                  if links_ok (md_rows (drop_row i db3))
                  then Inr (Deleted \<lparr>ce_revived = revived, ce_spliced = spliced,
                                     ce_relinked = relinked\<rparr>, drop_row i db3)
                  else Inl (conflict (R_Memory (M_DeleteBlocked i)))))))"

section \<open>Restore\<close>

record ('v, 's) restored =
  rs_row :: "('v, 's) mem_row"
  rs_embedding :: 'v
  rs_model :: str
  rs_slot :: vector_slot
  rs_second :: "'v model_vector option"
  rs_content :: str
  rs_sealed :: "'s option"

text \<open>\<open>rs_row\<close> holds the columns an archived row binds as they are; content, key and vector
  columns are bound as \<open>insert\<close> binds them.\<close>

definition restored_row :: "str option \<Rightarrow> ('v, 's) restored \<Rightarrow> ('v, 's) mem_row" where
  "restored_row kek m =
     (let ((va, ma), (vb, mb)) = slot_binds (rs_slot m)
            \<lparr>mv_vector = rs_embedding m, mv_model = rs_model m\<rparr> (rs_second m)
      in (rs_row m)\<lparr>mr_content := bound_content (rs_sealed m) (rs_content m),
            mr_sealed := rs_sealed m, mr_kek_id := kek, mr_vec_a := va, mr_model_a := ma,
            mr_vec_b := vb, mr_model_b := mb\<rparr>)"

definition restore_row :: "('v, 's) restored \<Rightarrow> ('v, 's) mem_db \<Rightarrow> ('v, 's) mem_db res" where
  "restore_row m db =
     and_then (bound_kek (rs_sealed m) db) (\<lambda>kek.
       let r = restored_row kek m; db' = add_row r db
       in if \<not> checks_ok (md_rows db') then Inl database_error
          else if find_row db (mr_id r) \<noteq> None then Inl (validation (R_Memory M_RestoreIdTaken))
          else if \<not> links_ok (md_rows db') then Inl (validation (R_Memory M_RestoreLinkMissing))
          else Inr db')"

definition relink_restored ::
    "nat \<Rightarrow> nat option \<Rightarrow> nat option \<Rightarrow> ('v, 's) mem_db \<Rightarrow> ('v, 's) mem_db res" where
  "relink_restored i supersedes superseded_by db =
     (if supersedes = None \<and> superseded_by = None then Inr db
      else let db' = update_rows (\<lambda>r. mr_id r = i)
                 (\<lambda>r. r\<lparr>mr_supersedes := supersedes, mr_superseded_by := superseded_by\<rparr>) db
           in if links_ok (md_rows db') then Inr db' else Inl (validation (R_Memory M_RelinkMissing)))"

section \<open>Neighbours\<close>

record 'v neighbour_query =
  nq_namespace :: str
  nq_embedding :: 'v
  nq_min_similarity :: real
  nq_limit :: nat
  nq_max_sensitivity :: sensitivity
  nq_slot :: vector_slot

fun slot_vec :: "vector_slot \<Rightarrow> ('v, 's) mem_row \<Rightarrow> 'v option" where
  "slot_vec SlotA r = mr_vec_a r"
| "slot_vec SlotB r = mr_vec_b r"

text \<open>\<open>f64::round\<close> rounds halves away from zero; \<open>round4\<close> keeps four decimals.\<close>

definition round4 :: "real \<Rightarrow> real" where
  "round4 v = (if v < 0 then - of_int \<lfloor>- v * 10000 + 1 / 2\<rfloor> else of_int \<lfloor>v * 10000 + 1 / 2\<rfloor>) / 10000"

text \<open>\<open>cos_dist\<close> is pgvector's cosine distance \<open><=>\<close>.\<close>

definition similarity :: "('v \<Rightarrow> 'v \<Rightarrow> real) \<Rightarrow> 'v neighbour_query \<Rightarrow> ('v, 's) mem_row \<Rightarrow> real" where
  "similarity cos_dist q r =
     (case slot_vec (nq_slot q) r of None \<Rightarrow> 0 | Some v \<Rightarrow> 1 - cos_dist v (nq_embedding q))"

definition is_neighbour ::
    "('v \<Rightarrow> 'v \<Rightarrow> real) \<Rightarrow> instant \<Rightarrow> 'v neighbour_query \<Rightarrow> ('v, 's) mem_row \<Rightarrow> bool" where
  "is_neighbour cos_dist now q r \<longleftrightarrow>
     mr_namespace r = nq_namespace q \<and> mr_sensitivity r \<le> nq_max_sensitivity q \<and>
     row_live now r \<and> slot_vec (nq_slot q) r \<noteq> None \<and>
     similarity cos_dist q r \<ge> nq_min_similarity q"

definition candidate_of ::
    "('v \<Rightarrow> 'v \<Rightarrow> real) \<Rightarrow> 'v neighbour_query \<Rightarrow> ('v, 's) mem_row \<Rightarrow> conflict_candidate" where
  "candidate_of cos_dist q r =
     \<lparr>cc_id = mr_id r, cc_namespace = mr_namespace r,
      cc_content = (case mr_content r of None \<Rightarrow> [] | Some c \<Rightarrow> c),
      cc_similarity = round4 (similarity cos_dist q r)\<rparr>"

definition neighbours ::
    "('v \<Rightarrow> 'v \<Rightarrow> real) \<Rightarrow> instant \<Rightarrow> ('v, 's) mem_db \<Rightarrow> 'v neighbour_query \<Rightarrow> conflict_candidate list" where
  "neighbours cos_dist now db q =
     map (candidate_of cos_dist q)
       (take (nq_limit q)
         (sort_key (\<lambda>r. - similarity cos_dist q r) (filter (is_neighbour cos_dist now q) (md_rows db))))"

section \<open>The statements as a machine\<close>

datatype ('v, 's) mem_op =
    MInsert nat "('v, 's) new_memory"
  | MSupersede nat nat
  | MConfirm nat
  | MExpire nat
  | MUnexpire nat instant
  | MFill nat instant
  | MDelete nat delete_plan

definition kept :: "('v, 's) mem_db \<Rightarrow> ('x \<times> ('v, 's) mem_db) res \<Rightarrow> ('v, 's) mem_db" where
  "kept db r = (case r of Inl _ \<Rightarrow> db | Inr (_, db') \<Rightarrow> db')"

fun mem_step :: "('v, 's) mem_db \<Rightarrow> instant \<times> ('v, 's) mem_op \<Rightarrow> ('v, 's) mem_db" where
  "mem_step db (now, MInsert fresh m) = kept db (insert_memory now fresh m db)"
| "mem_step db (now, MSupersede old new) = kept db (supersede now old new db)"
| "mem_step db (now, MConfirm i) = confirm_row now i db"
| "mem_step db (now, MExpire i) = kept db (expire now i db)"
| "mem_step db (now, MUnexpire i t) = snd (unexpire i t db)"
| "mem_step db (now, MFill i t) = kept db (fill_occurred_at i t db)"
| "mem_step db (now, MDelete i plan) = kept db (delete_memory i plan db)"

text \<open>Each row's successor, as a relation, and what the table must never hold: two rows of one
  id, a link to a missing row, a loop, a retired row with no stamp, a period that ends first.\<close>

definition succession :: "('v, 's) mem_db \<Rightarrow> (nat \<times> nat) set" where
  "succession db = {(mr_id r, j) | r j. r \<in> set (md_rows db) \<and> mr_superseded_by r = Some j}"

definition stamped :: "('v, 's) mem_db \<Rightarrow> bool" where
  "stamped db \<longleftrightarrow>
     list_all (\<lambda>r. mr_superseded_by r \<noteq> None \<longrightarrow> mr_superseded_at r \<noteq> None) (md_rows db)"

definition history_ok :: "('v, 's) mem_db \<Rightarrow> bool" where
  "history_ok db \<longleftrightarrow>
     distinct (map mr_id (md_rows db)) \<and> links_ok (md_rows db) \<and> checks_ok (md_rows db) \<and>
     stamped db \<and> acyclic (succession db)"

text \<open>A walk from \<open>i\<close> that the depth cap does not cut short.\<close>

definition walk_complete :: "('v, 's) mem_db \<Rightarrow> nat \<Rightarrow> bool" where
  "walk_complete db i \<longleftrightarrow> length (chain_walk (Suc max_chain_depth) db i) \<le> max_chain_depth"

text \<open>Which statements the services issue: the replacement of a supersession is a row whose chain
  fits the cap (they check that it is live), a splice goes to the doomed row's own successor,
  an insert takes an id that is not its own predecessor.\<close>

fun mem_admits :: "('v, 's) mem_db \<Rightarrow> instant \<times> ('v, 's) mem_op \<Rightarrow> bool" where
  "mem_admits db (now, MInsert fresh m) =
     (nm_supersedes m \<noteq> Some (case nm_id m of None \<Rightarrow> fresh | Some i \<Rightarrow> i))"
| "mem_admits db (now, MSupersede old new) = walk_complete db new"
| "mem_admits db (now, MDelete i plan) =
     (case dp_splice_to plan of
        None \<Rightarrow> True
      | Some s \<Rightarrow> (case find_row db i of None \<Rightarrow> True | Some r \<Rightarrow> mr_superseded_by r = Some s))"
| "mem_admits db (now, _) = True"

section \<open>Lemmas on the tables\<close>

lemma md_rows_simps [simp]:
  "md_rows (update_rows p f db) = update_where p f (md_rows db)"
  "md_rows (add_row r db) = md_rows db @ [r]"
  "md_rows (drop_row i db) = filter (\<lambda>r. mr_id r \<noteq> i) (md_rows db)"
  "md_kek_id (update_rows p f db) = md_kek_id db"
  by (simp_all add: update_rows_def add_row_def drop_row_def)

lemma kept_simps [simp]: "kept db (Inl e) = db" "kept db (Inr (x, db')) = db'"
  by (simp_all add: kept_def)

lemma find_row_Some: "find_row db i = Some r \<Longrightarrow> r \<in> set (md_rows db) \<and> mr_id r = i"
  unfolding find_row_def by (rule find_Some_set)

lemma find_row_None: "find_row db i = None \<longleftrightarrow> i \<notin> row_ids (md_rows db)"
  by (auto simp: find_row_def find_None_iff row_ids_def)

lemma find_row_unique:
  "distinct (map mr_id (md_rows db)) \<Longrightarrow> r \<in> set (md_rows db) \<Longrightarrow> find_row db (mr_id r) = Some r"
proof -
  assume d: "distinct (map mr_id (md_rows db))" and r: "r \<in> set (md_rows db)"
  then obtain r' where f: "find_row db (mr_id r) = Some r'"
    using find_row_None[of db "mr_id r"] by (cases "find_row db (mr_id r)") (auto simp: row_ids_def)
  from find_row_Some[OF f] d r have "r' = r" by (auto simp: distinct_map inj_on_def)
  with f show ?thesis by simp
qed

lemma map_update_same: "(\<And>r. g (f r) = g r) \<Longrightarrow> map g (update_where p f rows) = map g rows"
  by (induction rows) auto

lemma list_all_update_same:
  "(\<And>r. q (f r) = q r) \<Longrightarrow> list_all q (update_where p f rows) = list_all q rows"
  by (induction rows) auto

lemma row_ids_map: "row_ids rows = set (map mr_id rows)"
  by (simp add: row_ids_def)

lemma row_ids_update [simp]:
  "(\<And>r. mr_id (f r) = mr_id r) \<Longrightarrow> row_ids (update_where p f rows) = row_ids rows"
  by (simp add: row_ids_map map_update_same del: set_map)

lemma succession_map:
  "succession db = {(a, b). (a, Some b) \<in> set (map (\<lambda>r. (mr_id r, mr_superseded_by r)) (md_rows db))}"
  by (auto simp: succession_def)

lemma succession_mem:
  "(a, b) \<in> succession db \<longleftrightarrow> (\<exists>r \<in> set (md_rows db). mr_id r = a \<and> mr_superseded_by r = Some b)"
  by (auto simp: succession_def)

text \<open>An update that leaves the links and the id alone leaves the history alone.\<close>

lemma succession_update:
  "(\<And>r. mr_id (f r) = mr_id r) \<Longrightarrow> (\<And>r. mr_superseded_by (f r) = mr_superseded_by r) \<Longrightarrow>
     succession (update_rows p f db) = succession db"
  by (simp add: succession_map map_update_same del: set_map)

lemma links_update:
  assumes "\<And>r. mr_id (f r) = mr_id r" "\<And>r. mr_superseded_by (f r) = mr_superseded_by r"
    "\<And>r. mr_supersedes (f r) = mr_supersedes r"
  shows "links_ok (update_where p f rows) = links_ok rows"
  using assms by (simp add: links_ok_def list_all_update_same)

lemma stamped_update:
  assumes "\<And>r. mr_superseded_by (f r) = mr_superseded_by r"
    "\<And>r. mr_superseded_at (f r) = mr_superseded_at r"
  shows "stamped (update_rows p f db) = stamped db"
  using assms by (simp add: stamped_def list_all_update_same)

lemma checks_update_same:
  assumes "\<And>r. period_ok (f r) = period_ok r" "\<And>r. content_ok (f r) = content_ok r"
  shows "checks_ok (update_where p f rows) = checks_ok rows"
  using assms by (simp add: checks_ok_def list_all_update_same)

lemma history_update:
  assumes h: "history_ok db" and c: "checks_ok (update_where p f (md_rows db))"
    and f: "\<And>r. mr_id (f r) = mr_id r" "\<And>r. mr_superseded_by (f r) = mr_superseded_by r"
      "\<And>r. mr_supersedes (f r) = mr_supersedes r" "\<And>r. mr_superseded_at (f r) = mr_superseded_at r"
  shows "history_ok (update_rows p f db)"
  using h c f
  by (simp add: history_ok_def succession_update links_update stamped_update map_update_same)

section \<open>Chains\<close>

lemma chain_walk_ids: "r \<in> set (chain_walk n db i) \<Longrightarrow> r \<in> set (md_rows db)"
proof (induction n arbitrary: i)
  case (Suc n)
  then show ?case
    by (cases "find_row db i") (auto split: option.splits dest: find_row_Some)
qed simp

text \<open>A walk the cap does not cut reaches every row the chain leads to.\<close>

lemma chain_walk_reach:
  assumes d: "distinct (map mr_id (md_rows db))" and l: "links_ok (md_rows db)"
  shows "(i, j) \<in> (succession db)\<^sup>* \<Longrightarrow> i \<in> row_ids (md_rows db) \<Longrightarrow>
    length (chain_walk (Suc n) db i) \<le> n \<Longrightarrow> j \<in> set (map mr_id (chain_walk n db i))"
proof (induction n arbitrary: i)
  case 0
  then show ?case using find_row_None[of db i] by (auto split: option.splits)
next
  case (Suc n)
  obtain r where r: "find_row db i = Some r" using Suc.prems(2) find_row_None[of db i] by (cases "find_row db i") auto
  show ?case
  proof (cases "j = i")
    case True
    then show ?thesis using r find_row_Some[OF r] by simp
  next
    case False
    with Suc.prems(1) obtain k where k: "(i, k) \<in> succession db" "(k, j) \<in> (succession db)\<^sup>*"
      by (auto elim: converse_rtranclE)
    from k(1) have s: "mr_superseded_by r = Some k"
      using find_row_unique[OF d] r by (auto simp: succession_mem)
    have kid: "k \<in> row_ids (md_rows db)"
      using l s find_row_Some[OF r] by (auto simp: links_ok_def list_all_iff link_ok_def)
    have "length (chain_walk (Suc n) db k) \<le> n" using Suc.prems(3) r s by simp
    from Suc.IH[OF k(2) kid this] show ?thesis using r s by simp
  qed
qed

lemma acyclic_insert_end:
  "acyclic R \<Longrightarrow> (b, a) \<notin> R\<^sup>* \<Longrightarrow> acyclic (insert (a, b) R)"
  by (simp add: acyclic_insert)

lemma not_self_linked: "acyclic (succession db) \<Longrightarrow> (i, i) \<notin> succession db"
  by (auto simp: acyclic_def)

lemma succession_retire:
  assumes "distinct (map mr_id (md_rows db))" "find_row db old = Some p" "retirable now p"
  shows "succession (update_rows (\<lambda>r. mr_id r = old \<and> retirable now r) (retired_row now new until) db)
    = insert (old, new) (succession db)" (is "succession (update_rows ?hit ?f db) = _")
proof -
  have u: "r = p" if "r \<in> set (md_rows db)" "mr_id r = old" for r
    using find_row_unique[OF assms(1) that(1)] that(2) assms(2) by simp
  have p: "p \<in> set (md_rows db)" "mr_id p = old" using find_row_Some[OF assms(2)] by auto
  have np: "mr_superseded_by p = None" using assms(3) by (simp add: retirable_def)
  have hit: "?hit r \<longleftrightarrow> r = p" if "r \<in> set (md_rows db)" for r
    using u[OF that] p(2) assms(3) by auto
  have rows: "set (update_where ?hit ?f (md_rows db)) = insert (?f p) (set (md_rows db) - {p})"
    unfolding set_update_where using hit p(1) by (auto simp: image_iff)
  have "(a, b) \<in> succession (update_rows ?hit ?f db) \<longleftrightarrow>
      (a = old \<and> b = new) \<or> (\<exists>r \<in> set (md_rows db) - {p}. mr_id r = a \<and> mr_superseded_by r = Some b)"
    for a b
    unfolding succession_mem md_rows_simps rows using p(2) by (auto simp: retired_row_def)
  moreover have "(\<exists>r \<in> set (md_rows db) - {p}. mr_id r = a \<and> mr_superseded_by r = Some b) \<longleftrightarrow>
      (a, b) \<in> succession db" for a b
    unfolding succession_mem using np by auto
  ultimately show ?thesis by auto
qed

section \<open>What each statement does\<close>

abbreviation retire :: "instant \<Rightarrow> nat \<Rightarrow> nat \<Rightarrow> instant option \<Rightarrow> ('v, 's) mem_db \<Rightarrow> ('v, 's) mem_db" where
  "retire now old new until db \<equiv>
     update_rows (\<lambda>r. mr_id r = old \<and> retirable now r) (retired_row now new until) db"

lemma hits_0: "hits db p = 0 \<longleftrightarrow> (\<forall>r \<in> set (md_rows db). \<not> p r)"
  by (simp add: hits_def filter_empty_conv)

lemma retire_predecessor_Inr:
  assumes "retire_predecessor now old new until db = Inr (n, db')" "n \<noteq> 0"
  shows "db' = retire now old new until db"
    and "checks_ok (md_rows db')" and "links_ok (md_rows db')"
    and "\<exists>r \<in> set (md_rows db). mr_id r = old \<and> retirable now r"
  using assms hits_0[of db "\<lambda>r. mr_id r = old \<and> retirable now r"]
  by (auto simp: retire_predecessor_def Let_def split: if_splits)

lemma supersede_Inr:
  assumes s: "supersede now old new db = Inr (left_open, db')"
    and d: "distinct (map mr_id (md_rows db))"
  obtains (linked) p where "find_row db old = Some p" "mr_superseded_by p = Some new" "db' = db"
    | (retired) p s until where "find_row db old = Some p" "find_row db new = Some s" "old \<noteq> new"
        "retirable now p" "old \<notin> set (chain_ids db new)"
        "supersession_until (mr_occurred_at p) (mr_occurred_at s) (mr_created_at s) = Inr until"
        "left_open = (until = None)" "checks_ok (md_rows (retire now old new until db))"
        "links_ok (md_rows (retire now old new until db))"
        "db' = link_successor new old (retire now old new until db)"
proof -
  from s obtain p sc where f: "find_row db old = Some p" "find_row db new = Some sc" and ne: "old \<noteq> new"
    by (auto simp: supersede_def split: if_splits option.splits)
  show thesis
  proof (cases "mr_superseded_by p = Some new")
    case True
    then show thesis using s f ne by (intro linked[of p]) (auto simp: supersede_def)
  next
    case False
    with s f ne have np: "mr_superseded_by p = None" and nc: "old \<notin> set (chain_ids db new)"
      by (auto simp: supersede_def split: option.splits if_splits)
    from s f ne False np nc obtain until n db1 where
      u: "supersession_until (mr_occurred_at p) (mr_occurred_at sc) (mr_created_at sc) = Inr until"
      and r: "retire_predecessor now old new until db = Inr (n, db1)" and n: "n \<noteq> 0"
      and o: "left_open = (until = None)" and db': "db' = link_successor new old db1"
      by (auto simp: supersede_def and_then_Inr split: if_splits)
    note R = retire_predecessor_Inr[OF r n]
    from R(4) obtain q where q: "q \<in> set (md_rows db)" "mr_id q = old" "retirable now q" by blast
    have "q = p" using find_row_unique[OF d q(1)] q(2) f(1) by simp
    with q(3) R(1-3) db' show thesis by (intro retired[OF f ne _ nc u o]) auto
  qed
qed

lemma insert_memory_Inr:
  assumes i: "insert_memory now fresh m db = Inr (row, db')"
  obtains kek r where "bound_kek (nm_sealed m) db = Inr kek" "r = new_row now fresh kek m"
    "row = memory_from_row r" "find_row db (mr_id r) = None" "checks_ok (md_rows (add_row r db))"
    "link_ok (row_ids (md_rows (add_row r db))) (nm_supersedes m)"
    "nm_supersedes m = None \<and> db' = add_row r db \<or>
     (\<exists>old until. nm_supersedes m = Some old \<and>
        supersession_until
          (case find_row (add_row r db) old of None \<Rightarrow> None | Some p \<Rightarrow> mr_occurred_at p)
          (nm_occurred_at m) now = Inr until \<and>
        db' = retire now old (mr_id r) until (add_row r db) \<and>
        checks_ok (md_rows db') \<and> links_ok (md_rows db') \<and>
        (\<exists>q \<in> set (md_rows (add_row r db)). mr_id q = old \<and> retirable now q))"
proof -
  from i obtain kek where k: "bound_kek (nm_sealed m) db = Inr kek"
    by (auto simp: insert_memory_def and_then_Inr)
  define r where "r = new_row now fresh kek m"
  have rs: "mr_supersedes r = nm_supersedes m" "mr_created_at r = now"
    by (simp_all add: r_def new_row_def split: prod.splits)
  from i k have f: "find_row db (mr_id r) = None" "checks_ok (md_rows (add_row r db))"
      "link_ok (row_ids (md_rows (add_row r db))) (nm_supersedes m)"
    by (auto simp: insert_memory_def Let_def rs r_def[symmetric] split: if_splits)
  show thesis
  proof (cases "nm_supersedes m")
    case None
    with i k f have "row = memory_from_row r" "db' = add_row r db"
      by (auto simp: insert_memory_def Let_def rs r_def[symmetric])
    with None show thesis by (intro that[OF k r_def _ f]) auto
  next
    case (Some old)
    with i k f rs obtain until n db2 where
      u: "supersession_until
          (case find_row (add_row r db) old of None \<Rightarrow> None | Some p \<Rightarrow> mr_occurred_at p)
          (nm_occurred_at m) now = Inr until"
      and rp: "retire_predecessor now old (mr_id r) until (add_row r db) = Inr (n, db2)"
      and n: "n \<noteq> 0" and out: "row = memory_from_row r" "db' = db2"
      by (auto simp: insert_memory_def Let_def r_def[symmetric] and_then_Inr split: if_splits)
    note R = retire_predecessor_Inr[OF rp n]
    show thesis using Some u R out by (intro that[OF k r_def _ f]) auto
  qed
qed

text \<open>The three edits a delete makes to each remaining row, in one.\<close>

definition relinked_row :: "nat \<Rightarrow> nat option \<Rightarrow> ('v, 's) mem_row \<Rightarrow> ('v, 's) mem_row" where
  "relinked_row i own r = (if mr_supersedes r = Some i then r\<lparr>mr_supersedes := own\<rparr> else r)"

definition chain_edit :: "nat \<Rightarrow> delete_plan \<Rightarrow> nat option \<Rightarrow> ('v, 's) mem_row \<Rightarrow> ('v, 's) mem_row" where
  "chain_edit i plan own r =
     relinked_row i own
       (if mr_superseded_by r = Some i then
          (if mr_id r \<in> set (dp_revive plan) then revived_row r
           else case dp_splice_to plan of None \<Rightarrow> r | Some s \<Rightarrow> r\<lparr>mr_superseded_by := Some s\<rparr>)
        else r)"

lemma revived_row_simps [simp]:
  "mr_id (revived_row r) = mr_id r" "mr_superseded_by (revived_row r) = None"
  "mr_supersedes (revived_row r) = mr_supersedes r" "mr_superseded_at (revived_row r) = None"
  "mr_occurred_until (revived_row r) = None"
  by (simp_all add: revived_row_def)

lemma retired_row_simps [simp]:
  "mr_id (retired_row now new until r) = mr_id r"
  "mr_superseded_by (retired_row now new until r) = Some new"
  "mr_superseded_at (retired_row now new until r) = Some now"
  "mr_supersedes (retired_row now new until r) = mr_supersedes r"
  "mr_occurred_at (retired_row now new until r) = mr_occurred_at r"
  by (simp_all add: retired_row_def)

lemma relinked_row_simps [simp]:
  "mr_id (relinked_row i own r) = mr_id r"
  "mr_superseded_by (relinked_row i own r) = mr_superseded_by r"
  "mr_superseded_at (relinked_row i own r) = mr_superseded_at r"
  "mr_occurred_until (relinked_row i own r) = mr_occurred_until r"
  "period_ok (relinked_row i own r) = period_ok r" "content_ok (relinked_row i own r) = content_ok r"
  by (simp_all add: relinked_row_def period_ok_def content_ok_def split: option.splits)

lemma chain_edit_id [simp]: "mr_id (chain_edit i plan own r) = mr_id r"
  by (simp add: chain_edit_def split: option.splits)

lemma update_where_map: "update_where p f rows = map (\<lambda>r. if p r then f r else r) rows"
  by (simp add: update_where_def)

lemma edits_compose:
  "map (chain_edit i plan own) rows =
     update_where (\<lambda>r. mr_supersedes r = Some i) (\<lambda>r. r\<lparr>mr_supersedes := own\<rparr>)
       ((case dp_splice_to plan of None \<Rightarrow> (\<lambda>rows. rows)
         | Some s \<Rightarrow> update_where (\<lambda>r. mr_superseded_by r = Some i) (\<lambda>r. r\<lparr>mr_superseded_by := Some s\<rparr>))
        (if dp_revive plan = [] then rows
         else update_where (revivable i (dp_revive plan)) revived_row rows))"
  by (cases "dp_splice_to plan"; induction rows)
     (auto simp: chain_edit_def relinked_row_def revivable_def)

lemma delete_memory_Inr:
  assumes "delete_memory i plan db = Inr (out, db')"
  obtains (missing) "find_row db i = None" "out = Missing" "db' = db"
    | (deleted) doomed e where "find_row db i = Some doomed" "out = Deleted e"
        "md_rows db' = filter (\<lambda>r. mr_id r \<noteq> i) (map (chain_edit i plan (mr_supersedes doomed)) (md_rows db))"
        "links_ok (md_rows db')" "ce_revived e = hit_ids (revivable i (dp_revive plan)) db"
proof (cases "find_row db i")
  case None
  then show thesis using assms by (intro missing) (auto simp: delete_memory_def)
next
  case (Some doomed)
  let ?own = "mr_supersedes doomed"
  define db1 where "db1 = snd (revive_step i (dp_revive plan) db)"
  have r1: "md_rows db1 = (if dp_revive plan = [] then md_rows db
      else update_where (revivable i (dp_revive plan)) revived_row (md_rows db))"
    by (simp add: db1_def revive_step_def)
  obtain rv where rv: "revive_step i (dp_revive plan) db = (rv, db1)"
    by (cases "revive_step i (dp_revive plan) db") (simp add: db1_def)
  from assms Some rv obtain spl db2 rel db3 where
    s: "splice_step i (dp_splice_to plan) db1 = Inr (spl, db2)"
    and l: "relink_step i ?own db2 = Inr (rel, db3)"
    and k: "links_ok (md_rows (drop_row i db3))" and db': "db' = drop_row i db3"
    and o: "out = Deleted \<lparr>ce_revived = rv, ce_spliced = spl, ce_relinked = rel\<rparr>"
    by (auto simp: delete_memory_def and_then_Inr split: if_splits)
  have r2: "md_rows db2 = (case dp_splice_to plan of None \<Rightarrow> (\<lambda>rows. rows)
         | Some s \<Rightarrow> update_where (\<lambda>r. mr_superseded_by r = Some i)
                       (\<lambda>r. r\<lparr>mr_superseded_by := Some s\<rparr>)) (md_rows db1)"
    using s by (auto simp: splice_step_def Let_def split: option.splits if_splits)
  have "md_rows db3 = update_where (\<lambda>r. mr_supersedes r = Some i) (\<lambda>r. r\<lparr>mr_supersedes := ?own\<rparr>) (md_rows db2)"
    using l by (auto simp: relink_step_def Let_def split: if_splits)
  then have "md_rows db3 = map (chain_edit i plan ?own) (md_rows db)"
    unfolding r2 r1 edits_compose by simp
  moreover have "rv = hit_ids (revivable i (dp_revive plan)) db"
    using rv by (auto simp: revive_step_def hit_ids_def revivable_def split: if_splits)
  ultimately show thesis using k db' o by (intro deleted[OF Some]) auto
qed

section \<open>The history invariant\<close>

lemma history_confirm: "history_ok db \<Longrightarrow> history_ok (confirm_row now i db)"
  unfolding confirm_row_def
  by (rule history_update) (auto simp: history_ok_def checks_update_same period_ok_def content_ok_def)

lemma history_expire: "history_ok db \<Longrightarrow> history_ok (kept db (expire now i db))"
  unfolding expire_def by (auto simp: Let_def intro!: history_update split: if_splits)

lemma history_fill: "history_ok db \<Longrightarrow> history_ok (kept db (fill_occurred_at i t db))"
  unfolding fill_occurred_at_def by (auto simp: Let_def intro!: history_update split: if_splits)

lemma checks_update:
  assumes "checks_ok rows" "\<And>r. content_ok (f r) = content_ok r" "\<And>r. period_ok r \<Longrightarrow> period_ok (f r)"
  shows "checks_ok (update_where p f rows)"
  using assms unfolding checks_ok_def by (intro list_all_update) auto

lemma history_unexpire: "history_ok db \<Longrightarrow> history_ok (snd (unexpire i t db))"
  unfolding unexpire_def snd_conv
  by (rule history_update)
     (auto simp: history_ok_def period_ok_def content_ok_def split: option.splits intro!: checks_update)

lemma history_link_successor:
  assumes "history_ok db" "old \<in> row_ids (md_rows db)"
  shows "history_ok (link_successor new old db)"
proof -
  have "links_ok (md_rows (link_successor new old db))"
    using assms unfolding link_successor_def md_rows_simps history_ok_def links_ok_def
    by (auto intro!: list_all_update simp: link_ok_def)
  moreover have "checks_ok (md_rows (link_successor new old db))"
    using assms(1) unfolding link_successor_def md_rows_simps history_ok_def
    by (simp add: checks_update_same period_ok_def content_ok_def)
  moreover have "succession (link_successor new old db) = succession db"
    unfolding link_successor_def by (rule succession_update) auto
  moreover have "stamped (link_successor new old db) = stamped db"
    unfolding link_successor_def by (rule stamped_update) auto
  moreover have "map mr_id (md_rows (link_successor new old db)) = map mr_id (md_rows db)"
    by (simp add: link_successor_def map_update_same)
  ultimately show ?thesis using assms(1) unfolding history_ok_def by metis
qed

lemma history_retire:
  assumes h: "history_ok db" and p: "find_row db old = Some p" "retirable now p"
    and c: "checks_ok (md_rows (retire now old new until db))"
    and l: "links_ok (md_rows (retire now old new until db))"
    and cyc: "(new, old) \<notin> (succession db)\<^sup>*"
  shows "history_ok (retire now old new until db)"
proof -
  have d: "distinct (map mr_id (md_rows db))" and a: "acyclic (succession db)" and st: "stamped db"
    using h by (auto simp: history_ok_def)
  have "stamped (retire now old new until db)"
    using st unfolding stamped_def md_rows_simps by (intro list_all_update) auto
  then show ?thesis
    using d c l acyclic_insert_end[OF a cyc] unfolding history_ok_def
    by (simp add: succession_retire[OF d p] map_update_same)
qed

lemma walk_complete_reach:
  assumes h: "history_ok db" and w: "walk_complete db i" and n: "j \<notin> set (chain_ids db i)"
    and i: "i \<in> row_ids (md_rows db)"
  shows "(i, j) \<notin> (succession db)\<^sup>*"
  using h w n i chain_walk_reach[of db i j max_chain_depth]
  unfolding history_ok_def walk_complete_def chain_ids_def by blast

lemma history_supersede:
  assumes h: "history_ok db" and w: "walk_complete db new"
  shows "history_ok (kept db (supersede now old new db))"
proof (cases "supersede now old new db")
  case (Inr out)
  obtain left_open db' where o: "out = (left_open, db')" by (cases out) auto
  have d: "distinct (map mr_id (md_rows db))" using h by (simp add: history_ok_def)
  from Inr[unfolded o] d show ?thesis
  proof (cases rule: supersede_Inr)
    case (linked p)
    then show ?thesis using h Inr o by simp
  next
    case (retired p s until)
    have n: "new \<in> row_ids (md_rows db)" and q: "old \<in> row_ids (md_rows db)"
      using find_row_Some[OF retired(2)] find_row_Some[OF retired(1)] by (auto simp: row_ids_def)
    have "history_ok (retire now old new until db)"
      by (rule history_retire[OF h retired(1,4,8,9) walk_complete_reach[OF h w retired(5) n]])
    then have "history_ok db'" unfolding retired(10) using q by (intro history_link_successor) auto
    then show ?thesis using Inr o by simp
  qed
qed (simp add: h)

lemma find_append: "List.find p (xs @ ys) = (case List.find p xs of Some x \<Rightarrow> Some x | None \<Rightarrow> List.find p ys)"
  by (induction xs) auto

lemma find_row_add: "find_row (add_row r db) i =
    (case find_row db i of Some x \<Rightarrow> Some x | None \<Rightarrow> if mr_id r = i then Some r else None)"
  unfolding find_row_def md_rows_simps by (simp add: find_append split: option.splits)

lemma new_row_simps [simp]:
  "mr_superseded_by (new_row now fresh kek m) = None"
  "mr_superseded_at (new_row now fresh kek m) = None"
  "mr_occurred_until (new_row now fresh kek m) = None"
  "mr_occurred_at (new_row now fresh kek m) = nm_occurred_at m"
  "mr_created_at (new_row now fresh kek m) = now"
  "mr_supersedes (new_row now fresh kek m) = nm_supersedes m"
  "mr_id (new_row now fresh kek m) = (case nm_id m of None \<Rightarrow> fresh | Some i \<Rightarrow> i)"
  "mr_content (new_row now fresh kek m) = bound_content (nm_sealed m) (nm_content m)"
  "mr_sealed (new_row now fresh kek m) = nm_sealed m" "mr_kek_id (new_row now fresh kek m) = kek"
  "mr_namespace (new_row now fresh kek m) = nm_namespace m"
  "mr_sensitivity (new_row now fresh kek m) = nm_sensitivity m"
  by (simp_all add: new_row_def split: prod.splits)

lemma succession_add: "mr_superseded_by r = None \<Longrightarrow> succession (add_row r db) = succession db"
  by (auto simp: succession_def)

lemma history_add:
  assumes h: "history_ok db" and f: "find_row db (mr_id r) = None" and c: "checks_ok (md_rows (add_row r db))"
    and l: "link_ok (row_ids (md_rows (add_row r db))) (mr_supersedes r)" and b: "mr_superseded_by r = None"
  shows "history_ok (add_row r db)"
proof -
  have "links_ok (md_rows (add_row r db))"
    using h l b by (auto simp: history_ok_def links_ok_def list_all_iff link_ok_def row_ids_def split: option.splits)
  then show ?thesis using h f c b succession_add[OF b, of db]
    by (simp add: history_ok_def stamped_def find_row_None row_ids_def)
qed

lemma history_insert:
  assumes h: "history_ok db" and ok: "mem_admits db (now, MInsert fresh m)"
  shows "history_ok (kept db (insert_memory now fresh m db))"
proof (cases "insert_memory now fresh m db")
  case (Inr out)
  obtain row db' where o: "out = (row, db')" by (cases out) auto
  show ?thesis using Inr[unfolded o]
  proof (rule insert_memory_Inr)
    fix kek r
    assume r: "r = new_row now fresh kek m" and fr: "find_row db (mr_id r) = None"
      and ck: "checks_ok (md_rows (add_row r db))"
      and lk: "link_ok (row_ids (md_rows (add_row r db))) (nm_supersedes m)"
      and alt: "nm_supersedes m = None \<and> db' = add_row r db \<or>
        (\<exists>old until. nm_supersedes m = Some old \<and>
          supersession_until
            (case find_row (add_row r db) old of None \<Rightarrow> None | Some p \<Rightarrow> mr_occurred_at p)
            (nm_occurred_at m) now = Inr until \<and>
          db' = retire now old (mr_id r) until (add_row r db) \<and>
          checks_ok (md_rows db') \<and> links_ok (md_rows db') \<and>
          (\<exists>q \<in> set (md_rows (add_row r db)). mr_id q = old \<and> retirable now q))"
    have a: "history_ok (add_row r db)" using lk by (intro history_add[OF h fr ck]) (simp_all add: r)
    from alt have "history_ok db'"
    proof (elim disjE exE conjE bexE)
      fix old until q
      assume s: "nm_supersedes m = Some old" and db': "db' = retire now old (mr_id r) until (add_row r db)"
        and ckl: "checks_ok (md_rows db')" "links_ok (md_rows db')"
        and q: "q \<in> set (md_rows (add_row r db))" "mr_id q = old" "retirable now q"
      have f: "find_row (add_row r db) old = Some q"
        using find_row_unique[of "add_row r db" q] a q by (auto simp: history_ok_def)
      have ne: "old \<noteq> mr_id r" using ok s by (auto simp: r)
      have "mr_superseded_by r = None" by (simp add: r)
      then have "(mr_id r, x) \<notin> succession (add_row r db)" for x
        using fr find_row_None[of db "mr_id r"] by (auto simp: succession_mem row_ids_def image_iff)
      then have "(mr_id r, old) \<notin> (succession (add_row r db))\<^sup>*"
        using ne by (auto elim: converse_rtranclE)
      from history_retire[OF a f q(3) _ _ this] ckl show "history_ok db'" unfolding db' by blast
    qed (simp add: a)
    then show ?thesis using Inr o by simp
  qed
qed (simp add: h)

lemma acyclic_within: "acyclic R \<Longrightarrow> S \<subseteq> R\<^sup>+ \<Longrightarrow> acyclic S"
proof (rule ccontr)
  assume a: "acyclic R" and s: "S \<subseteq> R\<^sup>+" and "\<not> acyclic S"
  then obtain x where "(x, x) \<in> S\<^sup>+" by (auto simp: acyclic_def)
  from trancl_mono[OF this(1) s] have "(x, x) \<in> R\<^sup>+" by (simp add: trancl_id)
  then show False using a by (simp add: acyclic_def)
qed

lemma chain_edit_by:
  "mr_superseded_by (chain_edit i plan own r) = Some j \<Longrightarrow>
     mr_superseded_by r = Some j \<or> (mr_superseded_by r = Some i \<and> dp_splice_to plan = Some j)"
  by (auto simp: chain_edit_def split: if_splits option.splits)

lemma chain_edit_stamped:
  "(mr_superseded_by r \<noteq> None \<longrightarrow> mr_superseded_at r \<noteq> None) \<Longrightarrow>
   mr_superseded_by (chain_edit i plan own r) \<noteq> None \<longrightarrow> mr_superseded_at (chain_edit i plan own r) \<noteq> None"
  by (auto simp: chain_edit_def split: option.splits)

lemma chain_edit_checks:
  "period_ok r \<and> content_ok r \<Longrightarrow> period_ok (chain_edit i plan own r) \<and> content_ok (chain_edit i plan own r)"
  by (auto simp: chain_edit_def period_ok_def content_ok_def revived_row_def relinked_row_def split: option.splits)

lemma history_delete:
  assumes h: "history_ok db" and ok: "mem_admits db (now, MDelete i plan)"
  shows "history_ok (kept db (delete_memory i plan db))"
proof (cases "delete_memory i plan db")
  case (Inr res)
  obtain out db' where o: "res = (out, db')" by (cases res) auto
  from Inr[unfolded o] show ?thesis
  proof (cases rule: delete_memory_Inr)
    case missing
    then show ?thesis using h Inr o by simp
  next
    case (deleted doomed e)
    let ?ed = "chain_edit i plan (mr_supersedes doomed)"
    have rows: "set (md_rows db') = ?ed ` {r \<in> set (md_rows db). mr_id r \<noteq> i}"
      unfolding deleted(3) by auto
    have "succession db' \<subseteq> (succession db)\<^sup>+"
    proof (rule subrelI)
      fix a b assume "(a, b) \<in> succession db'"
      then obtain r where r: "r \<in> set (md_rows db)" "mr_id r = a" "mr_superseded_by (?ed r) = Some b"
        unfolding succession_mem rows by auto
      from chain_edit_by[OF r(3)] show "(a, b) \<in> (succession db)\<^sup>+"
      proof (elim disjE conjE)
        assume "mr_superseded_by r = Some b"
        then show ?thesis using r by (auto simp: succession_mem intro!: r_into_trancl)
      next
        assume s: "mr_superseded_by r = Some i" "dp_splice_to plan = Some b"
        then have "(a, i) \<in> succession db" using r by (auto simp: succession_mem)
        moreover have "(i, b) \<in> succession db"
          using ok s(2) deleted(1) find_row_Some[OF deleted(1)] by (auto simp: succession_mem)
        ultimately show ?thesis by (meson r_into_trancl trancl_into_trancl)
      qed
    qed
    then have "acyclic (succession db')"
      using h unfolding history_ok_def by (blast intro: acyclic_within)
    moreover have "stamped db'" "checks_ok (md_rows db')"
      using h chain_edit_stamped chain_edit_checks
      unfolding stamped_def checks_ok_def list_all_iff rows history_ok_def by blast+
    moreover have "distinct (map mr_id (md_rows db'))"
      using h unfolding deleted(3) history_ok_def
      by (simp add: filter_map o_def distinct_map inj_on_def)
    ultimately have "history_ok db'" using deleted(4) by (simp add: history_ok_def)
    then show ?thesis using Inr o by simp
  qed
qed (simp add: h)

interpretation history: guarded_machine mem_step mem_admits history_ok
proof
  fix db :: "('v, 's) mem_db" and e
  assume h: "history_ok db" and ok: "mem_admits db e"
  obtain now oper where e: "e = (now, oper)" by (cases e)
  show "history_ok (mem_step db e)"
    using h ok unfolding e
    by (cases oper)
       (auto intro: history_insert history_supersede history_confirm history_expire history_unexpire
          history_fill history_delete simp del: mem_admits.simps(1,3))
qed

section \<open>The abstract view: which facts are current\<close>

text \<open>
  What the store promises, without links, stamps or periods: a set of current facts that a write
  extends, a correction replaces one of, a supersession takes one from and a delete takes one
  from and may give back the ones it had replaced.
\<close>

datatype head_op = Add nat | Replace nat nat | Retire nat | Drop nat "nat list" | Stay

fun heads_step :: "nat set \<Rightarrow> head_op \<Rightarrow> nat set" where
  "heads_step H (Add i) = insert i H"
| "heads_step H (Replace old i) = insert i (H - {old})"
| "heads_step H (Retire old) = H - {old}"
| "heads_step H (Drop i back) = (H - {i}) \<union> set back"
| "heads_step H Stay = H"

definition heads :: "('v, 's) mem_db \<Rightarrow> nat set" where
  "heads db = mr_id ` {r \<in> set (md_rows db). mr_superseded_by r = None}"

text \<open>The abstract operation a statement performed, read off its answer.\<close>

fun head_op_of :: "('v, 's) mem_db \<Rightarrow> instant \<times> ('v, 's) mem_op \<Rightarrow> head_op" where
  "head_op_of db (now, MInsert fresh m) =
     (case insert_memory now fresh m db of
        Inl _ \<Rightarrow> Stay
      | Inr (row, _) \<Rightarrow>
          (case nm_supersedes m of None \<Rightarrow> Add (m_id row) | Some old \<Rightarrow> Replace old (m_id row)))"
| "head_op_of db (now, MSupersede old new) =
     (case supersede now old new db of Inl _ \<Rightarrow> Stay | Inr _ \<Rightarrow> Retire old)"
| "head_op_of db (now, MDelete i plan) =
     (case delete_memory i plan db of
        Inr (Deleted e, _) \<Rightarrow> Drop i (ce_revived e)
      | _ \<Rightarrow> Stay)"
| "head_op_of db (now, _) = Stay"

lemma heads_mem: "i \<in> heads db \<longleftrightarrow> (\<exists>r \<in> set (md_rows db). mr_id r = i \<and> mr_superseded_by r = None)"
  by (auto simp: heads_def)

lemma heads_map: "heads db = {i. (i, None) \<in> set (map (\<lambda>r. (mr_id r, mr_superseded_by r)) (md_rows db))}"
  by (auto simp: heads_def)

lemma heads_succession: "heads db = row_ids (md_rows db) - Domain (succession db)"
  if "distinct (map mr_id (md_rows db))"
proof -
  have "i \<in> heads db \<longleftrightarrow> i \<in> row_ids (md_rows db) \<and> i \<notin> Domain (succession db)" for i
  proof (cases "find_row db i")
    case None
    then show ?thesis using find_row_None[of db i] by (auto simp: heads_mem row_ids_def)
  next
    case (Some r)
    have u: "q = r" if "q \<in> set (md_rows db)" "mr_id q = i" for q
      using find_row_unique[OF \<open>distinct _\<close> that(1)] that(2) Some by simp
    have r: "r \<in> set (md_rows db)" "mr_id r = i" using find_row_Some[OF Some] by auto
    have "i \<in> heads db \<longleftrightarrow> mr_superseded_by r = None" unfolding heads_mem using u r by blast
    moreover have "i \<in> Domain (succession db) \<longleftrightarrow> mr_superseded_by r \<noteq> None"
      unfolding Domain_iff succession_mem using u r by blast
    moreover have "i \<in> row_ids (md_rows db)" using r by (auto simp: row_ids_def)
    ultimately show ?thesis by blast
  qed
  then show ?thesis by auto
qed

lemma heads_update:
  "(\<And>r. mr_id (f r) = mr_id r) \<Longrightarrow> (\<And>r. mr_superseded_by (f r) = mr_superseded_by r) \<Longrightarrow>
     heads (update_rows p f db) = heads db"
  by (simp add: heads_map map_update_same del: set_map)

lemma heads_retire:
  assumes d: "distinct (map mr_id (md_rows db))" and p: "find_row db old = Some p" "retirable now p"
  shows "heads (retire now old new until db) = heads db - {old}"
proof -
  have d': "distinct (map mr_id (md_rows (retire now old new until db)))"
    using d by (simp add: map_update_same)
  show ?thesis
    unfolding heads_succession[OF d'] heads_succession[OF d] succession_retire[OF d p] by auto
qed

lemma heads_link: "heads (link_successor new old db) = heads db"
  unfolding link_successor_def by (rule heads_update) auto

lemma heads_supersede:
  assumes h: "history_ok db"
  shows "heads (mem_step db (now, MSupersede old new)) = heads_step (heads db) (head_op_of db (now, MSupersede old new))"
proof (cases "supersede now old new db")
  case (Inr out)
  obtain left_open db' where o: "out = (left_open, db')" by (cases out) auto
  have d: "distinct (map mr_id (md_rows db))" using h by (simp add: history_ok_def)
  from Inr[unfolded o] d have "heads db' = heads db - {old}"
  proof (cases rule: supersede_Inr)
    case (linked p)
    then have "old \<notin> heads db"
      using find_row_unique[OF d] by (fastforce simp: heads_mem)
    then show ?thesis using linked by simp
  next
    case (retired p s until)
    then show ?thesis by (simp add: heads_link heads_retire[OF d])
  qed
  then show ?thesis using Inr o by simp
qed simp

lemma heads_add: "mr_superseded_by r = None \<Longrightarrow> heads (add_row r db) = insert (mr_id r) (heads db)"
  by (auto simp: heads_def)

lemma heads_insert:
  assumes h: "history_ok db" and ok: "mem_admits db (now, MInsert fresh m)"
  shows "heads (mem_step db (now, MInsert fresh m)) = heads_step (heads db) (head_op_of db (now, MInsert fresh m))"
proof (cases "insert_memory now fresh m db")
  case (Inr out)
  obtain row db' where o: "out = (row, db')" by (cases out) auto
  show ?thesis using Inr[unfolded o]
  proof (rule insert_memory_Inr)
    fix kek r
    assume r: "r = new_row now fresh kek m" "row = memory_from_row r" and fr: "find_row db (mr_id r) = None"
      and alt: "nm_supersedes m = None \<and> db' = add_row r db \<or>
        (\<exists>old until. nm_supersedes m = Some old \<and>
          supersession_until
            (case find_row (add_row r db) old of None \<Rightarrow> None | Some p \<Rightarrow> mr_occurred_at p)
            (nm_occurred_at m) now = Inr until \<and>
          db' = retire now old (mr_id r) until (add_row r db) \<and>
          checks_ok (md_rows db') \<and> links_ok (md_rows db') \<and>
          (\<exists>q \<in> set (md_rows (add_row r db)). mr_id q = old \<and> retirable now q))"
    have b: "mr_superseded_by r = None" by (simp add: r)
    have i: "m_id row = mr_id r" by (simp add: r(2) memory_from_row_def)
    have d: "distinct (map mr_id (md_rows (add_row r db)))"
      using h fr by (simp add: history_ok_def find_row_None row_ids_def)
    from alt show ?thesis
    proof (elim disjE exE conjE bexE)
      assume "nm_supersedes m = None" "db' = add_row r db"
      then show ?thesis using Inr o i heads_add[OF b] by simp
    next
      fix old until q
      assume s: "nm_supersedes m = Some old" and db': "db' = retire now old (mr_id r) until (add_row r db)"
        and q: "q \<in> set (md_rows (add_row r db))" "mr_id q = old" "retirable now q"
      have f: "find_row (add_row r db) old = Some q"
        using find_row_unique[OF d q(1)] q(2) by simp
      have "old \<noteq> mr_id r" using ok s by (auto simp: r(1))
      then have "heads db' = insert (mr_id r) (heads db - {old})"
        unfolding db' heads_retire[OF d f q(3)] heads_add[OF b] by auto
      then show ?thesis using Inr o i s by simp
    qed
  qed
qed simp

lemma heads_delete:
  assumes h: "history_ok db"
  shows "heads (mem_step db (now, MDelete i plan)) = heads_step (heads db) (head_op_of db (now, MDelete i plan))"
proof (cases "delete_memory i plan db")
  case (Inr res)
  obtain out db' where o: "res = (out, db')" by (cases res) auto
  from Inr[unfolded o] show ?thesis
  proof (cases rule: delete_memory_Inr)
    case missing
    then show ?thesis using Inr o by simp
  next
    case (deleted doomed e)
    let ?ed = "chain_edit i plan (mr_supersedes doomed)"
    have rows: "set (md_rows db') = ?ed ` {r \<in> set (md_rows db). mr_id r \<noteq> i}"
      unfolding deleted(3) by auto
    have ns: "mr_id r \<noteq> i" if "r \<in> set (md_rows db)" "mr_superseded_by r = Some i" for r
      using h that not_self_linked[of db i] by (auto simp: history_ok_def succession_mem)
    have ni: "mr_superseded_by (?ed r) \<noteq> Some i" if "r \<in> set (md_rows db)" "mr_id r \<noteq> i" for r
    proof -
      have "?ed r \<in> set (md_rows db')" using that unfolding rows by blast
      then have "link_ok (row_ids (md_rows db')) (mr_superseded_by (?ed r))"
        using deleted(4) unfolding links_ok_def list_all_iff by blast
      moreover have "i \<notin> row_ids (md_rows db')" by (auto simp: deleted(3) row_ids_def)
      ultimately show ?thesis by (auto simp: link_ok_def)
    qed
    have edit: "mr_superseded_by (?ed r) = None \<longleftrightarrow>
        mr_superseded_by r = None \<or> revivable i (dp_revive plan) r" if "r \<in> set (md_rows db)" "mr_id r \<noteq> i" for r
      using ni[OF that] by (auto simp: chain_edit_def revivable_def split: option.splits if_splits)
    have "j \<in> heads db' \<longleftrightarrow> j \<in> (heads db - {i}) \<union> set (ce_revived e)" for j
    proof -
      have "j \<in> heads db' \<longleftrightarrow> (\<exists>r \<in> set (md_rows db). mr_id r \<noteq> i \<and> mr_id r = j \<and>
          (mr_superseded_by r = None \<or> revivable i (dp_revive plan) r))"
        unfolding heads_mem rows using edit by auto
      moreover have "j \<in> heads db - {i} \<longleftrightarrow>
          (\<exists>r \<in> set (md_rows db). mr_id r \<noteq> i \<and> mr_id r = j \<and> mr_superseded_by r = None)"
        by (auto simp: heads_mem)
      moreover have "j \<in> set (ce_revived e) \<longleftrightarrow>
          (\<exists>r \<in> set (md_rows db). mr_id r \<noteq> i \<and> mr_id r = j \<and> revivable i (dp_revive plan) r)"
        using ns by (auto simp: deleted(5) hit_ids_def revivable_def)
      ultimately show ?thesis by blast
    qed
    then show ?thesis using Inr o deleted(2) by auto
  qed
qed simp

text \<open>
  Property C12. The table with its links, stamps and periods refines the plain set of current
  facts: whatever statement runs, the rows without a successor afterwards are the abstract
  operation applied to those before, where a refused statement does nothing, a write adds its
  row, a correction swaps its target for its row, a supersession removes its target, and a
  delete removes its row and brings back exactly the rows it reports as revived.
\<close>

theorem store_refines_heads:
  assumes "history_ok db" and "mem_admits db e"
  shows "heads (mem_step db e) = heads_step (heads db) (head_op_of db e)"
proof -
  obtain now oper where e: "e = (now, oper)" by (cases e)
  show ?thesis
  proof (cases oper)
    case (MInsert fresh m)
    then show ?thesis using heads_insert assms e by blast
  next
    case (MSupersede old new)
    then show ?thesis using heads_supersede assms(1) e by blast
  next
    case (MDelete i plan)
    then show ?thesis using heads_delete assms(1) e by blast
  qed (auto simp: e confirm_row_def expire_def unexpire_def fill_occurred_at_def Let_def heads_update)
qed


section \<open>What a supersession leaves behind\<close>

lemma supersession_until_Inr:
  "supersession_until p s c = Inr until \<longleftrightarrow>
     (let start = (case s of None \<Rightarrow> c | Some t \<Rightarrow> t)
      in case p of None \<Rightarrow> until = Some start
         | Some b \<Rightarrow> (s = None \<or> b \<le> start) \<and> until = (if b < start then Some start else None))"
  by (auto simp: supersession_until_def Let_def split: option.splits if_splits)

lemma find_row_update:
  assumes "\<And>r. mr_id (f r) = mr_id r"
  shows "find_row (update_rows p f db) i = map_option (\<lambda>r. if p r then f r else r) (find_row db i)"
  unfolding find_row_def md_rows_simps by (rule find_update) (rule assms)

text \<open>
  Property C16. A supersession that answers, of a row not linked yet, was of a row with no
  successor whose period had not closed, by a row that does not lead back to it within the depth
  cap. It points the old row at the new one, stamps it, and ends its period at the new row's own
  start (when it was learned, if it has none), never before it began: a start it cannot place
  later leaves the end as it was, which is what the answer's flag says. An end already recorded
  stays. No other row changes but for the new row's backward link.
\<close>

theorem supersession_closes:
  assumes "history_ok db" and "supersede now old new db = Inr (left_open, db')"
    and "mr_superseded_by p \<noteq> Some new" and "find_row db old = Some p"
  shows "\<exists>s p' start. find_row db new = Some s \<and> find_row db' old = Some p' \<and> old \<noteq> new \<and>
    mr_superseded_by p = None \<and> \<not> memory_is_expired now (memory_from_row p) \<and>
    old \<notin> set (chain_ids db new) \<and>
    mr_superseded_by p' = Some new \<and> mr_superseded_at p' = Some now \<and>
    start = (case mr_occurred_at s of None \<Rightarrow> mr_created_at s | Some t \<Rightarrow> t) \<and>
    mr_occurred_at p' = mr_occurred_at p \<and>
    left_open = (case mr_occurred_at p of None \<Rightarrow> False | Some b \<Rightarrow> start \<le> b) \<and>
    mr_occurred_until p' =
      (if left_open then mr_occurred_until p else coalesce (mr_occurred_until p) (Some start)) \<and>
    (\<forall>r \<in> set (md_rows db). mr_id r \<noteq> old \<and> mr_id r \<noteq> new \<longrightarrow> r \<in> set (md_rows db')) \<and>
    find_row db' new = Some (s\<lparr>mr_supersedes := coalesce (mr_supersedes s) (Some old)\<rparr>)"
proof -
  have d: "distinct (map mr_id (md_rows db))" using assms(1) by (simp add: history_ok_def)
  from assms(2) d show ?thesis
  proof (cases rule: supersede_Inr)
    case (linked q)
    then show ?thesis using assms(3,4) by simp
  next
    case (retired q s until)
    have q: "q = p" using retired(1) assms(4) by simp
    have i: "mr_id p = old" "mr_id s = new"
      using find_row_Some[OF assms(4)] find_row_Some[OF retired(2)] by auto
    let ?p' = "retired_row now new until p"
    let ?start = "case mr_occurred_at s of None \<Rightarrow> mr_created_at s | Some t \<Rightarrow> t"
    have np: "mr_superseded_by p = None" and exp: "\<not> memory_is_expired now (memory_from_row p)"
      using retired(4) by (auto simp: q retirable_def memory_is_expired_def expired_def memory_from_row_def split: option.splits)
    have f': "find_row db' old = Some ?p'"
      unfolding retired(10) link_successor_def using assms(4) retired(3,4) i q
      by (simp add: find_row_update)
    have n': "find_row db' new = Some (s\<lparr>mr_supersedes := coalesce (mr_supersedes s) (Some old)\<rparr>)"
      unfolding retired(10) link_successor_def using retired(2,3) i
      by (auto simp: find_row_update coalesce_def split: option.splits)
    have others: "r \<in> set (md_rows db')" if "r \<in> set (md_rows db)" "mr_id r \<noteq> old" "mr_id r \<noteq> new" for r
      unfolding retired(10) link_successor_def md_rows_simps set_update_where using that
      by (force simp: image_iff)
    have u: "left_open = (case mr_occurred_at p of None \<Rightarrow> False | Some b \<Rightarrow> ?start \<le> b)"
        "mr_occurred_until ?p' = (if left_open then mr_occurred_until p
           else coalesce (mr_occurred_until p) (Some ?start))"
      using retired(6,7) q
      by (auto simp: supersession_until_Inr Let_def retired_row_def coalesce_def split: option.splits if_splits)
    show ?thesis
      using retired(2,3,5) f' np exp u others n'
      by (intro exI[of _ s] exI[of _ ?p'] exI[of _ ?start]) simp
  qed
qed

section \<open>Concrete tables\<close>

definition sample_fact :: "nat \<Rightarrow> instant \<Rightarrow> (nat, str) mem_row" where
  "sample_fact i t =
     \<lparr>mr_id = i, mr_namespace = u ''project:lr'', mr_content = Some (u ''port 8080''), mr_sealed = None,
      mr_kek_id = None, mr_vec_a = Some i, mr_model_a = Some (u ''bge''), mr_vec_b = None,
      mr_model_b = None, mr_tags = [], mr_source_client = u ''cli'', mr_sensitivity = Open,
      mr_supersedes = None, mr_superseded_by = None, mr_superseded_at = None,
      mr_occurred_at = Some t, mr_occurred_until = None, mr_access_count = 0,
      mr_last_accessed_at = None, mr_last_confirmed_at = None, mr_created_at = t\<rparr>"

definition sample_store :: "(nat, str) mem_db" where
  "sample_store = \<lparr>md_rows = [sample_fact 1 100, sample_fact 2 200], md_kek_id = None\<rparr>"

definition sample_new :: "nat option \<Rightarrow> (nat, str) new_memory" where
  "sample_new old =
     \<lparr>nm_id = None, nm_namespace = u ''project:lr'', nm_content = u ''port 8787'', nm_embedding = 9,
      nm_tags = [], nm_supersedes = old, nm_source_client = u ''cli'',
      nm_embedding_model = u ''bge'', nm_sensitivity = Open, nm_sealed = None,
      nm_occurred_at = None, nm_slot = SlotA, nm_second = None\<rparr>"

lemma sample_store_ok: "history_ok sample_store"
proof -
  have "succession sample_store = {}" by (auto simp: succession_def sample_store_def sample_fact_def)
  then show ?thesis
    by (simp add: history_ok_def acyclic_def sample_store_def sample_fact_def stamped_def links_ok_def
        checks_ok_def period_ok_def content_ok_def link_ok_def)
qed


lemma store_refines_heads_witness:
  "heads (mem_step sample_store (300, MInsert 3 (sample_new (Some 2)))) = {1, 3}"
proof -
  have "heads (mem_step sample_store (300, MInsert 3 (sample_new (Some 2)))) =
    heads_step (heads sample_store) (head_op_of sample_store (300, MInsert 3 (sample_new (Some 2))))"
    by (rule store_refines_heads[OF sample_store_ok]) code_simp
  moreover have "head_op_of sample_store (300, MInsert 3 (sample_new (Some 2))) = Replace 2 3" by code_simp
  moreover have "heads sample_store = {1, 2}"
    by (auto simp: heads_map sample_store_def sample_fact_def)
  ultimately show ?thesis by auto
qed

lemma supersession_closes_witness:
  "\<exists>p'. find_row (kept sample_store (supersede 300 1 2 sample_store)) 1 = Some p' \<and>
        mr_superseded_by p' = Some 2 \<and> mr_occurred_until p' = Some 200"
proof -
  let ?db' = "kept sample_store (supersede 300 1 2 sample_store)"
  have "supersede 300 1 2 sample_store = Inr (False, ?db')" by code_simp
  moreover have "find_row sample_store 1 = Some (sample_fact 1 100)"
    "mr_superseded_by (sample_fact 1 100) \<noteq> Some 2" by code_simp+
  ultimately obtain s p' start where
    "find_row sample_store 2 = Some s" "find_row ?db' 1 = Some p'" "mr_superseded_by p' = Some 2"
    "start = (case mr_occurred_at s of None \<Rightarrow> mr_created_at s | Some t \<Rightarrow> t)"
    "mr_occurred_until p' = coalesce (mr_occurred_until (sample_fact 1 100)) (Some start)"
    using supersession_closes[OF sample_store_ok, of 300 1 2 False ?db' "sample_fact 1 100"] by auto
  moreover have "find_row sample_store 2 = Some (sample_fact 2 200)" by code_simp
  ultimately show ?thesis by (auto simp: coalesce_def sample_fact_def)
qed
end
