(* ===== verification/Lr_Crypto.thy ===== *)
theory Lr_Crypto
  imports Lr_Session Lr_Memory_Store
begin

text \<open>
  The envelope of private rows: \<open>src/src/crypto/envelope.rs\<close> (seal and open), the key formats of
  \<open>crypto/kek.rs\<close>, the ciphertext read of \<open>adapters/postgres/memory.rs\<close>, and the two places the
  service layer opens rows, \<open>services::decrypt\<close> and \<open>ServiceKeyOpener\<close> of
  \<open>services/row_opener.rs\<close>. AES-256-GCM is a parameter with its documented laws as hypotheses;
  the operating system's random bytes are arguments, \<open>None\<close> where the generator fails.
\<close>

type_synonym bytes = "nat list"

record aes_gcm =
  gcm_encrypt :: "bytes \<Rightarrow> bytes \<Rightarrow> bytes \<Rightarrow> bytes \<Rightarrow> bytes option"
  gcm_decrypt :: "bytes \<Rightarrow> bytes \<Rightarrow> bytes \<Rightarrow> bytes \<Rightarrow> bytes option"

text \<open>What AES-GCM documents: under one key, nonce and associated data, decrypting what was
  encrypted gives the message back; under other associated data it fails.\<close>

definition gcm_opens :: "aes_gcm \<Rightarrow> bool" where
  "gcm_opens g \<longleftrightarrow>
     (\<forall>k n a msg c. gcm_encrypt g k n a msg = Some c \<longrightarrow> gcm_decrypt g k n a c = Some msg)"

definition gcm_binds :: "aes_gcm \<Rightarrow> bool" where
  "gcm_binds g \<longleftrightarrow>
     (\<forall>k n a b msg c. gcm_encrypt g k n a msg = Some c \<and> a \<noteq> b \<longrightarrow> gcm_decrypt g k n b c = None)"

section \<open>UTF-8 back to text\<close>

text \<open>\<open>String::from_utf8\<close>: shortest forms only, no surrogates, nothing above U+10FFFF.\<close>

definition cont :: "nat \<Rightarrow> bool" where
  "cont b \<longleftrightarrow> 128 \<le> b \<and> b < 192"

definition valid_scalar :: "uchar \<Rightarrow> bool" where
  "valid_scalar c \<longleftrightarrow> c < 0x110000 \<and> \<not> (0xD800 \<le> c \<and> c < 0xE000)"

definition char2 :: "nat \<Rightarrow> nat \<Rightarrow> nat" where
  "char2 a b = (a - 192) * 64 + (b - 128)"

definition char3 :: "nat \<Rightarrow> nat \<Rightarrow> nat \<Rightarrow> nat" where
  "char3 a b c = (a - 224) * 4096 + (b - 128) * 64 + (c - 128)"

definition char4 :: "nat \<Rightarrow> nat \<Rightarrow> nat \<Rightarrow> nat \<Rightarrow> nat" where
  "char4 a b c d = (a - 240) * 262144 + (b - 128) * 4096 + (c - 128) * 64 + (d - 128)"

fun next_char :: "bytes \<Rightarrow> (uchar \<times> bytes) option" where
  "next_char [] = None"
| "next_char (a # s) =
     (if a < 128 then Some (a, s)
      else if 192 \<le> a \<and> a < 224 then
        (case s of b # t \<Rightarrow> if cont b \<and> 128 \<le> char2 a b then Some (char2 a b, t) else None
         | _ \<Rightarrow> None)
      else if 224 \<le> a \<and> a < 240 then
        (case s of b # c # t \<Rightarrow>
           if cont b \<and> cont c \<and> 2048 \<le> char3 a b c \<and> valid_scalar (char3 a b c)
           then Some (char3 a b c, t) else None
         | _ \<Rightarrow> None)
      else if 240 \<le> a \<and> a < 248 then
        (case s of b # c # d # t \<Rightarrow>
           if cont b \<and> cont c \<and> cont d \<and> 65536 \<le> char4 a b c d \<and> valid_scalar (char4 a b c d)
           then Some (char4 a b c d, t) else None
         | _ \<Rightarrow> None)
      else None)"

lemma next_char_shorter: "next_char s = Some (c, t) \<Longrightarrow> length t < length s"
  by (cases s) (auto split: if_splits list.splits)

function from_utf8 :: "bytes \<Rightarrow> str option" where
  "from_utf8 s =
     (if s = [] then Some []
      else case next_char s of None \<Rightarrow> None | Some (c, t) \<Rightarrow> map_option ((#) c) (from_utf8 t))"
  by auto
termination by (relation "measure length") (auto dest: next_char_shorter)

declare from_utf8.simps [simp del]

section \<open>The envelope\<close>

definition ALG :: str where "ALG = u ''aes-256-gcm/envelope-v1''"
definition UNRECOGNISED_ALG :: str where "UNRECOGNISED_ALG = u ''unrecognised''"
definition NONCE_LEN :: nat where "NONCE_LEN = 12"
definition DEK_LEN :: nat where "DEK_LEN = 32"

record sealed_content =
  sc_content_ct :: bytes
  sc_content_nonce :: bytes
  sc_dek_wrapped :: bytes
  sc_dek_nonce :: bytes
  sc_enc_alg :: str

text \<open>A uuid's sixteen bytes, most significant first.\<close>

fun be_bytes :: "nat \<Rightarrow> nat \<Rightarrow> bytes" where
  "be_bytes 0 v = []"
| "be_bytes (Suc n) v = be_bytes n (v div 256) @ [v mod 256]"

definition associated_data :: "nat \<Rightarrow> bytes" where
  "associated_data row_id = be_bytes 16 row_id"

definition nonce :: "bytes \<Rightarrow> bytes option" where
  "nonce raw = (if length raw = NONCE_LEN then Some raw else None)"

definition cipher :: "bytes \<Rightarrow> bytes res" where
  "cipher key = (if length key = 32 then Inr key else Inl (internal (R_Service (SF_Crypto C_KeyLength))))"

definition opaque :: domain_error where
  "opaque = internal (R_Service (SF_Crypto C_Opaque))"

definition or_fail :: "domain_error \<Rightarrow> 'a option \<Rightarrow> 'a res" where
  "or_fail e x = (case x of None \<Rightarrow> Inl e | Some y \<Rightarrow> Inr y)"

definition fill_random :: "bytes option \<Rightarrow> bytes res" where
  "fill_random draw = or_fail (internal R_NoRandomness) draw"

text \<open>\<open>draws\<close>: the data key, the content nonce and the key nonce, in the order they are drawn.\<close>

definition seal :: "aes_gcm \<Rightarrow> bytes option \<times> bytes option \<times> bytes option \<Rightarrow> bytes \<Rightarrow> nat \<Rightarrow> str \<Rightarrow> sealed_content res" where
  "seal g draws kek row_id plaintext =
     (let (d1, d2, d3) = draws; aad = associated_data row_id
      in and_then (fill_random d1) (\<lambda>dek. and_then (fill_random d2) (\<lambda>content_nonce.
         and_then (fill_random d3) (\<lambda>dek_nonce.
         and_then (cipher dek) (\<lambda>k1.
         and_then (or_fail (internal (R_Service (SF_Crypto C_SealFailed)))
                     (gcm_encrypt g k1 content_nonce aad (utf8 plaintext))) (\<lambda>content_ct.
         and_then (cipher kek) (\<lambda>k2.
         and_then (or_fail (internal (R_Service (SF_Crypto C_WrapFailed)))
                     (gcm_encrypt g k2 dek_nonce aad dek)) (\<lambda>dek_wrapped.
         Inr \<lparr>sc_content_ct = content_ct, sc_content_nonce = content_nonce,
              sc_dek_wrapped = dek_wrapped, sc_dek_nonce = dek_nonce, sc_enc_alg = ALG\<rparr>))))))))"

definition open_sealed :: "aes_gcm \<Rightarrow> bytes \<Rightarrow> nat \<Rightarrow> sealed_content \<Rightarrow> str res" where
  "open_sealed g kek row_id sealed =
     (if sc_enc_alg sealed \<noteq> ALG then Inl opaque
      else
        and_then (or_fail opaque (nonce (sc_content_nonce sealed))) (\<lambda>content_nonce.
        and_then (or_fail opaque (nonce (sc_dek_nonce sealed))) (\<lambda>dek_nonce.
        let aad = associated_data row_id
        in and_then (cipher kek) (\<lambda>k1.
           and_then (or_fail opaque (gcm_decrypt g k1 dek_nonce aad (sc_dek_wrapped sealed))) (\<lambda>dek.
           if length dek \<noteq> DEK_LEN then Inl opaque
           else and_then (cipher dek) (\<lambda>k2.
             and_then (or_fail opaque (gcm_decrypt g k2 content_nonce aad (sc_content_ct sealed))) (\<lambda>content.
               or_fail opaque (from_utf8 content))))))))"

section \<open>The key formats\<close>

text \<open>\<open>hex::decode\<close> and standard base64 are parameters; a key is 64 hex digits or 44 base64
  characters, of 32 bytes.\<close>

definition decode_key :: "(str \<Rightarrow> bytes option) \<Rightarrow> (str \<Rightarrow> bytes option) \<Rightarrow> str \<Rightarrow> bytes res" where
  "decode_key hex64 base64 raw =
     (let trimmed = trim raw; unusable = internal (R_Service (SF_Crypto C_UnusableKey))
      in and_then (if str_len trimmed = 64 then or_fail unusable (hex64 trimmed)
                   else if str_len trimmed = 44 then or_fail unusable (base64 trimmed)
                   else Inl unusable)
           (\<lambda>decoded. if length decoded \<noteq> 32 then Inl unusable else Inr decoded))"

text \<open>A key file, as its permission bits and its text, or a failure of the operating system.\<close>

definition file_kek ::
    "(str \<Rightarrow> bytes option) \<Rightarrow> (str \<Rightarrow> bytes option) \<Rightarrow> str \<Rightarrow> nat option \<Rightarrow> str option \<Rightarrow> bytes res" where
  "file_kek hex64 base64 path mode contents =
     (case mode of
        None \<Rightarrow> Inl (internal (R_Service (SF_Crypto (C_KeyFile path))))
      | Some md \<Rightarrow>
          (if md mod 64 \<noteq> 0 then Inl (internal (R_Service (SF_Crypto (C_LooseKeyFile path (md mod 512)))))
           else case contents of
             None \<Rightarrow> Inl (internal (R_Service (SF_Crypto (C_KeyFile path))))
           | Some raw \<Rightarrow> decode_key hex64 base64 raw))"

definition env_kek ::
    "(str \<Rightarrow> bytes option) \<Rightarrow> (str \<Rightarrow> bytes option) \<Rightarrow> str \<Rightarrow> str option \<Rightarrow> bytes res" where
  "env_kek hex64 base64 var contents =
     (case contents of
        None \<Rightarrow> Inl (internal (R_Service (SF_Crypto (C_KeyUnset var))))
      | Some raw \<Rightarrow> decode_key hex64 base64 raw)"

section \<open>Opening rows\<close>

definition known_alg :: "str \<Rightarrow> str" where
  "known_alg stored = (if stored = ALG then ALG else UNRECOGNISED_ALG)"

definition sealed_batch ::
    "('v, sealed_content) mem_db \<Rightarrow> nat list \<Rightarrow> (nat \<times> sealed_content \<times> str option) list" where
  "sealed_batch db ids =
     (if ids = [] then []
      else filter_map (\<lambda>r. if mr_id r \<in> set ids
             then map_option (\<lambda>s. (mr_id r, s\<lparr>sc_enc_alg := known_alg (sc_enc_alg s)\<rparr>, mr_kek_id r)) (mr_sealed r)
             else None) (md_rows db))"

definition needs_opening :: "memory \<Rightarrow> bool" where
  "needs_opening m \<longleftrightarrow> is_encrypted (m_sensitivity m) \<and> m_content m = []"

text \<open>The loop of \<open>services::decrypt\<close>: ciphertexts not used yet, plaintexts opened so far.\<close>

fun decrypt_loop ::
    "aes_gcm \<Rightarrow> bytes \<Rightarrow> (nat \<rightharpoonup> sealed_content) \<Rightarrow> (nat \<rightharpoonup> str) \<Rightarrow> memory list \<Rightarrow> memory list \<times> nat list" where
  "decrypt_loop g kek by_id opened [] = ([], [])"
| "decrypt_loop g kek by_id opened (m # ms) =
     (if \<not> needs_opening m then
        (let (out, failed) = decrypt_loop g kek by_id opened ms in (m # out, failed))
      else case opened (m_id m) of
        Some plaintext \<Rightarrow>
          (let (out, failed) = decrypt_loop g kek by_id opened ms
           in (m\<lparr>m_content := plaintext\<rparr> # out, failed))
      | None \<Rightarrow>
          (case by_id (m_id m) of
             None \<Rightarrow>
               (let (out, failed) = decrypt_loop g kek by_id opened ms in (m # out, m_id m # failed))
           | Some sealed \<Rightarrow>
               (case open_sealed g kek (m_id m) sealed of
                  Inr plaintext \<Rightarrow>
                    (let (out, failed) = decrypt_loop g kek (by_id(m_id m := None))
                                           (opened(m_id m \<mapsto> plaintext)) ms
                     in (m\<lparr>m_content := plaintext\<rparr> # out, failed))
                | Inl _ \<Rightarrow>
                    (let (out, failed) = decrypt_loop g kek (by_id(m_id m := None)) opened ms
                     in (m # out, m_id m # failed)))))"

text \<open>What the service was wired with: a ciphertext reader or not, a key provider or not and
  what it answers, and the batch the store answers.\<close>

record key_ring =
  kr_reader :: bool
  kr_provider :: "bytes res option"
  kr_verified :: bool
  kr_require_verified :: bool

definition last_of :: "(nat \<times> 'a) list \<Rightarrow> nat \<rightharpoonup> 'a" where
  "last_of xs = map_of (rev xs)"

definition decrypt ::
    "aes_gcm \<Rightarrow> key_ring \<Rightarrow> ('v, sealed_content) mem_db \<Rightarrow> memory list \<Rightarrow> memory list \<times> nat list" where
  "decrypt g ring db rows =
     (let wanted = map m_id (filter needs_opening rows)
      in if wanted = [] then (rows, [])
         else if \<not> kr_reader ring then (rows, wanted)
         else case kr_provider ring of
           None \<Rightarrow> (rows, wanted)
         | Some (Inl _) \<Rightarrow> (rows, wanted)
         | Some (Inr kek) \<Rightarrow>
             decrypt_loop g kek (last_of (map (\<lambda>(i, s, _). (i, s)) (sealed_batch db wanted))) Map.empty rows)"

definition can_encrypt :: "key_ring \<Rightarrow> bool" where
  "can_encrypt ring \<longleftrightarrow> kr_provider ring \<noteq> None \<and> (kr_verified ring \<or> \<not> kr_require_verified ring)"

definition assert_can_encrypt :: "key_ring \<Rightarrow> unit res" where
  "assert_can_encrypt ring =
     (if can_encrypt ring then Inr () else Inl (unavailable (R_Write W_NoEncryption)))"

text \<open>\<open>ServiceKeyOpener::open\<close> of the embedding sweep.\<close>

definition opener_open ::
    "aes_gcm \<Rightarrow> bytes res \<Rightarrow> ('v, sealed_content) mem_db \<Rightarrow> nat list \<Rightarrow> (nat \<rightharpoonup> str) res" where
  "opener_open g keys db ids =
     (if ids = [] then Inr Map.empty
      else and_then keys (\<lambda>kek.
        Inr (foldl (\<lambda>opened (i, s, _). case open_sealed g kek i s of
                      Inr plaintext \<Rightarrow> opened(i \<mapsto> plaintext) | Inl _ \<Rightarrow> opened)
               Map.empty (sealed_batch db ids))))"

section \<open>Round trips\<close>

lemma next_char_utf8:
  assumes "valid_scalar c"
  shows "next_char (utf8_char c @ t) = Some (c, t)"
proof -
  have r2: "char2 (192 + c div 64) (128 + c mod 64) = c" by (simp add: char2_def)
  have m: "c div 64 * 64 + c mod 64 = c" by simp
  have "c div 4096 * 64 + c div 64 mod 64 = c div 64"
    using div_mult_mod_eq[of "c div 64" 64] by (simp add: div_mult2_eq[symmetric])
  then have d2: "c div 4096 * 4096 + c div 64 mod 64 * 64 + c mod 64 = c" using m by linarith
  then have r3: "char3 (224 + c div 4096) (128 + c div 64 mod 64) (128 + c mod 64) = c"
    by (simp add: char3_def)
  have "c div 262144 * 64 + c div 4096 mod 64 = c div 4096"
    using div_mult_mod_eq[of "c div 4096" 64] by (simp add: div_mult2_eq[symmetric])
  then have r4: "char4 (240 + c div 262144) (128 + c div 4096 mod 64) (128 + c div 64 mod 64) (128 + c mod 64) = c"
    using d2 by (simp add: char4_def)
  have q: "cont (128 + x mod 64)" for x :: nat by (simp add: cont_def)
  consider "c < 128" | "128 \<le> c" "c < 2048" | "2048 \<le> c" "c < 65536" | "65536 \<le> c" by linarith
  then show ?thesis
  proof cases
    case 1
    then show ?thesis by (simp add: utf8_char_def)
  next
    case 2
    then have "c div 64 < 32" by simp
    then show ?thesis using 2 r2 q by (simp add: utf8_char_def)
  next
    case 3
    then have "c div 4096 < 16" by simp
    then show ?thesis using 3 r3 q assms by (simp add: utf8_char_def)
  next
    case 4
    then have "c div 262144 < 8" using assms by (simp add: valid_scalar_def)
    then show ?thesis using 4 r4 q assms by (simp add: utf8_char_def)
  qed
qed

lemma from_utf8_utf8: "list_all valid_scalar s \<Longrightarrow> from_utf8 (utf8 s) = Some s"
proof (induction s)
  case Nil
  then show ?case by (simp add: from_utf8.simps utf8_def)
next
  case (Cons c s)
  have "utf8 (c # s) = utf8_char c @ utf8 s" by (simp add: utf8_def)
  moreover have "utf8_char c \<noteq> []" by (simp add: utf8_char_def)
  ultimately show ?case
    using Cons next_char_utf8[of c "utf8 s"] by (subst from_utf8.simps) simp
qed

lemma length_be_bytes [simp]: "length (be_bytes n v) = n"
  by (induction n arbitrary: v) auto

lemma be_bytes_inj: "v < 256 ^ n \<Longrightarrow> w < 256 ^ n \<Longrightarrow> be_bytes n v = be_bytes n w \<Longrightarrow> v = w"
proof (induction n arbitrary: v w)
  case (Suc n)
  then have "be_bytes n (v div 256) = be_bytes n (w div 256)" "v mod 256 = w mod 256" by auto
  moreover have "v div 256 < 256 ^ n" "w div 256 < 256 ^ n"
    using Suc.prems by (auto simp: less_mult_imp_div_less mult.commute)
  ultimately have "v div 256 = w div 256" "v mod 256 = w mod 256" using Suc.IH by blast+
  then show ?case by (metis div_mult_mod_eq)
qed simp

lemma or_fail_Inr [simp]: "or_fail e x = Inr y \<longleftrightarrow> x = Some y"
  by (cases x) (auto simp: or_fail_def)

lemma or_fail_Inl [simp]: "or_fail e x = Inl f \<longleftrightarrow> x = None \<and> f = e"
  by (cases x) (auto simp: or_fail_def)

lemma cipher_Inr [simp]: "cipher k = Inr y \<longleftrightarrow> length k = 32 \<and> y = k"
  by (auto simp: cipher_def)

lemma seal_Inr:
  "seal g (d1, d2, d3) kek i text = Inr s \<longleftrightarrow>
     (\<exists>dek n m ct w. d1 = Some dek \<and> d2 = Some n \<and> d3 = Some m \<and> length dek = 32 \<and> length kek = 32 \<and>
        gcm_encrypt g dek n (associated_data i) (utf8 text) = Some ct \<and>
        gcm_encrypt g kek m (associated_data i) dek = Some w \<and>
        s = \<lparr>sc_content_ct = ct, sc_content_nonce = n, sc_dek_wrapped = w, sc_dek_nonce = m, sc_enc_alg = ALG\<rparr>)"
  by (auto simp: seal_def Let_def and_then_Inr fill_random_def)

definition well_drawn :: "bytes option \<times> bytes option \<times> bytes option \<Rightarrow> bool" where
  "well_drawn draws \<longleftrightarrow> (case draws of (_, Some n, Some m) \<Rightarrow> length n = 12 \<and> length m = 12 | _ \<Rightarrow> False)"

lemma open_seal:
  assumes "gcm_opens g" "well_drawn d" "list_all valid_scalar text" "seal g d kek i text = Inr s"
  shows "open_sealed g kek i s = Inr text"
proof -
  obtain d1 d2 d3 where d: "d = (d1, d2, d3)" by (cases d)
  from assms(4) show ?thesis
    using assms(1,2) from_utf8_utf8[OF assms(3)] unfolding d seal_Inr gcm_opens_def
    by (auto simp: open_sealed_def nonce_def NONCE_LEN_def DEK_LEN_def well_drawn_def or_fail_def cipher_def)
qed

lemma open_moved:
  assumes "gcm_binds g" "seal g d kek i text = Inr s" "well_drawn d" "i \<noteq> j" "i < 2 ^ 128" "j < 2 ^ 128"
  shows "open_sealed g kek j s = Inl opaque"
proof -
  have "associated_data i \<noteq> associated_data j"
    using be_bytes_inj[of i 16 j] assms(4-6) by (auto simp: associated_data_def)
  moreover obtain d1 d2 d3 where d: "d = (d1, d2, d3)" by (cases d)
  ultimately show ?thesis using assms(1-3) unfolding d seal_Inr gcm_binds_def
    by (auto simp: open_sealed_def nonce_def NONCE_LEN_def DEK_LEN_def or_fail_def well_drawn_def cipher_def)
qed

lemma open_errors_alike:
  "length kek = 32 \<Longrightarrow> open_sealed g kek i s = Inl e \<Longrightarrow> e = opaque"
  by (auto simp: open_sealed_def and_then_Inl and_then_Inr Let_def DEK_LEN_def cipher_def split: if_splits)

text \<open>
  Property C8. Given AES-GCM's laws, a row sealed under a key and an id opens under that key and
  that id to exactly the text that was sealed, for any text; the same ciphertext put under any
  other id never opens; and every way of failing, whether key, ciphertext, nonce, algorithm or
  row, is one and the same error, whose message a client never sees.
\<close>

theorem envelope_binds_row:
  assumes "gcm_opens g" and "gcm_binds g" and "well_drawn draws" and "list_all valid_scalar text"
    and "seal g draws kek i text = Inr s" and "i < 2 ^ 128"
  shows "open_sealed g kek i s = Inr text \<and>
    (\<forall>j. j \<noteq> i \<and> j < 2 ^ 128 \<longrightarrow> open_sealed g kek j s = Inl opaque) \<and>
    (\<forall>k j c e. length k = 32 \<and> open_sealed g k j c = Inl e \<longrightarrow>
       e = opaque \<and> client_message e = R_InternalError)"
proof (intro conjI allI impI)
  fix j assume "j \<noteq> i \<and> j < 2 ^ 128"
  then show "open_sealed g kek j s = Inl opaque" using open_moved[OF assms(2,5,3)] assms(6) by auto
next
  fix k j c e assume "length k = 32 \<and> open_sealed g k j c = Inl e"
  then show "e = opaque" using open_errors_alike by blast
  then show "client_message e = R_InternalError" by (simp add: opaque_def client_message_internal)
qed (rule open_seal[OF assms(1,3,4,5)])

section \<open>What the opening loop computes\<close>

definition opens :: "aes_gcm \<Rightarrow> bytes \<Rightarrow> (nat \<rightharpoonup> sealed_content) \<Rightarrow> nat \<Rightarrow> str option" where
  "opens g kek by_id i =
     (case by_id i of None \<Rightarrow> None
      | Some s \<Rightarrow> (case open_sealed g kek i s of Inl _ \<Rightarrow> None | Inr p \<Rightarrow> Some p))"

definition filled :: "(nat \<Rightarrow> str option) \<Rightarrow> memory \<Rightarrow> memory" where
  "filled f m = (if needs_opening m then (case f (m_id m) of None \<Rightarrow> m | Some p \<Rightarrow> m\<lparr>m_content := p\<rparr>) else m)"

definition unopened :: "(nat \<Rightarrow> str option) \<Rightarrow> memory list \<Rightarrow> nat list" where
  "unopened f rows = map m_id (filter (\<lambda>m. needs_opening m \<and> f (m_id m) = None) rows)"

lemma decrypt_loop_spec:
  assumes "\<And>i p. opened i = Some p \<Longrightarrow> f i = Some p"
    and "\<And>i. opened i = None \<Longrightarrow> opens g kek by_id i = f i"
  shows "decrypt_loop g kek by_id opened rows = (map (filled f) rows, unopened f rows)"
  using assms
proof (induction rows arbitrary: by_id opened)
  case Nil
  then show ?case by (simp add: unopened_def)
next
  case (Cons m rows)
  have IH: "decrypt_loop g kek by_id opened rows = (map (filled f) rows, unopened f rows)"
    by (rule Cons.IH) (use Cons.prems in auto)
  show ?case
  proof (cases "needs_opening m")
    case False
    then show ?thesis using IH by (simp add: filled_def unopened_def)
  next
    case need: True
    show ?thesis
    proof (cases "opened (m_id m)")
      case (Some p)
      then show ?thesis using IH need Cons.prems(1)[OF Some] by (simp add: filled_def unopened_def)
    next
      case None
      note f = Cons.prems(2)[OF None]
      show ?thesis
      proof (cases "by_id (m_id m)")
        case no: None
        then show ?thesis using IH need None f by (simp add: filled_def unopened_def opens_def)
      next
        case (Some s)
        show ?thesis
        proof (cases "open_sealed g kek (m_id m) s")
          case (Inl e)
          then have fm: "f (m_id m) = None" using f Some by (simp add: opens_def)
          have "decrypt_loop g kek (by_id(m_id m := None)) opened rows = (map (filled f) rows, unopened f rows)"
            by (rule Cons.IH) (use Cons.prems fm in \<open>auto simp: opens_def\<close>)
          then show ?thesis using need None Some Inl fm by (simp add: filled_def unopened_def)
        next
          case (Inr p)
          then have fm: "f (m_id m) = Some p" using f Some by (simp add: opens_def)
          have "decrypt_loop g kek (by_id(m_id m := None)) (opened(m_id m \<mapsto> p)) rows =
              (map (filled f) rows, unopened f rows)"
            by (rule Cons.IH) (use Cons.prems fm in \<open>auto simp: opens_def split: if_splits\<close>)
          then show ?thesis using need None Some Inr fm by (simp add: filled_def unopened_def)
        qed
      qed
    qed
  qed
qed

lemma map_of_filter_map_key:
  assumes "\<And>r x. f r = Some x \<Longrightarrow> fst x = k r"
  shows "distinct (map k rows) \<Longrightarrow> map_of (filter_map f rows) i =
    (case List.find (\<lambda>r. k r = i) rows of None \<Rightarrow> None | Some r \<Rightarrow> map_option snd (f r))"
proof (induction rows)
  case (Cons r rows)
  have none: "List.find (\<lambda>x. k x = k r) rows = None" using Cons.prems by (auto simp: find_None_iff image_iff)
  show ?case
  proof (cases "f r")
    case None
    then show ?thesis using Cons none by (auto split: option.splits)
  next
    case (Some x)
    then show ?thesis using Cons assms[OF Some] by (cases x) auto
  qed
qed simp

lemma distinct_filter_map_key:
  assumes "\<And>r x. f r = Some x \<Longrightarrow> fst x = k r"
  shows "distinct (map k rows) \<Longrightarrow> distinct (map fst (filter_map f rows))"
proof (induction rows)
  case (Cons r rows)
  then show ?case using assms by (auto simp: set_filter_map split: option.splits) (metis imageI)
qed simp

lemma map_filter_map: "map h (filter_map f xs) = filter_map (\<lambda>x. map_option h (f x)) xs"
  by (induction xs) (auto split: option.splits)

text \<open>The plaintext a row's own ciphertext opens to, if it opens.\<close>

definition row_plaintext :: "aes_gcm \<Rightarrow> bytes \<Rightarrow> ('v, sealed_content) mem_db \<Rightarrow> nat \<Rightarrow> str option" where
  "row_plaintext g kek db i =
     (case find_row db i of
        None \<Rightarrow> None
      | Some r \<Rightarrow> (case mr_sealed r of
          None \<Rightarrow> None
        | Some s \<Rightarrow> (case open_sealed g kek i s of Inl _ \<Rightarrow> None | Inr p \<Rightarrow> Some p)))"

lemma open_known_alg: "open_sealed g kek i (s\<lparr>sc_enc_alg := known_alg (sc_enc_alg s)\<rparr>) = open_sealed g kek i s"
proof (cases "sc_enc_alg s = ALG")
  case True
  then have "s\<lparr>sc_enc_alg := known_alg (sc_enc_alg s)\<rparr> = s" by (simp add: known_alg_def)
  then show ?thesis by simp
next
  case False
  moreover have "UNRECOGNISED_ALG \<noteq> ALG" by (simp add: ALG_def UNRECOGNISED_ALG_def)
  ultimately show ?thesis by (simp add: open_sealed_def known_alg_def)
qed

lemma map_of_rev: "distinct (map fst xs) \<Longrightarrow> map_of (rev xs) = map_of xs"
proof -
  assume d: "distinct (map fst xs)"
  then have "distinct (map fst (rev xs))" by (simp add: rev_map[symmetric])
  from map_of_inject_set[OF this d] show ?thesis by simp
qed

lemma opens_batch:
  assumes d: "distinct (map mr_id (md_rows db))" and i: "i \<in> set ids"
  shows "opens g kek (last_of (map (\<lambda>(i, s, _). (i, s)) (sealed_batch db ids))) i = row_plaintext g kek db i"
proof -
  let ?f = "\<lambda>r. if mr_id r \<in> set ids
      then map_option (\<lambda>s. (mr_id r, s\<lparr>sc_enc_alg := known_alg (sc_enc_alg s)\<rparr>)) (mr_sealed r) else None"
  have k: "fst x = mr_id r" if "?f r = Some x" for r x using that by (auto split: if_splits)
  have e: "map (\<lambda>(i, s, _). (i, s)) (sealed_batch db ids) = filter_map ?f (md_rows db)"
    using i by (auto simp: sealed_batch_def map_filter_map if_distrib option.map_comp o_def cong: if_cong)
  have "last_of (filter_map ?f (md_rows db)) i = map_of (filter_map ?f (md_rows db)) i"
    unfolding last_of_def using distinct_filter_map_key[of ?f mr_id, OF k d] by (simp only: map_of_rev)
  also have "\<dots> = (case find_row db i of None \<Rightarrow> None | Some r \<Rightarrow> map_option snd (?f r))"
    unfolding find_row_def by (rule map_of_filter_map_key[of ?f mr_id, OF k d])
  finally show ?thesis unfolding e
    using i by (auto simp: opens_def row_plaintext_def open_known_alg dest: find_row_Some split: option.splits)
qed

text \<open>
  Opening a list of rows fills each private row that arrived empty with the plaintext
  of its own ciphertext in the store, whatever else the list holds and however often one row
  appears in it, leaves every other row exactly as it came, and reports exactly the rows that
  needed opening and did not open. Without a reader, a provider or a readable key it fills
  nothing and reports every row that needed opening.
\<close>

theorem decrypt_own_rows:
  assumes "distinct (map mr_id (md_rows db))"
  shows "decrypt g ring db rows =
    (let f = (if kr_reader ring then (case kr_provider ring of
                  Some (Inr kek) \<Rightarrow> row_plaintext g kek db | _ \<Rightarrow> (\<lambda>_. None)) else (\<lambda>_. None))
     in (map (filled f) rows, unopened f rows))"
proof -
  have none: "(rows, map m_id (filter needs_opening rows)) = (map (filled (\<lambda>_. None)) rows, unopened (\<lambda>_. None) rows)"
    by (simp add: filled_def unopened_def map_idI)
  show ?thesis
  proof (cases "map m_id (filter needs_opening rows) = []")
    case True
    then have "map (filled f) rows = rows" "unopened f rows = []" for f
      by (auto simp: filled_def unopened_def filter_empty_conv intro!: map_idI)
    then show ?thesis using True by (simp add: decrypt_def)
  next
    case False
    show ?thesis
    proof (cases "kr_reader ring \<and> (\<exists>kek. kr_provider ring = Some (Inr kek))")
      case no: False
      then show ?thesis using False none
        by (auto simp: decrypt_def Let_def split: option.splits sum.splits)
    next
      case True
      then obtain kek where kek: "kr_reader ring" "kr_provider ring = Some (Inr kek)" by blast
      let ?ids = "map m_id (filter needs_opening rows)"
      let ?b = "last_of (map (\<lambda>(i, s, _). (i, s)) (sealed_batch db ?ids))"
      let ?f = "row_plaintext g kek db"
      have cong: "map (filled h) rows = map (filled ?f) rows \<and> unopened h rows = unopened ?f rows"
        if "\<And>i. i \<in> set ?ids \<Longrightarrow> h i = ?f i" for h
        using that by (auto simp: filled_def unopened_def intro!: filter_cong map_cong arg_cong[of _ _ "map m_id"])
      have "decrypt_loop g kek ?b Map.empty rows =
          (map (filled (opens g kek ?b)) rows, unopened (opens g kek ?b) rows)"
        by (rule decrypt_loop_spec) auto
      moreover have "opens g kek ?b i = ?f i" if "i \<in> set ?ids" for i
        by (rule opens_batch[OF assms that])
      ultimately have "decrypt_loop g kek ?b Map.empty rows = (map (filled ?f) rows, unopened ?f rows)"
        using cong[of "opens g kek ?b"] by simp
      then show ?thesis using kek False by (simp add: decrypt_def Let_def)
    qed
  qed
qed

section \<open>A concrete cipher and a concrete private row\<close>

definition sample_gcm :: aes_gcm where
  "sample_gcm =
     \<lparr>gcm_encrypt = (\<lambda>k n a msg. Some (length a # a @ msg)),
      gcm_decrypt = (\<lambda>k n a c. if take (Suc (length a)) c = length a # a
                                then Some (drop (Suc (length a)) c) else None)\<rparr>"

lemma sample_gcm_laws: "gcm_opens sample_gcm" "gcm_binds sample_gcm"
proof -
  show "gcm_opens sample_gcm" by (auto simp: gcm_opens_def sample_gcm_def)
  have "a = b" if "take (length b) (a @ (msg :: nat list)) = b" "length b = length a" for a b msg :: bytes
    using that by simp
  then show "gcm_binds sample_gcm" by (auto simp: gcm_binds_def sample_gcm_def)
qed

definition sample_kek :: bytes where "sample_kek = replicate 32 7"

definition sample_draws :: "bytes option \<times> bytes option \<times> bytes option" where
  "sample_draws = (Some (replicate 32 1), Some (replicate 12 2), Some (replicate 12 3))"

definition sample_sealed :: sealed_content where
  "sample_sealed = projr (seal sample_gcm sample_draws sample_kek 5 (u ''ledger''))"

lemma sample_seal: "seal sample_gcm sample_draws sample_kek 5 (u ''ledger'') = Inr sample_sealed"
  by code_simp

lemma envelope_binds_row_witness:
  "open_sealed sample_gcm sample_kek 5 sample_sealed = Inr (u ''ledger'') \<and>
   open_sealed sample_gcm sample_kek 6 sample_sealed = Inl opaque"
proof -
  have "well_drawn sample_draws" "list_all valid_scalar (u ''ledger'')" by code_simp+
  from envelope_binds_row[OF sample_gcm_laws this sample_seal] show ?thesis by auto
qed

definition sample_private :: "(nat, sealed_content) mem_db" where
  "sample_private =
     \<lparr>md_rows = [\<lparr>mr_id = 5, mr_namespace = u ''user:me'', mr_content = None, mr_sealed = Some sample_sealed,
        mr_kek_id = Some (u ''k1''), mr_vec_a = None, mr_model_a = None, mr_vec_b = None,
        mr_model_b = None, mr_tags = [], mr_source_client = u ''cli'', mr_sensitivity = Private,
        mr_supersedes = None, mr_superseded_by = None, mr_superseded_at = None, mr_occurred_at = None,
        mr_occurred_until = None, mr_access_count = 0, mr_last_accessed_at = None,
        mr_last_confirmed_at = None, mr_created_at = 0\<rparr>], md_kek_id = Some (u ''k1'')\<rparr>"

definition sample_ring :: key_ring where
  "sample_ring = \<lparr>kr_reader = True, kr_provider = Some (Inr sample_kek), kr_verified = True,
     kr_require_verified = True\<rparr>"

definition sample_private_memory :: memory where
  "sample_private_memory = memory_from_row (hd (md_rows sample_private))"

lemma decrypt_own_rows_witness:
  "decrypt sample_gcm sample_ring sample_private [sample_private_memory, sample_private_memory] =
     ([sample_private_memory\<lparr>m_content := u ''ledger''\<rparr>, sample_private_memory\<lparr>m_content := u ''ledger''\<rparr>], [])"
proof -
  have "distinct (map mr_id (md_rows sample_private))" by (simp add: sample_private_def)
  note d = decrypt_own_rows[OF this, of sample_gcm sample_ring]
  have "row_plaintext sample_gcm sample_kek sample_private 5 = Some (u ''ledger'')"
    "needs_opening sample_private_memory" "m_id sample_private_memory = 5" by code_simp+
  then show ?thesis unfolding d
    by (simp add: sample_ring_def filled_def unopened_def)
qed
end
