(* ===== verification/Lr_Tripwire.thy ===== *)
theory Lr_Tripwire
  imports Lr_Crypto Complex_Main
begin

text \<open>
  The credential tripwire of \<open>src/src/domain/tripwire.rs\<close>: the textual pass that refuses a write
  at \<open>open\<close> when its content carries a private key header, a connection string with a password,
  a key of a known shape, a JWT, a long hex run beside a credential word, or a token of high
  entropy. Bytes are natural numbers; offsets index the list as they index the bslice. The
  entropy sum is taken in the reals, where the source sums doubles.
\<close>

section \<open>Byte helpers\<close>

definition is_word_byte :: "nat \<Rightarrow> bool" where
  "is_word_byte b \<longleftrightarrow> is_ascii_alphanumeric b \<or> b = 95 \<or> b = 45"

definition is_upper_alnum_byte :: "nat \<Rightarrow> bool" where
  "is_upper_alnum_byte b \<longleftrightarrow> is_ascii_uppercase b \<or> is_ascii_digit b"

definition is_base64ish_byte :: "nat \<Rightarrow> bool" where
  "is_base64ish_byte b \<longleftrightarrow> is_ascii_alphanumeric b \<or> b \<in> {43, 47, 61, 95, 45}"

definition is_ascii_ws :: "nat \<Rightarrow> bool" where
  "is_ascii_ws b \<longleftrightarrow> b \<in> {32, 9, 10, 12, 13}"

fun position :: "(nat \<Rightarrow> bool) \<Rightarrow> bytes \<Rightarrow> nat option" where
  "position p [] = None"
| "position p (b # bs) = (if p b then Some 0 else map_option Suc (position p bs))"

definition pos_or_end :: "(nat \<Rightarrow> bool) \<Rightarrow> bytes \<Rightarrow> nat \<Rightarrow> nat" where
  "pos_or_end p bs start =
     (case position p (drop start bs) of None \<Rightarrow> length bs | Some k \<Rightarrow> start + k)"

definition rposition :: "(nat \<Rightarrow> bool) \<Rightarrow> bytes \<Rightarrow> nat option" where
  "rposition p bs = map_option (\<lambda>k. length bs - Suc k) (position p (rev bs))"

definition bslice :: "bytes \<Rightarrow> nat \<Rightarrow> nat \<Rightarrow> bytes" where
  "bslice bs a b = take (b - a) (drop a bs)"

definition byte_at :: "bytes \<Rightarrow> nat \<Rightarrow> nat option" where
  "byte_at bs i = (if i < length bs then Some (bs ! i) else None)"

definition begins :: "bytes \<Rightarrow> bytes \<Rightarrow> bool" where
  "begins bs needle \<longleftrightarrow> take (length needle) bs = needle"

fun find_at :: "bytes \<Rightarrow> bytes \<Rightarrow> nat option" where
  "find_at needle [] = None"
| "find_at needle (b # bs) =
     (if begins (b # bs) needle then Some 0 else map_option Suc (find_at needle bs))"

definition find_bytes :: "bytes \<Rightarrow> bytes \<Rightarrow> nat option" where
  "find_bytes haystack needle =
     (if needle = [] \<or> length haystack < length needle then None else find_at needle haystack)"

definition holds :: "bytes \<Rightarrow> bytes \<Rightarrow> bool" where
  "holds haystack needle \<longleftrightarrow> find_bytes haystack needle \<noteq> None"

definition run_len :: "bytes \<Rightarrow> nat \<Rightarrow> (nat \<Rightarrow> bool) \<Rightarrow> nat" where
  "run_len bs from accept = length (takeWhile accept (drop from bs))"

definition trim_ascii :: "bytes \<Rightarrow> bytes" where
  "trim_ascii s = rev (dropWhile is_ascii_ws (rev (dropWhile is_ascii_ws s)))"

fun repeat_loop :: "nat \<Rightarrow> nat \<Rightarrow> bytes \<Rightarrow> nat" where
  "repeat_loop best current (a # b # bs) =
     (let c = (if a = b then current + 1 else 1) in repeat_loop (max best c) c (b # bs))"
| "repeat_loop best current _ = best"

definition longest_repeat :: "bytes \<Rightarrow> nat" where
  "longest_repeat token = repeat_loop 1 1 token"

definition symbol_counts :: "bytes \<Rightarrow> nat list" where
  "symbol_counts token =
     filter (\<lambda>c. 0 < c) (map (\<lambda>i. length (filter (\<lambda>b. b mod 128 = i) token)) [0..<128])"

definition shannon_bits_per_char :: "bytes \<Rightarrow> real" where
  "shannon_bits_per_char token =
     (let n = real (length token)
      in sum_list (map (\<lambda>c. let p = real c / n in - p * log 2 p) (symbol_counts token)))"

definition low_entropy :: "bytes \<Rightarrow> bool" where
  "low_entropy token \<longleftrightarrow> shannon_bits_per_char token < 42 / 10"

text \<open>The threshold without logarithms, which is how the model evaluates it.\<close>

lemma sum_list_filter_pos: "sum_list (filter (\<lambda>c. 0 < (c :: nat)) xs) = sum_list xs"
  by (induction xs) auto

lemma sum_symbol_counts: "sum_list (symbol_counts token) = length token"
proof -
  have "sum_list (map (\<lambda>i. length (filter (\<lambda>b. b mod 128 = i) token)) [0..<128]) = length token"
  proof (induction token)
    case (Cons b token)
    have "(\<Sum>i<128. if b mod 128 = i then Suc (length (filter (\<lambda>b. b mod 128 = i) token))
             else length (filter (\<lambda>b. b mod 128 = i) token)) =
          (\<Sum>i<128. (if b mod 128 = i then 1 else 0) + length (filter (\<lambda>b. b mod 128 = i) token))"
      by (rule sum.cong) auto
    also have "\<dots> = 1 + (\<Sum>i<128. length (filter (\<lambda>b. b mod 128 = i) token))"
      by (simp add: sum.distrib)
    finally show ?case using Cons
      by (simp add: interv_sum_list_conv_sum_set_nat atLeast0LessThan if_distrib[of length] cong: if_cong)
  qed (simp add: interv_sum_list_conv_sum_set_nat)
  then show ?thesis by (simp add: symbol_counts_def sum_list_filter_pos)
qed

lemma prod_pow_pos: "\<forall>c \<in> set cs. 0 < c \<Longrightarrow> 0 < prod_list (map (\<lambda>c :: nat. c ^ (5 * c)) cs)"
  by (induction cs) auto

lemma log_prod_pow:
  "\<forall>c \<in> set cs. 0 < c \<Longrightarrow> log 2 (real (prod_list (map (\<lambda>c. c ^ (5 * c)) cs))) = 5 * (\<Sum>c\<leftarrow>cs. real c * log 2 (real c))"
proof (induction cs)
  case (Cons c cs)
  have "0 < prod_list (map (\<lambda>c. c ^ (5 * c)) cs)" using Cons.prems prod_pow_pos[of cs] by simp
  then show ?case using Cons by (simp add: log_mult log_nat_power algebra_simps)
qed simp

lemma sum_weighted:
  "(\<Sum>c\<leftarrow>cs. real c * (L - log 2 (real c))) = real (sum_list cs) * L - (\<Sum>c\<leftarrow>cs. real c * log 2 (real c))"
  by (induction cs) (auto simp: algebra_simps)

lemma entropy_by_powers:
  assumes "token \<noteq> []"
  shows "low_entropy token \<longleftrightarrow>
    length token ^ (5 * length token) <
      2 ^ (21 * length token) * prod_list (map (\<lambda>c. c ^ (5 * c)) (symbol_counts token))"
    (is "_ \<longleftrightarrow> ?l < ?r")
proof -
  let ?n = "length token" and ?cs = "symbol_counts token"
  let ?P = "prod_list (map (\<lambda>c. c ^ (5 * c)) ?cs)"
  have pos: "\<forall>c \<in> set ?cs. 0 < c" by (simp add: symbol_counts_def)
  have n: "0 < ?n" using assms by simp
  have P: "0 < ?P" by (rule prod_pow_pos[OF pos])
  have "real ?n * shannon_bits_per_char token = (\<Sum>c\<leftarrow>?cs. real c * (log 2 ?n - log 2 c))"
    unfolding shannon_bits_per_char_def Let_def sum_list_const_mult[symmetric]
    using pos n by (intro arg_cong[of _ _ sum_list] map_cong) (auto simp: log_divide field_simps)
  also have "\<dots> = real (sum_list ?cs) * log 2 ?n - (\<Sum>c\<leftarrow>?cs. real c * log 2 c)"
    by (rule sum_weighted)
  finally have b: "5 * (real ?n * shannon_bits_per_char token) = log 2 (real ?l) - log 2 (real ?P)"
    using log_prod_pow[OF pos] n by (simp add: sum_symbol_counts log_nat_power algebra_simps)
  have "low_entropy token \<longleftrightarrow> 5 * (real ?n * shannon_bits_per_char token) < 21 * real ?n"
    using n by (simp add: low_entropy_def field_simps)
  also have "\<dots> \<longleftrightarrow> log 2 (real ?l) < log 2 (real ?r)"
    unfolding b using P by (simp add: log_mult log_nat_power) linarith
  also have "\<dots> \<longleftrightarrow> real ?l < real ?r"
    using n P by (intro log_less_cancel_iff) simp_all
  also have "\<dots> \<longleftrightarrow> ?l < ?r" by (rule of_nat_less_iff)
  finally show ?thesis .
qed

lemma low_entropy_code [code]:
  "low_entropy token \<longleftrightarrow> token = [] \<or>
     length token ^ (5 * length token) <
       2 ^ (21 * length token) * prod_list (map (\<lambda>c. c ^ (5 * c)) (symbol_counts token))"
proof (cases "token = []")
  case True
  have "low_entropy []" by (simp add: low_entropy_def shannon_bits_per_char_def symbol_counts_def)
  then show ?thesis using True by simp
qed (simp add: entropy_by_powers)

definition b64_value :: "nat \<Rightarrow> nat option" where
  "b64_value b =
     (if is_ascii_uppercase b then Some (b - 65)
      else if is_ascii_lowercase b then Some (b - 97 + 26)
      else if is_ascii_digit b then Some (b - 48 + 52)
      else if b = 45 then Some 62
      else if b = 95 then Some 63
      else None)"

text \<open>The accumulator is a \<open>u32\<close>: the shift drops the bits above it.\<close>

fun decode_loop :: "nat \<Rightarrow> nat \<Rightarrow> bytes \<Rightarrow> bytes \<Rightarrow> bytes option" where
  "decode_loop acc bits out [] = Some out"
| "decode_loop acc bits out (b # bs) =
     (case b64_value b of
        None \<Rightarrow> None
      | Some v \<Rightarrow>
          (let acc' = (acc * 64 + v) mod 2 ^ 32; bits' = bits + 6
           in if 8 \<le> bits' then decode_loop acc' (bits' - 8) (out @ [acc' div 2 ^ (bits' - 8) mod 256]) bs
              else decode_loop acc' bits' out bs))"

definition decode_base64url :: "bytes \<Rightarrow> bytes option" where
  "decode_base64url input = decode_loop 0 0 [] input"

section \<open>Findings\<close>

text \<open>The detail of a finding: what fired and where, never the matched bytes. The entropy rule's
  message also prints the measured bits per character.\<close>

datatype detail =
    D_PrivateKey string nat
  | D_Url string nat
  | D_Key string nat
  | D_Jwt nat nat
  | D_Hex nat string nat
  | D_Entropy nat nat

record finding =
  fi_rule :: string
  fi_detail :: detail

definition new_finding :: "string \<Rightarrow> detail \<Rightarrow> finding" where
  "new_finding rule d = \<lparr>fi_rule = rule, fi_detail = d\<rparr>"

section \<open>Private key headers\<close>

definition BEGIN :: bytes where "BEGIN = u ''-----BEGIN ''"

definition key_kind :: "bytes \<Rightarrow> string" where
  "key_kind line =
     (if holds line (u ''RSA '') then ''an RSA private key header''
      else if holds line (u ''OPENSSH '') then ''an OpenSSH private key header''
      else if holds line (u ''EC '') then ''an EC private key header''
      else if holds line (u ''DSA '') then ''a DSA private key header''
      else if holds line (u ''PGP '') then ''a PGP private key header''
      else ''a private key header'')"

lemma find_at_bound: "find_at needle bs = Some k \<Longrightarrow> k < length bs"
  by (induction bs arbitrary: k) (auto split: if_splits)

lemma find_bytes_bound: "find_bytes bs needle = Some k \<Longrightarrow> k < length bs"
  by (auto simp: find_bytes_def find_at_bound split: if_splits)

function pem_loop :: "bytes \<Rightarrow> nat \<Rightarrow> finding option" where
  "pem_loop bs i =
     (case find_bytes (drop i bs) BEGIN of
        None \<Rightarrow> None
      | Some k \<Rightarrow>
          (let start = i + k; line = bslice bs start (pos_or_end (\<lambda>b. b = 10) bs start)
           in if holds line (u ''PRIVATE KEY'')
              then Some (new_finding ''pem_private_key'' (D_PrivateKey (key_kind line) start))
              else pem_loop bs (start + length BEGIN)))"
  by auto
termination
  by (relation "measure (\<lambda>(bs, i). length bs - i)")
     (auto simp: BEGIN_def dest: find_bytes_bound simp del: u_Cons)

declare pem_loop.simps [simp del]

definition scan_private_key_header :: "bytes \<Rightarrow> finding option" where
  "scan_private_key_header bs = pem_loop bs 0"

section \<open>Connection strings\<close>

definition URL_SCHEMES :: "string list" where
  "URL_SCHEMES = [''postgresql://'', ''postgres://'', ''mongodb+srv://'', ''mongodb://'', ''mysql://'',
     ''rediss://'', ''redis://'', ''amqps://'', ''amqp://'']"

definition is_placeholder :: "bytes \<Rightarrow> bool" where
  "is_placeholder password =
     (if password = [] then True
      else if list_ex (\<lambda>b. b \<in> {36, 123, 125}) password then True
      else if hd password = 60 \<and> last password = 62 then True
      else list_all (\<lambda>b. b = 42) password)"

definition ends_authority :: "nat \<Rightarrow> bool" where
  "ends_authority b \<longleftrightarrow> b \<in> {47, 63, 35, 44, 34, 39, 96, 60, 62, 41, 93} \<or> is_ascii_ws b"

definition url_password :: "bytes \<Rightarrow> bytes option" where
  "url_password authority =
     (case rposition (\<lambda>b. b = 64) authority of
        None \<Rightarrow> None
      | Some k \<Rightarrow>
          (let userinfo = take k authority
           in case position (\<lambda>b. b = 58) userinfo of
                None \<Rightarrow> None
              | Some colon \<Rightarrow> Some (drop (colon + 1) userinfo)))"

definition connection_at :: "bytes \<Rightarrow> nat \<Rightarrow> finding option" where
  "connection_at bs i =
     (if 0 < i \<and> is_word_byte (bs ! (i - 1)) then None
      else case List.find (\<lambda>s. begins (drop i bs) (u s)) URL_SCHEMES of
        None \<Rightarrow> None
      | Some scheme \<Rightarrow>
          (let a = i + length scheme
           in case url_password (bslice bs a (pos_or_end ends_authority bs a)) of
                None \<Rightarrow> None
              | Some password \<Rightarrow>
                  if is_placeholder password then None
                  else Some (new_finding ''connection_string_password'' (D_Url scheme i))))"

definition scan_connection_string :: "bytes \<Rightarrow> finding option" where
  "scan_connection_string bs = first_some (connection_at bs) [0..<length bs]"

section \<open>Token rules\<close>

datatype tail = AtLeast nat | Exactly nat | ExactlyUpper nat | SendGrid

datatype prefix_rule = PrefixRule (pr_prefix: string) (pr_rule: string) (pr_what: string) (pr_tail: tail)

definition PREFIX_RULES :: "prefix_rule list" where
  "PREFIX_RULES =
    [PrefixRule ''sk-ant-'' ''anthropic_api_key'' ''an Anthropic API key'' (AtLeast 24),
     PrefixRule ''sk-'' ''openai_api_key'' ''an OpenAI API key'' (AtLeast 20),
     PrefixRule ''sk_live_'' ''stripe_secret_key'' ''a Stripe live secret key'' (AtLeast 16),
     PrefixRule ''rk_live_'' ''stripe_restricted_key'' ''a Stripe live restricted key'' (AtLeast 16),
     PrefixRule ''github_pat_'' ''github_token'' ''a GitHub fine-grained personal access token'' (AtLeast 40),
     PrefixRule ''ghp_'' ''github_token'' ''a GitHub personal access token'' (AtLeast 30),
     PrefixRule ''gho_'' ''github_token'' ''a GitHub OAuth token'' (AtLeast 30),
     PrefixRule ''ghs_'' ''github_token'' ''a GitHub app server token'' (AtLeast 30),
     PrefixRule ''ghu_'' ''github_token'' ''a GitHub app user token'' (AtLeast 30),
     PrefixRule ''ghr_'' ''github_token'' ''a GitHub refresh token'' (AtLeast 30),
     PrefixRule ''glpat-'' ''gitlab_token'' ''a GitLab personal access token'' (AtLeast 20),
     PrefixRule ''xoxb-'' ''slack_token'' ''a Slack bot token'' (AtLeast 20),
     PrefixRule ''xoxp-'' ''slack_token'' ''a Slack user token'' (AtLeast 20),
     PrefixRule ''xoxa-'' ''slack_token'' ''a Slack app token'' (AtLeast 20),
     PrefixRule ''AKIA'' ''aws_access_key_id'' ''an AWS access key id'' (ExactlyUpper 16),
     PrefixRule ''ASIA'' ''aws_access_key_id'' ''an AWS temporary access key id'' (ExactlyUpper 16),
     PrefixRule ''AIza'' ''google_api_key'' ''a Google API key'' (Exactly 35),
     PrefixRule ''hf_'' ''huggingface_token'' ''a Hugging Face access token'' (AtLeast 30),
     PrefixRule ''npm_'' ''npm_token'' ''an npm access token'' (AtLeast 30),
     PrefixRule ''dop_v1_'' ''digitalocean_token'' ''a DigitalOcean personal access token'' (AtLeast 60),
     PrefixRule ''shpat_'' ''shopify_access_token'' ''a Shopify access token'' (AtLeast 28),
     PrefixRule ''SG'' ''sendgrid_api_key'' ''a SendGrid API key'' (SendGrid)]"

definition matches_sendgrid :: "bytes \<Rightarrow> nat \<Rightarrow> bool" where
  "matches_sendgrid bs t \<longleftrightarrow>
     byte_at bs t = Some 46 \<and> run_len bs (t + 1) is_word_byte = 22 \<and>
     byte_at bs (t + 23) = Some 46 \<and> 16 \<le> run_len bs (t + 24) is_word_byte"

fun tail_matches :: "bytes \<Rightarrow> nat \<Rightarrow> tail \<Rightarrow> bool" where
  "tail_matches bs t (AtLeast n) = (n \<le> run_len bs t is_word_byte)"
| "tail_matches bs t (Exactly n) = (run_len bs t is_word_byte = n)"
| "tail_matches bs t (ExactlyUpper n) =
     (run_len bs t is_upper_alnum_byte = n \<and> run_len bs t is_word_byte = n)"
| "tail_matches bs t SendGrid = matches_sendgrid bs t"

definition rule_matches :: "bytes \<Rightarrow> nat \<Rightarrow> prefix_rule \<Rightarrow> bool" where
  "rule_matches bs start r \<longleftrightarrow>
     begins (drop start bs) (u (pr_prefix r)) \<and>
     tail_matches bs (start + length (pr_prefix r)) (pr_tail r)"

definition match_prefix_rule :: "bytes \<Rightarrow> nat \<Rightarrow> finding option" where
  "match_prefix_rule bs start =
     map_option (\<lambda>r. new_finding (pr_rule r) (D_Key (pr_what r) start))
       (List.find (rule_matches bs start) PREFIX_RULES)"

definition json_alg :: "bytes \<Rightarrow> bool" where
  "json_alg header =
     (case from_utf8 header of
        None \<Rightarrow> False
      | Some s \<Rightarrow> (let text = trim s
          in starts_with text [123] \<and> ends_with text [125] \<and> holds text ([34] @ u ''alg'' @ [34])))"

definition match_jwt :: "bytes \<Rightarrow> nat \<Rightarrow> nat \<Rightarrow> finding option" where
  "match_jwt bs start en =
     (if \<not> begins (drop start bs) (u ''eyJ'') then None
      else if byte_at bs en \<noteq> Some 46 then None
      else let payload = en + 1; payload_len = run_len bs payload is_word_byte
        in if payload_len < 8 then None
           else let dot = payload + payload_len
             in if byte_at bs dot \<noteq> Some 46 then None
                else let signature_len = run_len bs (dot + 1) is_word_byte
                  in if signature_len < 20 then None
                     else case decode_base64url (bslice bs start en) of
                       None \<Rightarrow> None
                     | Some header \<Rightarrow>
                         if \<not> json_alg header then None
                         else Some (new_finding ''jwt'' (D_Jwt start (dot + 1 + signature_len - start))))"

definition MIN_TOKEN_LEN :: nat where "MIN_TOKEN_LEN = 32"
definition MAX_TOKEN_LEN :: nat where "MAX_TOKEN_LEN = 128"
definition MAX_REPEAT_RUN :: nat where "MAX_REPEAT_RUN = 4"
definition MIN_CASE_SHARE :: nat where "MIN_CASE_SHARE = 5"
definition MIN_HEX_CREDENTIAL_LEN :: nat where "MIN_HEX_CREDENTIAL_LEN = 48"
definition HEX_ANCHOR_WINDOW :: nat where "HEX_ANCHOR_WINDOW = 40"

definition PUBLISHABLE_PREFIXES :: "string list" where
  "PUBLISHABLE_PREFIXES = [''pk_live_'', ''pk_test_'', ''pub_'']"

definition HEX_ANCHOR_WORDS :: "string list" where
  "HEX_ANCHOR_WORDS = [''token'', ''bearer'', ''secret'', ''password'', ''passwd'', ''credential'', ''kek'',
     ''api_key'', ''api-key'', ''apikey'']"

definition HEX_DIGEST_WORDS :: "string list" where
  "HEX_DIGEST_WORDS = [''sha256'', ''sha-256'', ''sha1'', ''sha-1'', ''sha512'', ''digest'', ''checksum'',
     ''commit'', ''hash'']"

definition is_uniform_hex :: "bytes \<Rightarrow> bool" where
  "is_uniform_hex token \<longleftrightarrow>
     list_all (\<lambda>b. is_ascii_digit b \<or> 97 \<le> b \<and> b \<le> 102) token \<or>
     list_all (\<lambda>b. is_ascii_digit b \<or> 65 \<le> b \<and> b \<le> 70) token"

definition hex_window :: "bytes \<Rightarrow> nat \<Rightarrow> nat \<Rightarrow> bytes" where
  "hex_window bs start en =
     to_ascii_lowercase (bslice bs (start - HEX_ANCHOR_WINDOW) start @
                         bslice bs en (min (en + HEX_ANCHOR_WINDOW) (length bs)))"

definition match_hex_credential :: "bytes \<Rightarrow> nat \<Rightarrow> nat \<Rightarrow> finding option" where
  "match_hex_credential bs start en =
     (let token = bslice bs start en
      in if length token < MIN_HEX_CREDENTIAL_LEN \<or> \<not> is_uniform_hex token then None
         else let window = hex_window bs start en
           in if list_ex (\<lambda>w. holds window (u w)) HEX_DIGEST_WORDS then None
              else map_option (\<lambda>w. new_finding ''hex_credential'' (D_Hex (length token) w start))
                     (List.find (\<lambda>w. holds window (u w)) HEX_ANCHOR_WORDS))"

section \<open>Pasted blocks and entropy\<close>

definition close_block :: "(nat \<times> nat \<times> nat) option \<Rightarrow> (nat \<times> nat) list \<Rightarrow> (nat \<times> nat) list" where
  "close_block block spans =
     (case block of
        None \<Rightarrow> spans
      | Some (start, en, wide_lines) \<Rightarrow> if 3 \<le> wide_lines then spans @ [(start, en)] else spans)"

lemma pos_or_end_ge: "i \<le> length bs \<Longrightarrow> i \<le> pos_or_end p bs i"
  by (simp add: pos_or_end_def split: option.splits)

lemma position_bound: "position p bs = Some k \<Longrightarrow> k < length bs"
  by (induction bs arbitrary: k) (auto split: if_splits)

lemma pos_or_end_le: "i \<le> length bs \<Longrightarrow> pos_or_end p bs i \<le> length bs"
  using position_bound[of p "drop i bs"] by (auto simp: pos_or_end_def split: option.splits)

function blob_loop ::
    "bytes \<Rightarrow> nat \<Rightarrow> (nat \<times> nat \<times> nat) option \<Rightarrow> (nat \<times> nat) list \<Rightarrow> (nat \<times> nat) list" where
  "blob_loop bs line_start block spans =
     (let line_end = pos_or_end (\<lambda>b. b = 10) bs line_start;
          line = trim_ascii (bslice bs line_start line_end);
          encoded = (line \<noteq> [] \<and> list_all is_base64ish_byte line);
          wide = (if 60 \<le> length line then 1 else 0);
          block' = (if encoded then Some (case block of
                        Some (start, _, wide_lines) \<Rightarrow> (start, line_end, wide_lines + wide)
                      | None \<Rightarrow> (line_start, line_end, wide))
                    else None);
          spans' = (if encoded then spans else close_block block spans)
      in if line_end = length bs \<or> length bs < line_start then close_block block' spans'
         else blob_loop bs (line_end + 1) block' spans')"
  by auto
termination
proof (relation "measure (\<lambda>(bs, i, _, _). Suc (length bs) - i)", simp, goal_cases)
  case (1 bs i block spans)
  note b = pos_or_end_ge[of i bs "\<lambda>b. b = 10"] pos_or_end_le[of i bs "\<lambda>b. b = 10"]
  from 1 have "i \<le> length bs" by simp
  with 1 b show ?case by simp
qed

declare blob_loop.simps [simp del]

definition blob_spans :: "bytes \<Rightarrow> (nat \<times> nat) list" where
  "blob_spans bs = blob_loop bs 0 None []"

definition flanked :: "nat \<Rightarrow> bool" where "flanked b \<longleftrightarrow> b \<in> {43, 47, 61}"

definition match_high_entropy :: "bytes \<Rightarrow> nat \<Rightarrow> nat \<Rightarrow> finding option" where
  "match_high_entropy bs start en =
     (let token = bslice bs start en; len = length token
      in if \<not> (MIN_TOKEN_LEN \<le> len \<and> len \<le> MAX_TOKEN_LEN) then None
         else if 0 < start \<and> flanked (bs ! (start - 1)) then None
         else if en < length bs \<and> flanked (bs ! en) then None
         else if list_ex (\<lambda>p. begins token (u p)) PUBLISHABLE_PREFIXES then None
         else let lower = length (filter is_ascii_lowercase token);
                  upper = length (filter is_ascii_uppercase token)
           in if \<not> list_ex is_ascii_digit token then None
              else if lower * MIN_CASE_SHARE < len \<or> upper * MIN_CASE_SHARE < len then None
              else if MAX_REPEAT_RUN \<le> longest_repeat token then None
              else if low_entropy token then None
              else if list_ex (\<lambda>(a, b). a \<le> start \<and> start < b) (blob_spans bs) then None
              else Some (new_finding ''high_entropy_token'' (D_Entropy len start)))"

section \<open>The walk\<close>

definition or_else :: "'a option \<Rightarrow> 'a option \<Rightarrow> 'a option" where
  "or_else a b = (case a of None \<Rightarrow> b | Some x \<Rightarrow> Some x)"

lemma run_len_pos: "\<not> length bs \<le> i \<Longrightarrow> p (bs ! i) \<Longrightarrow> 0 < run_len bs i p"
  by (simp add: run_len_def Cons_nth_drop_Suc[symmetric])

lemma run_len_step:
  "\<not> length bs \<le> i \<Longrightarrow> p (bs ! i) \<Longrightarrow> length bs - (i + run_len bs i p) < length bs - i"
  using run_len_pos[of bs i p] by linarith

function token_loop ::
    "bytes \<Rightarrow> nat \<Rightarrow> finding option \<Rightarrow> finding option \<Rightarrow> finding option \<Rightarrow> finding option" where
  "token_loop bs i jwt_hit hex_hit entropy_hit =
     (if length bs \<le> i then or_else jwt_hit (or_else hex_hit entropy_hit)
      else if \<not> is_word_byte (bs ! i) then token_loop bs (i + 1) jwt_hit hex_hit entropy_hit
      else let en = i + run_len bs i is_word_byte
        in case match_prefix_rule bs i of
             Some hit \<Rightarrow> Some hit
           | None \<Rightarrow> token_loop bs en (or_else jwt_hit (match_jwt bs i en))
                      (or_else hex_hit (match_hex_credential bs i en))
                      (or_else entropy_hit (match_high_entropy bs i en)))"
  by auto
termination
  by (relation "measure (\<lambda>(bs, i, _, _, _). length bs - i)") (auto simp: run_len_step)

declare token_loop.simps [simp del]

definition scan_tokens :: "bytes \<Rightarrow> finding option" where
  "scan_tokens bs = token_loop bs 0 None None None"

definition tripwire_scan :: "str \<Rightarrow> finding option" where
  "tripwire_scan content =
     (let bs = utf8 content
      in or_else (scan_private_key_header bs) (or_else (scan_connection_string bs) (scan_tokens bs)))"

section \<open>What the scan finds\<close>

text \<open>A maximal run of token bytes starts here, and the four rules that look at it.\<close>

definition run_start :: "bytes \<Rightarrow> nat \<Rightarrow> bool" where
  "run_start bs i \<longleftrightarrow> i < length bs \<and> is_word_byte (bs ! i) \<and> (i = 0 \<or> \<not> is_word_byte (bs ! (i - 1)))"

definition run_end :: "bytes \<Rightarrow> nat \<Rightarrow> nat" where
  "run_end bs i = i + run_len bs i is_word_byte"

definition run_hit :: "bytes \<Rightarrow> nat \<Rightarrow> bool" where
  "run_hit bs i \<longleftrightarrow>
     (\<exists>r \<in> set PREFIX_RULES. rule_matches bs i r) \<or> match_jwt bs i (run_end bs i) \<noteq> None \<or>
     match_hex_credential bs i (run_end bs i) \<noteq> None \<or> match_high_entropy bs i (run_end bs i) \<noteq> None"

lemma or_else_None [simp]: "or_else a b = None \<longleftrightarrow> a = None \<and> b = None"
  by (cases a) (simp_all add: or_else_def)

lemma match_prefix_None: "match_prefix_rule bs i = None \<longleftrightarrow> \<not> (\<exists>r \<in> set PREFIX_RULES. rule_matches bs i r)"
  by (auto simp: match_prefix_rule_def find_None_iff)

lemma run_len_in: "k < run_len bs i p \<Longrightarrow> i + k < length bs \<and> p (bs ! (i + k))"
proof -
  assume k: "k < run_len bs i p"
  let ?w = "takeWhile p (drop i bs)"
  have "length ?w \<le> length bs - i" using length_takeWhile_le[of p "drop i bs"] by simp
  moreover have "?w ! k = drop i bs ! k" using k takeWhile_nth by (simp add: run_len_def)
  moreover have "p (?w ! k)" using k set_takeWhileD nth_mem by (fastforce simp: run_len_def)
  ultimately show ?thesis using k by (simp add: run_len_def)
qed

lemma run_len_end: "i + run_len bs i p < length bs \<Longrightarrow> \<not> p (bs ! (i + run_len bs i p))"
  using nth_length_takeWhile[of p "drop i bs"] by (simp add: run_len_def)

lemma run_inside: "i \<le> k \<Longrightarrow> k < run_end bs i \<Longrightarrow> k < length bs \<and> is_word_byte (bs ! k)"
  using run_len_in[of "k - i" bs i is_word_byte] by (simp add: run_end_def)

lemma run_start_skip: "i < k \<Longrightarrow> k < run_end bs i \<Longrightarrow> \<not> run_start bs k"
  using run_inside[of i "k - 1" bs] by (auto simp: run_start_def)

lemma token_loop_hits:
  "j = 0 \<or> length bs \<le> j \<or> \<not> is_word_byte (bs ! (j - 1)) \<or> \<not> is_word_byte (bs ! j) \<Longrightarrow>
   token_loop bs j a b c = None \<longleftrightarrow>
     a = None \<and> b = None \<and> c = None \<and> \<not> (\<exists>i \<ge> j. run_start bs i \<and> run_hit bs i)"
proof (induction bs j a b c rule: token_loop.induct)
  case (1 bs j a b c)
  consider (done_) "length bs \<le> j" | (skip) "j < length bs" "\<not> is_word_byte (bs ! j)"
    | (run) "j < length bs" "is_word_byte (bs ! j)" by linarith
  then show ?case
  proof cases
    case done_
    then show ?thesis by (subst token_loop.simps) (auto simp: run_start_def)
  next
    case skip
    have "(\<exists>i \<ge> j. run_start bs i \<and> run_hit bs i) \<longleftrightarrow> (\<exists>i \<ge> j + 1. run_start bs i \<and> run_hit bs i)"
      using skip by (metis Suc_eq_plus1 Suc_leD le_antisym not_less_eq_eq run_start_def)
    then show ?thesis using 1(1) skip by (subst token_loop.simps) simp
  next
    case run
    let ?e = "run_end bs j"
    have st: "run_start bs j" using run 1(3) by (auto simp: run_start_def)
    have le: "j < ?e" using run_len_pos[of bs j is_word_byte] run by (simp add: run_end_def)
    have split: "(\<exists>i \<ge> j. run_start bs i \<and> run_hit bs i) \<longleftrightarrow>
        run_hit bs j \<or> (\<exists>i \<ge> ?e. run_start bs i \<and> run_hit bs i)"
      using st le run_start_skip[of j _ bs] by (metis leI le_trans less_imp_le_nat nat_less_le order_refl)
    have bd: "?e = 0 \<or> length bs \<le> ?e \<or> \<not> is_word_byte (bs ! (?e - 1)) \<or> \<not> is_word_byte (bs ! ?e)"
      using run_len_end[of j bs is_word_byte] by (auto simp: run_end_def)
    show ?thesis
    proof (cases "match_prefix_rule bs j")
      case None
      have "token_loop bs j a b c = token_loop bs ?e (or_else a (match_jwt bs j ?e))
          (or_else b (match_hex_credential bs j ?e)) (or_else c (match_high_entropy bs j ?e))"
        using run None by (subst token_loop.simps) (simp add: run_end_def Let_def)
      moreover have "run_hit bs j \<longleftrightarrow> match_jwt bs j ?e \<noteq> None \<or>
          match_hex_credential bs j ?e \<noteq> None \<or> match_high_entropy bs j ?e \<noteq> None"
        using None by (simp add: run_hit_def match_prefix_None)
      ultimately show ?thesis
        using 1(2)[OF _ _ _ None, of ?e] run bd unfolding split by (auto simp: run_end_def)
    next
      case (Some hit)
      have "token_loop bs j a b c = Some hit" using run Some by (subst token_loop.simps) simp
      moreover have "run_hit bs j" using Some match_prefix_None[of bs j] by (simp add: run_hit_def)
      ultimately show ?thesis unfolding split by simp
    qed
  qed
qed

lemma scan_tokens_iff: "scan_tokens bs \<noteq> None \<longleftrightarrow> (\<exists>i. run_start bs i \<and> run_hit bs i)"
  using token_loop_hits[of 0 bs None None None] by (simp add: scan_tokens_def)

lemma first_some_None: "first_some f xs = None \<longleftrightarrow> (\<forall>x \<in> set xs. f x = None)"
  by (induction xs) (auto split: option.splits)

lemma scan_connection_iff: "scan_connection_string bs \<noteq> None \<longleftrightarrow> (\<exists>i < length bs. connection_at bs i \<noteq> None)"
  by (auto simp: scan_connection_string_def first_some_None)

lemma find_at_Some: "needle \<noteq> [] \<Longrightarrow> find_at needle bs = Some k \<Longrightarrow>
    begins (drop k bs) needle \<and> (\<forall>j < k. \<not> begins (drop j bs) needle)"
proof (induction bs arbitrary: k)
  case (Cons b bs)
  show ?case
  proof (cases "begins (b # bs) needle")
    case False
    then obtain k' where k: "find_at needle bs = Some k'" "k = Suc k'" using Cons.prems by auto
    from Cons.IH[OF Cons.prems(1) k(1)] False show ?thesis unfolding k(2)
      by (auto simp: less_Suc_eq_0_disj)
  qed (use Cons.prems in auto)
qed simp

lemma find_at_None: "needle \<noteq> [] \<Longrightarrow> find_at needle bs = None \<longleftrightarrow> (\<forall>j. \<not> begins (drop j bs) needle)"
proof (induction bs)
  case Nil
  then show ?case by (simp add: begins_def)
next
  case (Cons b bs)
  have "(\<forall>j. \<not> begins (drop j (b # bs)) needle) \<longleftrightarrow>
      \<not> begins (b # bs) needle \<and> (\<forall>j. \<not> begins (drop j bs) needle)"
    by (metis drop0 drop_Suc_Cons not0_implies_Suc)
  then show ?case using Cons by simp
qed

lemma begins_short: "begins bs needle \<Longrightarrow> length needle \<le> length bs"
proof -
  assume "begins bs needle"
  then have "length (take (length needle) bs) = length needle" by (simp add: begins_def)
  then show ?thesis by simp
qed

lemma find_bytes_Some: "find_bytes bs needle = Some k \<Longrightarrow>
    begins (drop k bs) needle \<and> (\<forall>j < k. \<not> begins (drop j bs) needle)"
  by (auto simp: find_bytes_def find_at_Some split: if_splits)

lemma find_bytes_None: "needle \<noteq> [] \<Longrightarrow> find_bytes bs needle = None \<longleftrightarrow> (\<forall>j. \<not> begins (drop j bs) needle)"
proof (cases "length bs < length needle")
  case True
  then have "\<not> begins (drop j bs) needle" for j using begins_short[of "drop j bs" needle] by auto
  then show ?thesis using True by (simp add: find_bytes_def)
qed (simp add: find_bytes_def find_at_None)

text \<open>A line from a \<open>-----BEGIN\<close> marker on, that says PRIVATE KEY.\<close>

definition pem_at :: "bytes \<Rightarrow> nat \<Rightarrow> bool" where
  "pem_at bs start \<longleftrightarrow>
     begins (drop start bs) BEGIN \<and>
     holds (bslice bs start (pos_or_end (\<lambda>b. b = 10) bs start)) (u ''PRIVATE KEY'')"

lemma BEGIN_length: "length BEGIN = 11" by (simp add: BEGIN_def)

lemma BEGIN_no_overlap:
  assumes "begins (drop i bs) BEGIN" "begins (drop j bs) BEGIN" "i < j"
  shows "i + 11 \<le> j"
proof (rule ccontr)
  assume "\<not> i + 11 \<le> j"
  then have d: "j = i + (j - i)" "0 < j - i" "j - i < 11" using assms(3) by simp_all
  define d where "d = j - i"
  note d = d[folded d_def]
  have nth: "drop k bs ! m = BEGIN ! m" if "begins (drop k bs) BEGIN" "m < 11" for k m
  proof -
    have "take 11 (drop k bs) = BEGIN" using that(1) by (simp add: begins_def BEGIN_length)
    moreover have "take 11 (drop k bs) ! m = drop k bs ! m" using that(2) by (rule nth_take)
    ultimately show ?thesis by simp
  qed
  have len: "i + 11 \<le> length bs" using begins_short[OF assms(1)] BEGIN_length by simp
  have eq: "BEGIN ! m = BEGIN ! (d + m)" if "d + m < 11" for m
  proof -
    have "i + (d + m) < length bs" using that len by linarith
    then have "drop j bs ! m = bs ! (i + (d + m))" "drop i bs ! (d + m) = bs ! (i + (d + m))"
      unfolding d(1) by (simp_all add: add.assoc)
    moreover have "m < 11" using that by linarith
    ultimately show ?thesis using nth[OF assms(2)] nth[OF assms(1) that] by metis
  qed
  have "\<forall>d < 11. 0 < d \<longrightarrow> (\<exists>m < 11 - d. BEGIN ! m \<noteq> BEGIN ! (d + m))" by code_simp
  with d obtain m where "m < 11 - d" "BEGIN ! m \<noteq> BEGIN ! (d + m)" by blast
  then show False using eq[of m] by simp
qed

lemma pem_loop_iff: "pem_loop bs i \<noteq> None \<longleftrightarrow> (\<exists>start \<ge> i. pem_at bs start)"
proof (induction bs i rule: pem_loop.induct)
  case (1 bs i)
  have ne: "BEGIN \<noteq> []" using BEGIN_length by auto
  show ?case
  proof (cases "find_bytes (drop i bs) BEGIN")
    case None
    then have "\<not> begins (drop start bs) BEGIN" if "i \<le> start" for start
      using find_bytes_None[OF ne, of "drop i bs"] that by (metis drop_drop le_add_diff_inverse2)
    then show ?thesis using None by (subst pem_loop.simps) (auto simp: pem_at_def)
  next
    case (Some k)
    let ?s = "i + k" and ?line = "bslice bs (i + k) (pos_or_end (\<lambda>b. b = 10) bs (i + k))"
    have b: "begins (drop ?s bs) BEGIN" and first: "\<not> begins (drop j bs) BEGIN" if "i \<le> j" "j < ?s" for j
      using find_bytes_Some[OF Some] that
      by (auto simp: add.commute) (metis add.commute le_add_diff_inverse less_diff_conv2 nat_add_left_cancel_less)
    show ?thesis
    proof (cases "holds ?line (u ''PRIVATE KEY'')")
      case True
      moreover have "begins (drop ?s bs) BEGIN" using find_bytes_Some[OF Some] by (simp add: add.commute)
      ultimately have "pem_at bs ?s" by (simp add: pem_at_def)
      then show ?thesis using Some True by (subst pem_loop.simps) (auto simp: Let_def intro: exI[of _ ?s] simp del: u_Cons)
    next
      case False
      have bs: "begins (drop ?s bs) BEGIN" using find_bytes_Some[OF Some] by (simp add: add.commute)
      have "(\<exists>start \<ge> i. pem_at bs start) \<longleftrightarrow> (\<exists>start \<ge> ?s + length BEGIN. pem_at bs start)"
      proof
        assume "\<exists>start \<ge> i. pem_at bs start"
        then obtain st where st: "i \<le> st" "pem_at bs st" by blast
        then have "\<not> st < ?s" using first by (auto simp: pem_at_def)
        moreover have "st \<noteq> ?s" using st(2) False by (auto simp: pem_at_def)
        ultimately have "?s < st" by simp
        then have "?s + 11 \<le> st" using BEGIN_no_overlap[OF bs] st(2) by (simp add: pem_at_def)
        then show "\<exists>start \<ge> ?s + length BEGIN. pem_at bs start" using st(2) BEGIN_length by auto
      qed (meson le_add1 le_trans)
      moreover have "pem_loop bs i = pem_loop bs (?s + length BEGIN)"
        using Some False by (subst pem_loop.simps) (simp add: Let_def del: u_Cons)
      ultimately show ?thesis using 1[OF Some refl refl False] by simp
    qed
  qed
qed

lemma tripwire_iff:
  "tripwire_scan content \<noteq> None \<longleftrightarrow>
     (\<exists>start. pem_at (utf8 content) start) \<or>
     (\<exists>i < length (utf8 content). connection_at (utf8 content) i \<noteq> None) \<or>
     (\<exists>i. run_start (utf8 content) i \<and> run_hit (utf8 content) i)"
  using pem_loop_iff[of "utf8 content" 0] scan_connection_iff[of "utf8 content"] scan_tokens_iff[of "utf8 content"]
  by (auto simp: tripwire_scan_def Let_def scan_private_key_header_def simp del: not_None_eq)

text \<open>
  Property C11. A text is refused exactly when some line from a \<open>-----BEGIN\<close> marker on says PRIVATE
  KEY, or a database URL at a word boundary carries a password that is no placeholder, or some
  maximal run of token bytes is a key of a known shape, a JWT, a hex credential or a
  high-entropy token: the single pass, its early exit and its skipping forward lose nothing.
\<close>

theorem tripwire_finds:
  "tripwire_scan content \<noteq> None \<longleftrightarrow>
     (\<exists>start. pem_at (utf8 content) start) \<or>
     (\<exists>i < length (utf8 content). connection_at (utf8 content) i \<noteq> None) \<or>
     (\<exists>i. run_start (utf8 content) i \<and> run_hit (utf8 content) i)"
  by (rule tripwire_iff)

section \<open>What it leaves alone\<close>

text \<open>Lower-case hex digits, dashes, and anything that is no token byte: memory ids, git hashes and
  content hashes between spaces and punctuation are written in these.\<close>

definition quiet_byte :: "nat \<Rightarrow> bool" where
  "quiet_byte b \<longleftrightarrow> \<not> is_word_byte b \<or> is_ascii_digit b \<or> (97 \<le> b \<and> b \<le> 102) \<or> b = 45"

definition loud :: "bytes \<Rightarrow> bool" where "loud needle \<longleftrightarrow> \<not> list_all quiet_byte needle"

lemma begins_loud: "list_all quiet_byte bs \<Longrightarrow> begins (drop i bs) needle \<Longrightarrow> \<not> loud needle"
proof -
  assume q: "list_all quiet_byte bs" and b: "begins (drop i bs) needle"
  have "set needle \<subseteq> set bs"
    using b unfolding begins_def by (metis set_drop_subset set_take_subset subset_trans)
  then show ?thesis using q by (auto simp: loud_def list_all_iff)
qed

lemma loud_shapes:
  "loud BEGIN" "list_all (\<lambda>s. loud (u s)) URL_SCHEMES" "list_all (\<lambda>r. loud (u (pr_prefix r))) PREFIX_RULES"
  "loud (u ''eyJ'')"
  by code_simp+

lemma length_bslice: "length (bslice bs a b) = min (b - a) (length bs - a)"
  by (simp add: bslice_def)

lemma run_token_length: "length (bslice bs i (run_end bs i)) \<le> run_len bs i is_word_byte"
  by (simp add: length_bslice run_end_def)

lemma entropy_balance:
  "match_high_entropy bs s e \<noteq> None \<Longrightarrow> 32 \<le> length (bslice bs s e) \<and>
     length (bslice bs s e) \<le> length (filter is_ascii_uppercase (bslice bs s e)) * 5"
  by (auto simp: match_high_entropy_def Let_def MIN_TOKEN_LEN_def MIN_CASE_SHARE_def split: if_splits)

text \<open>
  The tripwire never fires on the identifiers this store is full of: a text whose
  token bytes are lower-case hex digits and dashes, in runs shorter than 48 (a memory id has 36, a
  git hash 40), is let through, whatever words of other scripts, digits or punctuation stand
  around them.
\<close>

theorem tripwire_quiet:
  assumes q: "list_all quiet_byte (utf8 content)"
    and short: "\<And>i. run_start (utf8 content) i \<Longrightarrow> run_len (utf8 content) i is_word_byte < 48"
  shows "tripwire_scan content = None"
proof -
  let ?bs = "utf8 content"
  note l = begins_loud[OF q]
  have pem: "\<not> pem_at ?bs i" for i using l loud_shapes(1) by (auto simp: pem_at_def)
  have url: "connection_at ?bs i = None" for i
  proof -
    have "List.find (\<lambda>s. begins (drop i ?bs) (u s)) URL_SCHEMES = None"
      using l loud_shapes(2) by (auto simp: find_None_iff list_all_iff)
    then show ?thesis by (simp add: connection_at_def)
  qed
  have "\<not> run_hit ?bs i" if i: "run_start ?bs i" for i
  proof -
    let ?tok = "bslice ?bs i (run_end ?bs i)"
    have len: "length ?tok < 48" using short[OF i] run_token_length[of ?bs i] by linarith
    have "set ?tok \<subseteq> set ?bs"
      unfolding bslice_def by (metis set_drop_subset set_take_subset subset_trans)
    then have up: "filter is_ascii_uppercase ?tok = []"
      using q by (fastforce simp: filter_empty_conv list_all_iff quiet_byte_def is_word_byte_def ascii_classes)
    have "match_high_entropy ?bs i (run_end ?bs i) = None"
      using up entropy_balance[of ?bs i "run_end ?bs i"] by fastforce
    moreover have "match_hex_credential ?bs i (run_end ?bs i) = None"
      using len by (simp add: match_hex_credential_def Let_def MIN_HEX_CREDENTIAL_LEN_def)
    moreover have "match_jwt ?bs i (run_end ?bs i) = None"
      using l[of i "u ''eyJ''"] loud_shapes(4) by (auto simp: match_jwt_def simp del: u_Cons)
    moreover have "\<not> rule_matches ?bs i r" if "r \<in> set PREFIX_RULES" for r
      using l loud_shapes(3) that by (auto simp: rule_matches_def list_all_iff)
    ultimately show ?thesis by (auto simp: run_hit_def)
  qed
  then show ?thesis using pem url tripwire_iff[of content] by auto
qed

lemma tripwire_quiet_witness:
  "tripwire_scan (u ''9f2a4c1e-7b3d-4f8a-9c2e-1d5b6a7c8e9f'') = None"
proof (rule tripwire_quiet)
  show "list_all quiet_byte (utf8 (u ''9f2a4c1e-7b3d-4f8a-9c2e-1d5b6a7c8e9f''))" by code_simp
  have "length (utf8 (u ''9f2a4c1e-7b3d-4f8a-9c2e-1d5b6a7c8e9f'')) = 36" by code_simp
  then show "run_len (utf8 (u ''9f2a4c1e-7b3d-4f8a-9c2e-1d5b6a7c8e9f'')) i is_word_byte < 48" for i
    using length_takeWhile_le[of is_word_byte "drop i (utf8 (u ''9f2a4c1e-7b3d-4f8a-9c2e-1d5b6a7c8e9f''))"]
    by (simp add: run_len_def del: u_Cons)
qed
end
