(* ===== verification/Lr_Sealed.thy ===== *)
theory Lr_Sealed
  imports Lr_Crypto "HOL-Library.List_Lexorder" "HOL-Library.Product_Lexorder"
begin

text \<open>
  The sealed level: the statements of \<open>src/src/adapters/postgres/sealed.rs\<close> on the table
  \<open>sealed_item\<close> of the one tenant, and the service module \<open>sealed\<close> of
  \<open>src/src/services/mod.rs\<close> that puts and gets one blob by its exact key. Standard base64 is a
  parameter; text orders by scalar value, as the \<open>C\<close> collation does.
\<close>

section \<open>The table\<close>

record sealed_row =
  sr_namespace :: str
  sr_key_hmac :: str
  sr_ciphertext :: bytes
  sr_alg :: str
  sr_source_client :: str
  sr_created_at :: instant
  sr_updated_at :: instant

record sealed_item =
  si_namespace :: str
  si_key_hmac :: str
  si_ciphertext :: str
  si_alg :: str
  si_source_client :: str
  si_created_at :: instant

definition item_from_row :: "(bytes \<Rightarrow> str) \<Rightarrow> sealed_row \<Rightarrow> sealed_item" where
  "item_from_row encode r =
     \<lparr>si_namespace = sr_namespace r, si_key_hmac = sr_key_hmac r,
      si_ciphertext = encode (sr_ciphertext r), si_alg = sr_alg r,
      si_source_client = sr_source_client r, si_created_at = sr_created_at r\<rparr>"

definition sealed_key :: "sealed_row \<Rightarrow> str \<times> str" where
  "sealed_key r = (sr_namespace r, sr_key_hmac r)"

definition sealed_insert ::
    "instant \<Rightarrow> str \<Rightarrow> str \<Rightarrow> bytes \<Rightarrow> str \<Rightarrow> str \<Rightarrow> sealed_row list \<Rightarrow> sealed_row list" where
  "sealed_insert now ns key ct alg client rows =
     (let hit = (\<lambda>r. sealed_key r = (ns, key))
      in if list_ex hit rows
         then update_where hit (\<lambda>r. r\<lparr>sr_ciphertext := ct, sr_alg := alg, sr_source_client := client,
                                      sr_updated_at := now\<rparr>) rows
         else rows @ [\<lparr>sr_namespace = ns, sr_key_hmac = key, sr_ciphertext = ct, sr_alg = alg,
                       sr_source_client = client, sr_created_at = now, sr_updated_at = now\<rparr>])"

definition sealed_find :: "str list \<Rightarrow> str \<Rightarrow> sealed_row list \<Rightarrow> sealed_row option" where
  "sealed_find nss key rows =
     (if nss = [] then None
      else case sort_key (\<lambda>r. (sr_created_at r, sr_namespace r))
                  (filter (\<lambda>r. sr_namespace r \<in> set nss \<and> sr_key_hmac r = key) rows) of
        [] \<Rightarrow> None | r # _ \<Rightarrow> Some r)"

definition sealed_delete :: "str \<Rightarrow> str \<Rightarrow> sealed_row list \<Rightarrow> bool \<times> sealed_row list" where
  "sealed_delete ns key rows =
     (list_ex (\<lambda>r. sealed_key r = (ns, key)) rows, filter (\<lambda>r. sealed_key r \<noteq> (ns, key)) rows)"

definition sealed_counts :: "str list \<Rightarrow> sealed_row list \<Rightarrow> (str \<times> nat) list" where
  "sealed_counts nss rows =
     map (\<lambda>n. (n, length (filter (\<lambda>r. sr_namespace r = n) rows)))
       (sort (remdups (filter (\<lambda>n. n \<in> set nss) (map sr_namespace rows))))"

definition sealed_namespaces :: "sealed_row list \<Rightarrow> str list" where
  "sealed_namespaces rows = sort (remdups (map sr_namespace rows))"

definition sealed_archive :: "(bytes \<Rightarrow> str) \<Rightarrow> sealed_row list \<Rightarrow> sealed_item list" where
  "sealed_archive encode rows = map (item_from_row encode) (sort_key sealed_key rows)"

section \<open>The service\<close>

definition reads_whole_store :: "principal \<Rightarrow> bool" where
  "reads_whole_store p = admits (p_read p) (u ''*'') Sealed"

definition MAX_CIPHERTEXT_CHARS :: nat where "MAX_CIPHERTEXT_CHARS = 64 * 1024"

record sealed_put =
  sp_namespace :: str
  sp_key_hmac :: str
  sp_alg :: str
  sp_bytes :: nat

record sealed_get =
  sg_item :: "sealed_item option"
  sg_decryptable :: bool
  sg_searched :: "str list"

definition no_sealed_store :: domain_error where
  "no_sealed_store = unavailable (R_Service (SF_Sealed S_NotConfigured))"

text \<open>\<open>store\<close> is \<open>None\<close> on a deployment without the sealed store.\<close>

definition put_item ::
    "(str \<Rightarrow> bytes option) \<Rightarrow> principal \<Rightarrow> instant \<Rightarrow> str \<Rightarrow> str \<Rightarrow> str \<Rightarrow> str \<Rightarrow> sealed_row list option \<Rightarrow>
     (sealed_put \<times> sealed_row list) res" where
  "put_item decode p now ns key ct_b64 alg store =
     and_then (normalize ns) (\<lambda>ns.
       if \<not> can_write p ns Sealed then Inl (forbidden (R_Service (SF_Sealed (S_MayNotWrite (p_client p) ns))))
       else let key = trim key; alg = trim alg
       in if key = [] then Inl (validation (R_Service (SF_Sealed S_EmptyKeyHmac)))
       else if alg = [] then Inl (validation (R_Service (SF_Sealed S_EmptyAlg)))
       else if str_len ct_b64 > MAX_CIPHERTEXT_CHARS
         then Inl (validation (R_Service (SF_Sealed (S_TooLong (str_len ct_b64)))))
       else case decode (trim ct_b64) of
         None \<Rightarrow> Inl (validation (R_Service (SF_Sealed S_NotBase64)))
       | Some ct \<Rightarrow>
           if ct = [] then Inl (validation (R_Service (SF_Sealed S_EmptyCiphertext)))
           else case store of
             None \<Rightarrow> Inl no_sealed_store
           | Some rows \<Rightarrow>
               Inr (\<lparr>sp_namespace = ns, sp_key_hmac = key, sp_alg = alg, sp_bytes = length ct\<rparr>,
                    sealed_insert now ns key ct alg (p_client p) rows))"

fun normalize_all :: "str list \<Rightarrow> str list res" where
  "normalize_all [] = Inr []"
| "normalize_all (n # ns) = and_then (normalize n) (\<lambda>m. and_then (normalize_all ns) (\<lambda>ms. Inr (m # ms)))"

definition named_list :: "str list option \<Rightarrow> bool" where
  "named_list requested \<longleftrightarrow> (case requested of None \<Rightarrow> False | Some ns \<Rightarrow> ns \<noteq> [])"

definition asked_sealed :: "principal \<Rightarrow> str list option \<Rightarrow> str list res" where
  "asked_sealed p requested =
     (case requested of
        Some (n # ns) \<Rightarrow> and_then (normalize_all (n # ns)) (\<lambda>out. Inr (dedupe out))
      | _ \<Rightarrow> Inr (filter (\<lambda>pat. 42 \<notin> set pat) (patterns (p_read p))))"

definition get_item ::
    "(bytes \<Rightarrow> str) \<Rightarrow> principal \<Rightarrow> str \<Rightarrow> str list option \<Rightarrow> sealed_row list option \<Rightarrow> sealed_get res" where
  "get_item encode p key requested store =
     (let key = trim key
      in if key = [] then Inl (validation (R_Service (SF_Sealed S_EmptyKeyHmac)))
         else and_then (asked_sealed p requested) (\<lambda>asked.
           let searched = filter (\<lambda>ns. can_read p ns Sealed) asked
           in if searched = []
              then Inl (if named_list requested
                        then forbidden (R_Service (SF_Sealed (S_NoneReach (p_client p))))
                        else validation (R_Service (SF_Sealed S_NameNamespace)))
              else case store of
                None \<Rightarrow> Inl no_sealed_store
              | Some rows \<Rightarrow>
                  Inr \<lparr>sg_item = map_option (item_from_row encode) (sealed_find searched key rows),
                       sg_decryptable = p_sealed_capable p, sg_searched = searched\<rparr>))"

section \<open>The table as a map\<close>

text \<open>What the table promises: at most one item per namespace and key.\<close>

definition sealed_ok :: "sealed_row list \<Rightarrow> bool" where
  "sealed_ok rows \<longleftrightarrow> distinct (map sealed_key rows)"

definition blob_of :: "sealed_row \<Rightarrow> bytes \<times> str \<times> str" where
  "blob_of r = (sr_ciphertext r, sr_alg r, sr_source_client r)"

definition sealed_map :: "sealed_row list \<Rightarrow> str \<times> str \<rightharpoonup> bytes \<times> str \<times> str" where
  "sealed_map rows = map_of (map (\<lambda>r. (sealed_key r, blob_of r)) rows)"

lemma list_ex_key: "list_ex (\<lambda>r. sealed_key r = k) rows \<longleftrightarrow> k \<in> sealed_key ` set rows"
  by (auto simp: list_ex_iff)

lemma map_key_update:
  "(\<And>r. sealed_key (f r) = sealed_key r) \<Longrightarrow> map sealed_key (update_where p f rows) = map sealed_key rows"
  by (induction rows) auto

lemma fresh_row_simps [simp]:
  "sealed_key \<lparr>sr_namespace = ns, sr_key_hmac = key, sr_ciphertext = ct, sr_alg = alg, sr_source_client = client,
     sr_created_at = t, sr_updated_at = t'\<rparr> = (ns, key)"
  "blob_of \<lparr>sr_namespace = ns, sr_key_hmac = key, sr_ciphertext = ct, sr_alg = alg, sr_source_client = client,
     sr_created_at = t, sr_updated_at = t'\<rparr> = (ct, alg, client)"
  by (simp_all add: sealed_key_def blob_of_def)

lemma edited_row_simps [simp]:
  "sealed_key (r\<lparr>sr_ciphertext := ct, sr_alg := alg, sr_source_client := client, sr_updated_at := t\<rparr>) = sealed_key r"
  "blob_of (r\<lparr>sr_ciphertext := ct, sr_alg := alg, sr_source_client := client, sr_updated_at := t\<rparr>) = (ct, alg, client)"
  by (simp_all add: sealed_key_def blob_of_def)

lemma sealed_insert_ok: "sealed_ok rows \<Longrightarrow> sealed_ok (sealed_insert now ns key ct alg client rows)"
  by (simp add: sealed_ok_def sealed_insert_def Let_def list_ex_key map_key_update)

lemma sealed_delete_ok: "sealed_ok rows \<Longrightarrow> sealed_ok (snd (sealed_delete ns key rows))"
  by (auto simp: sealed_ok_def sealed_delete_def distinct_map inj_on_def)

lemma map_of_update_hit:
  assumes "\<And>r. sealed_key (f r) = sealed_key r" "\<And>r. blob_of (f r) = b"
  shows "sealed_map (update_where (\<lambda>r. sealed_key r = k) f rows) =
     (if k \<in> sealed_key ` set rows then (sealed_map rows)(k \<mapsto> b) else sealed_map rows)"
  by (induction rows) (auto simp: sealed_map_def assms fun_upd_twist)

lemma sealed_map_snoc:
  "sealed_map (rows @ [r]) = (if sealed_key r \<in> sealed_key ` set rows then sealed_map rows
     else (sealed_map rows)(sealed_key r \<mapsto> blob_of r))"
  by (induction rows) (auto simp: sealed_map_def fun_upd_twist)

lemma sealed_map_insert:
  "sealed_map (sealed_insert now ns key ct alg client rows) = (sealed_map rows)((ns, key) \<mapsto> (ct, alg, client))"
proof -
  let ?f = "\<lambda>r. r\<lparr>sr_ciphertext := ct, sr_alg := alg, sr_source_client := client, sr_updated_at := now\<rparr>"
  have "sealed_map (update_where (\<lambda>r. sealed_key r = (ns, key)) ?f rows) =
     (if (ns, key) \<in> sealed_key ` set rows then (sealed_map rows)((ns, key) \<mapsto> (ct, alg, client)) else sealed_map rows)"
    by (rule map_of_update_hit) simp_all
  then show ?thesis by (simp add: sealed_insert_def Let_def list_ex_key sealed_map_snoc)
qed

lemma sealed_map_delete:
  "sealed_map (snd (sealed_delete ns key rows)) = (sealed_map rows)((ns, key) := None)"
  by (induction rows) (auto simp: sealed_map_def sealed_delete_def fun_upd_twist)

lemma sealed_find_Some:
  assumes "sealed_find nss key rows = Some r"
  shows "r \<in> set rows" "sr_namespace r \<in> set nss" "sr_key_hmac r = key"
    and "\<And>r'. r' \<in> set rows \<Longrightarrow> sr_namespace r' \<in> set nss \<Longrightarrow> sr_key_hmac r' = key \<Longrightarrow>
       (sr_created_at r, sr_namespace r) \<le> (sr_created_at r', sr_namespace r')"
proof -
  let ?k = "\<lambda>r. (sr_created_at r, sr_namespace r)"
  let ?c = "filter (\<lambda>r. sr_namespace r \<in> set nss \<and> sr_key_hmac r = key) rows"
  obtain rest where s: "sort_key ?k ?c = r # rest"
    using assms by (auto simp: sealed_find_def split: if_splits list.splits)
  have m: "set ?c = insert r (set rest)" using arg_cong[OF s, of set] by simp
  then have "r \<in> set ?c" by simp
  then show "r \<in> set rows" "sr_namespace r \<in> set nss" "sr_key_hmac r = key" by simp_all
  have "sorted (map ?k (r # rest))" using sorted_sort_key[of ?k ?c] s by simp
  then show "?k r \<le> ?k r'" if "r' \<in> set rows" "sr_namespace r' \<in> set nss" "sr_key_hmac r' = key" for r'
    using m that by auto
qed

lemma sealed_find_None:
  "sealed_find nss key rows = None \<longleftrightarrow> (\<forall>r \<in> set rows. sr_namespace r \<in> set nss \<longrightarrow> sr_key_hmac r \<noteq> key)"
proof -
  let ?c = "filter (\<lambda>r. sr_namespace r \<in> set nss \<and> sr_key_hmac r = key) rows"
  have "sort_key (\<lambda>r. (sr_created_at r, sr_namespace r)) ?c = [] \<longleftrightarrow> ?c = []"
    by (simp only: set_empty[symmetric] set_sort)
  then have "sealed_find nss key rows = None \<longleftrightarrow> nss = [] \<or> ?c = []"
    unfolding sealed_find_def by (cases "sort_key (\<lambda>r. (sr_created_at r, sr_namespace r)) ?c") auto
  then show ?thesis by (auto simp: filter_empty_conv)
qed

lemma sealed_map_row: "sealed_ok rows \<Longrightarrow> r \<in> set rows \<Longrightarrow> sealed_map rows (sealed_key r) = Some (blob_of r)"
  unfolding sealed_map_def sealed_ok_def by (rule map_of_is_SomeI) (auto simp: o_def)

lemma sealed_map_Some:
  "sealed_map rows k = Some b \<Longrightarrow> \<exists>r \<in> set rows. sealed_key r = k \<and> blob_of r = b"
  unfolding sealed_map_def by (auto dest!: map_of_SomeD)

section \<open>What a put and a get promise\<close>

lemma put_item_Inr:
  assumes "put_item decode p now ns key ct_b64 alg store = Inr (put, rows')"
  obtains rows n ct where "store = Some rows" "normalize ns = Inr n" "can_write p n Sealed"
    "decode (trim ct_b64) = Some ct" "ct \<noteq> []" "trim key \<noteq> []" "trim alg \<noteq> []"
    "put = \<lparr>sp_namespace = n, sp_key_hmac = trim key, sp_alg = trim alg, sp_bytes = length ct\<rparr>"
    "rows' = sealed_insert now n (trim key) ct (trim alg) (p_client p) rows"
  using assms by (auto simp: put_item_def and_then_Inr Let_def split: if_splits option.splits)

lemma get_item_Inr:
  assumes "get_item encode p key requested (Some rows) = Inr got"
  shows "\<forall>n \<in> set (sg_searched got). can_read p n Sealed"
    and "sg_item got = map_option (item_from_row encode) (sealed_find (sg_searched got) (trim key) rows)"
proof -
  from assms obtain asked where "got = (let searched = filter (\<lambda>ns. can_read p ns Sealed) asked
      in \<lparr>sg_item = map_option (item_from_row encode) (sealed_find searched (trim key) rows),
          sg_decryptable = p_sealed_capable p, sg_searched = searched\<rparr>)"
    by (auto simp: get_item_def and_then_Inr Let_def split: if_splits)
  then show "\<forall>n \<in> set (sg_searched got). can_read p n Sealed"
    "sg_item got = map_option (item_from_row encode) (sealed_find (sg_searched got) (trim key) rows)"
    by (simp_all add: Let_def)
qed


text \<open>The other way round the calls compose: what one client sealed, another opens unchanged.\<close>

definition sample_hex :: "str \<Rightarrow> bytes option" where
  "sample_hex s = (if list_all (\<lambda>c. c < 256) s then Some s else None)"

definition sample_sealer :: principal where
  "sample_sealer = (empty_principal (u ''cli''))
     \<lparr>p_read := [grant_new (u ''credentials:aws'') Sealed], p_write := [grant_new (u ''credentials:aws'') Sealed]\<rparr>"

end
