(* ===== verification/Lr_Forget.thy ===== *)
theory Lr_Forget
  imports Lr_Sealed
begin

text \<open>
  Deleting: \<open>src/src/services/forget.rs\<close>. A delete plans the chain edits from the doomed row's
  neighbours under the caller's grants and hands the plan to the store, one transaction per row;
  a query delete plans each row just before it goes. The search that proposes rows, the embedder,
  and the failures a database connection may raise between two rows are parameters. The audit
  lines of \<open>record\<close> are a list in the state. The \<open>text\<close> of an outcome is rendering and is left out.
\<close>

section \<open>Outcomes\<close>

definition PREVIEW_CHARS :: nat where "PREVIEW_CHARS = 140"
definition MAX_QUERY_DELETES :: int where "MAX_QUERY_DELETES = 25"

datatype doomed_id = RowId nat | KeyHmac str

record doomed =
  do_id :: doomed_id
  do_namespace :: str
  do_sensitivity :: sensitivity
  do_source_client :: str
  do_created_at :: "instant option"
  do_preview :: str
  do_similarity :: "real option"

record edits =
  ed_revived :: "nat list"
  ed_spliced :: "nat list"

record forget_outcome =
  fo_dry_run :: bool
  fo_rows :: "doomed list"
  fo_consequences :: "str list"
  fo_revived :: "nat list"
  fo_spliced :: "nat list"
  fo_blocked :: "nat list"

datatype audit = DeletedRow doomed | RevivedRow nat | SplicedRow nat

definition no_edits :: edits where
  "no_edits = \<lparr>ed_revived = [], ed_spliced = []\<rparr>"

definition edits_planned :: "delete_plan \<Rightarrow> edits" where
  "edits_planned plan = \<lparr>ed_revived = dp_revive plan, ed_spliced = []\<rparr>"

definition edits_from_chain :: "chain_edits \<Rightarrow> edits" where
  "edits_from_chain e = \<lparr>ed_revived = ce_revived e, ed_spliced = ce_spliced e\<rparr>"

definition edits_extend :: "edits \<Rightarrow> edits \<Rightarrow> edits" where
  "edits_extend a b =
     \<lparr>ed_revived = ed_revived a @ ed_revived b, ed_spliced = ed_spliced a @ ed_spliced b\<rparr>"

definition consequences :: "doomed list \<Rightarrow> str list" where
  "consequences rows =
     (let has = (\<lambda>l. list_ex (\<lambda>r. do_sensitivity r = l) rows)
      in (if has Open
          then [u ''open: the row goes. A plaintext backup taken before now still contains it.''] else []) @
         (if has Private
          then [u ''private: the wrapped DEK goes with the row, so the ciphertext in any older backup is already unreadable.'']
          else []) @
         (if has Sealed
          then [u ''sealed: this removes the only copy. The server holds no key and cannot help recover it.'']
          else []))"

definition outcome :: "bool \<Rightarrow> doomed list \<Rightarrow> edits \<Rightarrow> nat list \<Rightarrow> forget_outcome" where
  "outcome dry rows e blocked =
     \<lparr>fo_dry_run = dry, fo_rows = rows, fo_consequences = consequences rows,
      fo_revived = ed_revived e, fo_spliced = ed_spliced e, fo_blocked = blocked\<rparr>"

fun join_space :: "str list \<Rightarrow> str" where
  "join_space [] = []"
| "join_space [w] = w"
| "join_space (w # ws) = w @ [32] @ join_space ws"

definition preview :: "str \<Rightarrow> str" where
  "preview content =
     (let flat = join_space (split_whitespace content)
      in if flat = [] then u ''(encrypted; this server could not read it)''
         else if length flat \<le> PREVIEW_CHARS then flat
         else take PREVIEW_CHARS flat @ [8230])"

definition to_doomed :: "memory \<Rightarrow> real option \<Rightarrow> doomed" where
  "to_doomed m sim =
     \<lparr>do_id = RowId (m_id m), do_namespace = m_namespace m, do_sensitivity = m_sensitivity m,
      do_source_client = m_source_client m, do_created_at = Some (m_created_at m),
      do_preview = preview (m_content m), do_similarity = sim\<rparr>"

definition audit_lines :: "doomed list \<Rightarrow> edits \<Rightarrow> audit list" where
  "audit_lines rows e = map DeletedRow rows @ map RevivedRow (ed_revived e) @ map SplicedRow (ed_spliced e)"

section \<open>The plan\<close>

datatype plan = PlanApply delete_plan | PlanBlocked

definition reaches :: "principal \<Rightarrow> chain_link \<Rightarrow> bool" where
  "reaches p link \<longleftrightarrow>
     can_read p (li_namespace link) (li_sensitivity link) \<and> can_write p (li_namespace link) (li_sensitivity link)"

definition deletable :: "principal \<Rightarrow> memory \<Rightarrow> bool" where
  "deletable p m \<longleftrightarrow>
     can_read p (m_namespace m) (m_sensitivity m) \<and> can_write p (m_namespace m) (m_sensitivity m)"

fun plan_revivals :: "principal \<Rightarrow> chain_link list \<Rightarrow> nat list \<Rightarrow> plan" where
  "plan_revivals p [] revive = PlanApply \<lparr>dp_revive = revive, dp_splice_to = None\<rparr>"
| "plan_revivals p (l # ls) revive =
     (if \<not> reaches p l then PlanBlocked else plan_revivals p ls (revive @ [li_id l]))"

definition plan_for :: "principal \<Rightarrow> chain_neighbours \<Rightarrow> plan" where
  "plan_for p n =
     (case ch_row n of
        None \<Rightarrow> PlanApply \<lparr>dp_revive = [], dp_splice_to = None\<rparr>
      | Some (_, Some successor) \<Rightarrow> PlanApply \<lparr>dp_revive = [], dp_splice_to = Some successor\<rparr>
      | Some (_, None) \<Rightarrow> plan_revivals p (ch_predecessors n) [])"

section \<open>The service\<close>

record 'v forget_ctx =
  fc_principal :: principal
  fc_ring :: key_ring
  fc_gcm :: aes_gcm
  fc_uuid :: "str \<Rightarrow> nat option"
  fc_conflict :: "real res"
  fc_embed :: "str \<Rightarrow> 'v res"
  fc_search :: "namespace_ceiling list \<Rightarrow> 'v \<Rightarrow> str \<Rightarrow> int \<Rightarrow> ('v, sealed_content) mem_db \<Rightarrow> (memory \<times> real) list res"
  fc_read_fails :: "nat \<Rightarrow> domain_error option"
  fc_delete_fails :: "nat \<Rightarrow> domain_error option"

record 'v forget_state =
  fs_db :: "('v, sealed_content) mem_db"
  fs_sealed :: "sealed_row list option"
  fs_log :: "audit list"

definition assert_may_delete :: "'v forget_ctx \<Rightarrow> unit res" where
  "assert_may_delete ctx =
     (if p_may_delete (fc_principal ctx) then Inr ()
      else Inl (forbidden (R_Service (SF_Forget (F_MayNotDelete (p_client (fc_principal ctx)))))))"

definition not_yours :: "str \<Rightarrow> domain_error" where
  "not_yours i = not_found (R_Service (SF_Forget (F_NotYours i)))"

definition plan_row :: "'v forget_ctx \<Rightarrow> ('v, sealed_content) mem_db \<Rightarrow> nat \<Rightarrow> plan res" where
  "plan_row ctx db i =
     (case fc_read_fails ctx i of
        Some e \<Rightarrow> Inl e
      | None \<Rightarrow> Inr (plan_for (fc_principal ctx) (chain_neighbours db i)))"

definition delete_row ::
    "'v forget_ctx \<Rightarrow> nat \<Rightarrow> delete_plan \<Rightarrow> ('v, sealed_content) mem_db \<Rightarrow>
     (delete_outcome \<times> ('v, sealed_content) mem_db) res" where
  "delete_row ctx i plan db =
     (case fc_delete_fails ctx i of Some e \<Rightarrow> Inl e | None \<Rightarrow> delete_memory i plan db)"

definition recorded :: "doomed list \<Rightarrow> edits \<Rightarrow> 'v forget_state \<Rightarrow> 'v forget_state" where
  "recorded rows e st = st\<lparr>fs_log := fs_log st @ audit_lines rows e\<rparr>"

text \<open>\<open>by_id\<close> in the two halves its awaits split it into: what it decided, and the transaction.\<close>

definition by_id_plan ::
    "'v forget_ctx \<Rightarrow> str \<Rightarrow> ('v, sealed_content) mem_db \<Rightarrow> (nat \<times> memory \<times> delete_plan) res" where
  "by_id_plan ctx i db =
     and_then (assert_may_delete ctx) (\<lambda>_.
     case fc_uuid ctx (trim i) of
       None \<Rightarrow> Inl (validation (R_Service (SF_Forget (F_NotUuid i))))
     | Some n \<Rightarrow>
         (case find_by_id db n of
            None \<Rightarrow> Inl (not_yours i)
          | Some m \<Rightarrow>
              if \<not> deletable (fc_principal ctx) m then Inl (not_yours i)
              else and_then (plan_row ctx db n) (\<lambda>pl.
                case pl of
                  PlanBlocked \<Rightarrow> Inl (not_yours i)
                | PlanApply dp \<Rightarrow>
                    Inr (n, (case fst (decrypt (fc_gcm ctx) (fc_ring ctx) db [m]) of [] \<Rightarrow> m | r # _ \<Rightarrow> r), dp))))"

definition by_id_delete ::
    "'v forget_ctx \<Rightarrow> bool \<Rightarrow> nat \<times> memory \<times> delete_plan \<Rightarrow> 'v forget_state \<Rightarrow>
     forget_outcome res \<times> 'v forget_state" where
  "by_id_delete ctx dry decided st =
     (case decided of (n, row, dp) \<Rightarrow>
        let rows = [to_doomed row None]
        in if dry then (Inr (outcome True rows (edits_planned dp) []), st)
           else case delete_row ctx n dp (fs_db st) of
             Inl e \<Rightarrow> (Inl e, st)
           | Inr (Missing, _) \<Rightarrow> (Inr (outcome False [] no_edits []), st)
           | Inr (Deleted ce, db') \<Rightarrow>
               (let e = edits_from_chain ce
                in (Inr (outcome False rows e []), recorded rows e (st\<lparr>fs_db := db'\<rparr>))))"

definition forget_by_id ::
    "'v forget_ctx \<Rightarrow> str \<Rightarrow> bool \<Rightarrow> 'v forget_state \<Rightarrow> forget_outcome res \<times> 'v forget_state" where
  "forget_by_id ctx i dry st =
     (case by_id_plan ctx i (fs_db st) of
        Inl e \<Rightarrow> (Inl e, st)
      | Inr decided \<Rightarrow> by_id_delete ctx dry decided st)"

text \<open>The batch of a query delete: the rows gone, the edits, the rows blocked, and how it ended:
  \<open>Inl\<close> when reading a row's neighbours failed, which leaves the handler at once, else the failure
  of a delete, if any.\<close>

fun batch ::
    "'v forget_ctx \<Rightarrow> bool \<Rightarrow> doomed list \<Rightarrow> edits \<Rightarrow> nat list \<Rightarrow> (doomed \<times> nat) list \<Rightarrow> ('v, sealed_content) mem_db \<Rightarrow>
     (domain_error + domain_error option) \<times> doomed list \<times> edits \<times> nat list \<times> ('v, sealed_content) mem_db" where
  "batch ctx dry gone e blocked [] db = (Inr None, gone, e, blocked, db)"
| "batch ctx dry gone e blocked ((row, i) # rest) db =
     (case plan_row ctx db i of
        Inl err \<Rightarrow> (Inl err, gone, e, blocked, db)
      | Inr PlanBlocked \<Rightarrow> batch ctx dry gone e (blocked @ [i]) rest db
      | Inr (PlanApply dp) \<Rightarrow>
          if dry then batch ctx dry (gone @ [row]) (edits_extend e (edits_planned dp)) blocked rest db
          else case delete_row ctx i dp db of
            Inl err \<Rightarrow> (Inr (Some err), gone, e, blocked, db)
          | Inr (Missing, _) \<Rightarrow> batch ctx dry gone e blocked rest db
          | Inr (Deleted ce, db') \<Rightarrow>
              batch ctx dry (gone @ [row]) (edits_extend e (edits_from_chain ce)) blocked rest db')"

definition asked_namespaces :: "str list option \<Rightarrow> str list res" where
  "asked_namespaces requested =
     (case requested of
        Some (n # ns) \<Rightarrow> and_then (normalize_all (n # ns)) (\<lambda>out. Inr (dedupe out))
      | _ \<Rightarrow> default_read_namespaces None)"

definition clamp :: "int \<Rightarrow> int \<Rightarrow> int \<Rightarrow> int" where
  "clamp lo hi x = max lo (min hi x)"

definition candidates ::
    "'v forget_ctx \<Rightarrow> ('v, sealed_content) mem_db \<Rightarrow> real \<Rightarrow> (memory \<times> real) list \<Rightarrow> (doomed \<times> nat) list" where
  "candidates ctx db least rows =
     (let opened = fst (decrypt (fc_gcm ctx) (fc_ring ctx) db (map fst rows))
      in map (\<lambda>(m, s). (to_doomed m (Some s), m_id m))
           (filter (\<lambda>(m, s). s \<ge> least \<and> deletable (fc_principal ctx) m) (zip opened (map snd rows))))"

definition forget_by_query ::
    "'v forget_ctx \<Rightarrow> str \<Rightarrow> str list option \<Rightarrow> int option \<Rightarrow> real option \<Rightarrow> bool \<Rightarrow> 'v forget_state \<Rightarrow>
     forget_outcome res \<times> 'v forget_state" where
  "forget_by_query ctx query requested limit min_similarity dry st =
     (let query = trim query;
          n = clamp 1 MAX_QUERY_DELETES (case limit of None \<Rightarrow> MAX_QUERY_DELETES | Some l \<Rightarrow> l);
          db = fs_db st;
          found = and_then (assert_may_delete ctx) (\<lambda>_.
            if query = [] then Inl (validation (R_Service (SF_Forget F_EmptyQuery)))
            else and_then (fc_conflict ctx) (\<lambda>conflict_at.
              and_then (asked_namespaces requested) (\<lambda>asked.
                let primary = filter_readable (fc_principal ctx) asked
                in if primary = [] then Inr None
                   else and_then (fc_embed ctx query) (\<lambda>v.
                     and_then (fc_search ctx primary v query n db) (\<lambda>found_rows.
                       Inr (Some (candidates ctx db (case min_similarity of None \<Rightarrow> conflict_at | Some s \<Rightarrow> s) found_rows)))))))
      in case found of
           Inl e \<Rightarrow> (Inl e, st)
         | Inr None \<Rightarrow> (Inr (outcome dry [] no_edits []), st)
         | Inr (Some cs) \<Rightarrow>
             (case batch ctx dry [] no_edits [] cs db of
                (Inl e, _, _, _, db') \<Rightarrow> (Inl e, st\<lparr>fs_db := db'\<rparr>)
              | (Inr failure, gone, e, blocked, db') \<Rightarrow>
                  if dry then (Inr (outcome True gone e blocked), st)
                  else (case failure of Some err \<Rightarrow> Inl err | None \<Rightarrow> Inr (outcome False gone e blocked),
                        recorded gone e (st\<lparr>fs_db := db'\<rparr>))))"

definition sealed_doomed :: "str \<Rightarrow> str \<Rightarrow> doomed" where
  "sealed_doomed ns key =
     \<lparr>do_id = KeyHmac key, do_namespace = ns, do_sensitivity = Sealed, do_source_client = [],
      do_created_at = None, do_preview = u ''(sealed; this server holds no key)'', do_similarity = None\<rparr>"

definition forget_sealed ::
    "'v forget_ctx \<Rightarrow> str \<Rightarrow> str \<Rightarrow> bool \<Rightarrow> 'v forget_state \<Rightarrow> forget_outcome res \<times> 'v forget_state" where
  "forget_sealed ctx ns key dry st =
     (case and_then (assert_may_delete ctx) (\<lambda>_. and_then (normalize ns) (\<lambda>ns.
             if \<not> can_write (fc_principal ctx) ns Sealed
             then Inl (forbidden (R_Service (SF_Forget (F_MayNotDeleteSealed (p_client (fc_principal ctx)) ns))))
             else if trim key = [] then Inl (validation (R_Service (SF_Forget F_EmptyKeyHmac)))
             else Inr ns)) of
        Inl e \<Rightarrow> (Inl e, st)
      | Inr ns \<Rightarrow>
          (let rows = [sealed_doomed ns (trim key)]
           in if dry then (Inr (outcome True rows no_edits []), st)
              else case fs_sealed st of
                None \<Rightarrow> (Inl no_sealed_store, st)
              | Some items \<Rightarrow>
                  (case sealed_delete ns (trim key) items of
                     (False, _) \<Rightarrow> (Inr (outcome False [] no_edits []), st)
                   | (True, items') \<Rightarrow>
                       (Inr (outcome False rows no_edits []),
                        recorded rows no_edits (st\<lparr>fs_sealed := Some items'\<rparr>)))))"

section \<open>What a fresh plan holds\<close>

lemma plan_revivals_apply:
  "plan_revivals p ls acc = PlanApply dp \<Longrightarrow>
     dp_splice_to dp = None \<and> dp_revive dp = acc @ map li_id ls \<and> list_all (reaches p) ls"
  by (induction p ls acc rule: plan_revivals.induct) (auto split: if_splits)

definition owns :: "principal \<Rightarrow> ('v, 's) mem_row \<Rightarrow> bool" where
  "owns p r \<longleftrightarrow> can_read p (mr_namespace r) (mr_sensitivity r) \<and> can_write p (mr_namespace r) (mr_sensitivity r)"

lemma set_oldest [simp]: "set (oldest rows) = set rows"
  by (simp add: oldest_def)

lemma fresh_plan:
  assumes "plan_for p (chain_neighbours db i) = PlanApply dp" and d: "find_row db i = Some d"
  shows "dp_splice_to dp = mr_superseded_by d"
    and "\<And>j. j \<in> set (dp_revive dp) \<Longrightarrow> \<exists>x \<in> set (md_rows db). mr_id x = j \<and> mr_superseded_by x = Some i \<and> owns p x"
    and "\<And>x. mr_superseded_by d = None \<Longrightarrow> x \<in> set (md_rows db) \<Longrightarrow> mr_superseded_by x = Some i \<Longrightarrow>
      mr_id x \<in> set (dp_revive dp)"
proof -
  let ?links = "oldest (filter (\<lambda>x. mr_superseded_by x = Some i \<or> mr_supersedes x = Some i) (md_rows db))"
  let ?pre = "map to_link (filter (\<lambda>x. mr_superseded_by x = Some i) ?links)"
  have r: "ch_row (chain_neighbours db i) = Some (mr_supersedes d, mr_superseded_by d)"
    and c: "ch_predecessors (chain_neighbours db i) = ?pre"
    by (simp_all add: chain_neighbours_def d Let_def)
  have sp: "dp_splice_to dp = mr_superseded_by d" and rv: "dp_revive dp = (if mr_superseded_by d = None then map li_id ?pre else [])"
    and al: "mr_superseded_by d = None \<Longrightarrow> list_all (reaches p) ?pre"
    using assms(1) by (auto simp: plan_for_def r c dest!: plan_revivals_apply split: option.splits)
  show "dp_splice_to dp = mr_superseded_by d" by (rule sp)
  show "\<exists>x \<in> set (md_rows db). mr_id x = j \<and> mr_superseded_by x = Some i \<and> owns p x" if "j \<in> set (dp_revive dp)" for j
    using that al rv by (auto simp: list_all_iff to_link_def reaches_def owns_def split: if_splits)
  show "mr_id x \<in> set (dp_revive dp)" if "mr_superseded_by d = None" "x \<in> set (md_rows db)" "mr_superseded_by x = Some i" for x
    using that rv by (auto simp: to_link_def image_iff intro!: bexI[of _ x])
qed

section \<open>What a delete may change\<close>

text \<open>A row may go, or come back to life, only if the caller holds both grants on it; whatever
  stays keeps its facts; nothing appears.\<close>

definition same_fact :: "('v, 's) mem_row \<Rightarrow> ('v, 's) mem_row \<Rightarrow> bool" where
  "same_fact r s \<longleftrightarrow>
     mr_id r = mr_id s \<and> mr_namespace r = mr_namespace s \<and> mr_sensitivity r = mr_sensitivity s \<and>
     mr_content r = mr_content s \<and> mr_sealed r = mr_sealed s \<and> mr_tags r = mr_tags s \<and>
     mr_occurred_at r = mr_occurred_at s \<and> mr_created_at r = mr_created_at s"

definition allowed_change :: "principal \<Rightarrow> ('v, 's) mem_db \<Rightarrow> ('v, 's) mem_db \<Rightarrow> bool" where
  "allowed_change p db db' \<longleftrightarrow>
     (\<forall>r \<in> set (md_rows db).
        case find_row db' (mr_id r) of
          None \<Rightarrow> owns p r
        | Some s \<Rightarrow> same_fact r s \<and> (mr_superseded_by s = None \<longrightarrow> mr_superseded_by r = None \<or> owns p r)) \<and>
     row_ids (md_rows db') \<subseteq> row_ids (md_rows db)"

lemma allowed_refl: "distinct (map mr_id (md_rows db)) \<Longrightarrow> allowed_change p db db"
  by (auto simp: allowed_change_def same_fact_def find_row_unique)

lemma allowed_trans:
  assumes "allowed_change p a b" "allowed_change p b c"
  shows "allowed_change p a c"
  unfolding allowed_change_def
proof (intro conjI ballI)
  fix r assume r: "r \<in> set (md_rows a)"
  show "case find_row c (mr_id r) of None \<Rightarrow> owns p r
    | Some s \<Rightarrow> same_fact r s \<and> (mr_superseded_by s = None \<longrightarrow> mr_superseded_by r = None \<or> owns p r)"
  proof (cases "find_row b (mr_id r)")
    case None
    then have "find_row c (mr_id r) = None"
      using assms(2) unfolding allowed_change_def find_row_None by blast
    then show ?thesis using assms(1) r None by (auto simp: allowed_change_def)
  next
    case (Some s)
    note s = find_row_Some[OF Some]
    have rs: "same_fact r s \<and> (mr_superseded_by s = None \<longrightarrow> mr_superseded_by r = None \<or> owns p r)"
      using assms(1) r Some by (auto simp: allowed_change_def)
    then have "owns p s \<longleftrightarrow> owns p r" by (simp add: owns_def same_fact_def)
    moreover have "case find_row c (mr_id r) of None \<Rightarrow> owns p s
      | Some t \<Rightarrow> same_fact s t \<and> (mr_superseded_by t = None \<longrightarrow> mr_superseded_by s = None \<or> owns p s)"
      using assms(2) s by (auto simp: allowed_change_def)
    ultimately show ?thesis using rs by (auto simp: same_fact_def split: option.splits)
  qed
qed (use assms in \<open>auto simp: allowed_change_def\<close>)

lemma same_fact_edit: "same_fact r (chain_edit i plan own r)"
  by (auto simp: same_fact_def chain_edit_def relinked_row_def revived_row_def split: option.splits)

lemma edit_revives:
  "mr_superseded_by (chain_edit i plan own r) = None \<Longrightarrow>
     mr_superseded_by r = None \<or> mr_superseded_by r = Some i \<and> mr_id r \<in> set (dp_revive plan)"
  by (auto simp: chain_edit_def relinked_row_def split: if_splits option.splits)

lemma deleted_rows:
  assumes "distinct (map mr_id (md_rows db))"
    and "md_rows db' = filter (\<lambda>r. mr_id r \<noteq> i) (map (chain_edit i plan own) (md_rows db))"
  shows "distinct (map mr_id (md_rows db'))" and "find_row db' i = None"
    and "\<And>r. r \<in> set (md_rows db) \<Longrightarrow> mr_id r \<noteq> i \<Longrightarrow> find_row db' (mr_id r) = Some (chain_edit i plan own r)"
    and "row_ids (md_rows db') \<subseteq> row_ids (md_rows db)"
proof -
  show d: "distinct (map mr_id (md_rows db'))"
    using assms by (simp add: filter_map o_def distinct_map inj_on_def)
  show "find_row db' i = None" by (auto simp: find_row_None row_ids_def assms(2))
  show "find_row db' (mr_id r) = Some (chain_edit i plan own r)" if "r \<in> set (md_rows db)" "mr_id r \<noteq> i" for r
    using find_row_unique[OF d, of "chain_edit i plan own r"] that by (auto simp: assms(2))
  show "row_ids (md_rows db') \<subseteq> row_ids (md_rows db)" by (auto simp: row_ids_def assms(2))
qed

lemma fresh_delete_allowed:
  assumes d: "distinct (map mr_id (md_rows db))" and del: "delete_memory i dp db = Inr (out, db')"
    and p: "plan_for p (chain_neighbours db i) = PlanApply dp"
    and o: "\<And>r. find_row db i = Some r \<Longrightarrow> owns p r"
  shows "allowed_change p db db' \<and> distinct (map mr_id (md_rows db'))"
  using del
proof (cases rule: delete_memory_Inr)
  case missing
  then show ?thesis using allowed_refl d by simp
next
  case (deleted doomed e)
  note rows = deleted_rows[OF d deleted(3)]
  have "case find_row db' (mr_id r) of None \<Rightarrow> owns p r
    | Some s \<Rightarrow> same_fact r s \<and> (mr_superseded_by s = None \<longrightarrow> mr_superseded_by r = None \<or> owns p r)"
    if r: "r \<in> set (md_rows db)" for r
  proof (cases "mr_id r = i")
    case True
    then show ?thesis using rows(2) o find_row_unique[OF d r] by simp
  next
    case False
    have "owns p r" if "mr_superseded_by r = Some i" "mr_id r \<in> set (dp_revive dp)"
    proof -
      from fresh_plan(2)[OF p deleted(1) that(2)] obtain x where x: "x \<in> set (md_rows db)" "mr_id x = mr_id r" "owns p x"
        by auto
      have "find_row db (mr_id r) = Some x" using find_row_unique[OF d x(1)] x(2) by simp
      then show ?thesis using find_row_unique[OF d r] x(3) by simp
    qed
    then show ?thesis
      using rows(3)[OF r False] same_fact_edit[of r i dp] edit_revives[of i dp _ r] by auto
  qed
  then show ?thesis using rows(1,4) by (auto simp: allowed_change_def)
qed

lemma fresh_delete_history:
  assumes h: "history_ok db" and del: "delete_memory i dp db = Inr (out, db')"
    and p: "plan_for p (chain_neighbours db i) = PlanApply dp"
  shows "history_ok db'"
proof -
  have "mem_admits db (now, MDelete i dp)" for now
  proof (cases "find_row db i")
    case (Some d)
    then show ?thesis using fresh_plan(1)[OF p Some] by (auto split: option.splits)
  qed (auto split: option.splits)
  from history_delete[OF h this] del show ?thesis by simp
qed

lemma allowed_owned:
  assumes "allowed_change p db db'" "find_row db' i = Some s" "distinct (map mr_id (md_rows db))"
  shows "\<exists>r. find_row db i = Some r \<and> (owns p r \<longleftrightarrow> owns p s)"
proof -
  note s = find_row_Some[OF assms(2)]
  have "i \<in> row_ids (md_rows db')" using s by (auto simp: row_ids_def)
  then obtain r where r: "find_row db i = Some r"
    using assms(1) find_row_None[of db i] by (auto simp: allowed_change_def)
  have "same_fact r s"
    using assms(1,2) find_row_Some[OF r] by (auto simp: allowed_change_def)
  then show ?thesis using r by (simp add: same_fact_def owns_def)
qed

lemma batch_safe:
  assumes "batch ctx dry gone e blocked cs db = (how, gone', e', blocked', db')"
    and "history_ok db"
    and "\<forall>c \<in> set cs. \<forall>r. find_row db (snd c) = Some r \<longrightarrow> owns (fc_principal ctx) r"
  shows "allowed_change (fc_principal ctx) db db' \<and> history_ok db' \<and> (dry \<longrightarrow> db' = db)"
  using assms
proof (induction cs arbitrary: gone e blocked db)
  case Nil
  then show ?case using allowed_refl by (auto simp: history_ok_def)
next
  case (Cons c cs)
  obtain row i where c: "c = (row, i)" by (cases c)
  have d: "distinct (map mr_id (md_rows db))" using Cons.prems(2) by (simp add: history_ok_def)
  have own: "\<forall>c \<in> set cs. \<forall>r. find_row db (snd c) = Some r \<longrightarrow> owns (fc_principal ctx) r"
    using Cons.prems(3) by simp
  show ?case
  proof (cases "plan_row ctx db i")
    case (Inl err)
    then show ?thesis using Cons.prems(1,2) allowed_refl[OF d] by (auto simp: c)
  next
    case (Inr pl)
    show ?thesis
    proof (cases pl)
      case PlanBlocked
      with Cons.prems(1) Inr have "batch ctx dry gone e (blocked @ [i]) cs db = (how, gone', e', blocked', db')"
        by (simp add: c)
      from Cons.IH[OF this Cons.prems(2) own] show ?thesis .
    next
      case (PlanApply dp)
      have fp: "plan_for (fc_principal ctx) (chain_neighbours db i) = PlanApply dp"
        using Inr PlanApply by (auto simp: plan_row_def split: option.splits)
      show ?thesis
      proof (cases "dry \<or> (\<exists>err. delete_row ctx i dp db = Inl err)")
        case True
        then show ?thesis using Cons.prems(1,2) Inr PlanApply Cons.IH[OF _ Cons.prems(2) own] allowed_refl[OF d]
          by (auto simp: c split: if_splits)
      next
        case False
        then obtain out db1 where del: "delete_row ctx i dp db = Inr (out, db1)" "\<not> dry"
          by (cases "delete_row ctx i dp db") auto
        then have dm: "delete_memory i dp db = Inr (out, db1)" by (auto simp: delete_row_def split: option.splits)
        have own_i: "owns (fc_principal ctx) r" if "find_row db i = Some r" for r
          using that Cons.prems(3) by (simp add: c)
        have step: "allowed_change (fc_principal ctx) db db1" and d1: "distinct (map mr_id (md_rows db1))"
          using fresh_delete_allowed[OF d dm fp own_i] by auto
        have h1: "history_ok db1" by (rule fresh_delete_history[OF Cons.prems(2) dm fp])
        have own1: "\<forall>c \<in> set cs. \<forall>r. find_row db1 (snd c) = Some r \<longrightarrow> owns (fc_principal ctx) r"
          using own allowed_owned[OF step _ d] by blast
        have miss: "db1 = db" if "out = Missing" using dm that by (cases rule: delete_memory_Inr) auto
        from Cons.prems(1) Inr PlanApply del obtain g2 e2 where
          "batch ctx dry g2 e2 blocked cs db1 = (how, gone', e', blocked', db')"
          using miss by (cases out) (auto simp: c)
        from Cons.IH[OF this h1 own1] show ?thesis using allowed_trans[OF step] del(2) by blast
      qed
    qed
  qed
qed

text \<open>Opening rows fills their text and nothing else.\<close>

definition row_facts :: "memory \<Rightarrow> nat \<times> str \<times> sensitivity" where
  "row_facts m = (m_id m, m_namespace m, m_sensitivity m)"

lemma row_facts_content [simp]: "row_facts (m\<lparr>m_content := c\<rparr>) = row_facts m"
  by (simp add: row_facts_def)

lemma decrypt_loop_facts: "map row_facts (fst (decrypt_loop g kek by_id opened rows)) = map row_facts rows"
proof (induction rows arbitrary: by_id opened)
  case (Cons m ms)
  have IH: "map row_facts out = map row_facts ms" if "decrypt_loop g kek b op ms = (out, failed)" for b op out failed
    using Cons.IH[of b op] that by simp
  show ?case by (auto simp: Let_def IH split: prod.splits option.splits sum.splits)
qed simp

lemma decrypt_facts: "map row_facts (fst (decrypt g ring db rows)) = map row_facts rows"
  by (auto simp: decrypt_def Let_def decrypt_loop_facts split: option.splits sum.splits)

definition search_answers_rows :: "'v forget_ctx \<Rightarrow> ('v, sealed_content) mem_db \<Rightarrow> bool" where
  "search_answers_rows ctx db \<longleftrightarrow>
     (\<forall>nss v q n rows. fc_search ctx nss v q n db = Inr rows \<longrightarrow>
        (\<forall>(m, s) \<in> set rows. \<exists>r \<in> set (md_rows db). m = memory_from_row r))"

lemma candidates_owned:
  assumes "distinct (map mr_id (md_rows db))" and "\<forall>(m, s) \<in> set rows. \<exists>r \<in> set (md_rows db). m = memory_from_row r"
    and c: "c \<in> set (candidates ctx db least rows)" and r: "find_row db (snd c) = Some r"
  shows "owns (fc_principal ctx) r"
proof -
  let ?op = "fst (decrypt (fc_gcm ctx) (fc_ring ctx) db (map fst rows))"
  have f: "map row_facts ?op = map row_facts (map fst rows)" by (rule decrypt_facts)
  from c obtain m s where m: "(m, s) \<in> set (zip ?op (map snd rows))" "deletable (fc_principal ctx) m" "snd c = m_id m"
    by (auto simp: candidates_def Let_def)
  from m(1) obtain k where k: "k < length ?op" "?op ! k = m" by (auto simp: set_zip)
  have l: "length ?op = length rows" using arg_cong[OF f, of length] by simp
  have "row_facts m = row_facts (fst (rows ! k))"
    using arg_cong[OF f, of "\<lambda>xs. xs ! k"] k l by simp
  moreover obtain r' where "r' \<in> set (md_rows db)" "fst (rows ! k) = memory_from_row r'"
    using assms(2) k(1) l nth_mem[of k rows] by fastforce
  ultimately have "r' \<in> set (md_rows db)" "row_facts m = (mr_id r', mr_namespace r', mr_sensitivity r')"
    by (simp_all add: row_facts_def memory_from_row_def)
  then have "find_row db (m_id m) = Some r'" "owns (fc_principal ctx) r' = deletable (fc_principal ctx) m"
    using find_row_unique[OF assms(1), of r'] by (simp_all add: row_facts_def owns_def deletable_def)
  then show ?thesis using m(2,3) r by simp
qed

lemma by_id_plan_Inr:
  assumes "by_id_plan ctx i db = Inr (n, row, dp)"
  obtains m where "p_may_delete (fc_principal ctx)" "find_by_id db n = Some m" "deletable (fc_principal ctx) m"
    "plan_for (fc_principal ctx) (chain_neighbours db n) = PlanApply dp"
  using assms
  by (auto simp: by_id_plan_def assert_may_delete_def plan_row_def and_then_Inr split: if_splits option.splits plan.splits)

lemma deletable_owns: "deletable p (memory_from_row r) \<longleftrightarrow> owns p r"
  by (simp add: deletable_def owns_def memory_from_row_def)

lemma find_by_id_row: "find_by_id db n = Some m \<Longrightarrow> find_row db n = Some r \<Longrightarrow> m = memory_from_row r"
  by (simp add: find_by_id_def)

definition forget_safe :: "'v forget_ctx \<Rightarrow> bool \<Rightarrow> 'v forget_state \<Rightarrow> 'v forget_state \<Rightarrow> bool" where
  "forget_safe ctx dry st st' \<longleftrightarrow>
     history_ok (fs_db st') \<and> allowed_change (fc_principal ctx) (fs_db st) (fs_db st') \<and>
     (fs_db st' = fs_db st \<or> p_may_delete (fc_principal ctx) \<and> \<not> dry)"

lemma forget_safe_same:
  "history_ok (fs_db st) \<Longrightarrow> fs_db st' = fs_db st \<Longrightarrow> forget_safe ctx dry st st'"
  using allowed_refl by (auto simp: forget_safe_def history_ok_def)

lemma by_id_safe:
  assumes h: "history_ok (fs_db st)"
  shows "forget_safe ctx dry st (snd (forget_by_id ctx i dry st))"
proof (cases "by_id_plan ctx i (fs_db st)")
  case (Inl e)
  then show ?thesis using forget_safe_same[OF h] by (simp add: forget_by_id_def)
next
  case (Inr decided)
  obtain n row dp where dc: "decided = (n, row, dp)" by (cases decided)
  from Inr dc have pl: "by_id_plan ctx i (fs_db st) = Inr (n, row, dp)" by simp
  obtain m where m: "p_may_delete (fc_principal ctx)" "find_by_id (fs_db st) n = Some m" "deletable (fc_principal ctx) m"
    and fp: "plan_for (fc_principal ctx) (chain_neighbours (fs_db st) n) = PlanApply dp"
    using pl by (rule by_id_plan_Inr)
  have d: "distinct (map mr_id (md_rows (fs_db st)))" using h by (simp add: history_ok_def)
  let ?st' = "snd (forget_by_id ctx i dry st)"
  show ?thesis
  proof (cases "fs_db ?st' = fs_db st")
    case True
    then show ?thesis by (rule forget_safe_same[OF h])
  next
    case False
    then obtain out where nd: "\<not> dry" and dm: "delete_memory n dp (fs_db st) = Inr (out, fs_db ?st')"
      by (auto simp: forget_by_id_def pl by_id_delete_def Let_def delete_row_def recorded_def
          split: if_splits option.splits sum.splits prod.splits delete_outcome.splits)
    have own: "owns (fc_principal ctx) r" if "find_row (fs_db st) n = Some r" for r
      using find_by_id_row[OF m(2) that] m(3) by (simp add: deletable_owns)
    show ?thesis
      using fresh_delete_allowed[OF d dm fp own] fresh_delete_history[OF h dm fp] m(1) nd
      by (simp add: forget_safe_def)
  qed
qed

lemma by_query_safe:
  assumes h: "history_ok (fs_db st)" and s: "search_answers_rows ctx (fs_db st)"
  shows "forget_safe ctx dry st (snd (forget_by_query ctx query requested limit least dry st))"
proof -
  let ?st' = "snd (forget_by_query ctx query requested limit least dry st)"
  have d: "distinct (map mr_id (md_rows (fs_db st)))" using h by (simp add: history_ok_def)
  show ?thesis
  proof (cases "fs_db ?st' = fs_db st")
    case True
    then show ?thesis by (rule forget_safe_same[OF h])
  next
    case False
    then obtain nss v n rows l how gone e blocked where may: "p_may_delete (fc_principal ctx)"
      and sr: "fc_search ctx nss v (trim query) n (fs_db st) = Inr rows"
      and b: "batch ctx dry [] no_edits [] (candidates ctx (fs_db st) l rows) (fs_db st)
        = (how, gone, e, blocked, fs_db ?st')"
      by (auto simp: forget_by_query_def Let_def and_then_Inr assert_may_delete_def recorded_def
          split: if_splits option.splits sum.splits prod.splits)
    have "\<forall>c \<in> set (candidates ctx (fs_db st) l rows). \<forall>r. find_row (fs_db st) (snd c) = Some r \<longrightarrow> owns (fc_principal ctx) r"
      using candidates_owned[OF d] s sr unfolding search_answers_rows_def by blast
    from batch_safe[OF b h this] show ?thesis using may False unfolding forget_safe_def by blast
  qed
qed

text \<open>
  Property C6. Forgetting stays within the caller's grants. Whether by id or by query, whatever the
  chains, the blocked rows and the failures on the way: the memories keep their history sound; a row
  is removed, or a retired row comes back to life, only if the caller may both read and write that
  row at its own level; every row that stays keeps its text, level, tags and dates; no row appears;
  and without the delete capability, or on a dry run, nothing changes at all.
\<close>

theorem forget_within_grants:
  assumes "history_ok (fs_db st)" and "search_answers_rows ctx (fs_db st)"
    and "st' = snd (forget_by_id ctx i dry st) \<or> st' = snd (forget_by_query ctx query requested limit least dry st)"
  shows "history_ok (fs_db st') \<and>
    (\<forall>r \<in> set (md_rows (fs_db st)).
       case find_row (fs_db st') (mr_id r) of
         None \<Rightarrow> owns (fc_principal ctx) r
       | Some s \<Rightarrow> same_fact r s \<and>
           (mr_superseded_by s = None \<longrightarrow> mr_superseded_by r = None \<or> owns (fc_principal ctx) r)) \<and>
    row_ids (md_rows (fs_db st')) \<subseteq> row_ids (md_rows (fs_db st)) \<and>
    (fs_db st' = fs_db st \<or> p_may_delete (fc_principal ctx) \<and> \<not> dry)"
proof -
  have "forget_safe ctx dry st st'"
    using assms(3) by_id_safe[OF assms(1)] by_query_safe[OF assms(1,2)] by blast
  then show ?thesis by (simp add: forget_safe_def allowed_change_def)
qed

section \<open>A planned delete succeeds\<close>

lemma links_update_ok:
  assumes "links_ok rows" "\<And>r. mr_id (f r) = mr_id r"
    and "\<And>r. r \<in> set rows \<Longrightarrow> q r \<Longrightarrow> link_ok (row_ids rows) (mr_supersedes (f r)) \<and> link_ok (row_ids rows) (mr_superseded_by (f r))"
  shows "links_ok (update_where q f rows)"
  using assms by (auto simp: links_ok_def list_all_iff set_update_where)

lemma fresh_delete_succeeds:
  assumes h: "history_ok db" and f: "find_row db i = Some d" and own: "mr_supersedes d \<noteq> Some i"
    and p: "plan_for p (chain_neighbours db i) = PlanApply dp"
  shows "\<exists>e db'. delete_memory i dp db = Inr (Deleted e, db') \<and> find_row db' i = None"
proof -
  have l: "links_ok (md_rows db)" and ds: "distinct (map mr_id (md_rows db))" using h by (simp_all add: history_ok_def)
  note fd = find_row_Some[OF f]
  have ld: "link_ok (row_ids (md_rows db)) (mr_supersedes d)" "link_ok (row_ids (md_rows db)) (mr_superseded_by d)"
    using l fd by (auto simp: links_ok_def list_all_iff)
  define db1 where "db1 = snd (revive_step i (dp_revive dp) db)"
  obtain rv where rv: "revive_step i (dp_revive dp) db = (rv, db1)"
    by (cases "revive_step i (dp_revive dp) db") (simp add: db1_def)
  have ids1: "row_ids (md_rows db1) = row_ids (md_rows db)"
    by (simp add: db1_def revive_step_def)
  have l1: "links_ok (md_rows db1)"
  proof (cases "dp_revive dp = []")
    case False
    have "links_ok (update_where (revivable i (dp_revive dp)) revived_row (md_rows db))"
      by (rule links_update_ok[OF l]) (use l in \<open>auto simp: links_ok_def list_all_iff link_ok_def[of _ None]\<close>)
    then show ?thesis using False by (simp add: db1_def revive_step_def)
  qed (use l in \<open>simp add: db1_def revive_step_def\<close>)
  obtain spl db2 where s2: "splice_step i (dp_splice_to dp) db1 = Inr (spl, db2)"
    and l2: "links_ok (md_rows db2)" and ids2: "row_ids (md_rows db2) = row_ids (md_rows db)"
    and r2: "md_rows db2 = (case dp_splice_to dp of None \<Rightarrow> (\<lambda>rows. rows)
         | Some t \<Rightarrow> update_where (\<lambda>r. mr_superseded_by r = Some i) (\<lambda>r. r\<lparr>mr_superseded_by := Some t\<rparr>)) (md_rows db1)"
  proof (cases "dp_splice_to dp")
    case None
    then show ?thesis using that[of "[]" db1] l1 ids1 by (simp add: splice_step_def)
  next
    case (Some t)
    let ?r2 = "update_where (\<lambda>r. mr_superseded_by r = Some i) (\<lambda>r. r\<lparr>mr_superseded_by := Some t\<rparr>) (md_rows db1)"
    have "link_ok (row_ids (md_rows db1)) (Some t)" using fresh_plan(1)[OF p f] Some ld(2) ids1 by simp
    then have "links_ok ?r2"
      using l1 by (intro links_update_ok) (auto simp: links_ok_def list_all_iff)
    then show ?thesis using Some ids1
      by (intro that[of "hit_ids (\<lambda>r. mr_superseded_by r = Some i) db1"
            "update_rows (\<lambda>r. mr_superseded_by r = Some i) (\<lambda>r. r\<lparr>mr_superseded_by := Some t\<rparr>) db1"])
         (auto simp: splice_step_def Let_def)
  qed
  let ?r3 = "update_where (\<lambda>r. mr_supersedes r = Some i) (\<lambda>r. r\<lparr>mr_supersedes := mr_supersedes d\<rparr>) (md_rows db2)"
  have l3: "links_ok ?r3"
    using l2 ld(1) ids2 by (intro links_update_ok) (auto simp: links_ok_def list_all_iff)
  obtain rel db3 where s3: "relink_step i (mr_supersedes d) db2 = Inr (rel, db3)" and r3: "md_rows db3 = ?r3"
    using l3 by (auto simp: relink_step_def Let_def)
  have r1: "md_rows db1 = (if dp_revive dp = [] then md_rows db
      else update_where (revivable i (dp_revive dp)) revived_row (md_rows db))"
    by (simp add: db1_def revive_step_def)
  have rows: "md_rows db3 = map (chain_edit i dp (mr_supersedes d)) (md_rows db)"
    unfolding r3 r2 r1 edits_compose by simp
  have nl: "mr_superseded_by d \<noteq> Some i"
    using h fd not_self_linked[of db i] by (auto simp: history_ok_def succession_mem)
  have gone: "mr_supersedes (chain_edit i dp (mr_supersedes d) r) \<noteq> Some i \<and>
      mr_superseded_by (chain_edit i dp (mr_supersedes d) r) \<noteq> Some i" if r: "r \<in> set (md_rows db)" for r
  proof -
    have "mr_superseded_by d = None \<Longrightarrow> mr_superseded_by r = Some i \<Longrightarrow> mr_id r \<in> set (dp_revive dp)"
      using fresh_plan(3)[OF p f _ r] by blast
    then show ?thesis using own nl fresh_plan(1)[OF p f]
      by (cases "mr_superseded_by d") (auto simp: chain_edit_def relinked_row_def split: option.splits)
  qed
  have "link_ok (row_ids (md_rows (drop_row i db3))) l" if "link_ok (row_ids (md_rows db3)) l" "l \<noteq> Some i" for l
    using that by (auto simp: link_ok_def row_ids_def split: option.splits)
  then have "links_ok (md_rows (drop_row i db3))"
    using l3 gone unfolding r3[symmetric] by (auto simp: links_ok_def list_all_iff rows)
  then have "delete_memory i dp db =
      Inr (Deleted \<lparr>ce_revived = rv, ce_spliced = spl, ce_relinked = rel\<rparr>, drop_row i db3)"
    using f rv s2 s3 by (simp add: delete_memory_def and_then_def)
  moreover have "find_row (drop_row i db3) i = None" by (auto simp: find_row_None row_ids_def)
  ultimately show ?thesis by blast
qed

text \<open>
  Property C35. A delete that was planned and that no other writer raced goes through: with a
  reachable database, once \<open>by_id\<close> has settled on a row and a plan the transaction is never blocked
  by a link the plan left out; the row is gone afterwards, the answer lists exactly it, and one
  audit line names it.
\<close>

theorem planned_delete_goes_through:
  assumes "history_ok (fs_db st)" and "by_id_plan ctx i (fs_db st) = Inr (n, row, dp)"
    and "fc_delete_fails ctx n = None" and "find_row (fs_db st) n = Some d" and "mr_supersedes d \<noteq> Some n"
  shows "\<exists>out. fst (forget_by_id ctx i False st) = Inr out \<and> fo_rows out = [to_doomed row None] \<and>
    find_row (fs_db (snd (forget_by_id ctx i False st))) n = None \<and>
    filter (\<lambda>a. a = DeletedRow (to_doomed row None)) (fs_log (snd (forget_by_id ctx i False st))) =
      filter (\<lambda>a. a = DeletedRow (to_doomed row None)) (fs_log st) @ [DeletedRow (to_doomed row None)]"
proof -
  have "plan_for (fc_principal ctx) (chain_neighbours (fs_db st) n) = PlanApply dp"
    using assms(2) by (rule by_id_plan_Inr)
  from fresh_delete_succeeds[OF assms(1,4,5) this] obtain e db' where
    d: "delete_memory n dp (fs_db st) = Inr (Deleted e, db')" "find_row db' n = None" by blast
  then show ?thesis
    using assms(2,3)
    by (simp add: forget_by_id_def by_id_delete_def delete_row_def Let_def recorded_def audit_lines_def outcome_def
        filter_empty_conv)
qed

section \<open>The audit\<close>

lemma batch_gone:
  assumes "batch ctx False gone e blocked cs db = (Inr failure, gone', e', blocked', db')"
    and "distinct (map mr_id (md_rows db))" and "\<forall>(row, i) \<in> set cs. do_id row = RowId i"
  shows "\<exists>new. gone' = gone @ new \<and> do_id ` set new = RowId ` (row_ids (md_rows db) - row_ids (md_rows db')) \<and>
    row_ids (md_rows db') \<subseteq> row_ids (md_rows db)"
  using assms
proof (induction cs arbitrary: gone e blocked db)
  case Nil
  then show ?case by simp
next
  case (Cons c cs)
  obtain row i where c: "c = (row, i)" by (cases c)
  have ids: "\<forall>(row, i) \<in> set cs. do_id row = RowId i" and ri: "do_id row = RowId i"
    using Cons.prems(3) by (auto simp: c)
  obtain pl where pl: "plan_row ctx db i = Inr pl" using Cons.prems(1) by (cases "plan_row ctx db i") (auto simp: c)
  show ?case
  proof (cases pl)
    case PlanBlocked
    then show ?thesis using Cons.prems(1) Cons.IH[OF _ Cons.prems(2) ids, of gone e "blocked @ [i]"] pl by (simp add: c)
  next
    case (PlanApply dp)
    show ?thesis
    proof (cases "delete_row ctx i dp db")
      case (Inl err)
      then show ?thesis using Cons.prems(1) pl PlanApply by (simp add: c)
    next
      case (Inr res)
      obtain out db1 where o: "delete_row ctx i dp db = Inr (out, db1)" using Inr by (cases res) auto
      then have dm: "delete_memory i dp db = Inr (out, db1)" by (auto simp: delete_row_def split: option.splits)
      from dm show ?thesis
      proof (cases rule: delete_memory_Inr)
        case missing
        then show ?thesis using Cons.prems(1) Cons.IH[OF _ Cons.prems(2) ids, of gone e blocked] pl PlanApply o
          by (simp add: c)
      next
        case (deleted d ce)
        note rows = deleted_rows[OF Cons.prems(2) deleted(3)]
        from Cons.prems(1) pl PlanApply o deleted(2) have
          "batch ctx False (gone @ [row]) (edits_extend e (edits_from_chain ce)) blocked cs db1 =
             (Inr failure, gone', e', blocked', db')" by (simp add: c)
        from Cons.IH[OF this rows(1) ids] obtain new where
          n: "gone' = (gone @ [row]) @ new" "do_id ` set new = RowId ` (row_ids (md_rows db1) - row_ids (md_rows db'))"
            "row_ids (md_rows db') \<subseteq> row_ids (md_rows db1)" by blast
        have i1: "row_ids (md_rows db1) = row_ids (md_rows db) - {i}"
          unfolding row_ids_map deleted(3) filter_map map_map by (auto simp: o_def)
        have ii: "i \<in> row_ids (md_rows db)" using find_row_Some[OF deleted(1)] by (auto simp: row_ids_def)
        have "gone' = gone @ (row # new)" using n(1) by simp
        moreover have "do_id ` set (row # new) = RowId ` (row_ids (md_rows db) - row_ids (md_rows db'))"
          using n(2,3) ri i1 ii by auto
        ultimately show ?thesis using n(3) i1 by blast
      qed
    qed
  qed
qed

text \<open>
  The audit misses nothing when the neighbour reads answer: a query delete whose reads
  do not fail appends to the audit one line per row it removed from the store and none for a row it
  left, also when a delete in the middle failed and the caller is given the error.
\<close>

theorem audit_names_every_row:
  assumes "distinct (map mr_id (md_rows (fs_db st)))" and "\<And>i. fc_read_fails ctx i = None"
    and "forget_by_query ctx query requested limit least False st = (answer, st')"
  shows "\<exists>new. fs_log st' = fs_log st @ new \<and>
    (\<forall>i. (\<exists>row. DeletedRow row \<in> set new \<and> do_id row = RowId i) \<longleftrightarrow>
         i \<in> row_ids (md_rows (fs_db st)) \<and> i \<notin> row_ids (md_rows (fs_db st')))"
proof (cases "fs_log st' = fs_log st \<and> fs_db st' = fs_db st")
  case True
  then show ?thesis by (intro exI[of _ "[]"]) simp
next
  case False
  have nofail: "batch ctx dry gone e blocked cs db \<noteq> (Inl err, rest)" for dry gone e blocked cs db err rest
  proof (induction cs arbitrary: gone e blocked db)
    case (Cons c cs)
    then show ?case
      by (cases c) (auto simp: plan_row_def assms(2) split: sum.splits plan.splits prod.splits delete_outcome.splits)
  qed simp
  from assms(3) False obtain l rows failure gone e blocked where
    b: "batch ctx False [] no_edits [] (candidates ctx (fs_db st) l rows) (fs_db st)
        = (Inr failure, gone, e, blocked, fs_db st')"
    and lg: "fs_log st' = fs_log st @ audit_lines gone e"
    by (auto simp: forget_by_query_def Let_def and_then_Inr recorded_def nofail
          split: if_splits option.splits sum.splits prod.splits)
  have "\<forall>(row, i) \<in> set (candidates ctx (fs_db st) l rows). do_id row = RowId i"
    by (auto simp: candidates_def Let_def to_doomed_def)
  from batch_gone[OF b assms(1) this] have
    g: "do_id ` set gone = RowId ` (row_ids (md_rows (fs_db st)) - row_ids (md_rows (fs_db st')))" by simp
  have "(\<exists>row. DeletedRow row \<in> set (audit_lines gone e) \<and> do_id row = RowId i) \<longleftrightarrow> RowId i \<in> do_id ` set gone" for i
    unfolding audit_lines_def image_iff by (auto intro: sym)
  then show ?thesis using lg unfolding g by (intro exI[of _ "audit_lines gone e"]) auto
qed

section \<open>Concrete deletes\<close>

definition sample_version :: "nat \<Rightarrow> nat option \<Rightarrow> nat option \<Rightarrow> (nat, sealed_content) mem_row" where
  "sample_version i old new =
     \<lparr>mr_id = i, mr_namespace = u ''user:me'', mr_content = Some (u ''port''), mr_sealed = None,
        mr_kek_id = None, mr_vec_a = None, mr_model_a = None, mr_vec_b = None, mr_model_b = None,
        mr_tags = [], mr_source_client = u ''cli'', mr_sensitivity = Open, mr_supersedes = old,
        mr_superseded_by = new, mr_superseded_at = (if new = None then None else Some 50),
        mr_occurred_at = None, mr_occurred_until = (if new = None then None else Some 50), mr_access_count = 0,
        mr_last_accessed_at = None, mr_last_confirmed_at = None, mr_created_at = int i\<rparr>"

definition sample_chain :: "nat forget_state" where
  "sample_chain =
     \<lparr>fs_db = \<lparr>md_rows = [sample_version 1 None (Some 2), sample_version 2 (Some 1) None, sample_version 3 None None],
               md_kek_id = None\<rparr>, fs_sealed = None, fs_log = []\<rparr>"

definition sample_eraser :: principal where
  "sample_eraser = (empty_principal (u ''cli''))
     \<lparr>p_read := [grant_open (u ''user:me'')], p_write := [grant_open (u ''user:me'')], p_may_delete := True\<rparr>"

definition sample_forget :: "(nat \<Rightarrow> domain_error option) \<Rightarrow> nat forget_ctx" where
  "sample_forget faults =
     \<lparr>fc_principal = sample_eraser, fc_ring = sample_ring, fc_gcm = sample_gcm,
      fc_uuid = (\<lambda>s. if s = u ''two'' then Some 2 else None), fc_conflict = Inr 0, fc_embed = (\<lambda>_. Inr 0),
      fc_search = (\<lambda>_ _ _ _ db. Inr (map (\<lambda>r. (memory_from_row r, 0)) (md_rows db))),
      fc_read_fails = faults, fc_delete_fails = (\<lambda>_. None)\<rparr>"

lemma sample_chain_ok: "history_ok (fs_db sample_chain)"
proof -
  have "succession (fs_db sample_chain) = {(1, 2)}"
    by (auto simp: succession_map sample_chain_def sample_version_def)
  moreover have "acyclic {(1 :: nat, 2 :: nat)}"
    unfolding acyclic_insert by (simp add: acyclic_def)
  ultimately show ?thesis
    by (simp add: history_ok_def sample_chain_def sample_version_def stamped_def links_ok_def
        checks_ok_def period_ok_def content_ok_def link_ok_def row_ids_def)
qed

lemma sample_search_ok: "search_answers_rows (sample_forget faults) db"
  by (auto simp: search_answers_rows_def sample_forget_def)

lemma heads_links: "map (\<lambda>r. (mr_id r, mr_superseded_by r)) (md_rows db) = xs \<Longrightarrow> heads db = {i. (i, None) \<in> set xs}"
  unfolding heads_map by simp

lemma ids_links: "map (\<lambda>r. (mr_id r, mr_superseded_by r)) (md_rows db) = xs \<Longrightarrow> map mr_id (md_rows db) = map fst xs"
  by auto

lemma forget_within_grants_witness:
  "history_ok (fs_db (snd (forget_by_id (sample_forget (\<lambda>_. None)) (u ''two'') False sample_chain))) \<and>
   map mr_id (md_rows (fs_db (snd (forget_by_id (sample_forget (\<lambda>_. None)) (u ''two'') False sample_chain)))) = [1, 3] \<and>
   owns sample_eraser (sample_version 1 None (Some 2))"
proof -
  let ?st' = "snd (forget_by_id (sample_forget (\<lambda>_. None)) (u ''two'') False sample_chain)"
  have r: "map (\<lambda>r. (mr_id r, mr_superseded_by r)) (md_rows (fs_db ?st')) = [(1, None), (3, None)]"
    and "owns sample_eraser (sample_version 1 None (Some 2))" by code_simp+
  moreover have "map mr_id (md_rows (fs_db ?st')) = [1, 3]" using ids_links[OF r] by simp
  ultimately show ?thesis
    using forget_within_grants[OF sample_chain_ok sample_search_ok, of ?st' "\<lambda>_. None" "u ''two''" False] by blast
qed

lemma sample_by_id_plan:
  "by_id_plan (sample_forget (\<lambda>_. None)) (u ''two'') (fs_db sample_chain) =
     Inr (2, memory_from_row (sample_version 2 (Some 1) None), \<lparr>dp_revive = [1], dp_splice_to = None\<rparr>)"
  by code_simp

lemma planned_delete_goes_through_witness:
  "\<exists>out. fst (forget_by_id (sample_forget (\<lambda>_. None)) (u ''two'') False sample_chain) = Inr out \<and>
     find_row (fs_db (snd (forget_by_id (sample_forget (\<lambda>_. None)) (u ''two'') False sample_chain))) 2 = None"
proof -
  have "find_row (fs_db sample_chain) 2 = Some (sample_version 2 (Some 1) None)" by code_simp
  from planned_delete_goes_through[OF sample_chain_ok sample_by_id_plan _ this] show ?thesis
    by (auto simp: sample_forget_def sample_version_def)
qed

lemma audit_names_every_row_witness:
  "\<exists>row. DeletedRow row \<in> set (fs_log (snd (forget_by_query (sample_forget (\<lambda>_. None)) (u ''x'') None None None False
       sample_chain))) \<and> do_id row = RowId 3"
proof -
  let ?run = "forget_by_query (sample_forget (\<lambda>_. None)) (u ''x'') None None None False sample_chain"
  have e: "?run = (fst ?run, snd ?run)" by simp
  have d: "distinct (map mr_id (md_rows (fs_db sample_chain)))" using sample_chain_ok by (simp add: history_ok_def)
  have "map mr_id (md_rows (fs_db (snd ?run))) = []" by code_simp
  then have "3 \<notin> row_ids (md_rows (fs_db (snd ?run)))" by (simp add: row_ids_def)
  moreover have "3 \<in> row_ids (md_rows (fs_db sample_chain))" "fs_log sample_chain = []" by code_simp+
  moreover have "fc_read_fails (sample_forget (\<lambda>_. None)) i = None" for i by (simp add: sample_forget_def)
  ultimately show ?thesis using audit_names_every_row[OF d _ e] by auto
qed

text \<open>
  The reads that do fail: \<open>plan(ctx, uuid).await?\<close> leaves the handler before \<open>record\<close>, so rows already
  deleted get no audit line.
\<close>

lemma audit_lost_on_failed_read:
  "map mr_id (md_rows (fs_db (snd (forget_by_query (sample_forget (\<lambda>i. if i = 3 then Some database_error else None))
      (u ''x'') None None None False sample_chain)))) = [3] \<and>
   fs_log (snd (forget_by_query (sample_forget (\<lambda>i. if i = 3 then Some database_error else None))
      (u ''x'') None None None False sample_chain)) = []"
  by code_simp

text \<open>
  A delete does not notice that its plan went stale: \<open>by_id\<close> plans outside the delete's
  transaction, so when another writer supersedes the doomed row in between, the delete revives the
  version the doomed row had replaced while its new successor is live too, leaving two current
  versions of one fact where the same two calls in either order leave one.
\<close>

theorem stale_plan_revives:
  "\<exists>decided st'. by_id_plan (sample_forget (\<lambda>_. None)) (u ''two'') (fs_db sample_chain) = Inr decided \<and>
     st' = sample_chain\<lparr>fs_db := kept (fs_db sample_chain) (supersede 60 2 3 (fs_db sample_chain))\<rparr> \<and>
     heads (fs_db st') = {3} \<and>
     heads (fs_db (snd (forget_by_id (sample_forget (\<lambda>_. None)) (u ''two'') False st'))) = {3} \<and>
     heads (fs_db (snd (by_id_delete (sample_forget (\<lambda>_. None)) False decided st'))) = {1, 3}"
proof -
  let ?d = "(2, memory_from_row (sample_version 2 (Some 1) None), \<lparr>dp_revive = [1], dp_splice_to = None\<rparr>)"
  let ?st = "sample_chain\<lparr>fs_db := kept (fs_db sample_chain) (supersede 60 2 3 (fs_db sample_chain))\<rparr>"
  have links: "map (\<lambda>r. (mr_id r, mr_superseded_by r)) (md_rows (fs_db ?st)) = [(1, Some 2), (2, Some 3), (3, None)]"
    "map (\<lambda>r. (mr_id r, mr_superseded_by r)) (md_rows (fs_db (snd (forget_by_id (sample_forget (\<lambda>_. None)) (u ''two'') False ?st)))) =
       [(1, Some 3), (3, None)]"
    "map (\<lambda>r. (mr_id r, mr_superseded_by r)) (md_rows (fs_db (snd (by_id_delete (sample_forget (\<lambda>_. None)) False ?d ?st)))) =
       [(1, None), (3, None)]" by code_simp+
  show ?thesis
    using heads_links[OF links(1)] heads_links[OF links(2)] heads_links[OF links(3)]
    by (intro exI[of _ ?d] exI[of _ ?st] conjI sample_by_id_plan refl) auto
qed
end
