(* ===== verification/Lr_Review.thy ===== *)
theory Lr_Review
  imports Lr_Write Lr_Forget
begin

text \<open>
  The review actions of \<open>src/src/services/review.rs\<close>: confirm, supersede, expire, unexpire, fill in
  a date, delete, and the scan that lists undated rows naming a day, with the two reads of
  \<open>src/src/adapters/postgres/memory.rs\<close> it runs on. Every action is a function from the
  tables to an answer and the tables it leaves.
\<close>

section \<open>The reads\<close>

text \<open>\<open>namespace_counts\<close>: live links only, and every registry namespace at no count; the keys of
  the hash map, whose order is unspecified, are \<open>namespaces_held\<close>.\<close>

definition namespace_counts :: "str list \<Rightarrow> ('v, 's) mem_db \<Rightarrow> str \<rightharpoonup> nat" where
  "namespace_counts registry db n =
     (let held = filter (\<lambda>r. mr_namespace r = n \<and> mr_superseded_by r = None) (md_rows db)
      in if held \<noteq> [] \<or> n \<in> set registry then Some (length held) else None)"

definition namespaces_held :: "str list \<Rightarrow> ('v, 's) mem_db \<Rightarrow> str list" where
  "namespaces_held registry db =
     remdups (map mr_namespace (filter (\<lambda>r. mr_superseded_by r = None) (md_rows db)) @ registry)"

text \<open>The \<open>reachable\<close> table of every ranked read: the lowest ceiling when a name repeats.\<close>

definition min_ceiling :: "namespace_ceiling list \<Rightarrow> str \<Rightarrow> sensitivity option" where
  "min_ceiling cs n =
     (case map nc_max (filter (\<lambda>c. nc_namespace c = n) cs) of
        [] \<Rightarrow> None
      | l # ls \<Rightarrow> Some (fold min ls l))"

definition within_ceiling :: "namespace_ceiling list \<Rightarrow> ('v, 's) mem_row \<Rightarrow> bool" where
  "within_ceiling cs r \<longleftrightarrow>
     (case min_ceiling cs (mr_namespace r) of None \<Rightarrow> False | Some mx \<Rightarrow> mr_sensitivity r \<le> mx)"

definition newest_first :: "('v, 's) mem_row list \<Rightarrow> ('v, 's) mem_row list" where
  "newest_first rows = sort_key (\<lambda>r. (- mr_created_at r, - int (mr_id r))) rows"

definition undated :: "instant \<Rightarrow> namespace_ceiling list \<Rightarrow> int \<Rightarrow> ('v, 's) mem_db \<Rightarrow> memory list" where
  "undated now readable limit db =
     (if readable = [] then []
      else map memory_from_row (take (nat limit)
             (newest_first (filter (\<lambda>r. within_ceiling readable r \<and> mr_occurred_at r = None \<and> row_live now r)
                              (md_rows db)))))"

section \<open>The actions\<close>

definition writable_row ::
    "('v, 'd) write_ctx \<Rightarrow> ('v, sealed_content) mem_db \<Rightarrow> str \<Rightarrow> (nat \<times> memory) res" where
  "writable_row ctx db raw =
     (case wc_uuid ctx (trim raw) of
        None \<Rightarrow> Inl (validation (R_Service (SF_Review (V_NotUuid raw))))
      | Some i \<Rightarrow>
          (case find_by_id db i of
             None \<Rightarrow> Inl (not_found (R_Service (SF_Review (V_NotYours raw))))
           | Some m \<Rightarrow>
               if deletable (wc_principal ctx) m then Inr (i, m)
               else Inl (not_found (R_Service (SF_Review (V_NotYours raw))))))"

definition review_confirm ::
    "('v, 'd) write_ctx \<Rightarrow> instant \<Rightarrow> str \<Rightarrow> ('v, sealed_content) mem_db \<Rightarrow> (nat \<times> ('v, sealed_content) mem_db) res" where
  "review_confirm ctx now raw db =
     and_then (writable_row ctx db raw) (\<lambda>(i, _). Inr (i, confirm_row now i db))"

definition review_supersede ::
    "('v, 'd) write_ctx \<Rightarrow> instant \<Rightarrow> str \<Rightarrow> str \<Rightarrow> ('v, sealed_content) mem_db \<Rightarrow>
     ((nat \<times> nat \<times> bool) \<times> ('v, sealed_content) mem_db) res" where
  "review_supersede ctx now old new db =
     and_then (validate_supersedes_target ctx now db old) (\<lambda>(old_id, _).
     and_then (writable_row ctx db new) (\<lambda>(new_id, new_row).
       if old_id = new_id then Inl (validation (R_Service (SF_Review V_SelfSupersede)))
       else if \<not> memory_is_live now new_row then Inl (conflict (R_Service (SF_Review (V_NotLive new))))
       else and_then (supersede now old_id new_id db) (\<lambda>(left_open, db').
         Inr ((new_id, old_id, left_open), db'))))"

definition review_expire ::
    "('v, 'd) write_ctx \<Rightarrow> instant \<Rightarrow> str \<Rightarrow> ('v, sealed_content) mem_db \<Rightarrow>
     ((nat \<times> instant) \<times> ('v, sealed_content) mem_db) res" where
  "review_expire ctx now raw db =
     and_then (writable_row ctx db raw) (\<lambda>(i, row).
       case m_occurred_until row of
         Some until \<Rightarrow>
           Inl (validation (R_Service (SF_Review
             (if m_superseded_at row = None then V_AlreadyExpired raw until else V_RetiredBySupersession raw until))))
       | None \<Rightarrow>
           if \<not> memory_is_live now row then Inl (conflict (R_Service (SF_Review (V_Superseded raw))))
           else and_then (expire now i db) (\<lambda>(closed, db').
             case closed of
               None \<Rightarrow> Inl (conflict (R_Service (SF_Review (V_Changed raw))))
             | Some until \<Rightarrow> Inr ((i, until), db')))"

definition review_unexpire ::
    "('v, 'd) write_ctx \<Rightarrow> str \<Rightarrow> instant \<Rightarrow> ('v, sealed_content) mem_db \<Rightarrow> (bool \<times> ('v, sealed_content) mem_db) res" where
  "review_unexpire ctx raw until db =
     and_then (writable_row ctx db raw) (\<lambda>(i, _). Inr (unexpire i until db))"

definition review_fill_date ::
    "('v, 'd) write_ctx \<Rightarrow> instant \<Rightarrow> str \<Rightarrow> instant \<Rightarrow> ('v, sealed_content) mem_db \<Rightarrow>
     (nat \<times> ('v, sealed_content) mem_db) res" where
  "review_fill_date ctx now raw at_time db =
     and_then (writable_row ctx db raw) (\<lambda>(i, m).
       let (opened, failed) = decrypt (wc_gcm ctx) (wc_ring ctx) db [m];
           row = (case opened of [] \<Rightarrow> m | r # _ \<Rightarrow> r)
       in if failed \<noteq> [] then Inl (validation (R_Service (SF_Review (V_NotOpened raw))))
          else if at_time > now then Inl (validation (R_Service (SF_Review V_FutureDate)))
          else if m_occurred_at row \<noteq> None then Inl (conflict (R_Service (SF_Review (V_HasStart raw))))
          else if \<not> states (wc_calendar ctx) (m_content row) (wc_date ctx at_time)
            then Inl (validation (R_Service (SF_Review (V_NotNamed raw))))
          else and_then (fill_occurred_at i at_time db) (\<lambda>(hit, db').
            if hit then Inr (i, db') else Inl (conflict (R_Service (SF_Review (V_GainedStart raw))))))"

definition review_delete ::
    "'v forget_ctx \<Rightarrow> str \<Rightarrow> 'v forget_state \<Rightarrow> forget_outcome res \<times> 'v forget_state" where
  "review_delete ctx raw st = forget_by_id ctx raw False st"

section \<open>Dates the text names\<close>

definition DATE_SCAN_FACTOR :: int where "DATE_SCAN_FACTOR = 20"
definition DATE_SCAN_MAX :: int where "DATE_SCAN_MAX = 20000"

text \<open>The page of the scan: answers kept so far, answers skipped, and the rows to go.\<close>

fun dated_loop ::
    "('d :: linorder) calendar \<Rightarrow> 'd \<Rightarrow> int \<Rightarrow> int \<Rightarrow> (memory \<times> 'd list) list \<Rightarrow> int \<Rightarrow> memory list \<Rightarrow>
     (memory \<times> 'd list) list \<times> bool" where
  "dated_loop cal today limit offset out skipped [] = (out, False)"
| "dated_loop cal today limit offset out skipped (row # rows) =
     (let days = filter (\<lambda>d. d \<le> today) (extract_days cal (m_content row))
      in if days = [] then dated_loop cal today limit offset out skipped rows
         else if skipped < offset then dated_loop cal today limit offset out (skipped + 1) rows
         else if int (length out) = limit then (out, True)
         else dated_loop cal today limit offset (out @ [(row, days)]) skipped rows)"

definition dated_in_text ::
    "('v, 'd :: linorder) write_ctx \<Rightarrow> instant \<Rightarrow> str list \<Rightarrow> int \<Rightarrow> int \<Rightarrow> ('v, sealed_content) mem_db \<Rightarrow>
     (memory \<times> 'd list) list \<times> bool" where
  "dated_in_text ctx now registry limit offset db =
     (let readable = resolve (p_read (wc_principal ctx)) (namespaces_held registry db);
          scan = min ((offset + limit + 1) * DATE_SCAN_FACTOR) DATE_SCAN_MAX;
          rows = fst (decrypt (wc_gcm ctx) (wc_ring ctx) db (undated now readable scan db))
      in dated_loop (wc_calendar ctx) (wc_date ctx now) limit offset [] 0 rows)"

text \<open>\<open>date_candidates\<close>: one day is proposed, several are all reported.\<close>

definition date_candidates ::
    "('v, 'd :: linorder) write_ctx \<Rightarrow> instant \<Rightarrow> str list \<Rightarrow> int option \<Rightarrow> ('v, sealed_content) mem_db \<Rightarrow>
     (memory \<times> 'd option \<times> 'd list) list" where
  "date_candidates ctx now registry limit db =
     map (\<lambda>(row, days). case days of [d] \<Rightarrow> (row, Some d, []) | _ \<Rightarrow> (row, None, days))
       (fst (dated_in_text ctx now registry (clamp 1 500 (case limit of None \<Rightarrow> 50 | Some l \<Rightarrow> l)) 0 db))"

section \<open>The actions as one machine\<close>

datatype review_action =
    AConfirm str
  | ASupersede str str
  | AExpire str
  | AUnexpire str instant
  | AFill str instant

fun review_step ::
    "('v, 'd) write_ctx \<Rightarrow> instant \<Rightarrow> review_action \<Rightarrow> ('v, sealed_content) mem_db \<Rightarrow> ('v, sealed_content) mem_db" where
  "review_step ctx now (AConfirm raw) db = kept db (review_confirm ctx now raw db)"
| "review_step ctx now (ASupersede old new) db = kept db (review_supersede ctx now old new db)"
| "review_step ctx now (AExpire raw) db = kept db (review_expire ctx now raw db)"
| "review_step ctx now (AUnexpire raw until) db = kept db (review_unexpire ctx raw until db)"
| "review_step ctx now (AFill raw t) db = kept db (review_fill_date ctx now raw t db)"

section \<open>What each action needs\<close>

lemma writable_row_Inr:
  "writable_row ctx db raw = Inr (i, m) \<longleftrightarrow>
     wc_uuid ctx (trim raw) = Some i \<and>
     (\<exists>r. find_row db i = Some r \<and> m = memory_from_row r \<and> owns (wc_principal ctx) r)"
  by (auto simp: writable_row_def find_by_id_def deletable_owns[symmetric] split: option.splits if_splits)

lemma review_expire_Inr:
  "review_expire ctx now raw db = Inr ((i, until), db') \<Longrightarrow>
     \<exists>r. wc_uuid ctx (trim raw) = Some i \<and> find_row db i = Some r \<and> owns (wc_principal ctx) r \<and>
       expirable i r \<and> until = now \<and>
       db' = update_rows (expirable i) (\<lambda>r. r\<lparr>mr_occurred_until := Some now\<rparr>) db"
  by (auto simp: review_expire_def and_then_Inr writable_row_Inr expire_def Let_def expirable_def
        memory_is_live_def memory_from_row_def
        dest: find_row_Some split: option.splits if_splits)

lemma review_supersede_Inr:
  "review_supersede ctx now old new db = Inr ((new_id, old_id, left_open), db') \<Longrightarrow>
     \<exists>p s. find_row db old_id = Some p \<and> owns (wc_principal ctx) p \<and>
       find_row db new_id = Some s \<and> owns (wc_principal ctx) s \<and> row_live now s \<and> old_id \<noteq> new_id \<and>
       supersede now old_id new_id db = Inr (left_open, db')"
  by (auto simp: review_supersede_def and_then_Inr writable_row_Inr validate_supersedes_target_def
        find_by_id_def owns_def memory_from_row_def row_live_memory[symmetric]
        split: option.splits if_splits)

lemma review_fill_Inr:
  assumes "review_fill_date ctx now raw t db = Inr (i, db')"
  obtains r where "find_row db i = Some r" "owns (wc_principal ctx) r" "t \<le> now" "mr_occurred_at r = None"
    "states (wc_calendar ctx) (m_content (open_row ctx db (memory_from_row r))) (wc_date ctx t)"
    "fill_occurred_at i t db = Inr (True, db')"
proof -
  from assms obtain k m where w: "writable_row ctx db raw = Inr (k, m)"
    by (auto simp: review_fill_date_def and_then_Inr)
  then obtain r where r: "find_row db k = Some r" "m = memory_from_row r" "owns (wc_principal ctx) r"
    by (auto simp: writable_row_Inr)
  obtain opened failed where o: "decrypt (wc_gcm ctx) (wc_ring ctx) db [m] = (opened, failed)" by fastforce
  let ?row = "open_row ctx db m"
  have row: "(case opened of [] \<Rightarrow> m | r # _ \<Rightarrow> r) = ?row" by (simp add: open_row_def o)
  have oc: "m_occurred_at ?row = mr_occurred_at r"
    by (auto simp: r(2) open_row_def decrypt_def Let_def needs_opening_def memory_from_row_def
        split: list.splits option.splits sum.splits)
  have f: "t \<le> now" "mr_occurred_at r = None" "states (wc_calendar ctx) (m_content ?row) (wc_date ctx t)"
      "and_then (fill_occurred_at k t db) (\<lambda>(hit, db1).
         if hit then Inr (k, db1) else Inl (conflict (R_Service (SF_Review (V_GainedStart raw))))) = Inr (i, db')"
    using assms by (auto simp: review_fill_date_def w o row oc Let_def split: if_splits)
  then have "i = k" "fill_occurred_at k t db = Inr (True, db')"
    by (auto simp: and_then_Inr split: if_splits)
  with r f show ?thesis by (intro that[of r]) auto
qed

section \<open>What an action may change\<close>

text \<open>What a version says, as opposed to when it held and what replaced it.\<close>

definition version_text ::
    "('v, 's) mem_row \<Rightarrow> nat \<times> str \<times> str option \<times> 's option \<times> sensitivity \<times> str list \<times> instant" where
  "version_text r = (mr_id r, mr_namespace r, mr_content r, mr_sealed r, mr_sensitivity r, mr_tags r, mr_created_at r)"

definition reviewed :: "principal \<Rightarrow> ('v, 's) mem_db \<Rightarrow> ('v, 's) mem_db \<Rightarrow> bool" where
  "reviewed p db db' \<longleftrightarrow>
     map version_text (md_rows db') = map version_text (md_rows db) \<and>
     (\<forall>j. find_row db' j = find_row db j \<or> (\<exists>r. find_row db j = Some r \<and> owns p r))"

lemma reviewed_refl [simp]: "reviewed p db db"
  by (simp add: reviewed_def)

lemma reviewed_trans:
  assumes "reviewed p db db1" "reviewed p db1 db2"
  shows "reviewed p db db2"
  unfolding reviewed_def
proof (intro conjI allI)
  show "map version_text (md_rows db2) = map version_text (md_rows db)"
    using assms(1,2) by (simp add: reviewed_def)
  fix j
  show "find_row db2 j = find_row db j \<or> (\<exists>r. find_row db j = Some r \<and> owns p r)"
  proof (cases "find_row db1 j = find_row db j")
    case True
    then show ?thesis using assms(2)[unfolded reviewed_def, THEN conjunct2, THEN spec, of j] by simp
  next
    case False
    then show ?thesis using assms(1)[unfolded reviewed_def, THEN conjunct2, THEN spec, of j] by simp
  qed
qed

lemma reviewed_update:
  assumes "\<And>r. version_text (f r) = version_text r"
    and "\<And>r. find_row db (mr_id r) = Some r \<Longrightarrow> q r \<Longrightarrow> f r = r \<or> owns p r"
  shows "reviewed p db (update_rows q f db)"
proof -
  have i: "mr_id (f r) = mr_id r" for r using assms(1)[of r] by (simp add: version_text_def)
  have "find_row (update_rows q f db) j = find_row db j \<or> (\<exists>r. find_row db j = Some r \<and> owns p r)" for j
  proof (cases "find_row db j")
    case (Some r)
    then have "mr_id r = j" by (simp add: find_row_Some)
    then show ?thesis using assms(2)[of r] Some by (auto simp: find_row_update[of f, OF i])
  qed (simp add: find_row_update[of f, OF i])
  then show ?thesis unfolding reviewed_def md_rows_simps using assms(1) by (simp add: map_update_same)
qed

lemma owns_text: "version_text r = version_text s \<Longrightarrow> owns p r = owns p s"
  by (simp add: owns_def version_text_def)

lemma reviewed_supersede:
  assumes "supersede now old new db = Inr (left_open, db')" and d: "distinct (map mr_id (md_rows db))"
    and "find_row db old = Some a" "owns p a" "find_row db new = Some b" "owns p b"
  shows "reviewed p db db'"
  using assms(1) d
proof (cases rule: supersede_Inr)
  case (linked q)
  then show ?thesis by simp
next
  case (retired q s until)
  let ?db1 = "retire now old new until db"
  have own: "j = old \<or> j = new \<Longrightarrow> find_row db j = Some r \<Longrightarrow> owns p r" for j r using assms(3-6) by auto
  have f1: "find_row ?db1 j = map_option (\<lambda>r. if mr_id r = old \<and> retirable now r then retired_row now new until r else r)
      (find_row db j)" for j
    by (rule find_row_update) simp
  have t: "version_text (retired_row now new until r) = version_text r" for r :: "('a, 'b) mem_row"
    by (simp add: version_text_def retired_row_def)
  have r1: "reviewed p db ?db1" using own by (intro reviewed_update) (auto simp: t dest: find_row_Some)
  have own1: "j = old \<or> j = new \<Longrightarrow> find_row ?db1 j = Some r \<Longrightarrow> owns p r" for j r
    using own[of j] owns_text[OF t] by (auto simp: f1 split: if_splits)
  have r2: "reviewed p ?db1 (link_successor new old ?db1)"
    unfolding link_successor_def using own1 by (intro reviewed_update) (auto simp: version_text_def dest: find_row_Some)
  show ?thesis unfolding retired(10) by (rule reviewed_trans[OF r1 r2])
qed

lemma confirm_reviewed:
  "find_row db i = Some r \<Longrightarrow> owns p r \<Longrightarrow> reviewed p db (confirm_row now i db)"
  unfolding confirm_row_def by (intro reviewed_update) (auto simp: version_text_def dest: find_row_Some)

lemma live_walk_complete:
  "find_row db i = Some r \<Longrightarrow> row_live now r \<Longrightarrow> walk_complete db i"
  by (simp add: walk_complete_def max_chain_depth_def row_live_def numeral_eq_Suc)

lemma review_step_reviewed:
  assumes h: "history_ok db"
  shows "history_ok (review_step ctx now act db) \<and> reviewed (wc_principal ctx) db (review_step ctx now act db)"
proof -
  have d: "distinct (map mr_id (md_rows db))" using h by (simp add: history_ok_def)
  have k: "kept db r = db" if "\<And>x db'. r \<noteq> Inr (x, db')" for r :: "('x \<times> ('a, sealed_content) mem_db) res"
    using that by (cases r) auto
  show ?thesis
  proof (cases act)
    case (AConfirm raw)
    show ?thesis
      using h by (cases "writable_row ctx db raw")
        (auto simp: AConfirm review_confirm_def writable_row_Inr history_confirm intro: confirm_reviewed)
  next
    case (ASupersede old new)
    show ?thesis
    proof (cases "review_supersede ctx now old new db")
      case (Inr x)
      then obtain n q lo db' where e: "review_supersede ctx now old new db = Inr ((n, q, lo), db')" by (cases x) auto
      from review_supersede_Inr[OF e] obtain a b where
        *: "find_row db q = Some a" "owns (wc_principal ctx) a" "find_row db n = Some b" "owns (wc_principal ctx) b"
          "row_live now b" "supersede now q n db = Inr (lo, db')" by blast
      show ?thesis
        using history_supersede[OF h live_walk_complete[OF *(3,5)], of now q] reviewed_supersede[OF *(6) d *(1-4)]
        by (simp add: ASupersede e *(6))
    qed (simp add: ASupersede h)
  next
    case (AExpire raw)
    show ?thesis
    proof (cases "review_expire ctx now raw db")
      case (Inr x)
      then obtain i t db' where e: "review_expire ctx now raw db = Inr ((i, t), db')" by (cases x) auto
      from review_expire_Inr[OF e] obtain r where
        *: "find_row db i = Some r" "owns (wc_principal ctx) r"
          "db' = update_rows (expirable i) (\<lambda>r. r\<lparr>mr_occurred_until := Some now\<rparr>) db" by blast
      have "expire now i db = Inr (Some now, db')"
        using e *(3) by (auto simp: review_expire_def and_then_Inr writable_row_Inr expire_def Let_def
            split: option.splits if_splits)
      then have "history_ok db'" using history_expire[OF h, of now i] by simp
      moreover have "reviewed (wc_principal ctx) db db'"
        unfolding *(3) using *(1,2) by (intro reviewed_update) (auto simp: version_text_def expirable_def dest: find_row_Some)
      ultimately show ?thesis by (simp add: AExpire e)
    qed (simp add: AExpire h)
  next
    case (AUnexpire raw t)
    show ?thesis
    proof (cases "writable_row ctx db raw")
      case (Inr x)
      then obtain i m where e: "writable_row ctx db raw = Inr (i, m)" by (cases x) auto
      then obtain r where r: "find_row db i = Some r" "owns (wc_principal ctx) r" by (auto simp: writable_row_Inr)
      have "reviewed (wc_principal ctx) db (snd (unexpire i t db))"
        unfolding unexpire_def snd_conv using r
        by (intro reviewed_update) (auto simp: version_text_def unexpirable_def dest: find_row_Some)
      then show ?thesis
        using history_unexpire[OF h, of i t]
        by (simp add: AUnexpire review_unexpire_def e split_beta kept_def)
    qed (simp add: AUnexpire review_unexpire_def h)
  next
    case (AFill raw t)
    show ?thesis
    proof (cases "review_fill_date ctx now raw t db")
      case (Inr x)
      then obtain i db' where e: "review_fill_date ctx now raw t db = Inr (i, db')" by (cases x) auto
      from e obtain r where
        r: "find_row db i = Some r" "owns (wc_principal ctx) r" and f: "fill_occurred_at i t db = Inr (True, db')"
        by (rule review_fill_Inr)
      have u: "db' = update_rows (undated_row i) (\<lambda>r. r\<lparr>mr_occurred_at := Some t\<rparr>) db"
        using f by (simp add: fill_occurred_at_def Let_def split: if_splits)
      have "reviewed (wc_principal ctx) db db'"
        unfolding u using r by (intro reviewed_update) (auto simp: version_text_def undated_row_def dest: find_row_Some)
      then show ?thesis using history_fill[OF h, of i t] by (simp add: AFill e f)
    qed (simp add: AFill h)
  qed
qed

section \<open>The properties\<close>

text \<open>
  Property C17. Whatever a review action is asked to do, it leaves the history sound (ids distinct,
  links to rows that exist, no loop, no retired row without a stamp, no period that ends before it
  begins), it changes no row the caller does not hold both grants on, and no version's text,
  namespace, level, tags or age changes at all.
\<close>

theorem review_within_grants:
  assumes "history_ok db"
  shows "history_ok (review_step ctx now act db) \<and> reviewed (wc_principal ctx) db (review_step ctx now act db)"
  by (rule review_step_reviewed[OF assms])

text \<open>
  Property C18. Expiring a fact and taking it back with the instant the expiry answered restores
  the tables exactly.
\<close>

theorem unexpire_undoes_expire:
  assumes "distinct (map mr_id (md_rows db))" and "review_expire ctx now raw db = Inr ((i, until), db')"
  shows "review_unexpire ctx raw until db' = Inr (True, db)"
proof -
  from review_expire_Inr[OF assms(2)] obtain r where
    *: "wc_uuid ctx (trim raw) = Some i" "find_row db i = Some r" "owns (wc_principal ctx) r" "expirable i r"
      "until = now" "db' = update_rows (expirable i) (\<lambda>r. r\<lparr>mr_occurred_until := Some now\<rparr>) db" by blast
  let ?f = "\<lambda>r :: ('a, sealed_content) mem_row. r\<lparr>mr_occurred_until := Some now\<rparr>"
  have f: "find_row db' i = Some (?f r)" using *(2,4) by (simp add: *(6) find_row_update)
  have "owns (wc_principal ctx) (?f r)" using *(3) by (simp add: owns_def)
  with f *(1) have w: "writable_row ctx db' raw = Inr (i, memory_from_row (?f r))" by (simp add: writable_row_Inr)
  have uniq: "x = r" if "x \<in> set (md_rows db)" "mr_id x = i" for x
    using find_row_unique[OF assms(1) that(1)] that(2) *(2) by simp
  have same: "(if unexpirable i now (if expirable i x then ?f x else x)
      then (if expirable i x then ?f x else x)\<lparr>mr_occurred_until := None\<rparr>
      else (if expirable i x then ?f x else x)) = x" if "x \<in> set (md_rows db)" for x
    using uniq[OF that] *(4) by (cases "mr_id x = i") (auto simp: expirable_def unexpirable_def)
  have "md_rows (update_rows (unexpirable i now) (\<lambda>r. r\<lparr>mr_occurred_until := None\<rparr>) db') = md_rows db"
    unfolding *(6) md_rows_simps update_where_def map_map comp_def using same by (intro map_idI) simp
  then have undone: "update_rows (unexpirable i now) (\<lambda>r. r\<lparr>mr_occurred_until := None\<rparr>) db' = db"
    by (simp add: *(6) update_rows_def)
  have "?f r \<in> set (md_rows db')" using find_row_Some[OF f] by simp
  moreover have "unexpirable i now (?f r)" using *(4) by (simp add: expirable_def unexpirable_def)
  ultimately have "hits db' (unexpirable i now) \<noteq> 0" by (auto simp: hits_0)
  then show ?thesis by (simp add: review_unexpire_def w unexpire_def undone *(5))
qed

text \<open>
  A date is filled in only on a row that had none, only a date that is not ahead of
  now, and only one whose day is among those the row's own opened text names; then that start is
  the only thing in the tables that changes.
\<close>

theorem filled_date_is_stated:
  assumes "distinct (map mr_id (md_rows db))" and "review_fill_date ctx now raw t db = Inr (i, db')"
  shows "\<exists>r. find_row db i = Some r \<and> owns (wc_principal ctx) r \<and> mr_occurred_at r = None \<and> t \<le> now \<and>
    wc_date ctx t \<in> set (extract_days (wc_calendar ctx) (m_content (open_row ctx db (memory_from_row r)))) \<and>
    find_row db' i = Some (r\<lparr>mr_occurred_at := Some t\<rparr>) \<and>
    (\<forall>j. j \<noteq> i \<longrightarrow> find_row db' j = find_row db j)"
  using assms(2)
proof (rule review_fill_Inr)
  fix r
  assume r: "find_row db i = Some r" "owns (wc_principal ctx) r" "t \<le> now" "mr_occurred_at r = None"
    and s: "states (wc_calendar ctx) (m_content (open_row ctx db (memory_from_row r))) (wc_date ctx t)"
    and f: "fill_occurred_at i t db = Inr (True, db')"
  have u: "db' = update_rows (undated_row i) (\<lambda>r. r\<lparr>mr_occurred_at := Some t\<rparr>) db"
    using f by (simp add: fill_occurred_at_def Let_def split: if_splits)
  have i: "mr_id r = i" using find_row_Some[OF r(1)] by simp
  have "find_row db' j = find_row db j" if "j \<noteq> i" for j
    using that by (cases "find_row db j") (auto simp: u find_row_update undated_row_def dest: find_row_Some)
  then show ?thesis using r s i by (auto simp: u find_row_update undated_row_def states_def)
qed

section \<open>Concrete runs\<close>

definition sample_review :: "(nat, nat) write_ctx" where
  "sample_review = sample_ctx
     \<lparr>wc_uuid := (\<lambda>s. if s = u ''one'' then Some 1 else if s = u ''five'' then Some 5 else None),
      wc_calendar := \<lparr>parse_ymd = (\<lambda>s. if s = u ''2026-03-04'' then Some 4 else None), from_ymd_opt = (\<lambda>_ _ _. None)\<rparr>,
      wc_date := (\<lambda>t. nat t)\<rparr>"

definition sample_dated :: "(nat, sealed_content) mem_db" where
  "sample_dated = update_rows (\<lambda>r. mr_id r = 1)
     (\<lambda>r. r\<lparr>mr_content := Some (u ''moved on 2026-03-04 at last'')\<rparr>) sample_memories"

lemma review_within_grants_witness: "history_ok (review_step sample_review 100 (AExpire (u ''one'')) sample_memories)"
  using review_within_grants[OF sample_memories_ok, of sample_review 100 "AExpire (u ''one'')"] by blast

lemma unexpire_undoes_expire_witness:
  "\<exists>db'. review_expire sample_review 100 (u '' one '') sample_memories = Inr ((1, 100), db') \<and>
    review_unexpire sample_review (u '' one '') 100 db' = Inr (True, sample_memories)"
proof -
  have "map_sum id fst (review_expire sample_review 100 (u '' one '') sample_memories) = Inr (1, 100)"
    by code_simp
  then obtain db' where e: "review_expire sample_review 100 (u '' one '') sample_memories = Inr ((1, 100), db')"
    by (cases "review_expire sample_review 100 (u '' one '') sample_memories") auto
  have "review_unexpire sample_review (u '' one '') 100 db' = Inr (True, sample_memories)"
    by (rule unexpire_undoes_expire[OF sample_distinct e])
  with e show ?thesis by blast
qed

lemma filled_date_is_stated_witness:
  "\<exists>db'. review_fill_date sample_review 100 (u ''one'') 4 sample_dated = Inr (1, db') \<and>
    (\<forall>j. j \<noteq> 1 \<longrightarrow> find_row db' j = find_row sample_dated j)"
proof -
  have "map_sum id fst (review_fill_date sample_review 100 (u ''one'') 4 sample_dated) = Inr 1"
    by code_simp
  then obtain db' where e: "review_fill_date sample_review 100 (u ''one'') 4 sample_dated = Inr (1, db')"
    by (cases "review_fill_date sample_review 100 (u ''one'') 4 sample_dated") auto
  have "distinct (map mr_id (md_rows sample_dated))" by code_simp
  from filled_date_is_stated[OF this e] e show ?thesis by blast
qed

end
