(* ===== verification/Lr_Timeline.thy ===== *)
theory Lr_Timeline
  imports Lr_Review
begin

text \<open>
  One fact and every version of it: \<open>SUBJECT_HISTORY_SQL\<close> and \<open>split_grants\<close> of
  \<open>src/src/adapters/postgres/memory.rs\<close>, and \<open>src/src/services/history.rs\<close>. The walk goes both
  ways along the supersession links to the depth cap, crosses namespaces, and only then drops the
  versions the grant does not admit and counts them.
\<close>

section \<open>The grant, as the statement reads it\<close>

record granted_rule =
  gr_prefix :: str
  gr_exact :: bool
  gr_max :: sensitivity

definition split_grant :: "namespace_grant \<Rightarrow> granted_rule" where
  "split_grant g =
     (let pattern = to_ascii_lowercase (trim (g_namespace g))
      in case strip_suffix (u ''*'') pattern of
           Some pre \<Rightarrow> \<lparr>gr_prefix = pre, gr_exact = False, gr_max = g_max g\<rparr>
         | None \<Rightarrow> \<lparr>gr_prefix = pattern, gr_exact = True, gr_max = g_max g\<rparr>)"

definition split_grants :: "namespace_grant list \<Rightarrow> granted_rule list" where
  "split_grants gs = map split_grant gs"

text \<open>\<open>left(s, length(p)) = p\<close>.\<close>

definition granted_row :: "granted_rule list \<Rightarrow> str \<Rightarrow> sensitivity \<Rightarrow> bool" where
  "granted_row gs ns l \<longleftrightarrow>
     list_ex (\<lambda>g. (if gr_exact g then ns = gr_prefix g else take (length (gr_prefix g)) ns = gr_prefix g) \<and>
                  l \<le> gr_max g) gs"

section \<open>The walk\<close>

text \<open>\<open>forward\<close>: the rows the links lead to, with how many hops away, at most \<open>depth\<close> of them.\<close>

fun forward_walk :: "nat \<Rightarrow> ('v, 's) mem_db \<Rightarrow> int \<Rightarrow> nat \<Rightarrow> (nat \<times> int) list" where
  "forward_walk n db d i =
     (case find_row db i of
        None \<Rightarrow> []
      | Some r \<Rightarrow> (i, d) #
          (case n of 0 \<Rightarrow> []
           | Suc m \<Rightarrow> (case mr_superseded_by r of None \<Rightarrow> [] | Some j \<Rightarrow> forward_walk m db (d + 1) j)))"

declare forward_walk.simps [simp del]

text \<open>\<open>backward\<close>: every row that leads to these, level by level, at negative depths.\<close>

definition replaced_by :: "('v, 's) mem_db \<Rightarrow> nat \<Rightarrow> nat list" where
  "replaced_by db i = map mr_id (filter (\<lambda>r. mr_superseded_by r = Some i) (md_rows db))"

fun backward_walk :: "nat \<Rightarrow> ('v, 's) mem_db \<Rightarrow> int \<Rightarrow> nat list \<Rightarrow> (nat \<times> int) list" where
  "backward_walk 0 db d ids = map (\<lambda>i. (i, d)) ids"
| "backward_walk (Suc n) db d ids =
     map (\<lambda>i. (i, d)) ids @ backward_walk n db (d - 1) (concat (map (replaced_by db) ids))"

definition chain_entries :: "('v, 's) mem_db \<Rightarrow> nat \<Rightarrow> (nat \<times> int) list" where
  "chain_entries db i =
     forward_walk max_chain_depth db 0 i @
     backward_walk max_chain_depth db 0 (case find_row db i of None \<Rightarrow> [] | Some _ \<Rightarrow> [i])"

text \<open>\<open>chain\<close>: one row per id, at its least depth.\<close>

definition chain_depth :: "('v, 's) mem_db \<Rightarrow> nat \<Rightarrow> nat \<Rightarrow> int option" where
  "chain_depth db i j =
     (case map snd (filter (\<lambda>e. fst e = j) (chain_entries db i)) of
        [] \<Rightarrow> None
      | d # ds \<Rightarrow> Some (fold min ds d))"

definition walked :: "('v, 's) mem_db \<Rightarrow> nat \<Rightarrow> (('v, 's) mem_row \<times> int) list" where
  "walked db i = filter_map (\<lambda>r. map_option (\<lambda>d. (r, d)) (chain_depth db i (mr_id r))) (md_rows db)"

section \<open>The answer\<close>

record timeline =
  tl_versions :: "memory list"
  tl_withheld :: nat
  tl_depth_capped :: bool

definition no_timeline :: timeline where
  "no_timeline = \<lparr>tl_versions = [], tl_withheld = 0, tl_depth_capped = False\<rparr>"

definition oldest_version :: "(('v, 's) mem_row \<times> int) list \<Rightarrow> (('v, 's) mem_row \<times> int) list" where
  "oldest_version ws = sort_key (\<lambda>(r, d). (d, mr_created_at r, mr_id r)) ws"

definition subject_history :: "namespace_grant list \<Rightarrow> nat \<Rightarrow> ('v, 's) mem_db \<Rightarrow> timeline" where
  "subject_history grants i db =
     (if grants = [] then no_timeline
      else
        let ws = walked db i;
            readable = (\<lambda>(r, _). granted_row (split_grants grants) (mr_namespace r) (mr_sensitivity r));
            anchor = list_ex (\<lambda>w. mr_id (fst w) = i \<and> readable w) ws;
            shown = (if anchor then oldest_version (filter readable ws) else [])
        in case shown of
             [] \<Rightarrow> no_timeline
           | _ \<Rightarrow> \<lparr>tl_versions = map (memory_from_row \<circ> fst) shown,
                   tl_withheld = length (filter (\<lambda>w. \<not> readable w) ws),
                   tl_depth_capped = list_ex (\<lambda>(_, d). int max_chain_depth \<le> \<bar>d\<bar>) ws\<rparr>)"

definition assert_may_read :: "principal \<Rightarrow> unit res" where
  "assert_may_read p =
     (if p_may_read_history p then Inr ()
      else Inl (forbidden (R_Service (SF_Search (Q_MayNotReadHistory (p_client p))))))"

definition history_of :: "principal \<Rightarrow> nat \<Rightarrow> ('v, 's) mem_db \<Rightarrow> timeline res" where
  "history_of p i db = and_then (assert_may_read p) (\<lambda>_. Inr (subject_history (p_read p) i db))"

section \<open>The grant is the policy's\<close>

lemma take_prefix: "take (length p) s = p \<longleftrightarrow> prefix p s"
  by (auto simp: prefix_def) (metis append_take_drop_id)

lemma split_grant_matches:
  "(if gr_exact (split_grant g) then ns = gr_prefix (split_grant g)
    else take (length (gr_prefix (split_grant g))) ns = gr_prefix (split_grant g)) \<longleftrightarrow> matches (g_namespace g) ns"
proof -
  let ?p = "to_ascii_lowercase (trim (g_namespace g))"
  show ?thesis
  proof (cases "strip_suffix (u ''*'') ?p")
    case None
    then have "?p \<noteq> u ''*''" by (metis append_Nil option.distinct(1) strip_suffix_Some)
    then show ?thesis using None by (auto simp: split_grant_def matches_def Let_def)
  next
    case (Some pre)
    then have p: "?p = pre @ [42]" by simp
    have "strip_suffix [42] (pre @ [42]) = Some pre" by simp
    then have "split_grant g = \<lparr>gr_prefix = pre, gr_exact = False, gr_max = g_max g\<rparr>"
      and "matches (g_namespace g) ns = prefix pre ns"
      by (auto simp: split_grant_def matches_def Let_def p starts_with_def simp del: strip_suffix_Some)
    then show ?thesis by (simp add: take_prefix)
  qed
qed

lemma split_grant_max [simp]: "gr_max (split_grant g) = g_max g"
  by (simp add: split_grant_def Let_def split: option.splits)

lemma granted_row_admits: "granted_row (split_grants gs) ns l \<longleftrightarrow> admits gs ns l"
  unfolding granted_row_def split_grants_def list_ex_iff admits_iff
  by (simp add: split_grant_matches)


section \<open>The walk reaches the whole chain\<close>

text \<open>How far along the links, in either direction.\<close>

definition hops :: "('v, 's) mem_db \<Rightarrow> nat \<Rightarrow> nat \<Rightarrow> int \<Rightarrow> nat \<Rightarrow> bool" where
  "hops db i j e k \<longleftrightarrow>
     (e = int k \<and> (i, j) \<in> succession db ^^ k) \<or> (e = - int k \<and> (j, i) \<in> succession db ^^ k)"

lemma succession_find:
  assumes d: "distinct (map mr_id (md_rows db))" and r: "find_row db i = Some r"
  shows "(i, j) \<in> succession db \<longleftrightarrow> mr_superseded_by r = Some j"
proof
  assume "(i, j) \<in> succession db"
  then obtain x where x: "x \<in> set (md_rows db)" "mr_id x = i" "mr_superseded_by x = Some j"
    by (auto simp: succession_mem)
  then have "x = r" using find_row_unique[OF d x(1)] r by simp
  with x(3) show "mr_superseded_by r = Some j" by simp
next
  assume "mr_superseded_by r = Some j"
  then show "(i, j) \<in> succession db" using find_row_Some[OF r] by (auto simp: succession_mem)
qed

lemma succession_single:
  assumes d: "distinct (map mr_id (md_rows db))" and a: "(i, a) \<in> succession db" and b: "(i, b) \<in> succession db"
  shows "a = b"
proof -
  have "i \<in> row_ids (md_rows db)" using a by (auto simp: succession_mem row_ids_def)
  then obtain r where r: "find_row db i = Some r" using find_row_None[of db i] by (cases "find_row db i") auto
  show ?thesis using a b unfolding succession_find[OF d r] by simp
qed

lemma succession_field:
  assumes l: "links_ok (md_rows db)" and "(i, j) \<in> succession db"
  shows "i \<in> row_ids (md_rows db)" "j \<in> row_ids (md_rows db)"
  using assms by (auto simp: succession_mem links_ok_def list_all_iff link_ok_def row_ids_def)

lemma relpow_single:
  assumes d: "distinct (map mr_id (md_rows db))"
  shows "(i, a) \<in> succession db ^^ k \<Longrightarrow> (i, b) \<in> succession db ^^ k \<Longrightarrow> a = b"
proof (induction k arbitrary: a b)
  case (Suc k)
  then show ?case by (metis relpow_Suc_E succession_single[OF d])
qed simp

lemma relpow_split:
  assumes d: "distinct (map mr_id (md_rows db))"
    and "(i, a) \<in> succession db ^^ k" "(i, b) \<in> succession db ^^ l" "k \<le> l"
  shows "(a, b) \<in> succession db ^^ (l - k)"
proof -
  have "(i, b) \<in> succession db ^^ k O succession db ^^ (l - k)"
    using assms(3,4) by (simp add: relpow_add[symmetric])
  then obtain m where "(i, m) \<in> succession db ^^ k" "(m, b) \<in> succession db ^^ (l - k)" by auto
  then show ?thesis using relpow_single[OF d assms(2)] by metis
qed

lemma relpow_self: "acyclic R \<Longrightarrow> (a, a) \<in> R ^^ k \<Longrightarrow> k = 0"
  by (metis acyclic_def neq0_conv trancl_power)

lemma relpow_steps:
  assumes d: "distinct (map mr_id (md_rows db))" and a: "acyclic (succession db)"
    and "(i, j) \<in> succession db ^^ k" "(i, j) \<in> succession db ^^ l"
  shows "k = l"
proof (cases "k \<le> l")
  case True
  then show ?thesis using relpow_self[OF a relpow_split[OF d assms(3,4)]] by simp
next
  case False
  then show ?thesis using relpow_self[OF a relpow_split[OF d assms(4,3)]] by simp
qed

text \<open>The depth of a version is one number, and grows along the links.\<close>

lemma hops_grow:
  assumes h: "history_ok db" and b: "hops db i b e k" and a: "hops db i a f l"
    and m: "(b, a) \<in> succession db ^^ m"
  shows "f = e + int m"
proof -
  have d: "distinct (map mr_id (md_rows db))" and ac: "acyclic (succession db)"
    using h by (auto simp: history_ok_def)
  note step = relpow_steps[OF d ac]
  have loop: "k = 0 \<and> l = 0" if "(i, j) \<in> succession db ^^ k" "(j, i) \<in> succession db ^^ l" for j k l
    using relpow_self[OF ac, of i "k + l"] that by (auto simp: relpow_add)
  have fwd: "f = int n" if "(i, a) \<in> succession db ^^ n" for n
    using a that step[of i a] loop[of a] by (auto simp: hops_def)
  show ?thesis using b unfolding hops_def
  proof
    assume e: "e = int k \<and> (i, b) \<in> succession db ^^ k"
    then have "(i, a) \<in> succession db ^^ (k + m)" using m by (auto simp: relpow_add)
    then show ?thesis using fwd e by simp
  next
    assume e: "e = - int k \<and> (b, i) \<in> succession db ^^ k"
    show ?thesis
    proof (cases "k \<le> m")
      case True
      then show ?thesis using fwd[OF relpow_split[OF d _ m True]] e by simp
    next
      case False
      then have ai: "(a, i) \<in> succession db ^^ (k - m)" using relpow_split[OF d m] e by simp
      have "f = - int (k - m)" using a unfolding hops_def
      proof
        assume l: "f = int l \<and> (i, a) \<in> succession db ^^ l"
        show ?thesis using loop[OF conjunct2[OF l] ai] l by simp
      next
        assume "f = - int l \<and> (a, i) \<in> succession db ^^ l"
        then show ?thesis using step[OF _ ai] by simp
      qed
      then show ?thesis using False e by simp
    qed
  qed
qed

lemma hops_unique: "history_ok db \<Longrightarrow> hops db i j e k \<Longrightarrow> hops db i j f l \<Longrightarrow> e = f"
  using hops_grow[of db i j e k j f l 0] by simp

lemma le_Suc_split: "(\<exists>k \<le> Suc n. P k) \<longleftrightarrow> P 0 \<or> (\<exists>k \<le> n. P (Suc k))"
proof
  assume "\<exists>k \<le> Suc n. P k"
  then obtain k where "k \<le> Suc n" "P k" by blast
  then show "P 0 \<or> (\<exists>k \<le> n. P (Suc k))" by (cases k) auto
next
  assume "P 0 \<or> (\<exists>k \<le> n. P (Suc k))"
  then show "\<exists>k \<le> Suc n. P k" by (metis Suc_le_mono le0)
qed

lemma forward_entries:
  assumes d: "distinct (map mr_id (md_rows db))" and l: "links_ok (md_rows db)"
  shows "i \<in> row_ids (md_rows db) \<Longrightarrow>
    (j, e) \<in> set (forward_walk n db c i) \<longleftrightarrow> (\<exists>k \<le> n. e = c + int k \<and> (i, j) \<in> succession db ^^ k)"
proof (induction n arbitrary: c i)
  case 0
  then obtain r where "find_row db i = Some r" using find_row_None[of db i] by (cases "find_row db i") auto
  then show ?case by (auto simp: forward_walk.simps)
next
  case (Suc n)
  obtain r where r: "find_row db i = Some r" using find_row_None[of db i] Suc.prems by (cases "find_row db i") auto
  note link = succession_find[OF d r]
  show ?case
  proof (cases "mr_superseded_by r")
    case None
    then have no: "(i, j) \<notin> succession db ^^ Suc k" for k
      by (metis link option.distinct(1) relpow_Suc_D2)
    show ?thesis
    proof
      assume "(j, e) \<in> set (forward_walk (Suc n) db c i)"
      then have "j = i \<and> e = c" using r None by (subst (asm) forward_walk.simps) simp
      then show "\<exists>k \<le> Suc n. e = c + int k \<and> (i, j) \<in> succession db ^^ k" by (intro exI[of _ 0]) simp
    next
      assume "\<exists>k \<le> Suc n. e = c + int k \<and> (i, j) \<in> succession db ^^ k"
      then obtain k where k: "e = c + int k" "(i, j) \<in> succession db ^^ k" by blast
      then have "k = 0" using no by (cases k) auto
      then show "(j, e) \<in> set (forward_walk (Suc n) db c i)"
        using k r by (subst forward_walk.simps) simp
    qed
  next
    case (Some m)
    have im: "(i, m) \<in> succession db" using Some link by simp
    have id: "m \<in> row_ids (md_rows db)" by (rule succession_field(2)[OF l im])
    have suc: "(i, j) \<in> succession db ^^ Suc k \<longleftrightarrow> (m, j) \<in> succession db ^^ k" for k
      using relpow_Suc_D2[of i j k "succession db"] relpow_Suc_I2[OF im, of j k] link Some by auto
    have "(j, e) \<in> set (forward_walk (Suc n) db c i) \<longleftrightarrow> (j = i \<and> e = c) \<or> (j, e) \<in> set (forward_walk n db (c + 1) m)"
      using r Some by (subst forward_walk.simps) auto
    also have "\<dots> \<longleftrightarrow> (j = i \<and> e = c) \<or> (\<exists>k \<le> n. e = c + int (Suc k) \<and> (i, j) \<in> succession db ^^ Suc k)"
      unfolding Suc.IH[OF id] suc by (simp add: algebra_simps)
    also have "\<dots> \<longleftrightarrow> (\<exists>k \<le> Suc n. e = c + int k \<and> (i, j) \<in> succession db ^^ k)"
      unfolding le_Suc_split[where P = "\<lambda>k. e = c + int k \<and> (i, j) \<in> succession db ^^ k"] by auto
    finally show ?thesis .
  qed
qed

lemma set_replaced_by: "set (replaced_by db i) = {j. (j, i) \<in> succession db}"
  by (auto simp: replaced_by_def succession_mem)

lemma backward_entries:
  "(j, e) \<in> set (backward_walk n db c ids) \<longleftrightarrow>
     (\<exists>k \<le> n. \<exists>i \<in> set ids. e = c - int k \<and> (j, i) \<in> succession db ^^ k)"
proof (induction n arbitrary: c ids)
  case (Suc n)
  have "(j, e) \<in> set (backward_walk (Suc n) db c ids) \<longleftrightarrow>
      (j \<in> set ids \<and> e = c) \<or>
      (\<exists>k \<le> n. \<exists>i \<in> set ids. e = c - int (Suc k) \<and> (j, i) \<in> succession db ^^ Suc k)"
    unfolding backward_walk.simps set_append Un_iff Suc.IH by (auto simp: set_replaced_by algebra_simps)
  also have "\<dots> \<longleftrightarrow> (\<exists>k \<le> Suc n. \<exists>i \<in> set ids. e = c - int k \<and> (j, i) \<in> succession db ^^ k)"
    unfolding le_Suc_split[where P = "\<lambda>k. \<exists>i \<in> set ids. e = c - int k \<and> (j, i) \<in> succession db ^^ k"] by auto
  finally show ?case .
qed auto


lemma fold_min_same: "(\<forall>x \<in> set ds. x = e) \<Longrightarrow> fold min ds e = (e :: int)"
  by (induction ds) simp_all

lemma chain_depth_Some:
  assumes h: "history_ok db" and r: "find_row db i = Some r"
  shows "chain_depth db i j = Some e \<longleftrightarrow> (\<exists>k \<le> max_chain_depth. hops db i j e k)"
proof -
  have d: "distinct (map mr_id (md_rows db))" and l: "links_ok (md_rows db)" using h by (auto simp: history_ok_def)
  have i: "i \<in> row_ids (md_rows db)" using find_row_Some[OF r] by (auto simp: row_ids_def)
  have entries: "(j, f) \<in> set (chain_entries db i) \<longleftrightarrow> (\<exists>k \<le> max_chain_depth. hops db i j f k)" for f
    unfolding chain_entries_def set_append Un_iff forward_entries[OF d l i] backward_entries
    by (simp add: hops_def r) blast
  let ?ds = "map snd (filter (\<lambda>e. fst e = j) (chain_entries db i))"
  have ds: "f \<in> set ?ds \<longleftrightarrow> (\<exists>k \<le> max_chain_depth. hops db i j f k)" for f
    unfolding entries[symmetric] by force
  show ?thesis
  proof (cases ?ds)
    case Nil
    then show ?thesis using ds[of e] by (simp add: chain_depth_def)
  next
    case (Cons x xs)
    then obtain k where k: "k \<le> max_chain_depth" "hops db i j x k" using ds[of x] by auto
    have same: "y = x" if "y \<in> set ?ds" for y
      using iffD1[OF ds that] hops_unique[OF h k(2)] by blast
    then have "\<forall>y \<in> set xs. y = x" unfolding Cons by simp
    then have "chain_depth db i j = Some x" by (simp add: chain_depth_def Cons fold_min_same)
    moreover have "(\<exists>k \<le> max_chain_depth. hops db i j e k) \<longleftrightarrow> e = x"
      using k hops_unique[OF h k(2)] by blast
    ultimately show ?thesis by auto
  qed
qed

lemma set_walked:
  assumes h: "history_ok db" and r: "find_row db i = Some r"
  shows "(x, e) \<in> set (walked db i) \<longleftrightarrow>
    x \<in> set (md_rows db) \<and> (\<exists>k \<le> max_chain_depth. hops db i (mr_id x) e k)"
  unfolding walked_def set_filter_map by (auto simp: chain_depth_Some[OF h r])

lemma filter_map_distinct:
  "distinct xs \<Longrightarrow> (\<And>x y z. f x = Some z \<Longrightarrow> f y = Some z \<Longrightarrow> x = y) \<Longrightarrow> distinct (filter_map f xs)"
proof (induction xs)
  case (Cons x xs)
  then show ?case by (auto simp: set_filter_map split: option.splits)
qed simp

lemma walked_distinct: "distinct (map mr_id (md_rows db)) \<Longrightarrow> distinct (walked db i)"
  unfolding walked_def by (rule filter_map_distinct) (auto simp: distinct_map)

text \<open>Versions of one fact: linked one way or the other.\<close>

definition one_fact :: "('v, 's) mem_db \<Rightarrow> nat \<Rightarrow> nat \<Rightarrow> bool" where
  "one_fact db i j \<longleftrightarrow> (i, j) \<in> (succession db)\<^sup>* \<or> (j, i) \<in> (succession db)\<^sup>*"

lemma hops_fact: "(\<exists>e k. hops db i j e k) \<longleftrightarrow> one_fact db i j"
  unfolding hops_def one_fact_def rtrancl_power by auto

lemma uncapped_walk:
  assumes h: "history_ok db" and r: "find_row db i = Some r"
    and c: "\<not> list_ex (\<lambda>(_, d). int max_chain_depth \<le> \<bar>d\<bar>) (walked db i)"
    and f: "hops db i (mr_id x) e k" and x: "x \<in> set (md_rows db)"
  shows "(x, e) \<in> set (walked db i)"
proof (rule ccontr)
  assume n: "(x, e) \<notin> set (walked db i)"
  have l: "links_ok (md_rows db)" using h by (simp add: history_ok_def)
  have i: "i \<in> row_ids (md_rows db)" using find_row_Some[OF r] by (auto simp: row_ids_def)
  have k: "max_chain_depth < k" using n f x unfolding set_walked[OF h r] by (metis not_less)
  obtain m g where g: "hops db i m g max_chain_depth" and m: "m \<in> row_ids (md_rows db)"
  proof (cases "(i, mr_id x) \<in> succession db ^^ k")
    case True
    then have "(i, mr_id x) \<in> succession db ^^ max_chain_depth O succession db ^^ (k - max_chain_depth)"
      using k by (simp add: relpow_add[symmetric])
    then obtain m where m: "(i, m) \<in> succession db ^^ max_chain_depth" by auto
    then have "(i, m) \<in> (succession db)\<^sup>*" by (auto simp: rtrancl_power)
    then have "m \<in> row_ids (md_rows db)" using i by (induction) (auto dest: succession_field(2)[OF l])
    then show thesis using that[of m "int max_chain_depth"] m by (simp add: hops_def)
  next
    case False
    then have "(mr_id x, i) \<in> succession db ^^ ((k - max_chain_depth) + max_chain_depth)"
      using f k by (simp add: hops_def)
    then obtain m where m: "(mr_id x, m) \<in> succession db ^^ (k - max_chain_depth)"
        "(m, i) \<in> succession db ^^ max_chain_depth" unfolding relpow_add by auto
    then have "(mr_id x, m) \<in> (succession db)\<^sup>*" by (auto simp: rtrancl_power)
    moreover have "mr_id x \<in> row_ids (md_rows db)" using x by (simp add: row_ids_def)
    ultimately have "m \<in> row_ids (md_rows db)" by (induction) (auto dest: succession_field(2)[OF l])
    then show thesis using that[of m "- int max_chain_depth"] m by (simp add: hops_def)
  qed
  obtain y where y: "y \<in> set (md_rows db)" "mr_id y = m" using m by (auto simp: row_ids_def)
  have "(y, g) \<in> set (walked db i)" using set_walked[OF h r] y g by auto
  moreover have "int max_chain_depth \<le> \<bar>g\<bar>" using g by (auto simp: hops_def)
  ultimately show False using c by (auto simp: list_ex_iff)
qed

section \<open>The properties\<close>

text \<open>
  Matching a grant in SQL is the policy: the prefix comparison built from a pattern,
  unioned over the patterns with the ceiling each carries, admits a row exactly when the grant does,
  for every namespace and level.
\<close>

theorem history_grant_is_policy: "granted_row (split_grants gs) ns l \<longleftrightarrow> admits gs ns l"
  by (rule granted_row_admits)

lemma set_oldest_version [simp]: "set (oldest_version ws) = set ws"
  by (simp add: oldest_version_def)

definition readable_version :: "namespace_grant list \<Rightarrow> ('v, 's) mem_row \<times> int \<Rightarrow> bool" where
  "readable_version gs w \<longleftrightarrow> admits gs (mr_namespace (fst w)) (mr_sensitivity (fst w))"

lemma subject_history_eq:
  "subject_history gs i db =
     (if \<exists>w \<in> set (walked db i). mr_id (fst w) = i \<and> readable_version gs w
      then \<lparr>tl_versions = map (memory_from_row \<circ> fst) (oldest_version (filter (readable_version gs) (walked db i))),
            tl_withheld = length (filter (\<lambda>w. \<not> readable_version gs w) (walked db i)),
            tl_depth_capped = list_ex (\<lambda>(_, d). int max_chain_depth \<le> \<bar>d\<bar>) (walked db i)\<rparr>
      else no_timeline)"
proof -
  have rv: "(\<lambda>(r, _). granted_row (split_grants gs) (mr_namespace r) (mr_sensitivity r)) = readable_version gs"
    by (auto simp: readable_version_def granted_row_admits)
  show ?thesis
  proof (cases "\<exists>w \<in> set (walked db i). mr_id (fst w) = i \<and> readable_version gs w")
    case True
    then have "gs \<noteq> []" by (auto simp: readable_version_def admits_iff)
    moreover obtain w where "w \<in> set (walked db i)" "readable_version gs w" using True by blast
    then have "oldest_version (filter (readable_version gs) (walked db i)) \<noteq> []"
      by (metis filter_empty_conv set_empty set_oldest_version)
    moreover have "list_ex (\<lambda>w. mr_id (fst w) = i \<and> readable_version gs w) (walked db i)"
      using True by (auto simp: list_ex_iff)
    ultimately show ?thesis using True unfolding subject_history_def rv Let_def by (simp split: list.splits)
  next
    case False
    then have "\<not> list_ex (\<lambda>w. mr_id (fst w) = i \<and> readable_version gs w) (walked db i)"
      by (auto simp: list_ex_iff)
    then show ?thesis using False unfolding subject_history_def rv Let_def by auto
  qed
qed


lemma timeline_shown:
  assumes "history_of p i db = Inr t"
  shows "p_may_read_history p"
    and "\<forall>m \<in> set (tl_versions t). can_read p (m_namespace m) (m_sensitivity m)"
    and "(\<forall>r \<in> set (md_rows db). mr_id r = i \<longrightarrow> \<not> can_read p (mr_namespace r) (mr_sensitivity r)) \<longrightarrow>
      t = no_timeline"
proof -
  show "p_may_read_history p" using assms by (simp add: history_of_def assert_may_read_def and_then_Inr split: if_splits)
  have t: "t = subject_history (p_read p) i db"
    using assms by (auto simp: history_of_def and_then_Inr)
  show "\<forall>m \<in> set (tl_versions t). can_read p (m_namespace m) (m_sensitivity m)"
    by (auto simp: t subject_history_eq no_timeline_def readable_version_def can_read_def memory_from_row_def)
  have w: "w \<in> set (walked db i) \<Longrightarrow> fst w \<in> set (md_rows db)" for w
    by (auto simp: walked_def set_filter_map)
  show "(\<forall>r \<in> set (md_rows db). mr_id r = i \<longrightarrow> \<not> can_read p (mr_namespace r) (mr_sensitivity r)) \<longrightarrow>
      t = no_timeline"
    using w by (auto simp: t subject_history_eq readable_version_def can_read_def)
qed

lemma whole_chain:
  assumes h: "history_ok db" and r: "find_row db i = Some a"
    and g: "admits gs (mr_namespace a) (mr_sensitivity a)"
    and c: "\<not> tl_depth_capped (subject_history gs i db)"
  shows "set (tl_versions (subject_history gs i db)) =
      {memory_from_row x | x. x \<in> set (md_rows db) \<and> one_fact db i (mr_id x) \<and>
         admits gs (mr_namespace x) (mr_sensitivity x)}" (is ?versions)
    and "tl_withheld (subject_history gs i db) =
      card {x \<in> set (md_rows db). one_fact db i (mr_id x) \<and> \<not> admits gs (mr_namespace x) (mr_sensitivity x)}" (is ?withheld)
    and "sorted_wrt (\<lambda>x y. (m_id y, m_id x) \<notin> (succession db)\<^sup>+) (tl_versions (subject_history gs i db))" (is ?order)
proof -
  have d: "distinct (map mr_id (md_rows db))" using h by (simp add: history_ok_def)
  have a: "a \<in> set (md_rows db)" "mr_id a = i" using find_row_Some[OF r] by auto
  have "hops db i i 0 0" by (simp add: hops_def)
  then have "(a, 0) \<in> set (walked db i)" unfolding set_walked[OF h r] using a by auto
  then have "\<exists>w \<in> set (walked db i). mr_id (fst w) = i \<and> readable_version gs w"
    using a(2) g by (intro bexI[of _ "(a, 0)"]) (auto simp: readable_version_def)
  then have t: "subject_history gs i db =
      \<lparr>tl_versions = map (memory_from_row \<circ> fst) (oldest_version (filter (readable_version gs) (walked db i))),
       tl_withheld = length (filter (\<lambda>w. \<not> readable_version gs w) (walked db i)),
       tl_depth_capped = list_ex (\<lambda>(_, d). int max_chain_depth \<le> \<bar>d\<bar>) (walked db i)\<rparr>"
    by (simp add: subject_history_eq)
  have uncapped: "\<not> list_ex (\<lambda>(_, d). int max_chain_depth \<le> \<bar>d\<bar>) (walked db i)" using c by (simp add: t)
  have mem: "(\<exists>e. (x, e) \<in> set (walked db i)) \<longleftrightarrow> x \<in> set (md_rows db) \<and> one_fact db i (mr_id x)" for x
  proof
    assume "\<exists>e. (x, e) \<in> set (walked db i)"
    then show "x \<in> set (md_rows db) \<and> one_fact db i (mr_id x)"
      unfolding set_walked[OF h r] hops_fact[symmetric] by blast
  next
    assume x: "x \<in> set (md_rows db) \<and> one_fact db i (mr_id x)"
    then obtain e k where "hops db i (mr_id x) e k" unfolding hops_fact[symmetric] by blast
    then show "\<exists>e. (x, e) \<in> set (walked db i)" using uncapped_walk[OF h r uncapped] x by blast
  qed
  have once: "e = f" if "(x, e) \<in> set (walked db i)" "(x, f) \<in> set (walked db i)" for x e f
    using that hops_unique[OF h] unfolding set_walked[OF h r] by blast
  have "set (tl_versions (subject_history gs i db)) =
      memory_from_row ` {x. (\<exists>e. (x, e) \<in> set (walked db i)) \<and> admits gs (mr_namespace x) (mr_sensitivity x)}"
    by (force simp: t readable_version_def)
  then show ?versions unfolding mem by auto
  let ?out = "filter (\<lambda>w. \<not> readable_version gs w) (walked db i)"
  have "inj_on fst (set ?out)" using once by (force simp: inj_on_def)
  moreover have "distinct ?out" using walked_distinct[OF d] by simp
  moreover have "fst ` set ?out =
      {x \<in> set (md_rows db). one_fact db i (mr_id x) \<and> \<not> admits gs (mr_namespace x) (mr_sensitivity x)}"
  proof -
    have "fst ` set ?out = {x. (\<exists>e. (x, e) \<in> set (walked db i)) \<and> \<not> admits gs (mr_namespace x) (mr_sensitivity x)}"
      by (force simp: readable_version_def)
    then show ?thesis unfolding mem by auto
  qed
  ultimately show ?withheld by (metis (no_types, lifting) card_image distinct_card select_convs(2) t timeline.select_convs(2))
  let ?shown = "oldest_version (filter (readable_version gs) (walked db i))"
  have "sorted (map (\<lambda>(r, d). (d, mr_created_at r, mr_id r)) ?shown)" unfolding oldest_version_def by simp
  then have "sorted_wrt (\<lambda>x y. snd x \<le> snd y) ?shown"
    unfolding sorted_map by (rule sorted_wrt_mono_rel[rotated]) (auto simp: less_eq_prod_def)
  moreover have "(mr_id (fst y), mr_id (fst x)) \<notin> (succession db)\<^sup>+"
    if s: "x \<in> set ?shown" "y \<in> set ?shown" "snd x \<le> snd y" for x y
  proof
    assume "(mr_id (fst y), mr_id (fst x)) \<in> (succession db)\<^sup>+"
    then obtain m where m: "0 < m" "(mr_id (fst y), mr_id (fst x)) \<in> succession db ^^ m"
      unfolding trancl_power by blast
    have "x \<in> set (walked db i)" "y \<in> set (walked db i)" using s(1,2) by auto
    then have "(fst x, snd x) \<in> set (walked db i)" "(fst y, snd y) \<in> set (walked db i)" by simp_all
    then obtain k l where "hops db i (mr_id (fst x)) (snd x) k" "hops db i (mr_id (fst y)) (snd y) l"
      unfolding set_walked[OF h r] by blast
    then have "snd x = snd y + int m" using hops_grow[OF h _ _ m(2)] by blast
    then show False using m(1) s(3) by simp
  qed
  ultimately have "sorted_wrt (\<lambda>x y. (mr_id (fst y), mr_id (fst x)) \<notin> (succession db)\<^sup>+) ?shown"
    by (rule sorted_wrt_mono_rel[rotated]) auto
  then show ?order by (simp add: t sorted_wrt_map memory_from_row_def)
qed

text \<open>
  Property C4. What a client may learn of a fact's past. Without the history capability it learns
  nothing. With it, every version in the answer is one its read grant admits at the level it is
  stored at; and an id it may not read, or that names no row, answers nothing at all, not even how
  many versions were withheld.
\<close>

theorem timeline_within_grant:
  assumes "history_of p i db = Inr t"
  shows "p_may_read_history p \<and>
    (\<forall>m \<in> set (tl_versions t). can_read p (m_namespace m) (m_sensitivity m)) \<and>
    ((\<forall>r \<in> set (md_rows db). mr_id r = i \<longrightarrow> \<not> can_read p (mr_namespace r) (mr_sensitivity r)) \<longrightarrow>
      t = no_timeline)"
  using timeline_shown[OF assms] by blast

text \<open>
  An uncapped answer on a readable fact is its whole history: its versions are exactly
  the rows linked to it in either direction, however many namespaces the chain crosses, that the
  grant admits; the rest are counted, each once; and no version stands before one it replaced.
\<close>

theorem timeline_complete:
  assumes "history_ok db" and "find_row db i = Some a"
    and "admits gs (mr_namespace a) (mr_sensitivity a)"
    and "\<not> tl_depth_capped (subject_history gs i db)"
  shows "set (tl_versions (subject_history gs i db)) =
      {memory_from_row x | x. x \<in> set (md_rows db) \<and> one_fact db i (mr_id x) \<and>
         admits gs (mr_namespace x) (mr_sensitivity x)} \<and>
    tl_withheld (subject_history gs i db) =
      card {x \<in> set (md_rows db). one_fact db i (mr_id x) \<and> \<not> admits gs (mr_namespace x) (mr_sensitivity x)} \<and>
    sorted_wrt (\<lambda>x y. (m_id y, m_id x) \<notin> (succession db)\<^sup>+) (tl_versions (subject_history gs i db))"
  using whole_chain[OF assms] by (intro conjI)

section \<open>A concrete chain\<close>

definition sample_historian :: principal where
  "sample_historian = (empty_principal (u ''reader''))\<lparr>p_read := [grant_open (u ''user:*'')], p_may_read_history := True\<rparr>"

lemma timeline_within_grant_witness:
  "history_of sample_historian 9 (fs_db sample_chain) = Inr no_timeline"
proof -
  have "\<forall>r \<in> set (md_rows (fs_db sample_chain)). mr_id r \<noteq> 9" by (simp add: sample_chain_def sample_version_def)
  moreover obtain t where t: "history_of sample_historian 9 (fs_db sample_chain) = Inr t"
    by (simp add: history_of_def assert_may_read_def sample_historian_def)
  ultimately show ?thesis using timeline_within_grant[OF t] by simp
qed

lemma timeline_complete_witness:
  "memory_from_row (sample_version 1 None (Some 2)) \<in> set (tl_versions (subject_history grant_everything 2 (fs_db sample_chain)))"
proof -
  have f: "find_row (fs_db sample_chain) 2 = Some (sample_version 2 (Some 1) None)"
    and c: "\<not> tl_depth_capped (subject_history grant_everything 2 (fs_db sample_chain))"
    and g: "admits grant_everything (mr_namespace (sample_version 2 (Some 1) None)) (mr_sensitivity (sample_version 2 (Some 1) None))"
    and g1: "admits grant_everything (mr_namespace (sample_version 1 None (Some 2))) (mr_sensitivity (sample_version 1 None (Some 2)))"
    by code_simp+
  have "(1, 2) \<in> succession (fs_db sample_chain)"
    by (auto simp: succession_map sample_chain_def sample_version_def)
  then have "one_fact (fs_db sample_chain) 2 (mr_id (sample_version 1 None (Some 2)))"
    by (auto simp: one_fact_def sample_version_def)
  moreover have "sample_version 1 None (Some 2) \<in> set (md_rows (fs_db sample_chain))" by (simp add: sample_chain_def)
  ultimately show ?thesis using timeline_complete[OF sample_chain_ok f g c] g1 by blast
qed

end
