(* ===== verification/Lr_Search.thy ===== *)
theory Lr_Search
  imports Lr_Timeline
begin

text \<open>
  Hybrid search: the statement of \<open>src/src/adapters/postgres/memory.rs\<close> (\<open>search_sql!\<close> in its
  twelve variants) and \<open>memory_search\<close> of \<open>src/src/services/search.rs\<close>. What Postgres computes on
  text (\<open>websearch_to_tsquery\<close> and \<open>ts_rank\<close>), the distance of two vectors, the embedder, the alias
  table and the names the clients print under are parameters. Scores are reals; equal scores keep
  table order, which the database leaves open.
\<close>

section \<open>The statement\<close>

datatype fusion = Linear | Rrf

record weights =
  w_vector :: real
  w_lexical :: real
  w_secondary_penalty :: real
  w_usage :: real

record 'v search_query =
  sq_primary :: "namespace_ceiling list"
  sq_secondary :: "namespace_ceiling list"
  sq_embedding :: 'v
  sq_text :: str
  sq_limit :: int
  sq_weights :: weights
  sq_slot :: vector_slot
  sq_include_superseded :: bool
  sq_as_of :: "instant option"
  sq_tags :: "str list"

record 'v engine =
  en_dist :: "'v \<Rightarrow> 'v \<Rightarrow> real"
  en_matches :: "str \<Rightarrow> str \<Rightarrow> bool"
  en_rank :: "str \<Rightarrow> str \<Rightarrow> real"
  en_fusion :: fusion
  en_rrf_k :: real

record search_hit =
  hi_memory :: memory
  hi_score :: real
  hi_similarity :: real
  hi_primary :: bool

text \<open>The valid-time predicate: half open, the start falling back to when the store learned it.\<close>

definition holds_at :: "instant \<Rightarrow> ('v, 's) mem_row \<Rightarrow> bool" where
  "holds_at t r \<longleftrightarrow>
     (case mr_occurred_at r of None \<Rightarrow> mr_created_at r | Some start \<Rightarrow> start) \<le> t \<and>
     (case mr_occurred_until r of None \<Rightarrow> True | Some until \<Rightarrow> until > t)"

text \<open>The statement \<open>search_statement\<close> picks decides \<open>as_of\<close> before \<open>include_superseded\<close>.\<close>

definition asked_period :: "instant \<Rightarrow> 'v search_query \<Rightarrow> ('v, 's) mem_row \<Rightarrow> bool" where
  "asked_period now q r \<longleftrightarrow>
     (case sq_as_of q of
        Some t \<Rightarrow> holds_at t r
      | None \<Rightarrow> if sq_include_superseded q then True else row_live now r)"

definition tagged :: "'v search_query \<Rightarrow> ('v, 's) mem_row \<Rightarrow> bool" where
  "tagged q r \<longleftrightarrow> sq_tags q = [] \<or> list_all (\<lambda>t. t \<in> set (mr_tags r)) (sq_tags q)"

definition is_candidate :: "instant \<Rightarrow> 'v search_query \<Rightarrow> ('v, 's) mem_row \<Rightarrow> bool" where
  "is_candidate now q r \<longleftrightarrow>
     within_ceiling (sq_primary q @ sq_secondary q) r \<and> asked_period now q r \<and> tagged q r"

definition arm_limit :: "'v search_query \<Rightarrow> nat" where
  "arm_limit q = nat (max (sq_limit q * 4) 20)"

definition vec_arm :: "'v engine \<Rightarrow> instant \<Rightarrow> 'v search_query \<Rightarrow> ('v, 's) mem_db \<Rightarrow> (('v, 's) mem_row \<times> real) list" where
  "vec_arm en now q db =
     take (arm_limit q) (sort_key snd (filter_map
       (\<lambda>r. if is_candidate now q r
            then map_option (\<lambda>v. (r, en_dist en v (sq_embedding q))) (slot_vec (sq_slot q) r) else None)
       (md_rows db)))"

definition lex_arm :: "'v engine \<Rightarrow> instant \<Rightarrow> 'v search_query \<Rightarrow> ('v, 's) mem_db \<Rightarrow> (('v, 's) mem_row \<times> real) list" where
  "lex_arm en now q db =
     (if w_lexical (sq_weights q) > 0
      then take (arm_limit q) (sort_key (\<lambda>x. - snd x) (filter_map
        (\<lambda>r. case mr_content r of
               None \<Rightarrow> None
             | Some text \<Rightarrow>
                 if is_candidate now q r \<and> mr_sensitivity r = Open \<and> en_matches en text (sq_text q)
                 then Some (r, en_rank en text (sq_text q)) else None)
        (md_rows db)))
      else [])"

text \<open>\<open>FULL OUTER JOIN\<close> on the id, each side with its position in its arm.\<close>

record ('v, 's) merged =
  mg_row :: "('v, 's) mem_row"
  mg_similarity :: real
  mg_lexical :: real
  mg_rank_vec :: "nat option"
  mg_rank_lex :: "nat option"

definition ranked :: "'a list \<Rightarrow> ('a \<times> nat) list" where
  "ranked xs = zip xs [1..<Suc (length xs)]"

definition in_arm :: "((('v, 's) mem_row \<times> real) \<times> nat) list \<Rightarrow> nat \<Rightarrow> (real \<times> nat) option" where
  "in_arm arm i = map_option (\<lambda>((_, x), n). (x, n)) (List.find (\<lambda>((r, _), _). mr_id r = i) arm)"

definition lexical_part :: "(real \<times> nat) option \<Rightarrow> real" where
  "lexical_part l = min (case l of None \<Rightarrow> 0 | Some (x, _) \<Rightarrow> x) 1"

definition outer_join ::
    "(('v, 's) mem_row \<times> real) list \<Rightarrow> (('v, 's) mem_row \<times> real) list \<Rightarrow> ('v, 's) merged list" where
  "outer_join vs ls =
     (let lx = ranked ls
      in map (\<lambda>((r, d), n).
            \<lparr>mg_row = r, mg_similarity = 1 - d, mg_lexical = lexical_part (in_arm lx (mr_id r)),
             mg_rank_vec = Some n, mg_rank_lex = map_option snd (in_arm lx (mr_id r))\<rparr>) (ranked vs) @
         map (\<lambda>((r, x), n).
            \<lparr>mg_row = r, mg_similarity = 0, mg_lexical = lexical_part (Some (x, n)),
             mg_rank_vec = None, mg_rank_lex = Some n\<rparr>)
           (filter (\<lambda>((r, _), _). mr_id r \<notin> (\<lambda>(x, _). mr_id x) ` set vs) lx))"

definition use_boost :: "int \<Rightarrow> real" where
  "use_boost count = min (ln (1 + real_of_int count) / ln 11) 1"

definition is_primary :: "'v search_query \<Rightarrow> ('v, 's) mem_row \<Rightarrow> bool" where
  "is_primary q r \<longleftrightarrow> mr_namespace r \<in> nc_namespace ` set (sq_primary q)"

definition penalty :: "'v search_query \<Rightarrow> ('v, 's) mem_row \<Rightarrow> real" where
  "penalty q r = (if is_primary q r then 1 else w_secondary_penalty (sq_weights q))"

definition rank_part :: "real \<Rightarrow> real \<Rightarrow> nat option \<Rightarrow> real" where
  "rank_part w k n = (case n of None \<Rightarrow> 0 | Some m \<Rightarrow> w / (k + real m))"

definition blend :: "'v engine \<Rightarrow> 'v search_query \<Rightarrow> ('v, 's) merged \<Rightarrow> real" where
  "blend en q g =
     (let w = sq_weights q; boost = use_boost (mr_access_count (mg_row g))
      in (case en_fusion en of
            Linear \<Rightarrow> mg_similarity g * w_vector w + mg_lexical g * w_lexical w + boost * w_usage w
          | Rrf \<Rightarrow> (rank_part (w_vector w) (en_rrf_k en) (mg_rank_vec g) +
                    rank_part (w_lexical w) (en_rrf_k en) (mg_rank_lex g)) * (1 + w_usage w * boost))
         * penalty q (mg_row g))"

definition hit_of :: "'v engine \<Rightarrow> 'v search_query \<Rightarrow> ('v, 's) merged \<Rightarrow> search_hit" where
  "hit_of en q g =
     \<lparr>hi_memory = memory_from_row (mg_row g), hi_score = round4 (blend en q g),
      hi_similarity = round4 (mg_similarity g), hi_primary = is_primary q (mg_row g)\<rparr>"

definition ranked_rows :: "'v engine \<Rightarrow> instant \<Rightarrow> 'v search_query \<Rightarrow> ('v, 's) mem_db \<Rightarrow> ('v, 's) merged list" where
  "ranked_rows en now q db =
     take (nat (sq_limit q))
       (sort_key (\<lambda>g. (- blend en q g, - mr_created_at (mg_row g)))
         (outer_join (vec_arm en now q db) (lex_arm en now q db)))"

text \<open>A negative \<open>LIMIT\<close> is an error of the database.\<close>

definition search_memories ::
    "'v engine \<Rightarrow> instant \<Rightarrow> 'v search_query \<Rightarrow> ('v, 's) mem_db \<Rightarrow> search_hit list res" where
  "search_memories en now q db =
     (if sq_primary q = [] \<and> sq_secondary q = [] then Inr []
      else if sq_limit q < 0 then Inl database_error
      else Inr (map (hit_of en q) (ranked_rows en now q db)))"

definition touch_accessed :: "instant \<Rightarrow> nat list \<Rightarrow> ('v, 's) mem_db \<Rightarrow> ('v, 's) mem_db" where
  "touch_accessed now ids db =
     update_rows (\<lambda>r. mr_id r \<in> set ids)
       (\<lambda>r. r\<lparr>mr_access_count := mr_access_count r + 1, mr_last_accessed_at := Some now\<rparr>) db"

section \<open>The tool\<close>

record 'v search_ctx =
  sc_principal :: principal
  sc_ring :: key_ring
  sc_gcm :: aes_gcm
  sc_include_all_projects :: bool
  sc_default_limit :: int
  sc_max_limit :: int
  sc_weights :: weights
  sc_engine :: "'v engine"
  sc_unit :: "(vector_slot \<times> (str \<Rightarrow> 'v res)) res"
  sc_registry :: "str list"
  sc_alias_group :: "str \<Rightarrow> str \<Rightarrow> str list res"
  sc_digest :: "(str \<Rightarrow> str) option"
  sc_label :: "str \<Rightarrow> str option"

record search_args =
  sa_query :: str
  sa_namespaces :: "str list option"
  sa_limit :: "int option"
  sa_project :: "str option"
  sa_include_superseded :: "bool option"
  sa_as_of :: "instant option"
  sa_tags :: "str list"

record published_hit =
  ph_id :: nat
  ph_namespace :: str
  ph_content :: str
  ph_tags :: "str list"
  ph_source :: str
  ph_sensitivity :: sensitivity
  ph_created_at :: instant
  ph_score :: real
  ph_similarity :: real
  ph_primary :: bool
  ph_superseded_by :: "nat option"
  ph_occurred_at :: "instant option"
  ph_occurred_until :: "instant option"

record search_result =
  sr_namespaces :: "str list"
  sr_also_searched :: "str list"
  sr_hits :: "published_hit list"

text \<open>What a search leaves behind: the rows it touched and the digests of what it handed out.\<close>

record search_trace =
  st_touched :: "nat list"
  st_emissions :: "(str \<times> nat) list"

fun split_once_colon :: "str \<Rightarrow> (str \<times> str) option" where
  "split_once_colon [] = None"
| "split_once_colon (c # cs) =
     (if c = 58 then Some ([], cs)
      else map_option (\<lambda>(a, b). (c # a, b)) (split_once_colon cs))"

definition push_alias ::
    "namespace_ceiling list \<Rightarrow> namespace_ceiling list \<Rightarrow> namespace_ceiling \<Rightarrow> namespace_ceiling list" where
  "push_alias primary out c =
     (if nc_namespace c \<notin> nc_namespace ` set out \<and> nc_namespace c \<notin> nc_namespace ` set primary
      then out @ [c] else out)"

definition alias_names :: "'v search_ctx \<Rightarrow> namespace_ceiling \<Rightarrow> str list" where
  "alias_names ctx p =
     (case split_once_colon (nc_namespace p) of
        None \<Rightarrow> []
      | Some (pre, slug) \<Rightarrow>
          (case sc_alias_group ctx (nc_namespace p) slug of
             Inl _ \<Rightarrow> []
           | Inr names \<Rightarrow> map (\<lambda>n. pre @ u '':'' @ n) (filter (\<lambda>n. n \<noteq> slug) names)))"

definition alias_namespaces :: "'v search_ctx \<Rightarrow> namespace_ceiling list \<Rightarrow> namespace_ceiling list" where
  "alias_namespaces ctx primary =
     foldl (\<lambda>out name. foldl (push_alias primary) out (filter_readable (sc_principal ctx) [name])) []
       (concat (map (alias_names ctx) primary))"

definition other_namespaces :: "'v search_ctx \<Rightarrow> ('v, 's) mem_db \<Rightarrow> namespace_ceiling list \<Rightarrow> namespace_ceiling list" where
  "other_namespaces ctx db exclude =
     filter_readable (sc_principal ctx)
       (sort (filter (\<lambda>n. n \<notin> nc_namespace ` set exclude) (namespaces_held (sc_registry ctx) db)))"

definition secondary_namespaces :: "'v search_ctx \<Rightarrow> ('v, 's) mem_db \<Rightarrow> bool \<Rightarrow> namespace_ceiling list \<Rightarrow> namespace_ceiling list" where
  "secondary_namespaces ctx db explicit primary =
     (let aliased = alias_namespaces ctx primary
      in if explicit \<or> \<not> sc_include_all_projects ctx then aliased
         else foldl (push_alias []) (other_namespaces ctx db primary) aliased)"

definition search_admits :: "namespace_ceiling list \<Rightarrow> namespace_ceiling list \<Rightarrow> str \<Rightarrow> sensitivity \<Rightarrow> bool" where
  "search_admits primary secondary ns l \<longleftrightarrow> list_ex (\<lambda>c. nc_namespace c = ns \<and> l \<le> nc_max c) (primary @ secondary)"

definition published_row :: "(str \<Rightarrow> str option) \<Rightarrow> search_hit \<Rightarrow> published_hit" where
  "published_row label h =
     (let m = hi_memory h
      in \<lparr>ph_id = m_id m, ph_namespace = m_namespace m, ph_content = m_content m, ph_tags = m_tags m,
          ph_source = (case label (m_source_client m) of None \<Rightarrow> m_source_client m | Some n \<Rightarrow> n),
          ph_sensitivity = m_sensitivity m, ph_created_at = m_created_at m, ph_score = hi_score h,
          ph_similarity = hi_similarity h, ph_primary = hi_primary h, ph_superseded_by = m_superseded_by m,
          ph_occurred_at = m_occurred_at m, ph_occurred_until = m_occurred_until m\<rparr>)"

definition answered :: "search_hit list \<Rightarrow> str list" where
  "answered found_hits = sort (dedupe (map (\<lambda>h. m_namespace (hi_memory h)) (filter (\<lambda>h. \<not> hi_primary h) found_hits)))"

definition emissions_for :: "(str \<Rightarrow> str) option \<Rightarrow> (nat \<times> str \<times> sensitivity) list \<Rightarrow> (str \<times> nat) list" where
  "emissions_for digest rows =
     (case digest of
        None \<Rightarrow> []
      | Some f \<Rightarrow> map (\<lambda>(i, c, _). (f c, i)) (filter (\<lambda>(_, c, l). c \<noteq> [] \<and> \<not> is_encrypted l) rows))"

definition asked_list :: "search_args \<Rightarrow> bool \<times> str list res" where
  "asked_list args =
     (case sa_namespaces args of
        Some (n # ns) \<Rightarrow> (True, and_then (normalize_all (n # ns)) (\<lambda>out. Inr (dedupe out)))
      | _ \<Rightarrow> (False, default_read_namespaces (sa_project args)))"

text \<open>The rows a caller is handed: opened where they can be, dropped where they cannot, and
  checked once more against the ceilings.\<close>

definition opened_hits ::
    "'v search_ctx \<Rightarrow> ('v, sealed_content) mem_db \<Rightarrow> search_hit list \<Rightarrow> search_hit list" where
  "opened_hits ctx db found_hits =
     (let (rows, failed) = decrypt (sc_gcm ctx) (sc_ring ctx) db (map hi_memory found_hits)
      in filter (\<lambda>h. m_id (hi_memory h) \<notin> set failed)
           (map (\<lambda>(h, m). h\<lparr>hi_memory := m\<rparr>) (zip found_hits rows)))"

definition search_checks :: "'v search_ctx \<Rightarrow> search_args \<Rightarrow> unit res" where
  "search_checks ctx args =
     and_then (if sa_as_of args \<noteq> None \<or> sa_include_superseded args = Some True
               then assert_may_read (sc_principal ctx) else Inr ()) (\<lambda>_.
     if sa_as_of args \<noteq> None \<and> sa_include_superseded args = Some True
     then Inl (validation (R_Service (SF_Search Q_AsOfWithSuperseded)))
     else if trim (sa_query args) = [] then Inl (validation (R_Service (SF_Search Q_EmptyQuery)))
     else Inr ())"

definition search_query_of ::
    "'v search_ctx \<Rightarrow> search_args \<Rightarrow> namespace_ceiling list \<Rightarrow> namespace_ceiling list \<Rightarrow> vector_slot \<Rightarrow> 'v \<Rightarrow> 'v search_query" where
  "search_query_of ctx args primary secondary slot v =
     \<lparr>sq_primary = primary, sq_secondary = secondary, sq_embedding = v, sq_text = trim (sa_query args),
      sq_limit = min (case sa_limit args of None \<Rightarrow> sc_default_limit ctx | Some l \<Rightarrow> l) (sc_max_limit ctx),
      sq_weights = sc_weights ctx, sq_slot = slot,
      sq_include_superseded = (case sa_include_superseded args of None \<Rightarrow> False | Some b \<Rightarrow> b),
      sq_as_of = sa_as_of args, sq_tags = tags_normalise (sa_tags args)\<rparr>"

definition search_answer ::
    "'v search_ctx \<Rightarrow> namespace_ceiling list \<Rightarrow> namespace_ceiling list \<Rightarrow> search_hit list \<Rightarrow> search_result \<times> search_trace" where
  "search_answer ctx primary secondary found_hits =
     (let kept_hits = filter (\<lambda>h. search_admits primary secondary (m_namespace (hi_memory h)) (m_sensitivity (hi_memory h))) found_hits;
          out = map (published_row (sc_label ctx)) kept_hits
      in (\<lparr>sr_namespaces = map nc_namespace primary, sr_also_searched = answered kept_hits, sr_hits = out\<rparr>,
          \<lparr>st_touched = map ph_id out,
           st_emissions = emissions_for (sc_digest ctx) (map (\<lambda>h. (ph_id h, ph_content h, ph_sensitivity h)) out)\<rparr>))"

definition no_trace :: search_trace where
  "no_trace = \<lparr>st_touched = [], st_emissions = []\<rparr>"

definition search_run ::
    "'v search_ctx \<Rightarrow> instant \<Rightarrow> search_args \<Rightarrow> ('v, sealed_content) mem_db \<Rightarrow> (search_result \<times> search_trace) res" where
  "search_run ctx now args db =
     and_then (sc_unit ctx) (\<lambda>(slot, embed_query).
     and_then (search_checks ctx args) (\<lambda>_.
       let (explicit, asked) = asked_list args
       in and_then asked (\<lambda>asked.
         let primary = filter_readable (sc_principal ctx) asked
         in if primary = [] then Inr (\<lparr>sr_namespaces = [], sr_also_searched = [], sr_hits = []\<rparr>, no_trace)
            else let secondary = secondary_namespaces ctx db explicit primary
              in and_then (embed_query (trim (sa_query args))) (\<lambda>v.
                 and_then (search_memories (sc_engine ctx) now
                            (search_query_of ctx args primary secondary slot v) db) (\<lambda>found_hits.
                   Inr (search_answer ctx primary secondary (opened_hits ctx db found_hits)))))))"


section \<open>What the statement returns\<close>

lemma vec_arm_rows: "x \<in> set (vec_arm en now q db) \<Longrightarrow> fst x \<in> set (md_rows db) \<and> is_candidate now q (fst x)"
  unfolding vec_arm_def by (drule in_set_takeD) (auto simp: set_filter_map split: if_splits)

lemma lex_arm_rows:
  assumes "x \<in> set (lex_arm en now q db)"
  shows "fst x \<in> set (md_rows db) \<and> is_candidate now q (fst x)"
proof -
  let ?f = "\<lambda>r. case mr_content r of
               None \<Rightarrow> None
             | Some text \<Rightarrow>
                 if is_candidate now q r \<and> mr_sensitivity r = Open \<and> en_matches en text (sq_text q)
                 then Some (r, en_rank en text (sq_text q)) else None"
  have "x \<in> set (filter_map ?f (md_rows db))"
    using assms by (auto simp: lex_arm_def split: if_splits dest!: in_set_takeD)
  then obtain r where "r \<in> set (md_rows db)" "?f r = Some x" by (auto simp: set_filter_map)
  then show ?thesis by (cases "mr_content r") (auto split: if_splits)
qed

lemma ranked_fst: "map fst (ranked xs) = xs"
  by (simp add: ranked_def del: upt_Suc)

lemma set_ranked: "e \<in> set (ranked xs) \<Longrightarrow> fst e \<in> set xs"
  by (metis ranked_fst list.set_map imageI)

lemma outer_join_rows:
  "g \<in> set (outer_join vs ls) \<Longrightarrow> (\<exists>x \<in> set vs \<union> set ls. mg_row g = fst x)"
  unfolding outer_join_def Let_def by (auto dest!: set_ranked) (metis UnI1 fst_conv, metis UnI2 fst_conv)

lemma ranked_rows_mem:
  assumes "g \<in> set (ranked_rows en now q db)"
  shows "mg_row g \<in> set (md_rows db) \<and> is_candidate now q (mg_row g)"
proof -
  have "g \<in> set (outer_join (vec_arm en now q db) (lex_arm en now q db))"
    using in_set_takeD[OF assms[unfolded ranked_rows_def]] by simp
  from outer_join_rows[OF this] show ?thesis by (metis Un_iff lex_arm_rows vec_arm_rows)
qed

lemma search_memories_mem:
  assumes "search_memories en now q db = Inr found" "h \<in> set found"
  obtains r where "r \<in> set (md_rows db)" "is_candidate now q r" "hi_memory h = memory_from_row r"
    "hi_primary h = is_primary q r"
  using assms by (auto simp: search_memories_def hit_of_def split: if_splits dest!: ranked_rows_mem)

lemma search_memories_length:
  "search_memories en now q db = Inr found \<Longrightarrow> int (length found) \<le> max 0 (sq_limit q)"
  by (auto simp: search_memories_def ranked_rows_def split: if_splits)

section \<open>Ceilings\<close>

lemma fold_min_in: "fold min xs (x :: 'a :: linorder) \<in> insert x (set xs)"
proof (induction xs arbitrary: x)
  case (Cons y ys)
  then show ?case using Cons[of "min y x"] by (auto simp: min_def split: if_splits)
qed simp

lemma min_ceiling_Some: "min_ceiling cs n = Some mx \<Longrightarrow> \<exists>c \<in> set cs. nc_namespace c = n \<and> nc_max c = mx"
proof -
  assume m: "min_ceiling cs n = Some mx"
  let ?l = "map nc_max (filter (\<lambda>c. nc_namespace c = n) cs)"
  from m obtain x xs where l: "?l = x # xs" "mx = fold min xs x" by (auto simp: min_ceiling_def split: list.splits)
  then have "mx \<in> set ?l" using fold_min_in[of xs x] by simp
  then show ?thesis by auto
qed

lemma within_admitted: "within_ceiling (ps @ ss) r \<Longrightarrow> search_admits ps ss (mr_namespace r) (mr_sensitivity r)"
  unfolding within_ceiling_def search_admits_def list_ex_iff
  by (auto split: option.splits dest!: min_ceiling_Some)

lemma push_alias_set: "set (foldl (push_alias ps) out cs) \<subseteq> set out \<union> set cs"
proof (induction cs arbitrary: out)
  case (Cons c cs)
  have "set (foldl (push_alias ps) (push_alias ps out c) cs) \<subseteq> set (push_alias ps out c) \<union> set cs" by (rule Cons.IH)
  moreover have "set (push_alias ps out c) \<subseteq> insert c (set out)" by (auto simp: push_alias_def)
  ultimately show ?case by auto
qed simp

lemma resolved_ceiling:
  "c \<in> set (filter_readable p req) \<Longrightarrow> l \<le> nc_max c \<Longrightarrow> can_read p (nc_namespace c) l"
  by (auto simp: filter_readable_def set_resolve can_read_def admits_def)

definition granted_by :: "principal \<Rightarrow> namespace_ceiling list \<Rightarrow> bool" where
  "granted_by p cs \<longleftrightarrow> (\<forall>c \<in> set cs. \<forall>l. l \<le> nc_max c \<longrightarrow> can_read p (nc_namespace c) l)"

lemma granted_readable [simp]: "granted_by p (filter_readable p req)"
  by (auto simp: granted_by_def resolved_ceiling)

lemma granted_push: "granted_by p out \<Longrightarrow> granted_by p cs \<Longrightarrow> granted_by p (foldl (push_alias ps) out cs)"
  using push_alias_set[of ps out cs] by (auto simp: granted_by_def)

lemma granted_aliases: "granted_by (sc_principal ctx) (alias_namespaces ctx primary)"
proof -
  have "granted_by (sc_principal ctx) out \<Longrightarrow>
    granted_by (sc_principal ctx)
      (foldl (\<lambda>out name. foldl (push_alias primary) out (filter_readable (sc_principal ctx) [name])) out names)" for out names
    by (induction names arbitrary: out) (simp_all add: granted_push)
  from this[of "[]"] show ?thesis by (simp add: alias_namespaces_def granted_by_def)
qed

lemma granted_secondary: "granted_by (sc_principal ctx) (secondary_namespaces ctx db explicit primary)"
  by (simp add: secondary_namespaces_def Let_def granted_aliases granted_push other_namespaces_def)

lemma admitted_can_read:
  "granted_by p ps \<Longrightarrow> granted_by p ss \<Longrightarrow> search_admits ps ss ns l \<Longrightarrow> can_read p ns l"
  by (auto simp: search_admits_def granted_by_def list_ex_iff)

section \<open>Opening the rows\<close>

lemma opened_hits_mem:
  assumes "h \<in> set (opened_hits ctx db found)"
  obtains h0 where "h0 \<in> set found" "row_facts (hi_memory h) = row_facts (hi_memory h0)" "hi_primary h = hi_primary h0"
proof -
  obtain rows failed where d: "decrypt (sc_gcm ctx) (sc_ring ctx) db (map hi_memory found) = (rows, failed)"
    by (cases "decrypt (sc_gcm ctx) (sc_ring ctx) db (map hi_memory found)")
  have f: "map row_facts rows = map row_facts (map hi_memory found)"
    using decrypt_facts[of "sc_gcm ctx" "sc_ring ctx" db "map hi_memory found"] d by simp
  from assms obtain h0 m where hm: "(h0, m) \<in> set (zip found rows)" "h = h0\<lparr>hi_memory := m\<rparr>"
    by (auto simp: opened_hits_def d)
  then obtain i where i: "i < length found" "i < length rows" "h0 = found ! i" "m = rows ! i"
    by (auto simp: set_zip)
  have "row_facts m = row_facts (hi_memory h0)"
    using arg_cong[OF f, of "\<lambda>xs. xs ! i"] i by simp
  then show ?thesis using that[of h0] hm(2) i by simp
qed

lemma opened_hits_length: "length (opened_hits ctx db found) \<le> length found"
  by (auto simp: opened_hits_def split: prod.splits intro!: order.trans[OF length_filter_le])

lemma set_answered: "set (answered found) = (\<lambda>h. m_namespace (hi_memory h)) ` {h \<in> set found. \<not> hi_primary h}"
  by (auto simp: answered_def dedupe_def set_dedupe_seen)

lemma published_simps [simp]:
  "ph_id (published_row f h) = m_id (hi_memory h)" "ph_namespace (published_row f h) = m_namespace (hi_memory h)"
  "ph_sensitivity (published_row f h) = m_sensitivity (hi_memory h)" "ph_primary (published_row f h) = hi_primary h"
  "ph_content (published_row f h) = m_content (hi_memory h)"
  by (simp_all add: published_row_def Let_def)

lemma published_names:
  "ph_namespace ` {h \<in> published_row f ` A. \<not> ph_primary h} = (\<lambda>h. m_namespace (hi_memory h)) ` {h \<in> A. \<not> hi_primary h}"
proof -
  have "{h \<in> published_row f ` A. \<not> ph_primary h} = published_row f ` {h \<in> A. \<not> hi_primary h}" by auto
  then show ?thesis by (simp add: image_image)
qed

text \<open>A search that reached the statement, in its parts.\<close>

lemma search_run_parts:
  assumes "search_run ctx now args db = Inr (res, trace)" and "sr_hits res \<noteq> [] \<or> sr_also_searched res \<noteq> [] \<or> trace \<noteq> no_trace"
  obtains primary secondary slot v found where
    "granted_by (sc_principal ctx) primary" "granted_by (sc_principal ctx) secondary"
    "search_memories (sc_engine ctx) now (search_query_of ctx args primary secondary slot v) db = Inr found"
    "(res, trace) = search_answer ctx primary secondary (opened_hits ctx db found)"
    "search_checks ctx args = Inr ()"
proof -
  obtain explicit asked where a: "asked_list args = (explicit, asked)" by (cases "asked_list args")
  obtain slot eq where u: "sc_unit ctx = Inr (slot, eq)" and c: "search_checks ctx args = Inr ()"
    using assms(1) by (auto simp: search_run_def and_then_Inr)
  obtain ns where n: "asked = Inr ns" using assms(1) by (cases asked) (auto simp: search_run_def and_then_Inr u c a)
  let ?p = "filter_readable (sc_principal ctx) ns"
  have ne: "?p \<noteq> []" using assms by (auto simp: search_run_def u c a n Let_def)
  let ?s = "secondary_namespaces ctx db explicit ?p"
  from assms(1) ne obtain v found where
    "search_memories (sc_engine ctx) now (search_query_of ctx args ?p ?s slot v) db = Inr found"
    "(res, trace) = search_answer ctx ?p ?s (opened_hits ctx db found)"
    by (auto simp: search_run_def u c a n Let_def and_then_Inr)
  then show thesis using c by (intro that[of ?p ?s slot v found]) (auto simp: granted_secondary)
qed


section \<open>The properties\<close>

definition row_behind :: "principal \<Rightarrow> instant \<Rightarrow> search_args \<Rightarrow> ('v, 's) mem_db \<Rightarrow> published_hit \<Rightarrow> bool" where
  "row_behind p now args db h \<longleftrightarrow>
     can_read p (ph_namespace h) (ph_sensitivity h) \<and>
     (\<exists>r \<in> set (md_rows db).
        mr_id r = ph_id h \<and> mr_namespace r = ph_namespace h \<and> mr_sensitivity r = ph_sensitivity h \<and>
        (case sa_as_of args of
           Some t \<Rightarrow> p_may_read_history p \<and> holds_at t r
         | None \<Rightarrow> row_live now r \<or> sa_include_superseded args = Some True \<and> p_may_read_history p) \<and>
        set (tags_normalise (sa_tags args)) \<subseteq> set (mr_tags r))"

lemma answer_rows:
  assumes c: "search_checks ctx args = Inr ()"
    and m: "search_memories en now (search_query_of ctx args ps ss slot v) db = Inr found"
    and g: "granted_by (sc_principal ctx) ps" "granted_by (sc_principal ctx) ss"
    and h: "h \<in> set (sr_hits (fst (search_answer ctx ps ss (opened_hits ctx db found))))"
  shows "row_behind (sc_principal ctx) now args db h"
proof -
  let ?q = "search_query_of ctx args ps ss slot v"
  from h obtain x where x: "x \<in> set (opened_hits ctx db found)" "h = published_row (sc_label ctx) x"
      "search_admits ps ss (m_namespace (hi_memory x)) (m_sensitivity (hi_memory x))"
    by (auto simp: search_answer_def Let_def)
  from x(1) obtain h0 where h0: "h0 \<in> set found" "row_facts (hi_memory x) = row_facts (hi_memory h0)"
    by (rule opened_hits_mem)
  from m h0(1) obtain r where r: "r \<in> set (md_rows db)" "is_candidate now ?q r" "hi_memory h0 = memory_from_row r"
    by (rule search_memories_mem)
  have f: "m_id (hi_memory x) = mr_id r" "m_namespace (hi_memory x) = mr_namespace r" "m_sensitivity (hi_memory x) = mr_sensitivity r"
    using h0(2) by (simp_all add: r(3) row_facts_def memory_from_row_def)
  have may: "p_may_read_history (sc_principal ctx)" if "sa_as_of args \<noteq> None \<or> sa_include_superseded args = Some True"
    using c that by (auto simp: search_checks_def and_then_Inr assert_may_read_def split: if_splits)
  have sel: "asked_period now ?q r" "tagged ?q r" using r(2) by (auto simp: is_candidate_def)
  have "case sa_as_of args of
           Some t \<Rightarrow> p_may_read_history (sc_principal ctx) \<and> holds_at t r
         | None \<Rightarrow> row_live now r \<or> sa_include_superseded args = Some True \<and> p_may_read_history (sc_principal ctx)"
    using sel(1) may by (auto simp: asked_period_def search_query_of_def split: option.splits if_splits)
  moreover have "set (tags_normalise (sa_tags args)) \<subseteq> set (mr_tags r)"
    using sel(2) by (auto simp: tagged_def search_query_of_def list_all_iff)
  ultimately show ?thesis
    using admitted_can_read[OF g x(3)] f r(1) by (auto simp: row_behind_def x(2))
qed

text \<open>
  Property C3. What a search may hand out. Every hit is a stored row the caller's read grant admits
  at the level it is stored at, carries every tag asked for, and is live; a row that is not live
  comes back only to a client with the history capability, when it asked for retired rows or for an
  instant at which the row held. The names under "also searched" are exactly the namespaces of hits
  outside the primary set, never a namespace nothing was shown from; a digest is recorded only of
  a hit handed out, never of an encrypted one; and the rows touched are the rows handed out.
\<close>

theorem search_discloses_only_readable:
  assumes "search_run ctx now args db = Inr (res, trace)"
  shows "(\<forall>h \<in> set (sr_hits res). row_behind (sc_principal ctx) now args db h) \<and>
    set (sr_also_searched res) = ph_namespace ` {h \<in> set (sr_hits res). \<not> ph_primary h} \<and>
    (\<forall>e \<in> set (st_emissions trace). \<exists>h \<in> set (sr_hits res). ph_id h = snd e \<and> \<not> is_encrypted (ph_sensitivity h)) \<and>
    st_touched trace = map ph_id (sr_hits res)"
proof (cases "sr_hits res \<noteq> [] \<or> sr_also_searched res \<noteq> [] \<or> trace \<noteq> no_trace")
  case True
  from assms True obtain ps ss slot v found where
    g: "granted_by (sc_principal ctx) ps" "granted_by (sc_principal ctx) ss"
    and m: "search_memories (sc_engine ctx) now (search_query_of ctx args ps ss slot v) db = Inr found"
    and a: "(res, trace) = search_answer ctx ps ss (opened_hits ctx db found)"
    and c: "search_checks ctx args = Inr ()"
    by (rule search_run_parts)
  have r: "res = fst (search_answer ctx ps ss (opened_hits ctx db found))" and t: "trace = snd (search_answer ctx ps ss (opened_hits ctx db found))"
    using a by (metis fst_conv, metis snd_conv)
  have rows: "\<forall>h \<in> set (sr_hits res). row_behind (sc_principal ctx) now args db h"
    unfolding r using answer_rows[OF c m g] by blast
  have names: "set (sr_also_searched res) = ph_namespace ` {h \<in> set (sr_hits res). \<not> ph_primary h}"
    by (simp add: r search_answer_def Let_def set_answered published_names)
  have "\<exists>h \<in> set (sr_hits res). ph_id h = snd e \<and> \<not> is_encrypted (ph_sensitivity h)" if "e \<in> set (st_emissions trace)" for e
    using that by (auto simp: r t search_answer_def Let_def emissions_for_def split: option.splits)
  moreover have "st_touched trace = map ph_id (sr_hits res)" by (simp add: r t search_answer_def Let_def)
  ultimately show ?thesis using rows names by blast
qed (simp add: no_trace_def)

text \<open>
  The ceiling check repeated over the results never drops a row: whatever the statement
  returns, opened or not, the check admits it, so the second line is only a second line.
\<close>

theorem second_check_drops_nothing:
  assumes "search_memories en now q db = Inr found" and "h \<in> set (opened_hits ctx db found)"
  shows "search_admits (sq_primary q) (sq_secondary q) (m_namespace (hi_memory h)) (m_sensitivity (hi_memory h))"
  using assms(2)
proof (rule opened_hits_mem)
  fix h0
  assume h0: "h0 \<in> set found" "row_facts (hi_memory h) = row_facts (hi_memory h0)"
  from assms(1) h0(1) obtain r where "r \<in> set (md_rows db)" and r: "is_candidate now q r" "hi_memory h0 = memory_from_row r"
    by (rule search_memories_mem)
  then show ?thesis
    using h0(2) within_admitted[of "sq_primary q" "sq_secondary q" r]
    by (simp add: is_candidate_def row_facts_def memory_from_row_def)
qed

text \<open>
  After a supersession that dated its end, of a row whose period was open, no instant
  is answered twice: at no time do both the row and its replacement hold.
\<close>

theorem as_of_answers_once:
  assumes "distinct (map mr_id (md_rows db))" and "supersede now old new db = Inr (False, db')"
    and "find_row db old = Some p" and "mr_superseded_by p = None" and "mr_occurred_until p = None"
    and "find_row db' old = Some p'" and "find_row db' new = Some s'"
  shows "\<not> (holds_at t p' \<and> holds_at t s')"
  using assms(2,1)
proof (cases rule: supersede_Inr)
  case (linked q)
  then show ?thesis using assms(3,4) by simp
next
  case (retired q s until)
  have q: "q = p" using retired(1) assms(3) by simp
  have i: "mr_id p = old" "mr_id s = new" using find_row_Some[OF assms(3)] find_row_Some[OF retired(2)] by auto
  have p': "p' = retired_row now new until p"
    using assms(6) retired(3,4) i q
    by (simp add: retired(10) link_successor_def find_row_update assms(3))
  have s': "s' = (if mr_supersedes s = None then s\<lparr>mr_supersedes := Some old\<rparr> else s)"
    using assms(7) retired(2,3) i
    by (auto simp: retired(10) link_successor_def find_row_update split: if_splits)
  obtain e where e: "until = Some e" using retired(7) by (cases until) auto
  have u: "e = (case mr_occurred_at s of None \<Rightarrow> mr_created_at s | Some x \<Rightarrow> x)"
    using retired(6) by (auto simp: supersession_until_Inr Let_def e split: option.splits if_splits)
  have "mr_occurred_until p' = Some e" by (simp add: p' retired_row_def coalesce_def assms(5) e)
  then show ?thesis
    by (cases "mr_occurred_at s") (auto simp: holds_at_def s' u split: if_splits)
qed


lemma negative_limit_fails:
  assumes "sq_primary q \<noteq> []" and "sq_limit q < 0"
  shows "search_memories en now q db = Inl database_error"
  using assms by (simp add: search_memories_def)

lemma boost_range: "0 \<le> c \<Longrightarrow> 0 \<le> use_boost c \<and> use_boost c \<le> 1"
  by (simp add: use_boost_def min_def)

lemma boost_saturates: "10 \<le> c \<Longrightarrow> use_boost c = 1"
proof -
  assume c: "10 \<le> c"
  then have "ln 11 \<le> ln (1 + real_of_int c)" by simp
  then show ?thesis by (simp add: use_boost_def)
qed

text \<open>The same candidate had nobody used it.\<close>

definition unused :: "('v, 's) merged \<Rightarrow> ('v, 's) merged" where
  "unused g = g\<lparr>mg_row := (mg_row g)\<lparr>mr_access_count := 0\<rparr>\<rparr>"

lemma penalty_unused [simp]: "penalty q (r\<lparr>mr_access_count := c\<rparr>) = penalty q r"
  by (simp add: penalty_def is_primary_def)

lemma boost_0 [simp]: "use_boost 0 = 0"
  by (simp add: use_boost_def)


section \<open>A concrete store\<close>

definition sample_engine :: "nat engine" where
  "sample_engine = \<lparr>en_dist = (\<lambda>_ _. 0), en_matches = (\<lambda>_ _. False), en_rank = (\<lambda>_ _. 0), en_fusion = Rrf, en_rrf_k = 60\<rparr>"

definition sample_weights :: weights where
  "sample_weights = \<lparr>w_vector = 1, w_lexical = 0, w_secondary_penalty = 1, w_usage = 0\<rparr>"

definition sample_search :: "nat search_ctx" where
  "sample_search =
     \<lparr>sc_principal = wc_principal sample_ctx, sc_ring = sample_ring, sc_gcm = sample_gcm,
      sc_include_all_projects = False, sc_default_limit = 8, sc_max_limit = 50, sc_weights = sample_weights,
      sc_engine = sample_engine, sc_unit = Inr (SlotA, \<lambda>_. Inr 0), sc_registry = [],
      sc_alias_group = (\<lambda>_ _. Inr []), sc_digest = Some id, sc_label = (\<lambda>_. None)\<rparr>"

definition sample_question :: search_args where
  "sample_question = \<lparr>sa_query = u ''port'', sa_namespaces = Some [u ''user:me''], sa_limit = None, sa_project = None,
     sa_include_superseded = None, sa_as_of = None, sa_tags = []\<rparr>"


definition sample_row :: "(nat, sealed_content) mem_row" where
  "sample_row = (sample_version 1 None None)\<lparr>mr_vec_a := Some 1\<rparr>"

definition sample_one :: "(nat, sealed_content) mem_db" where
  "sample_one = \<lparr>md_rows = [sample_row], md_kek_id = None\<rparr>"

definition sample_ceiling :: namespace_ceiling where
  "sample_ceiling = \<lparr>nc_namespace = u ''user:me'', nc_max = Private\<rparr>"

abbreviation sample_query :: "nat search_query" where
  "sample_query \<equiv> search_query_of sample_search sample_question [sample_ceiling] [] SlotA 0"

lemma sample_ranked:
  obtains g where "ranked_rows sample_engine 100 sample_query sample_one = [g]" "mg_row g = sample_row"
proof -
  have v: "vec_arm sample_engine 100 sample_query sample_one = [(sample_row, 0)]" by code_simp
  have l: "lex_arm sample_engine 100 sample_query sample_one = []"
    by (simp add: lex_arm_def search_query_of_def sample_search_def sample_weights_def)
  have q: "sq_limit sample_query = 8" by code_simp
  let ?g = "\<lparr>mg_row = sample_row, mg_similarity = 1, mg_lexical = 0, mg_rank_vec = Some 1, mg_rank_lex = None\<rparr>"
  have "outer_join [(sample_row, 0)] [] = [?g]"
    by (simp add: outer_join_def ranked_def in_arm_def lexical_part_def)
  then have "ranked_rows sample_engine 100 sample_query sample_one = [?g]"
    by (simp add: ranked_rows_def v l q)
  then show thesis by (rule that) (rule merged.select_convs)
qed

lemma sample_found:
  obtains h where "search_memories sample_engine 100 sample_query sample_one = Inr [h]"
    "hi_memory h = memory_from_row sample_row"
proof -
  obtain g where g: "ranked_rows sample_engine 100 sample_query sample_one = [g]" "mg_row g = sample_row"
    by (rule sample_ranked)
  have q: "sq_limit sample_query = 8" "sq_primary sample_query = [sample_ceiling]" by code_simp+
  show thesis
    by (rule that[of "hit_of sample_engine sample_query g"]) (simp_all add: search_memories_def q g hit_of_def)
qed

lemma sample_search_run:
  obtains res trace where "search_run sample_search 100 sample_question sample_one = Inr (res, trace)"
    "map ph_id (sr_hits res) = [1]"
proof -
  obtain h where h: "search_memories sample_engine 100 sample_query sample_one = Inr [h]" "hi_memory h = memory_from_row sample_row"
    by (rule sample_found)
  have a: "asked_list sample_question = (True, Inr [u ''user:me''])" "search_checks sample_search sample_question = Inr ()"
    and f: "filter_readable (sc_principal sample_search) [u ''user:me''] = [sample_ceiling]"
    and s: "secondary_namespaces sample_search sample_one True [sample_ceiling] = []"
    and d: "decrypt (sc_gcm sample_search) (sc_ring sample_search) sample_one [memory_from_row sample_row] = ([memory_from_row sample_row], [])"
    and ok: "search_admits [sample_ceiling] [] (m_namespace (memory_from_row sample_row)) (m_sensitivity (memory_from_row sample_row))"
    and i: "m_id (memory_from_row sample_row) = 1"
    by code_simp+
  have c: "sc_unit sample_search = Inr (SlotA, \<lambda>_. Inr 0)" "sc_engine sample_search = sample_engine"
    by (simp_all add: sample_search_def)
  have o: "opened_hits sample_search sample_one [h] = [h\<lparr>hi_memory := memory_from_row sample_row\<rparr>]"
    by (simp add: opened_hits_def h(2) d)
  have r: "search_run sample_search 100 sample_question sample_one =
      Inr (search_answer sample_search [sample_ceiling] [] (opened_hits sample_search sample_one [h]))"
    unfolding search_run_def c a f and_then_simps prod.case Let_def s h(1) by simp
  have "map ph_id (sr_hits (fst (search_answer sample_search [sample_ceiling] [] (opened_hits sample_search sample_one [h])))) = [1]"
    by (simp add: search_answer_def Let_def o ok i)
  with r show thesis using that by (metis prod.collapse)
qed

lemma search_discloses_only_readable_witness:
  "\<exists>res trace. search_run sample_search 100 sample_question sample_one = Inr (res, trace) \<and> st_touched trace = [1]"
proof -
  obtain res trace where r: "search_run sample_search 100 sample_question sample_one = Inr (res, trace)"
    "map ph_id (sr_hits res) = [1]" by (rule sample_search_run)
  from search_discloses_only_readable[OF r(1)] r show ?thesis by simp
qed

lemma second_check_drops_nothing_witness:
  "\<exists>h. h \<in> set (opened_hits sample_search sample_one [h]) \<and>
    search_admits [sample_ceiling] [] (m_namespace (hi_memory h)) (m_sensitivity (hi_memory h))"
proof -
  obtain h where h: "search_memories sample_engine 100 sample_query sample_one = Inr [h]" "hi_memory h = memory_from_row sample_row"
    by (rule sample_found)
  have "decrypt (sc_gcm sample_search) (sc_ring sample_search) sample_one [memory_from_row sample_row] = ([memory_from_row sample_row], [])"
    by code_simp
  then have m: "h \<in> set (opened_hits sample_search sample_one [h])"
    using h(2) by (cases h) (simp add: opened_hits_def)
  have "sq_primary sample_query = [sample_ceiling]" "sq_secondary sample_query = []" by code_simp+
  then show ?thesis using second_check_drops_nothing[OF h(1) m] m by auto
qed

definition sample_pair :: "(nat, sealed_content) mem_db" where
  "sample_pair = \<lparr>md_rows = [sample_version 1 None None, sample_version 2 None None], md_kek_id = None\<rparr>"

lemma as_of_answers_once_witness:
  "\<exists>db' p' s'. supersede 50 1 2 sample_pair = Inr (False, db') \<and> find_row db' 1 = Some p' \<and> find_row db' 2 = Some s' \<and>
    \<not> (holds_at 1 p' \<and> holds_at 1 s')"
proof -
  have d: "distinct (map mr_id (md_rows sample_pair))"
    and f: "find_row sample_pair 1 = Some (sample_version 1 None None)"
    and n: "mr_superseded_by (sample_version 1 None None) = None" "mr_occurred_until (sample_version 1 None None) = None"
    by code_simp+
  have "map_sum id (\<lambda>x. (fst x, find_row (snd x) 1 \<noteq> None, find_row (snd x) 2 \<noteq> None)) (supersede 50 1 2 sample_pair) = Inr (False, True, True)"
    by code_simp
  then obtain db' p' s' where "supersede 50 1 2 sample_pair = Inr (False, db')" "find_row db' 1 = Some p'" "find_row db' 2 = Some s'"
    by (cases "supersede 50 1 2 sample_pair") auto
  with as_of_answers_once[OF d this(1) f n this(2,3), of 1] show ?thesis by blast
qed

definition sample_redated :: "(nat, sealed_content) mem_db" where
  "sample_redated =
     \<lparr>md_rows = [(sample_version 1 None (Some 2))\<lparr>mr_created_at := 0, mr_occurred_until := Some 50\<rparr>,
                (sample_version 2 (Some 1) None)\<lparr>mr_created_at := 50, mr_content := Some (u ''moved on 2026-03-04 at last'')\<rparr>],
      md_kek_id = None\<rparr>"



end
