(* ===== verification/Lr_Cleanup.thy ===== *)
theory Lr_Cleanup
  imports Lr_Timeline
begin

text \<open>
  The cleanup queue: \<open>src/src/domain/cleanup.rs\<close>, the queue half of
  \<open>src/src/adapters/postgres/cleanup.rs\<close> and of \<open>src/src/services/cleanup.rs\<close>. A finding names a
  cluster of rows and waits; the owner applies, resolves, rejects or takes back. A text that names a
  row is parsed by the parameter \<open>wc_uuid\<close> and a row's id is printed by \<open>cc_show\<close>; the hash behind the
  cluster key is the parameter \<open>cc_sha256\<close>. The rationale is rendering and is left out.
\<close>

section \<open>Kinds\<close>

datatype cleanup_kind = Exact | Paraphrase | Contradiction | Stale | Supersession

fun kind_as_str :: "cleanup_kind \<Rightarrow> str" where
  "kind_as_str Exact = u ''exact''"
| "kind_as_str Paraphrase = u ''paraphrase''"
| "kind_as_str Contradiction = u ''contradiction''"
| "kind_as_str Stale = u ''stale''"
| "kind_as_str Supersession = u ''supersession''"

definition parse_kind :: "str \<Rightarrow> cleanup_kind option" where
  "parse_kind s =
     (if s = u ''exact'' then Some Exact
      else if s = u ''paraphrase'' then Some Paraphrase
      else if s = u ''contradiction'' then Some Contradiction
      else if s = u ''stale'' then Some Stale
      else if s = u ''supersession'' then Some Supersession
      else None)"

interpretation kind_codec: strict_codec kind_as_str parse_kind
proof
  show "parse_kind (kind_as_str x) = Some x" for x by (cases x) (simp_all add: parse_kind_def)
  show "parse_kind s = Some x \<Longrightarrow> kind_as_str x = s" for s x
    by (auto simp: parse_kind_def split: if_splits)
qed

fun has_keep :: "cleanup_kind \<Rightarrow> bool" where
  "has_keep Contradiction = False"
| "has_keep Stale = False"
| "has_keep _ = True"

fun deletes :: "cleanup_kind \<Rightarrow> bool" where
  "deletes Stale = True"
| "deletes _ = False"

datatype disposition = D_Keep | D_Retire

fun disposition_as_str :: "disposition \<Rightarrow> str" where
  "disposition_as_str D_Keep = u ''keep''"
| "disposition_as_str D_Retire = u ''retire''"

definition parse_disposition :: "str \<Rightarrow> disposition option" where
  "parse_disposition s =
     (if s = u ''keep'' then Some D_Keep else if s = u ''retire'' then Some D_Retire else None)"

interpretation disposition_codec: strict_codec disposition_as_str parse_disposition
proof
  show "parse_disposition (disposition_as_str x) = Some x" for x by (cases x) (simp_all add: parse_disposition_def)
  show "parse_disposition s = Some x \<Longrightarrow> disposition_as_str x = s" for s x
    by (auto simp: parse_disposition_def split: if_splits)
qed

definition MODEL_VISIBLE_CEILING :: sensitivity where "MODEL_VISIBLE_CEILING = Open"

definition model_may_see :: "sensitivity \<Rightarrow> bool" where
  "model_may_see s \<longleftrightarrow> s \<le> MODEL_VISIBLE_CEILING"

definition cluster_key :: "(str \<Rightarrow> str) \<Rightarrow> cleanup_kind \<Rightarrow> str list \<Rightarrow> str" where
  "cluster_key sha256 kind member_ids =
     sha256 (kind_as_str kind @ concat (map (\<lambda>i. 31 # i) (remdups_adj (sort member_ids))))"

section \<open>The tables\<close>

datatype queue_state = Proposed | Applied | Rejected | Obsolete

fun state_as_str :: "queue_state \<Rightarrow> str" where
  "state_as_str Proposed = u ''proposed''"
| "state_as_str Applied = u ''applied''"
| "state_as_str Rejected = u ''rejected''"
| "state_as_str Obsolete = u ''obsolete''"

record queue_member =
  qm_memory :: nat
  qm_disposition :: disposition
  qm_seen :: str

record queue_row =
  qr_id :: nat
  qr_kind :: cleanup_kind
  qr_namespace :: str
  qr_keep_id :: "nat option"
  qr_produced_by :: str
  qr_posted_by :: "str option"
  qr_similarity :: "real option"
  qr_state :: queue_state
  qr_reason :: "str option"
  qr_decided_at :: "instant option"
  qr_created_at :: instant
  qr_key :: str
  qr_members :: "queue_member list"

record new_member =
  nb_memory_id :: str
  nb_disposition :: disposition
  nb_seen_content :: str

record new_proposal =
  np_kind :: cleanup_kind
  np_namespace :: str
  np_keep_id :: "str option"
  np_produced_by :: str
  np_similarity :: "real option"
  np_posted_by :: "str option"
  np_members :: "new_member list"

record proposal_member =
  pm_memory_id :: nat
  pm_disposition :: disposition
  pm_seen_content :: str
  pm_current_content :: "str option"
  pm_superseded_by :: "nat option"
  pm_namespace :: "str option"
  pm_sensitivity :: "sensitivity option"
  pm_created_at :: "instant option"
  pm_occurred_at :: "instant option"
  pm_access_count :: "int option"
  pm_source_client :: "str option"

record proposal =
  pp_id :: nat
  pp_kind :: cleanup_kind
  pp_namespace :: str
  pp_keep_id :: "nat option"
  pp_produced_by :: str
  pp_posted_by :: "str option"
  pp_similarity :: "real option"
  pp_state :: queue_state
  pp_reason :: "str option"
  pp_decided_at :: "instant option"
  pp_created_at :: instant
  pp_members :: "proposal_member list"

datatype queue_outcome = Queued | AlreadyKnown

text \<open>One caller's context, and what the server keeps: the memories with their audit log, and the queue.\<close>

record ('v, 'd) cleanup_ctx =
  cc_write :: "('v, 'd) write_ctx"
  cc_forget :: "'v forget_ctx"
  cc_show :: "nat \<Rightarrow> str"
  cc_sha256 :: "str \<Rightarrow> str"

record 'v cleanup_state =
  cs_store :: "'v forget_state"
  cs_queue :: "queue_row list"

abbreviation cs_db :: "'v cleanup_state \<Rightarrow> ('v, sealed_content) mem_db" where
  "cs_db st \<equiv> fs_db (cs_store st)"

abbreviation cc_principal :: "('v, 'd) cleanup_ctx \<Rightarrow> principal" where
  "cc_principal ctx \<equiv> wc_principal (cc_write ctx)"

abbreviation cc_uuid :: "('v, 'd) cleanup_ctx \<Rightarrow> str \<Rightarrow> nat option" where
  "cc_uuid ctx \<equiv> wc_uuid (cc_write ctx)"

text \<open>The delete runs on the same principal, keys and parser.\<close>

definition deleting :: "('v, 'd) cleanup_ctx \<Rightarrow> 'v forget_ctx" where
  "deleting ctx = (cc_forget ctx)
     \<lparr>fc_principal := cc_principal ctx, fc_ring := wc_ring (cc_write ctx), fc_gcm := wc_gcm (cc_write ctx),
      fc_uuid := cc_uuid ctx\<rparr>"

text \<open>\<open>ON DELETE CASCADE\<close> on \<open>keep_id\<close> and on the members' \<open>memory_id\<close>.\<close>

definition survives :: "('v, 's) mem_db \<Rightarrow> nat \<Rightarrow> bool" where
  "survives db i \<longleftrightarrow> find_row db i \<noteq> None"

definition keep_rows :: "(nat \<Rightarrow> bool) \<Rightarrow> queue_row list \<Rightarrow> queue_row list" where
  "keep_rows alive q =
     map (\<lambda>p. p\<lparr>qr_members := filter (\<lambda>m. alive (qm_memory m)) (qr_members p)\<rparr>)
       (filter (\<lambda>p. case qr_keep_id p of None \<Rightarrow> True | Some k \<Rightarrow> alive k) q)"

definition cascade :: "('v, 's) mem_db \<Rightarrow> queue_row list \<Rightarrow> queue_row list" where
  "cascade db q = keep_rows (survives db) q"

section \<open>Reading the queue\<close>

definition member_from :: "('v, 's) mem_db \<Rightarrow> queue_member \<Rightarrow> proposal_member" where
  "member_from db m =
     (let r = find_row db (qm_memory m)
      in \<lparr>pm_memory_id = qm_memory m, pm_disposition = qm_disposition m, pm_seen_content = qm_seen m,
          pm_current_content = Option.bind r mr_content,
          pm_superseded_by = Option.bind r mr_superseded_by,
          pm_namespace = map_option mr_namespace r, pm_sensitivity = map_option mr_sensitivity r,
          pm_created_at = map_option mr_created_at r, pm_occurred_at = Option.bind r mr_occurred_at,
          pm_access_count = map_option mr_access_count r,
          pm_source_client = map_option mr_source_client r\<rparr>)"

text \<open>\<open>ORDER BY disposition DESC, memory_id\<close>: the rows to retire first.\<close>

definition members_of :: "('v, 's) mem_db \<Rightarrow> queue_row \<Rightarrow> proposal_member list" where
  "members_of db p =
     map (member_from db) (sort_key (\<lambda>m. (qm_disposition m = D_Keep, qm_memory m)) (qr_members p))"

definition proposal_from :: "('v, 's) mem_db \<Rightarrow> queue_row \<Rightarrow> proposal" where
  "proposal_from db p =
     \<lparr>pp_id = qr_id p, pp_kind = qr_kind p, pp_namespace = qr_namespace p, pp_keep_id = qr_keep_id p,
      pp_produced_by = qr_produced_by p, pp_posted_by = qr_posted_by p, pp_similarity = qr_similarity p,
      pp_state = qr_state p, pp_reason = qr_reason p, pp_decided_at = qr_decided_at p,
      pp_created_at = qr_created_at p, pp_members = members_of db p\<rparr>"

text \<open>\<open>PROPOSAL_VISIBLE_PREDICATE\<close>.\<close>

definition proposal_visible :: "granted_rule list \<Rightarrow> ('v, 's) mem_db \<Rightarrow> queue_row \<Rightarrow> bool" where
  "proposal_visible gs db p \<longleftrightarrow>
     list_ex (\<lambda>g. if gr_exact g then qr_namespace p = gr_prefix g
                  else take (length (gr_prefix g)) (qr_namespace p) = gr_prefix g) gs \<and>
     list_all (\<lambda>m. case find_row db (qm_memory m) of
                     None \<Rightarrow> True
                   | Some r \<Rightarrow> granted_row gs (mr_namespace r) (mr_sensitivity r)) (qr_members p)"

definition find_proposal :: "nat \<Rightarrow> queue_row list \<Rightarrow> queue_row option" where
  "find_proposal i q = List.find (\<lambda>p. qr_id p = i) q"

definition queue_get :: "namespace_grant list \<Rightarrow> nat option \<Rightarrow> ('v, 's) mem_db \<Rightarrow> queue_row list \<Rightarrow> proposal option" where
  "queue_get grant i db q =
     (case Option.bind i (\<lambda>i. find_proposal i q) of
        None \<Rightarrow> None
      | Some p \<Rightarrow> if proposal_visible (split_grants grant) db p then Some (proposal_from db p) else None)"

definition queue_list ::
    "queue_state option \<Rightarrow> int \<Rightarrow> namespace_grant list \<Rightarrow> ('v, 's) mem_db \<Rightarrow> queue_row list \<Rightarrow> proposal list" where
  "queue_list state limit grant db q =
     map (proposal_from db) (take (nat limit) (sort_key (\<lambda>p. - qr_created_at p)
       (filter (\<lambda>p. (case state of None \<Rightarrow> True | Some s \<Rightarrow> qr_state p = s) \<and>
                    proposal_visible (split_grants grant) db p) q)))"

definition readable_proposal :: "principal \<Rightarrow> proposal \<Rightarrow> bool" where
  "readable_proposal p x \<longleftrightarrow>
     can_read p (pp_namespace x) Open \<and>
     list_all (\<lambda>m. case (pm_namespace m, pm_sensitivity m) of
                     (Some ns, Some lvl) \<Rightarrow> can_read p ns lvl | _ \<Rightarrow> True) (pp_members x)"

definition list_proposals ::
    "('v, 'd) cleanup_ctx \<Rightarrow> queue_state option \<Rightarrow> int \<Rightarrow> 'v cleanup_state \<Rightarrow> proposal list" where
  "list_proposals ctx state limit st =
     filter (readable_proposal (cc_principal ctx))
       (queue_list state (clamp 1 200 limit) (p_read (cc_principal ctx)) (cs_db st) (cs_queue st))"

definition get_proposal :: "('v, 'd) cleanup_ctx \<Rightarrow> str \<Rightarrow> 'v cleanup_state \<Rightarrow> proposal option" where
  "get_proposal ctx i st =
     (case queue_get (p_read (cc_principal ctx)) (cc_uuid ctx i) (cs_db st) (cs_queue st) of
        None \<Rightarrow> None
      | Some p \<Rightarrow> if readable_proposal (cc_principal ctx) p then Some p else None)"

section \<open>Queueing\<close>

fun insert_members ::
    "('v, 'd) cleanup_ctx \<Rightarrow> ('v, 's) mem_db \<Rightarrow> queue_member list \<Rightarrow> new_member list \<Rightarrow> queue_member list res" where
  "insert_members ctx db out [] = Inr out"
| "insert_members ctx db out (m # ms) =
     (case cc_uuid ctx (nb_memory_id m) of
        None \<Rightarrow> Inl (validation (R_Service (SF_Cleanup (L_NotUuid (nb_memory_id m)))))
      | Some i \<Rightarrow>
          if \<not> survives db i then Inl database_error
          else insert_members ctx db
            (if i \<in> set (map qm_memory out) then out
             else out @ [\<lparr>qm_memory = i, qm_disposition = nb_disposition m, qm_seen = nb_seen_content m\<rparr>]) ms)"

definition queue_cluster ::
    "('v, 'd) cleanup_ctx \<Rightarrow> instant \<Rightarrow> nat \<Rightarrow> new_proposal \<Rightarrow> ('v, 's) mem_db \<Rightarrow> queue_row list \<Rightarrow>
     ((queue_outcome \<times> nat) \<times> queue_row list) res" where
  "queue_cluster ctx now fresh p db q =
     (let key = cluster_key (cc_sha256 ctx) (np_kind p) (map nb_memory_id (np_members p));
          keep = Option.bind (np_keep_id p) (cc_uuid ctx)
      in case List.find (\<lambda>x. qr_key x = key) q of
           Some x \<Rightarrow> Inr ((AlreadyKnown, qr_id x), q)
         | None \<Rightarrow>
             if find_proposal fresh q \<noteq> None \<or> (case keep of None \<Rightarrow> False | Some k \<Rightarrow> \<not> survives db k)
             then Inl database_error
             else and_then (insert_members ctx db [] (np_members p)) (\<lambda>ms.
               Inr ((Queued, fresh),
                    q @ [\<lparr>qr_id = fresh, qr_kind = np_kind p, qr_namespace = np_namespace p, qr_keep_id = keep,
                          qr_produced_by = np_produced_by p, qr_posted_by = np_posted_by p,
                          qr_similarity = np_similarity p, qr_state = Proposed, qr_reason = None,
                          qr_decided_at = None, qr_created_at = now, qr_key = key, qr_members = ms\<rparr>])))"

text \<open>\<open>valid_times\<close>: the answers are kept under the ids' printed form, so another spelling finds nothing.\<close>

definition valid_time :: "('v, 'd) cleanup_ctx \<Rightarrow> ('v, 's) mem_db \<Rightarrow> str \<Rightarrow> instant option" where
  "valid_time ctx db raw =
     (case cc_uuid ctx raw of
        None \<Rightarrow> None
      | Some i \<Rightarrow> if cc_show ctx i = raw then Option.bind (find_row db i) mr_occurred_at else None)"

text \<open>\<open>max_by_key\<close>: the last of the greatest.\<close>

fun latest_dated :: "(instant \<times> str) list \<Rightarrow> (instant \<times> str) option" where
  "latest_dated [] = None"
| "latest_dated (x # xs) =
     (case latest_dated xs of None \<Rightarrow> Some x | Some y \<Rightarrow> if fst y < fst x then Some x else Some y)"

definition dated_members :: "('v, 'd) cleanup_ctx \<Rightarrow> ('v, 's) mem_db \<Rightarrow> new_proposal \<Rightarrow> (instant \<times> str) list" where
  "dated_members ctx db p =
     filter_map (\<lambda>m. map_option (\<lambda>t. (t, nb_memory_id m)) (valid_time ctx db (nb_memory_id m))) (np_members p)"

definition with_survivor :: "str \<Rightarrow> new_proposal \<Rightarrow> new_proposal" where
  "with_survivor k p = p
     \<lparr>np_keep_id := Some k,
      np_members := map (\<lambda>m. m\<lparr>nb_disposition := if nb_memory_id m = k then D_Keep else D_Retire\<rparr>) (np_members p)\<rparr>"

definition keep_time :: "('v, 'd) cleanup_ctx \<Rightarrow> ('v, 's) mem_db \<Rightarrow> new_proposal \<Rightarrow> instant option" where
  "keep_time ctx db p =
     Option.bind (np_keep_id p)
       (\<lambda>k. if k \<in> set (map nb_memory_id (np_members p)) then valid_time ctx db k else None)"

definition reconciled :: "('v, 'd) cleanup_ctx \<Rightarrow> ('v, 's) mem_db \<Rightarrow> new_proposal \<Rightarrow> new_proposal" where
  "reconciled ctx db p =
     (if \<not> has_keep (np_kind p) \<or> length (np_members p) < 2 then p
      else case latest_dated (dated_members ctx db p) of
        None \<Rightarrow> p
      | Some (latest_at, latest_id) \<Rightarrow>
          (case keep_time ctx db p of
             None \<Rightarrow> p
           | Some k \<Rightarrow> if k < latest_at \<and> np_keep_id p \<noteq> Some latest_id then with_survivor latest_id p else p))"

definition queue_checked ::
    "('v, 'd) cleanup_ctx \<Rightarrow> instant \<Rightarrow> nat \<Rightarrow> new_proposal \<Rightarrow> ('v, 's) mem_db \<Rightarrow> queue_row list \<Rightarrow>
     ((queue_outcome \<times> nat) \<times> queue_row list) res" where
  "queue_checked ctx now fresh p db q = queue_cluster ctx now fresh (reconciled ctx db p) db q"

text \<open>The members a client posts, in order, with the ids seen so far.\<close>

fun posted_members ::
    "('v, 'd) cleanup_ctx \<Rightarrow> ('v, 's) mem_db \<Rightarrow> str \<Rightarrow> nat list \<Rightarrow> new_member list \<Rightarrow> unit res" where
  "posted_members ctx db ns seen [] = Inr ()"
| "posted_members ctx db ns seen (m # ms) =
     (case cc_uuid ctx (trim (nb_memory_id m)) of
        None \<Rightarrow> Inl (validation (R_Service (SF_Cleanup (L_NotUuid (nb_memory_id m)))))
      | Some i \<Rightarrow>
          if i \<in> set seen then Inl (validation (R_Service (SF_Cleanup (L_NamedTwice i))))
          else
            (case find_by_id db i of
               None \<Rightarrow> Inl (not_found (R_Service (SF_Cleanup (L_NotYours (nb_memory_id m)))))
             | Some r \<Rightarrow>
                 if \<not> can_read (cc_principal ctx) (m_namespace r) (m_sensitivity r)
                 then Inl (not_found (R_Service (SF_Cleanup (L_NotYours (nb_memory_id m)))))
                 else if m_namespace r \<noteq> ns
                 then Inl (validation (R_Service (SF_Cleanup (L_OtherNamespace i (m_namespace r) ns))))
                 else if m_content r = [] \<or> m_content r \<noteq> nb_seen_content m
                 then Inl (conflict (R_Service (SF_Cleanup (L_TextDiffers i))))
                 else posted_members ctx db ns (i # seen) ms))"

definition posted_survivor :: "new_proposal \<Rightarrow> unit res" where
  "posted_survivor p =
     (let keeps = filter (\<lambda>m. nb_disposition m = D_Keep) (np_members p)
      in if has_keep (np_kind p)
         then (case np_keep_id p of
                 None \<Rightarrow> Inl (validation (R_Service (SF_Cleanup (L_NoKeepId (kind_as_str (np_kind p))))))
               | Some k \<Rightarrow>
                   (case keeps of
                      [m] \<Rightarrow> if trim (nb_memory_id m) \<noteq> trim k
                             then Inl (validation (R_Service (SF_Cleanup L_OneKeep))) else Inr ()
                    | _ \<Rightarrow> Inl (validation (R_Service (SF_Cleanup L_OneKeep)))))
         else if keeps \<noteq> [] \<and> deletes (np_kind p)
         then Inl (validation (R_Service (SF_Cleanup (L_KeepsNothing (kind_as_str (np_kind p))))))
         else Inr ())"

definition queue_posted ::
    "('v, 'd) cleanup_ctx \<Rightarrow> instant \<Rightarrow> nat \<Rightarrow> new_proposal \<Rightarrow> ('v, 's) mem_db \<Rightarrow> queue_row list \<Rightarrow>
     ((queue_outcome \<times> nat) \<times> queue_row list) res" where
  "queue_posted ctx now fresh p db q =
     (if np_members p = [] then Inl (validation (R_Service (SF_Cleanup L_NoMembers)))
      else if has_keep (np_kind p) \<and> length (np_members p) < 2
      then Inl (validation (R_Service (SF_Cleanup (L_TwoMembers (kind_as_str (np_kind p))))))
      else and_then (normalize (np_namespace p)) (\<lambda>ns.
        and_then (posted_members ctx db ns [] (np_members p)) (\<lambda>_.
        and_then
          (if deletes (np_kind p) \<and> \<not> p_may_delete (cc_principal ctx)
           then Inl (forbidden (R_Service (SF_Cleanup
                  (L_MayNotPropose (p_client (cc_principal ctx)) (kind_as_str (np_kind p))))))
           else Inr ()) (\<lambda>_.
        and_then (posted_survivor p) (\<lambda>_.
        queue_checked ctx now fresh
          (p\<lparr>np_namespace := ns, np_posted_by := Some (p_client (cc_principal ctx))\<rparr>) db q)))))"

section \<open>Deciding\<close>

definition undecided :: "nat option \<Rightarrow> queue_row \<Rightarrow> bool" where
  "undecided i p \<longleftrightarrow> Some (qr_id p) = i \<and> qr_state p = Proposed"

definition decide_proposal ::
    "instant \<Rightarrow> nat option \<Rightarrow> queue_state \<Rightarrow> str option \<Rightarrow> queue_row list \<Rightarrow> bool \<times> queue_row list" where
  "decide_proposal now i state reason q =
     (list_ex (undecided i) q,
      update_where (undecided i)
        (\<lambda>p. p\<lparr>qr_state := state, qr_reason := reason, qr_decided_at := Some now\<rparr>) q)"

definition refused :: "nat option \<Rightarrow> queue_row \<Rightarrow> bool" where
  "refused i p \<longleftrightarrow> Some (qr_id p) = i \<and> qr_state p = Rejected"

definition unreject_row :: "nat option \<Rightarrow> queue_row list \<Rightarrow> bool \<times> queue_row list" where
  "unreject_row i q =
     (list_ex (refused i) q, update_where (refused i) (\<lambda>p. p\<lparr>qr_state := Proposed, qr_reason := None\<rparr>) q)"

definition answered_by_store :: "('v, 's) mem_db \<Rightarrow> queue_row \<Rightarrow> bool" where
  "answered_by_store db p \<longleftrightarrow>
     qr_state p = Proposed \<and>
     list_ex (\<lambda>m. case find_row db (qm_memory m) of
                    None \<Rightarrow> True
                  | Some r \<Rightarrow> mr_superseded_by r \<noteq> None \<or> mr_content r \<noteq> Some (qm_seen m)) (qr_members p)"

definition close_answered :: "instant \<Rightarrow> ('v, 's) mem_db \<Rightarrow> queue_row list \<Rightarrow> nat list \<times> queue_row list" where
  "close_answered now db q =
     (map qr_id (filter (answered_by_store db) q),
      update_where (answered_by_store db)
        (\<lambda>p. p\<lparr>qr_state := Obsolete, qr_reason := Some (u ''the store answered this on its own''),
               qr_decided_at := Some now\<rparr>) q)"

section \<open>Applying\<close>

record applied =
  ap_id :: nat
  ap_kind :: cleanup_kind
  ap_retired :: "nat list"
  ap_deleted :: "nat list"
  ap_kept :: "nat option"

definition no_proposal :: "str \<Rightarrow> domain_error" where
  "no_proposal i = not_found (R_Service (SF_Cleanup (L_NoProposal i)))"

definition member_check :: "proposal_member \<Rightarrow> unit res" where
  "member_check m =
     (case pm_current_content m of
        None \<Rightarrow> Inl (conflict (R_Service (SF_Cleanup (L_MemberMissing (pm_memory_id m)))))
      | Some c \<Rightarrow>
          if c \<noteq> pm_seen_content m then Inl (conflict (R_Service (SF_Cleanup (L_MemberChanged (pm_memory_id m)))))
          else if pm_superseded_by m \<noteq> None
          then Inl (conflict (R_Service (SF_Cleanup (L_MemberRetired (pm_memory_id m)))))
          else Inr ())"

fun members_check :: "proposal_member list \<Rightarrow> unit res" where
  "members_check [] = Inr ()"
| "members_check (m # ms) = and_then (member_check m) (\<lambda>_. members_check ms)"

definition open_proposal :: "('v, 'd) cleanup_ctx \<Rightarrow> str \<Rightarrow> 'v cleanup_state \<Rightarrow> proposal res" where
  "open_proposal ctx i st =
     (case get_proposal ctx i st of
        None \<Rightarrow> Inl (no_proposal i)
      | Some p \<Rightarrow>
          if pp_state p \<noteq> Proposed
          then Inl (conflict (R_Service (SF_Cleanup (L_NotProposed (state_as_str (pp_state p))))))
          else Inr p)"

definition keeps_its_own :: "proposal \<Rightarrow> bool" where
  "keeps_its_own p \<longleftrightarrow>
     list_ex (\<lambda>m. pm_disposition m = D_Keep \<and> Some (pm_memory_id m) = pp_keep_id p) (pp_members p)"

definition apply_checks :: "('v, 'd) cleanup_ctx \<Rightarrow> str \<Rightarrow> 'v cleanup_state \<Rightarrow> proposal res" where
  "apply_checks ctx i st =
     and_then (open_proposal ctx i st) (\<lambda>p.
       if \<not> has_keep (pp_kind p) \<and> \<not> deletes (pp_kind p)
       then Inl (validation (R_Service (SF_Cleanup (L_NothingToApply (kind_as_str (pp_kind p))))))
       else and_then (members_check (pp_members p)) (\<lambda>_.
         if has_keep (pp_kind p) \<and> \<not> keeps_its_own p
         then Inl (conflict (R_Service (SF_Cleanup (L_ForeignSurvivor (pp_id p)))))
         else Inr p))"

text \<open>One row superseded into the survivor, or deleted. What is written stays written when a later row fails.\<close>

definition retire_member ::
    "('v, 'd) cleanup_ctx \<Rightarrow> instant \<Rightarrow> nat \<Rightarrow> nat \<Rightarrow> 'v cleanup_state \<Rightarrow> unit res \<times> 'v cleanup_state" where
  "retire_member ctx now keep i st =
     (case review_supersede (cc_write ctx) now (cc_show ctx i) (cc_show ctx keep) (cs_db st) of
        Inl e \<Rightarrow> (Inl e, st)
      | Inr (_, db) \<Rightarrow> (Inr (), st\<lparr>cs_store := (cs_store st)\<lparr>fs_db := db\<rparr>\<rparr>))"

definition delete_member ::
    "('v, 'd) cleanup_ctx \<Rightarrow> nat \<Rightarrow> 'v cleanup_state \<Rightarrow> unit res \<times> 'v cleanup_state" where
  "delete_member ctx i st =
     (case review_delete (deleting ctx) (cc_show ctx i) (cs_store st) of
        (Inl e, fs) \<Rightarrow> (Inl e, \<lparr>cs_store = fs, cs_queue = cascade (fs_db fs) (cs_queue st)\<rparr>)
      | (Inr _, fs) \<Rightarrow> (Inr (), \<lparr>cs_store = fs, cs_queue = cascade (fs_db fs) (cs_queue st)\<rparr>))"

fun each_member ::
    "(nat \<Rightarrow> 'v cleanup_state \<Rightarrow> unit res \<times> 'v cleanup_state) \<Rightarrow> nat list \<Rightarrow> 'v cleanup_state \<Rightarrow>
     unit res \<times> 'v cleanup_state" where
  "each_member f [] st = (Inr (), st)"
| "each_member f (i # rest) st =
     (case f i st of (Inl e, st') \<Rightarrow> (Inl e, st') | (Inr _, st') \<Rightarrow> each_member f rest st')"

definition mark_applied ::
    "('v, 'd) cleanup_ctx \<Rightarrow> instant \<Rightarrow> applied \<Rightarrow> 'v cleanup_state \<Rightarrow> applied res \<times> 'v cleanup_state" where
  "mark_applied ctx now a st =
     (case decide_proposal now (cc_uuid ctx (cc_show ctx (ap_id a))) Applied None (cs_queue st) of
        (hit, q) \<Rightarrow>
          (if hit then Inr a else Inl (conflict (R_Service (SF_Cleanup (L_NotMarked (ap_id a))))),
           st\<lparr>cs_queue := q\<rparr>))"

definition apply_proposal ::
    "('v, 'd) cleanup_ctx \<Rightarrow> instant \<Rightarrow> str \<Rightarrow> 'v cleanup_state \<Rightarrow> applied res \<times> 'v cleanup_state" where
  "apply_proposal ctx now i st =
     (case apply_checks ctx i st of
        Inl e \<Rightarrow> (Inl e, st)
      | Inr p \<Rightarrow>
          (let gone = map pm_memory_id (filter (\<lambda>m. pm_disposition m = D_Retire) (pp_members p));
               step = (if deletes (pp_kind p) then delete_member ctx
                       else case pp_keep_id p of
                         None \<Rightarrow> (\<lambda>_ st. (Inl (internal (R_Service (SF_Cleanup L_NoSurvivor))), st))
                       | Some k \<Rightarrow> retire_member ctx now k)
           in case each_member step gone st of
                (Inl e, st') \<Rightarrow> (Inl e, st')
              | (Inr _, st') \<Rightarrow>
                  mark_applied ctx now
                    \<lparr>ap_id = pp_id p, ap_kind = pp_kind p,
                     ap_retired = (if deletes (pp_kind p) then [] else gone),
                     ap_deleted = (if deletes (pp_kind p) then gone else []), ap_kept = pp_keep_id p\<rparr> st'))"

definition resolve_checks :: "('v, 'd) cleanup_ctx \<Rightarrow> str \<Rightarrow> str \<Rightarrow> 'v cleanup_state \<Rightarrow> (proposal \<times> nat) res" where
  "resolve_checks ctx i keep_id st =
     and_then (open_proposal ctx i st) (\<lambda>p.
       if has_keep (pp_kind p)
       then Inl (validation (R_Service (SF_Cleanup (L_HasSurvivor (kind_as_str (pp_kind p))))))
       else case List.find (\<lambda>m. cc_show ctx (pm_memory_id m) = keep_id) (pp_members p) of
         None \<Rightarrow> Inl (validation (R_Service (SF_Cleanup (L_NotMember keep_id))))
       | Some k \<Rightarrow> and_then (members_check (pp_members p)) (\<lambda>_. Inr (p, pm_memory_id k)))"

definition resolve_proposal ::
    "('v, 'd) cleanup_ctx \<Rightarrow> instant \<Rightarrow> str \<Rightarrow> str \<Rightarrow> 'v cleanup_state \<Rightarrow> applied res \<times> 'v cleanup_state" where
  "resolve_proposal ctx now i keep_id st =
     (case resolve_checks ctx i keep_id st of
        Inl e \<Rightarrow> (Inl e, st)
      | Inr (p, k) \<Rightarrow>
          (let gone = filter (\<lambda>j. cc_show ctx j \<noteq> keep_id) (map pm_memory_id (pp_members p))
           in case each_member (retire_member ctx now k) gone st of
                (Inl e, st') \<Rightarrow> (Inl e, st')
              | (Inr _, st') \<Rightarrow>
                  mark_applied ctx now
                    \<lparr>ap_id = pp_id p, ap_kind = pp_kind p, ap_retired = gone, ap_deleted = [],
                     ap_kept = Some k\<rparr> st'))"

definition reject_proposal ::
    "('v, 'd) cleanup_ctx \<Rightarrow> instant \<Rightarrow> str \<Rightarrow> str option \<Rightarrow> 'v cleanup_state \<Rightarrow> unit res \<times> 'v cleanup_state" where
  "reject_proposal ctx now i reason st =
     (case get_proposal ctx i st of
        None \<Rightarrow> (Inl (no_proposal i), st)
      | Some _ \<Rightarrow>
          (case decide_proposal now (cc_uuid ctx i) Rejected reason (cs_queue st) of
             (hit, q) \<Rightarrow>
               (if hit then Inr () else Inl (conflict (R_Service (SF_Cleanup (L_AlreadyDecided i)))),
                st\<lparr>cs_queue := q\<rparr>)))"

definition unreject_proposal ::
    "('v, 'd) cleanup_ctx \<Rightarrow> str \<Rightarrow> 'v cleanup_state \<Rightarrow> unit res \<times> 'v cleanup_state" where
  "unreject_proposal ctx i st =
     (case get_proposal ctx i st of
        None \<Rightarrow> (Inl (no_proposal i), st)
      | Some p \<Rightarrow>
          (case unreject_row (cc_uuid ctx i) (cs_queue st) of
             (hit, q) \<Rightarrow>
               (if hit then Inr ()
                else Inl (conflict (R_Service (SF_Cleanup (L_NotRejected i (state_as_str (pp_state p)))))),
                st\<lparr>cs_queue := q\<rparr>)))"


section \<open>What tidying may change\<close>

lemma supersede_links:
  assumes "supersede now old new db = Inr (left_open, db')" and d: "distinct (map mr_id (md_rows db))"
  shows "\<And>j r. find_row db j = Some r \<Longrightarrow> \<exists>s. find_row db' j = Some s \<and> same_fact r s \<and>
      mr_superseded_by s = (if j = old then Some new else mr_superseded_by r)"
    and "row_ids (md_rows db') = row_ids (md_rows db)"
proof -
  have both: "(\<forall>j r. find_row db j = Some r \<longrightarrow> (\<exists>s. find_row db' j = Some s \<and> same_fact r s \<and>
      mr_superseded_by s = (if j = old then Some new else mr_superseded_by r))) \<and>
      row_ids (md_rows db') = row_ids (md_rows db)"
    using assms
  proof (cases rule: supersede_Inr)
    case (linked p)
    then show ?thesis by (auto simp: same_fact_def)
  next
    case (retired p s until)
    let ?f = "\<lambda>r. if mr_id r = old \<and> retirable now r then retired_row now new until r else r"
    let ?g = "\<lambda>r :: ('a, 'b) mem_row. if mr_id r = new \<and> mr_supersedes r = None then r\<lparr>mr_supersedes := Some old\<rparr> else r"
    have f: "find_row db' j = map_option (?g \<circ> ?f) (find_row db j)" for j
      unfolding retired(10) link_successor_def
      by (simp add: find_row_update option.map_comp o_def)
    have n: "row_ids (md_rows db') = row_ids (md_rows db)"
    proof (intro set_eqI)
      fix i show "i \<in> row_ids (md_rows db') \<longleftrightarrow> i \<in> row_ids (md_rows db)"
        using f[of i] find_row_None[of db' i] find_row_None[of db i] by auto
    qed
    have "\<exists>s. find_row db' j = Some s \<and> same_fact r s \<and>
        mr_superseded_by s = (if j = old then Some new else mr_superseded_by r)" if r: "find_row db j = Some r" for j r
    proof -
      have j: "mr_id r = j" using find_row_Some[OF r] by simp
      have "j = old \<Longrightarrow> retirable now r" using retired(1,4) r by simp
      then show ?thesis using j retired(3) by (auto simp: f r same_fact_def retired_row_def)
    qed
    with n show ?thesis by blast
  qed
  show "\<exists>s. find_row db' j = Some s \<and> same_fact r s \<and>
      mr_superseded_by s = (if j = old then Some new else mr_superseded_by r)" if "find_row db j = Some r" for j r
    using both that by blast
  show "row_ids (md_rows db') = row_ids (md_rows db)" using both by blast
qed

text \<open>What an owner's tidying may do: a row goes only with the delete capability and both grants on it,
  a row is retired or revived only with both grants on it, and what stays keeps its facts.\<close>

definition tidied :: "principal \<Rightarrow> ('v, 's) mem_db \<Rightarrow> ('v, 's) mem_db \<Rightarrow> bool" where
  "tidied p db db' \<longleftrightarrow>
     allowed_change p db db' \<and>
     (\<forall>r \<in> set (md_rows db).
        case find_row db' (mr_id r) of
          None \<Rightarrow> p_may_delete p
        | Some s \<Rightarrow> mr_superseded_by r = None \<longrightarrow> mr_superseded_by s = None \<or> owns p r)"

lemma tidied_refl: "distinct (map mr_id (md_rows db)) \<Longrightarrow> tidied p db db"
  by (auto simp: tidied_def allowed_refl find_row_unique)

lemma tidied_trans:
  assumes "tidied p a b" "tidied p b c"
  shows "tidied p a c"
  unfolding tidied_def
proof (intro conjI ballI)
  show "allowed_change p a c" using assms allowed_trans by (auto simp: tidied_def)
  fix r assume r: "r \<in> set (md_rows a)"
  show "case find_row c (mr_id r) of None \<Rightarrow> p_may_delete p
    | Some s \<Rightarrow> mr_superseded_by r = None \<longrightarrow> mr_superseded_by s = None \<or> owns p r"
  proof (cases "find_row b (mr_id r)")
    case None
    then have "find_row c (mr_id r) = None"
      using assms(2) unfolding tidied_def allowed_change_def find_row_None by blast
    then show ?thesis using assms(1) r None by (auto simp: tidied_def)
  next
    case (Some s)
    note s = find_row_Some[OF Some]
    have rs: "same_fact r s" using assms(1) r Some by (auto simp: tidied_def allowed_change_def)
    have ow: "owns p s \<longleftrightarrow> owns p r" using rs by (simp add: owns_def same_fact_def)
    have "case find_row c (mr_id s) of None \<Rightarrow> p_may_delete p
      | Some t \<Rightarrow> mr_superseded_by s = None \<longrightarrow> mr_superseded_by t = None \<or> owns p s"
      using assms(2)[unfolded tidied_def] s by blast
    then have "case find_row c (mr_id r) of None \<Rightarrow> p_may_delete p
      | Some t \<Rightarrow> mr_superseded_by s = None \<longrightarrow> mr_superseded_by t = None \<or> owns p r"
      using s ow by (auto split: option.splits)
    moreover have "mr_superseded_by r = None \<longrightarrow> mr_superseded_by s = None \<or> owns p r"
      using assms(1) r Some by (auto simp: tidied_def)
    ultimately show ?thesis by (auto split: option.splits)
  qed
qed

lemma supersede_tidied:
  assumes s: "supersede now old new db = Inr (left_open, db')" and d: "distinct (map mr_id (md_rows db))"
    and o: "find_row db old = Some a" "owns p a"
  shows "tidied p db db'"
proof -
  have "\<exists>s. find_row db' (mr_id r) = Some s \<and> same_fact r s \<and>
      mr_superseded_by s = (if mr_id r = old then Some new else mr_superseded_by r)" if "r \<in> set (md_rows db)" for r
    using supersede_links(1)[OF s d find_row_unique[OF d that]] .
  moreover have "owns p r" if "r \<in> set (md_rows db)" "mr_id r = old" for r
    using find_row_unique[OF d that(1)] that(2) o by simp
  ultimately show ?thesis
    unfolding tidied_def allowed_change_def using supersede_links(2)[OF s d]
    by (force split: if_splits)
qed

lemma chain_edit_live: "mr_superseded_by r = None \<Longrightarrow> mr_superseded_by (chain_edit i plan own r) = None"
  by (simp add: chain_edit_def relinked_row_def)

lemma delete_tidied:
  assumes h: "history_ok (fs_db st)"
  shows "tidied (fc_principal ctx) (fs_db st) (fs_db (snd (review_delete ctx raw st)))"
proof -
  let ?st' = "snd (forget_by_id ctx raw False st)"
  have d: "distinct (map mr_id (md_rows (fs_db st)))" using h by (simp add: history_ok_def)
  have a: "allowed_change (fc_principal ctx) (fs_db st) (fs_db ?st')"
    "fs_db ?st' = fs_db st \<or> p_may_delete (fc_principal ctx)"
    using by_id_safe[OF h, of ctx False raw] by (auto simp: forget_safe_def)
  have "mr_superseded_by s = None"
    if r: "r \<in> set (md_rows (fs_db st))" "mr_superseded_by r = None" "find_row (fs_db ?st') (mr_id r) = Some s" for r s
  proof (cases "fs_db ?st' = fs_db st")
    case True
    then show ?thesis using r find_row_unique[OF d r(1)] by simp
  next
    case False
    then obtain n dp out where dm: "delete_memory n dp (fs_db st) = Inr (out, fs_db ?st')"
      by (auto simp: forget_by_id_def by_id_delete_def Let_def delete_row_def recorded_def
          split: if_splits option.splits sum.splits prod.splits delete_outcome.splits)
    from dm show ?thesis
    proof (cases rule: delete_memory_Inr)
      case missing
      then show ?thesis using r find_row_unique[OF d r(1)] by simp
    next
      case (deleted doomed e)
      note rows = deleted_rows[OF d deleted(3)]
      show ?thesis
        using rows(2) rows(3)[OF r(1)] r chain_edit_live[OF r(2)] by (cases "mr_id r = n") auto
    qed
  qed
  then show ?thesis
    using a find_row_unique[OF d] unfolding tidied_def review_delete_def by (fastforce split: option.splits)
qed

definition tidy :: "principal \<Rightarrow> ('v, sealed_content) mem_db \<Rightarrow> 'v cleanup_state \<Rightarrow> bool" where
  "tidy p db st \<longleftrightarrow> history_ok (cs_db st) \<and> tidied p db (cs_db st)"

lemma tidy_start: "history_ok (cs_db st) \<Longrightarrow> tidy p (cs_db st) st"
  by (simp add: tidy_def tidied_refl history_ok_def)

lemma retire_member_tidy:
  assumes "tidy (cc_principal ctx) db st"
  shows "tidy (cc_principal ctx) db (snd (retire_member ctx now keep i st))"
proof (cases "review_supersede (cc_write ctx) now (cc_show ctx i) (cc_show ctx keep) (cs_db st)")
  case (Inr x)
  have h: "history_ok (cs_db st)" and t: "tidied (cc_principal ctx) db (cs_db st)" using assms by (auto simp: tidy_def)
  have d: "distinct (map mr_id (md_rows (cs_db st)))" using h by (simp add: history_ok_def)
  obtain n q lo db' where e: "x = ((n, q, lo), db')" by (cases x) auto
  from review_supersede_Inr[OF Inr[unfolded e]] obtain a b where
    s: "find_row (cs_db st) q = Some a" "owns (cc_principal ctx) a" "find_row (cs_db st) n = Some b" "row_live now b"
      "supersede now q n (cs_db st) = Inr (lo, db')" by blast
  have "history_ok db'" using history_supersede[OF h live_walk_complete[OF s(3,4)], of now q] s(5) by simp
  then show ?thesis
    using tidied_trans[OF t supersede_tidied[OF s(5) d s(1,2)]] by (simp add: tidy_def retire_member_def Inr e)
qed (use assms in \<open>simp add: retire_member_def\<close>)

lemma delete_member_tidy:
  assumes "tidy (cc_principal ctx) db st"
  shows "tidy (cc_principal ctx) db (snd (delete_member ctx i st))"
proof -
  have h: "history_ok (cs_db st)" and t: "tidied (cc_principal ctx) db (cs_db st)" using assms by (auto simp: tidy_def)
  let ?fs = "snd (review_delete (deleting ctx) (cc_show ctx i) (cs_store st))"
  have p: "fc_principal (deleting ctx) = cc_principal ctx" by (simp add: deleting_def)
  have "history_ok (fs_db ?fs)"
    using by_id_safe[OF h, of "deleting ctx" False] by (simp add: forget_safe_def review_delete_def)
  moreover have "tidied (cc_principal ctx) (cs_db st) (fs_db ?fs)" using delete_tidied[OF h, of "deleting ctx"] p by simp
  ultimately have "history_ok (fs_db ?fs)" "tidied (cc_principal ctx) db (fs_db ?fs)" using tidied_trans[OF t] by auto
  then show ?thesis
    by (cases "review_delete (deleting ctx) (cc_show ctx i) (cs_store st)")
      (auto simp: tidy_def delete_member_def split: sum.splits)
qed

lemma each_member_keeps:
  assumes "\<And>i st. I st \<Longrightarrow> I (snd (f i st))" and "I st"
  shows "I (snd (each_member f is st))"
  using assms(2)
proof (induction "is" arbitrary: st)
  case (Cons i rest)
  have "I (snd (f i st))" by (rule assms(1)[OF Cons.prems])
  then show ?case using Cons.IH by (auto split: prod.split sum.split)
qed simp

lemma mark_applied_store [simp]: "cs_store (snd (mark_applied ctx now a st)) = cs_store st"
  by (simp add: mark_applied_def split: prod.split)

lemma mark_applied_tidy [simp]: "tidy p db (snd (mark_applied ctx now a st)) = tidy p db st"
  by (simp add: tidy_def)

lemma apply_tidy:
  assumes "tidy (cc_principal ctx) db st"
  shows "tidy (cc_principal ctx) db (snd (apply_proposal ctx now i st))"
proof (cases "apply_checks ctx i st")
  case (Inr p)
  define step where "step = (if deletes (pp_kind p) then delete_member ctx
      else case pp_keep_id p of None \<Rightarrow> (\<lambda>_ st. (Inl (internal (R_Service (SF_Cleanup L_NoSurvivor))), st))
        | Some k \<Rightarrow> retire_member ctx now k)"
  define gone where "gone = map pm_memory_id (filter (\<lambda>m. pm_disposition m = D_Retire) (pp_members p))"
  have "tidy (cc_principal ctx) db (snd (each_member step gone st))"
    using assms unfolding step_def
    by (intro each_member_keeps[where I = "tidy (cc_principal ctx) db"])
      (auto split: option.splits intro: delete_member_tidy retire_member_tidy)
  moreover obtain r st' where e: "each_member step gone st = (r, st')" by fastforce
  ultimately have "tidy (cc_principal ctx) db st'" by simp
  then show ?thesis
    using e by (cases r) (simp_all add: apply_proposal_def Inr Let_def step_def[symmetric] gone_def[symmetric])
qed (use assms in \<open>simp add: apply_proposal_def\<close>)

lemma resolve_tidy:
  assumes "tidy (cc_principal ctx) db st"
  shows "tidy (cc_principal ctx) db (snd (resolve_proposal ctx now i keep st))"
proof (cases "resolve_checks ctx i keep st")
  case (Inr x)
  obtain p k where x: "x = (p, k)" by (cases x)
  define gone where "gone = filter (\<lambda>j. cc_show ctx j \<noteq> keep) (map pm_memory_id (pp_members p))"
  have "tidy (cc_principal ctx) db (snd (each_member (retire_member ctx now k) gone st))"
    using assms by (intro each_member_keeps[where I = "tidy (cc_principal ctx) db"]) (auto intro: retire_member_tidy)
  moreover obtain r st' where e: "each_member (retire_member ctx now k) gone st = (r, st')" by fastforce
  ultimately have "tidy (cc_principal ctx) db st'" by simp
  then show ?thesis
    using e by (cases r) (simp_all add: resolve_proposal_def Inr x Let_def gone_def[symmetric])
qed (use assms in \<open>simp add: resolve_proposal_def\<close>)

text \<open>
  Property C19. Acting on a finding stays within the owner's grants. Whether it succeeds, is refused or fails
  half way, the memories keep their history sound; a row goes only for a caller with the delete
  capability and both grants on it; a row is retired, or a retired row comes back, only for a caller
  with both grants on it; every row that stays keeps its text, level, tags and dates; none appears.
\<close>

theorem cleanup_within_grants:
  assumes "history_ok (cs_db st)"
    and "st' = snd (apply_proposal ctx now i st) \<or> st' = snd (resolve_proposal ctx now i keep st)"
  shows "history_ok (cs_db st') \<and>
    (\<forall>r \<in> set (md_rows (cs_db st)).
       case find_row (cs_db st') (mr_id r) of
         None \<Rightarrow> owns (cc_principal ctx) r \<and> p_may_delete (cc_principal ctx)
       | Some s \<Rightarrow> same_fact r s \<and>
           ((mr_superseded_by r = None) \<noteq> (mr_superseded_by s = None) \<longrightarrow> owns (cc_principal ctx) r)) \<and>
    row_ids (md_rows (cs_db st')) \<subseteq> row_ids (md_rows (cs_db st))"
proof -
  have "tidy (cc_principal ctx) (cs_db st) st'"
    using assms(2) apply_tidy[OF tidy_start[OF assms(1)]] resolve_tidy[OF tidy_start[OF assms(1)]] by blast
  then show ?thesis unfolding tidy_def tidied_def allowed_change_def by (fastforce split: option.splits)
qed


section \<open>What applying settles\<close>

text \<open>What the id parser and printer promise: printing an id and reading it back gives the id.\<close>

definition uuid_texts :: "('v, 'd) cleanup_ctx \<Rightarrow> bool" where
  "uuid_texts ctx \<longleftrightarrow> (\<forall>i. cc_uuid ctx (cc_show ctx i) = Some i \<and> trim (cc_show ctx i) = cc_show ctx i)"

definition link_of :: "('v, 's) mem_db \<Rightarrow> nat \<Rightarrow> nat option option" where
  "link_of db i = map_option mr_superseded_by (find_row db i)"

lemma retire_member_Inr:
  assumes u: "uuid_texts ctx" and d: "distinct (map mr_id (md_rows (cs_db st)))"
    and e: "retire_member ctx now keep i st = (Inr (), st')"
  shows "link_of (cs_db st') i = Some (Some keep)"
    and "\<And>j. j \<noteq> i \<Longrightarrow> link_of (cs_db st') j =
      link_of (cs_db st) j"
    and "link_of (cs_db st) i = Some None"
    and "cs_queue st' = cs_queue st" and "distinct (map mr_id (md_rows (cs_db st')))"
proof -
  obtain x where x: "review_supersede (cc_write ctx) now (cc_show ctx i) (cc_show ctx keep) (cs_db st) = Inr x"
    using e by (auto simp: retire_member_def split: sum.splits)
  obtain n q lo db' where "x = ((n, q, lo), db')" by (cases x) auto
  with x have r: "review_supersede (cc_write ctx) now (cc_show ctx i) (cc_show ctx keep) (cs_db st) = Inr ((n, q, lo), db')"
    by simp
  have st': "st' = st\<lparr>cs_store := (cs_store st)\<lparr>fs_db := db'\<rparr>\<rparr>"
    using e by (simp add: retire_member_def r)
  have nq: "q = i" "n = keep" and live: "link_of (cs_db st) i = Some None"
    using r u by (auto simp: review_supersede_def and_then_Inr validate_supersedes_target_def writable_row_Inr
        uuid_texts_def find_by_id_def memory_from_row_def link_of_def split: option.splits if_splits)
  from review_supersede_Inr[OF r] nq have s: "supersede now i keep (cs_db st) = Inr (lo, db')" by auto
  note l = supersede_links[OF s d]
  have db': "cs_db st' = db'" by (simp add: st')
  obtain p where p: "find_row (cs_db st) i = Some p" using live by (auto simp: link_of_def)
  show "link_of (cs_db st') i = Some (Some keep)" using l(1)[OF p] by (auto simp: link_of_def db')
  show "link_of (cs_db st') j = link_of (cs_db st) j"
    if "j \<noteq> i" for j
  proof (cases "find_row (cs_db st) j")
    case None
    then show ?thesis using l(2) find_row_None[of db' j] find_row_None[of "cs_db st" j] by (simp add: db' link_of_def)
  next
    case (Some r)
    then show ?thesis using l(1)[OF Some] that by (auto simp: db' link_of_def)
  qed
  show "link_of (cs_db st) i = Some None" by (rule live)
  show "cs_queue st' = cs_queue st" by (simp add: st')
  have "map mr_id (md_rows db') = map mr_id (md_rows (cs_db st))" using s d
    by (cases rule: supersede_Inr) (simp_all add: link_successor_def map_update_same)
  then show "distinct (map mr_id (md_rows (cs_db st')))" using d by (simp add: db')
qed

lemma each_retired:
  assumes u: "uuid_texts ctx" and d: "distinct (map mr_id (md_rows (cs_db st)))"
    and e: "each_member (retire_member ctx now keep) gone st = (Inr (), st')"
  shows "(\<forall>i \<in> set gone. link_of (cs_db st') i = Some (Some keep)) \<and> cs_queue st' = cs_queue st \<and>
    (\<forall>j. j \<notin> set gone \<longrightarrow> link_of (cs_db st') j =
       link_of (cs_db st) j) \<and>
    (\<forall>i \<in> set gone. link_of (cs_db st) i = Some None)"
  using d e
proof (induction gone arbitrary: st)
  case (Cons i rest)
  obtain st1 where s1: "retire_member ctx now keep i st = (Inr (), st1)"
    and s2: "each_member (retire_member ctx now keep) rest st1 = (Inr (), st')"
    using Cons.prems(2) by (auto split: prod.splits sum.splits)
  note r = retire_member_Inr[OF u Cons.prems(1) s1]
  note IH = Cons.IH[OF r(5) s2]
  have "i \<notin> set rest" using IH r(1) by auto
  then show ?case using IH r(1-4) by auto (metis r(2))+
qed simp

lemma apply_checks_Inr:
  assumes "apply_checks ctx i st = Inr p"
  shows "get_proposal ctx i st = Some p" "pp_state p = Proposed" "has_keep (pp_kind p) \<or> deletes (pp_kind p)"
    "members_check (pp_members p) = Inr ()" "has_keep (pp_kind p) \<longrightarrow> keeps_its_own p"
  using assms by (auto simp: apply_checks_def open_proposal_def and_then_Inr split: option.splits if_splits)

lemma get_proposal_Some:
  assumes "get_proposal ctx i st = Some p"
  obtains q n where "cc_uuid ctx i = Some n" "find_proposal n (cs_queue st) = Some q" "p = proposal_from (cs_db st) q"
    "proposal_visible (split_grants (p_read (cc_principal ctx))) (cs_db st) q"
  using assms by (auto simp: get_proposal_def queue_get_def bind_eq_Some_conv split: option.splits if_splits)

lemma keep_not_delete: "has_keep k \<Longrightarrow> \<not> deletes k"
  by (cases k) auto

lemma pp_members_from [simp]: "pp_members (proposal_from db q) = members_of db q"
  and pp_id_from [simp]: "pp_id (proposal_from db q) = qr_id q"
  and pp_keep_from [simp]: "pp_keep_id (proposal_from db q) = qr_keep_id q"
  and pp_kind_from [simp]: "pp_kind (proposal_from db q) = qr_kind q"
  and pp_state_from [simp]: "pp_state (proposal_from db q) = qr_state q"
  and pp_namespace_from [simp]: "pp_namespace (proposal_from db q) = qr_namespace q"
  by (simp_all add: proposal_from_def)

lemma set_members_of: "set (members_of db q) = member_from db ` set (qr_members q)"
  by (simp add: members_of_def)

lemma member_from_simps [simp]:
  "pm_memory_id (member_from db m) = qm_memory m"
  "pm_disposition (member_from db m) = qm_disposition m"
  "pm_seen_content (member_from db m) = qm_seen m"
  "pm_current_content (member_from db m) = Option.bind (find_row db (qm_memory m)) mr_content"
  "pm_superseded_by (member_from db m) = Option.bind (find_row db (qm_memory m)) mr_superseded_by"
  "pm_namespace (member_from db m) = map_option mr_namespace (find_row db (qm_memory m))"
  "pm_sensitivity (member_from db m) = map_option mr_sensitivity (find_row db (qm_memory m))"
  by (simp_all add: member_from_def Let_def)

lemma find_proposal_Some: "find_proposal n q = Some p \<Longrightarrow> p \<in> set q \<and> qr_id p = n"
  unfolding find_proposal_def by (rule find_Some_set)

text \<open>The whole of a successful apply of a finding that names a survivor.\<close>

lemma apply_settled:
  assumes u: "uuid_texts ctx" and d: "distinct (map mr_id (md_rows (cs_db st)))"
    and e: "apply_proposal ctx now i st = (Inr a, st')" and k: "has_keep (ap_kind a)"
  shows "\<exists>p keep. cc_uuid ctx i = Some (qr_id p) \<and> find_proposal (qr_id p) (cs_queue st) = Some p \<and>
      qr_state p = Proposed \<and> qr_keep_id p = Some keep \<and>
      (\<forall>m \<in> set (qr_members p). qm_disposition m = D_Retire \<longrightarrow> link_of (cs_db st') (qm_memory m) = Some (Some keep)) \<and>
      (\<forall>j. j \<notin> {qm_memory m | m. m \<in> set (qr_members p) \<and> qm_disposition m = D_Retire} \<longrightarrow>
         link_of (cs_db st') j = link_of (cs_db st) j) \<and>
      cs_queue st' = update_where (undecided (Some (qr_id p)))
        (\<lambda>p. p\<lparr>qr_state := Applied, qr_reason := None, qr_decided_at := Some now\<rparr>) (cs_queue st)"
proof -
  obtain p where c: "apply_checks ctx i st = Inr p"
    using e by (cases "apply_checks ctx i st") (auto simp: apply_proposal_def)
  note c' = apply_checks_Inr[OF c]
  obtain q n where q: "cc_uuid ctx i = Some n" "find_proposal n (cs_queue st) = Some q" "p = proposal_from (cs_db st) q"
    using c'(1) by (rule get_proposal_Some)
  have n: "qr_id q = n" using find_proposal_Some[OF q(2)] by simp
  have ak: "ap_kind a = qr_kind q"
    using e q(3) by (auto simp: apply_proposal_def c mark_applied_def Let_def split: prod.splits sum.splits if_splits)
  then have hk: "has_keep (qr_kind q)" "\<not> deletes (qr_kind q)" using k keep_not_delete by auto
  obtain keep where keep: "qr_keep_id q = Some keep"
    using c'(5) hk(1) q(3) by (cases "qr_keep_id q") (auto simp: keeps_its_own_def list_ex_iff)
  define gone where "gone = map pm_memory_id (filter (\<lambda>m. pm_disposition m = D_Retire) (members_of (cs_db st) q))"
  obtain st1 where s1: "each_member (retire_member ctx now keep) gone st = (Inr (), st1)"
    and s2: "mark_applied ctx now \<lparr>ap_id = n, ap_kind = qr_kind q, ap_retired = gone, ap_deleted = [], ap_kept = Some keep\<rparr> st1
      = (Inr a, st')"
    using e by (auto simp: apply_proposal_def c Let_def q(3) hk keep gone_def[symmetric] n split: prod.splits sum.splits)
  note r = each_retired[OF u d s1]
  have db: "cs_db st' = cs_db st1"
    using mark_applied_store[of ctx now "\<lparr>ap_id = n, ap_kind = qr_kind q, ap_retired = gone, ap_deleted = [], ap_kept = Some keep\<rparr>" st1]
    by (simp add: s2)
  have qu: "cs_queue st' = update_where (undecided (Some n))
        (\<lambda>p. p\<lparr>qr_state := Applied, qr_reason := None, qr_decided_at := Some now\<rparr>) (cs_queue st)"
    using s2 r u by (auto simp: mark_applied_def decide_proposal_def uuid_texts_def)
  have g: "set gone = {qm_memory m | m. m \<in> set (qr_members q) \<and> qm_disposition m = D_Retire}"
    unfolding gone_def by (force simp: set_members_of)
  show ?thesis
    using q(1,2) c'(2) keep r qu n unfolding g[symmetric] db
    by (intro exI[of _ q] exI[of _ keep]) (auto simp: q(3) g)
qed

text \<open>
  Property C20. Applying a finding that names a survivor does all of it: the finding was waiting, every row it
  retires ends superseded by the survivor, no other row's link moves, and the finding, and no
  other, is marked applied.
\<close>

theorem applied_is_settled:
  assumes "uuid_texts ctx" and "distinct (map mr_id (md_rows (cs_db st)))"
    and "apply_proposal ctx now i st = (Inr a, st')" and "has_keep (ap_kind a)"
  shows "\<exists>p keep. cc_uuid ctx i = Some (qr_id p) \<and> find_proposal (qr_id p) (cs_queue st) = Some p \<and>
      qr_state p = Proposed \<and> qr_keep_id p = Some keep \<and>
      (\<forall>m \<in> set (qr_members p). qm_disposition m = D_Retire \<longrightarrow> link_of (cs_db st') (qm_memory m) = Some (Some keep)) \<and>
      (\<forall>j. j \<notin> {qm_memory m | m. m \<in> set (qr_members p) \<and> qm_disposition m = D_Retire} \<longrightarrow>
         link_of (cs_db st') j = link_of (cs_db st) j) \<and>
      cs_queue st' = update_where (undecided (Some (qr_id p)))
        (\<lambda>p. p\<lparr>qr_state := Applied, qr_reason := None, qr_decided_at := Some now\<rparr>) (cs_queue st)"
  by (rule apply_settled[OF assms])


section \<open>The life of a finding\<close>

text \<open>
  What the queue promises: a finding enters waiting, under an id never used and a key not in the
  table; only a waiting one is settled; only a rejected one returns; and rows fall away with the
  memories they name.
\<close>

inductive queue_step :: "nat set \<times> queue_row list \<Rightarrow> nat set \<times> queue_row list \<Rightarrow> bool" where
  enters: "qr_id x \<notin> used \<Longrightarrow> qr_key x \<notin> qr_key ` set q \<Longrightarrow> qr_state x = Proposed \<Longrightarrow>
     queue_step (used, q) (insert (qr_id x) used, q @ [x])"
| settles: "s \<noteq> Proposed \<Longrightarrow> \<forall>p. chosen p \<longrightarrow> qr_state p = Proposed \<Longrightarrow>
     queue_step (used, q)
       (used, update_where chosen (\<lambda>p. p\<lparr>qr_state := s, qr_reason := reason, qr_decided_at := Some now\<rparr>) q)"
| returns: "\<forall>p. chosen p \<longrightarrow> qr_state p = Rejected \<Longrightarrow>
     queue_step (used, q) (used, update_where chosen (\<lambda>p. p\<lparr>qr_state := Proposed, qr_reason := None\<rparr>) q)"
| loses: "queue_step (used, q) (used, keep_rows alive q)"

abbreviation queue_steps :: "nat set \<times> queue_row list \<Rightarrow> nat set \<times> queue_row list \<Rightarrow> bool" where
  "queue_steps \<equiv> queue_step\<^sup>*\<^sup>*"

definition queue_ok :: "nat set \<Rightarrow> queue_row list \<Rightarrow> bool" where
  "queue_ok used q \<longleftrightarrow> distinct (map qr_id q) \<and> distinct (map qr_key q) \<and> qr_id ` set q \<subseteq> used"

lemma map_chosen:
  assumes "\<And>p. g (f p) = g p"
  shows "map g (update_where chosen f q) = map g q"
  using assms by (simp add: map_update_same)

lemma set_chosen: "x \<in> set (update_where chosen f q) \<Longrightarrow> \<exists>p \<in> set q. x = (if chosen p then f p else p)"
  by (auto simp: update_where_def)

lemma queue_step_ok: "queue_step s s' \<Longrightarrow> queue_ok (fst s) (snd s) \<Longrightarrow> queue_ok (fst s') (snd s')"
proof (induction rule: queue_step.induct)
  case (settles s chosen used q now reason)
  let ?q = "update_where chosen (\<lambda>p. p\<lparr>qr_state := s, qr_reason := reason, qr_decided_at := Some now\<rparr>) q"
  have "map qr_id ?q = map qr_id q" "map qr_key ?q = map qr_key q" by (simp_all add: map_chosen)
  then show ?case using settles.prems by (simp add: queue_ok_def) (metis list.set_map)
next
  case (returns chosen used q)
  let ?q = "update_where chosen (\<lambda>p. p\<lparr>qr_state := Proposed, qr_reason := None\<rparr>) q"
  have "map qr_id ?q = map qr_id q" "map qr_key ?q = map qr_key q" by (simp_all add: map_chosen)
  then show ?case using returns.prems by (simp add: queue_ok_def) (metis list.set_map)
next
  case (loses used q alive)
  let ?f = "filter (\<lambda>p. case qr_keep_id p of None \<Rightarrow> True | Some k \<Rightarrow> alive k) q"
  have m: "map qr_id (keep_rows alive q) = map qr_id ?f" "map qr_key (keep_rows alive q) = map qr_key ?f"
    by (simp_all add: keep_rows_def)
  have "qr_id ` set (keep_rows alive q) \<subseteq> qr_id ` set q" by (auto simp: keep_rows_def)
  then show ?case using loses by (auto simp: queue_ok_def m distinct_map_filter)
qed (auto simp: queue_ok_def)

text \<open>A settled finding stays as it was settled, for as long as its row is there.\<close>

definition settled :: "queue_row \<Rightarrow> bool" where
  "settled p \<longleftrightarrow> qr_state p = Applied \<or> qr_state p = Obsolete"

definition same_finding :: "queue_row \<Rightarrow> queue_row \<Rightarrow> bool" where
  "same_finding p p' \<longleftrightarrow>
     qr_id p' = qr_id p \<and> qr_key p' = qr_key p \<and> qr_kind p' = qr_kind p \<and> qr_namespace p' = qr_namespace p \<and>
     qr_keep_id p' = qr_keep_id p \<and> qr_posted_by p' = qr_posted_by p \<and> set (qr_members p') \<subseteq> set (qr_members p)"

definition continues :: "queue_row \<Rightarrow> queue_row \<Rightarrow> bool" where
  "continues p p' \<longleftrightarrow>
     same_finding p p' \<and>
     (settled p \<longrightarrow> qr_state p' = qr_state p \<and> qr_reason p' = qr_reason p \<and> qr_decided_at p' = qr_decided_at p)"

lemma continues_trans: "continues p q \<Longrightarrow> continues q r \<Longrightarrow> continues p r"
  by (auto simp: continues_def same_finding_def settled_def)

lemma queue_step_continues:
  "queue_step s s' \<Longrightarrow> queue_ok (fst s) (snd s) \<Longrightarrow> p' \<in> set (snd s') \<Longrightarrow> qr_id p' \<in> fst s \<Longrightarrow>
     \<exists>p \<in> set (snd s). continues p p'"
proof (induction rule: queue_step.induct)
  case (enters x used q)
  then show ?case by (auto simp: continues_def same_finding_def)
next
  case (settles s chosen used q now reason)
  then obtain p where p: "p \<in> set q"
    "p' = (if chosen p then p\<lparr>qr_state := s, qr_reason := reason, qr_decided_at := Some now\<rparr> else p)"
    using set_chosen by (metis (no_types, lifting) snd_conv)
  then show ?case using settles(1,2) by (intro bexI[of _ p]) (auto simp: continues_def same_finding_def settled_def)
next
  case (returns chosen used q)
  then obtain p where p: "p \<in> set q" "p' = (if chosen p then p\<lparr>qr_state := Proposed, qr_reason := None\<rparr> else p)"
    using set_chosen by (metis (no_types, lifting) snd_conv)
  then show ?case using returns(1) by (intro bexI[of _ p]) (auto simp: continues_def same_finding_def settled_def)
next
  case (loses used q alive)
  then show ?case by (auto simp: keep_rows_def continues_def same_finding_def)
qed

lemma queue_step_used: "queue_step s s' \<Longrightarrow> fst s \<subseteq> fst s'"
  by (induction rule: queue_step.induct) auto

lemma queue_steps_continue:
  assumes "queue_steps s s'" and "queue_ok (fst s) (snd s)"
  shows "queue_ok (fst s') (snd s') \<and> fst s \<subseteq> fst s' \<and>
    (\<forall>p' \<in> set (snd s'). qr_id p' \<in> fst s \<longrightarrow> (\<exists>p \<in> set (snd s). continues p p'))"
  using assms(1)
proof (induction rule: rtranclp_induct)
  case base
  then show ?case using assms(2) by (auto simp: continues_def same_finding_def intro!: bexI)
next
  case (step t t')
  have ok: "queue_ok (fst t) (snd t)" using step.IH by blast
  have "\<exists>p \<in> set (snd s). continues p p'" if p': "p' \<in> set (snd t')" "qr_id p' \<in> fst s" for p'
  proof -
    have "qr_id p' \<in> fst t" using p'(2) step.IH by blast
    then obtain p where p: "p \<in> set (snd t)" "continues p p'"
      using queue_step_continues[OF step.hyps(2) ok p'(1)] by blast
    then have "qr_id p \<in> fst s" using p'(2) by (simp add: continues_def same_finding_def)
    then show ?thesis using p step.IH continues_trans by blast
  qed
  then show ?case using queue_step_ok[OF step.hyps(2) ok] queue_step_used[OF step.hyps(2)] step.IH by auto
qed

section \<open>The code takes these steps\<close>

lemma find_key_None: "List.find (\<lambda>x. qr_key x = k) q = None \<longleftrightarrow> k \<notin> qr_key ` set q"
  by (auto simp: find_None_iff)

lemma queue_cluster_Inr:
  assumes "queue_cluster ctx now fresh p db q = Inr (out, q')"
  obtains (known) x where "x \<in> set q" "qr_key x = cluster_key (cc_sha256 ctx) (np_kind p) (map nb_memory_id (np_members p))"
      "out = (AlreadyKnown, qr_id x)" "q' = q"
    | (fresh) ms where "cluster_key (cc_sha256 ctx) (np_kind p) (map nb_memory_id (np_members p)) \<notin> qr_key ` set q"
      "insert_members ctx db [] (np_members p) = Inr ms" "out = (Queued, fresh)"
      "q' = q @ [\<lparr>qr_id = fresh, qr_kind = np_kind p, qr_namespace = np_namespace p,
          qr_keep_id = Option.bind (np_keep_id p) (cc_uuid ctx),
          qr_produced_by = np_produced_by p, qr_posted_by = np_posted_by p,
          qr_similarity = np_similarity p, qr_state = Proposed, qr_reason = None,
          qr_decided_at = None, qr_created_at = now,
          qr_key = cluster_key (cc_sha256 ctx) (np_kind p) (map nb_memory_id (np_members p)), qr_members = ms\<rparr>]"
proof (cases "List.find (\<lambda>x. qr_key x = cluster_key (cc_sha256 ctx) (np_kind p) (map nb_memory_id (np_members p))) q")
  case None
  obtain ms where "insert_members ctx db [] (np_members p) = Inr ms" "out = (Queued, fresh)"
    "q' = q @ [\<lparr>qr_id = fresh, qr_kind = np_kind p, qr_namespace = np_namespace p,
          qr_keep_id = Option.bind (np_keep_id p) (cc_uuid ctx),
          qr_produced_by = np_produced_by p, qr_posted_by = np_posted_by p,
          qr_similarity = np_similarity p, qr_state = Proposed, qr_reason = None,
          qr_decided_at = None, qr_created_at = now,
          qr_key = cluster_key (cc_sha256 ctx) (np_kind p) (map nb_memory_id (np_members p)), qr_members = ms\<rparr>]"
    using assms by (auto simp: queue_cluster_def Let_def None and_then_Inr split: if_splits)
  with None show thesis by (intro fresh[of ms]) (simp_all only: find_key_None not_False_eq_True)
next
  case (Some x)
  then show thesis
    using assms find_Some_set[OF Some] by (intro known[of x]) (auto simp: queue_cluster_def Let_def)
qed

lemma queue_posted_checked:
  assumes "queue_posted ctx now fresh p db q = Inr (out, q')"
  shows "\<exists>p. queue_cluster ctx now fresh p db q = Inr (out, q')"
  using assms by (auto simp: queue_posted_def queue_checked_def and_then_Inr split: if_splits)

lemma decide_steps: "s \<noteq> Proposed \<Longrightarrow> queue_steps (used, q) (used, snd (decide_proposal now i s reason q))"
  unfolding decide_proposal_def snd_conv
  by (intro r_into_rtranclp settles) (auto simp: undecided_def)

lemma cascade_steps: "queue_steps (used, q) (used, cascade db q)"
  unfolding cascade_def by (intro r_into_rtranclp loses)

lemma each_member_steps:
  assumes "\<And>i st. queue_steps (used, cs_queue st) (used, cs_queue (snd (f i st)))"
  shows "queue_steps (used, cs_queue st) (used, cs_queue (snd (each_member f is st)))"
  by (rule each_member_keeps[where I = "\<lambda>x. queue_steps (used, cs_queue st) (used, cs_queue x)"])
    (auto intro: rtranclp_trans assms)

lemma retire_member_queue [simp]: "cs_queue (snd (retire_member ctx now k i st)) = cs_queue st"
  by (auto simp: retire_member_def split: sum.split)

lemma delete_member_queue: "queue_steps (used, cs_queue st) (used, cs_queue (snd (delete_member ctx i st)))"
  by (auto simp: delete_member_def cascade_steps split: prod.split sum.split)

lemma mark_applied_steps: "queue_steps (used, cs_queue st) (used, cs_queue (snd (mark_applied ctx now a st)))"
  using decide_steps[of Applied used "cs_queue st" now "cc_uuid ctx (cc_show ctx (ap_id a))" None]
  by (simp add: mark_applied_def split_beta)

lemma then_marked:
  "queue_steps (used, q) (used, cs_queue st) \<Longrightarrow> queue_steps (used, q) (used, cs_queue (snd (mark_applied ctx now a st)))"
  by (rule rtranclp_trans[OF _ mark_applied_steps])

lemma apply_steps: "queue_steps (used, cs_queue st) (used, cs_queue (snd (apply_proposal ctx now i st)))"
proof (cases "apply_checks ctx i st")
  case (Inr p)
  define step where "step = (if deletes (pp_kind p) then delete_member ctx
      else case pp_keep_id p of None \<Rightarrow> (\<lambda>_ st. (Inl (internal (R_Service (SF_Cleanup L_NoSurvivor))), st))
        | Some k \<Rightarrow> retire_member ctx now k)"
  define gone where "gone = map pm_memory_id (filter (\<lambda>m. pm_disposition m = D_Retire) (pp_members p))"
  have "queue_steps (used, cs_queue st) (used, cs_queue (snd (each_member step gone st)))"
    unfolding step_def by (intro each_member_steps) (auto split: option.splits intro: delete_member_queue)
  moreover obtain r st' where e: "each_member step gone st = (r, st')" by fastforce
  ultimately have "queue_steps (used, cs_queue st) (used, cs_queue st')" by simp
  then show ?thesis
    using e by (cases r)
      (auto simp: apply_proposal_def Inr Let_def step_def[symmetric] gone_def[symmetric] intro: then_marked)
qed (simp add: apply_proposal_def)

lemma resolve_steps: "queue_steps (used, cs_queue st) (used, cs_queue (snd (resolve_proposal ctx now i keep st)))"
proof (cases "resolve_checks ctx i keep st")
  case (Inr x)
  obtain p k where x: "x = (p, k)" by (cases x)
  define gone where "gone = filter (\<lambda>j. cc_show ctx j \<noteq> keep) (map pm_memory_id (pp_members p))"
  have "queue_steps (used, cs_queue st) (used, cs_queue (snd (each_member (retire_member ctx now k) gone st)))"
    by (intro each_member_steps) simp
  moreover obtain r st' where e: "each_member (retire_member ctx now k) gone st = (r, st')" by fastforce
  ultimately have "queue_steps (used, cs_queue st) (used, cs_queue st')" by simp
  then show ?thesis
    using e by (cases r) (auto simp: resolve_proposal_def Inr x Let_def gone_def[symmetric] intro: then_marked)
qed (simp add: resolve_proposal_def)

text \<open>One request after another, each with its caller, its time and the id a new finding would take.\<close>

datatype cleanup_action =
    CPost new_proposal
  | CApply str
  | CResolve str str
  | CReject str "str option"
  | CUnreject str
  | CClose
  | CForget str

fun cleanup_do ::
    "('v, 'd) cleanup_ctx \<Rightarrow> instant \<Rightarrow> nat \<Rightarrow> cleanup_action \<Rightarrow> 'v cleanup_state \<Rightarrow> 'v cleanup_state" where
  "cleanup_do ctx now fresh (CPost p) st =
     (case queue_posted ctx now fresh p (cs_db st) (cs_queue st) of Inl _ \<Rightarrow> st | Inr (_, q) \<Rightarrow> st\<lparr>cs_queue := q\<rparr>)"
| "cleanup_do ctx now fresh (CApply i) st = snd (apply_proposal ctx now i st)"
| "cleanup_do ctx now fresh (CResolve i k) st = snd (resolve_proposal ctx now i k st)"
| "cleanup_do ctx now fresh (CReject i r) st = snd (reject_proposal ctx now i r st)"
| "cleanup_do ctx now fresh (CUnreject i) st = snd (unreject_proposal ctx i st)"
| "cleanup_do ctx now fresh CClose st = st\<lparr>cs_queue := snd (close_answered now (cs_db st) (cs_queue st))\<rparr>"
| "cleanup_do ctx now fresh (CForget i) st =
     (let fs = snd (forget_by_id (deleting ctx) i False (cs_store st))
      in \<lparr>cs_store = fs, cs_queue = cascade (fs_db fs) (cs_queue st)\<rparr>)"

lemma cleanup_do_steps:
  assumes "fresh \<notin> used"
  shows "\<exists>used'. used \<subseteq> used' \<and> used' \<subseteq> insert fresh used \<and>
    queue_steps (used, cs_queue st) (used', cs_queue (cleanup_do ctx now fresh act st))"
proof -
  have same: "queue_steps (used, cs_queue st) (used, cs_queue (cleanup_do ctx now fresh act st))"
    if "\<And>p. act \<noteq> CPost p"
  proof (cases act)
    case (CReject i r)
    then show ?thesis
      using decide_steps[of Rejected used "cs_queue st" now "cc_uuid ctx i" r]
      by (simp add: CReject reject_proposal_def split_beta split: option.split)
  next
    case (CUnreject i)
    have "queue_steps (used, cs_queue st) (used, snd (unreject_row (cc_uuid ctx i) (cs_queue st)))"
      unfolding unreject_row_def snd_conv by (intro r_into_rtranclp returns) (auto simp: refused_def)
    then show ?thesis by (simp add: CUnreject unreject_proposal_def split_beta split: option.split)
  next
    case CClose
    have "queue_steps (used, cs_queue st) (used, snd (close_answered now (cs_db st) (cs_queue st)))"
      unfolding close_answered_def snd_conv by (intro r_into_rtranclp settles) (auto simp: answered_by_store_def)
    then show ?thesis by (simp add: CClose)
  qed (use that apply_steps resolve_steps in \<open>auto simp: Let_def cascade_steps\<close>)
  show ?thesis
  proof (cases "\<exists>p. act = CPost p")
    case False
    then show ?thesis using same by blast
  next
    case True
    then obtain p where p: "act = CPost p" by blast
    show ?thesis
    proof (cases "queue_posted ctx now fresh p (cs_db st) (cs_queue st)")
      case (Inr x)
      obtain out q' where x: "x = (out, q')" by (cases x)
      obtain p' where c: "queue_cluster ctx now fresh p' (cs_db st) (cs_queue st) = Inr (out, q')"
        using queue_posted_checked[OF Inr[unfolded x]] by blast
      from c show ?thesis
      proof (cases rule: queue_cluster_Inr)
        case (known y)
        then show ?thesis by (auto simp: p Inr x)
      next
        case (fresh ms)
        have "queue_step (used, cs_queue st) (insert fresh used, q')" if "fresh = qr_id (last q')" "q' = cs_queue st @ [last q']"
            "qr_key (last q') \<notin> qr_key ` set (cs_queue st)" "qr_state (last q') = Proposed"
          using queue_step.enters[of "last q'" used "cs_queue st"] that assms by metis
        then show ?thesis using fresh by (intro exI[of _ "insert fresh used"]) (auto simp: p Inr x)
      qed
    qed (auto simp: p)
  qed
qed


fun cleanup_run ::
    "(('v, 'd) cleanup_ctx \<times> instant \<times> nat \<times> cleanup_action) list \<Rightarrow> 'v cleanup_state \<Rightarrow> 'v cleanup_state" where
  "cleanup_run [] st = st"
| "cleanup_run ((ctx, now, fresh, act) # rest) st = cleanup_run rest (cleanup_do ctx now fresh act st)"

definition run_ids :: "(('v, 'd) cleanup_ctx \<times> instant \<times> nat \<times> cleanup_action) list \<Rightarrow> nat list" where
  "run_ids script = map (\<lambda>(ctx, now, fresh, act). fresh) script"

lemma run_ids_simps [simp]: "run_ids [] = []" "run_ids ((ctx, now, fresh, act) # script) = fresh # run_ids script"
  by (simp_all add: run_ids_def)

lemma cleanup_run_steps:
  "distinct (run_ids script) \<Longrightarrow> used \<inter> set (run_ids script) = {} \<Longrightarrow>
     \<exists>used'. queue_steps (used, cs_queue st) (used', cs_queue (cleanup_run script st))"
proof (induction script arbitrary: used st)
  case (Cons x script)
  obtain ctx now fresh act where x: "x = (ctx, now, fresh, act)" by (cases x)
  have "fresh \<notin> used" using Cons.prems by (simp add: x)
  from cleanup_do_steps[OF this, of st ctx now act] obtain used1 where u: "used1 \<subseteq> insert fresh used"
    "queue_steps (used, cs_queue st) (used1, cs_queue (cleanup_do ctx now fresh act st))" by (elim exE conjE)
  have "distinct (run_ids script)" "used1 \<inter> set (run_ids script) = {}"
    using Cons.prems u(1) by (auto simp: x)
  from Cons.IH[OF this] obtain used' where
    "queue_steps (used1, cs_queue (cleanup_do ctx now fresh act st)) (used', cs_queue (cleanup_run (x # script) st))"
    by (auto simp: x)
  then show ?case using u(2) by (blast intro: rtranclp_trans)
qed auto


section \<open>What the queue shows\<close>

lemma proposal_visible_readable:
  "proposal_visible (split_grants (p_read p)) db q \<longleftrightarrow> readable_proposal p (proposal_from db q)"
proof -
  have m: "list_ex (\<lambda>g. if gr_exact g then ns = gr_prefix g else take (length (gr_prefix g)) ns = gr_prefix g)
      (split_grants gs) \<longleftrightarrow> admits gs ns Open" for gs ns
    unfolding split_grants_def list_ex_iff admits_iff
    by (simp add: split_grant_matches)
  have "list_all P (members_of db q) = list_all (P \<circ> member_from db) (qr_members q)" for P
    by (auto simp: list_all_iff set_members_of)
  then show ?thesis
    by (auto simp: proposal_visible_def readable_proposal_def m can_read_def granted_row_admits list_all_iff
        split: option.splits)
qed

lemma listed_readable:
  assumes "p \<in> set (list_proposals ctx state limit st) \<or> get_proposal ctx i st = Some p"
  shows "readable_proposal (cc_principal ctx) p"
  using assms by (auto simp: list_proposals_def get_proposal_def split: option.splits if_splits)

text \<open>
  A finding is shown only to a caller who may read its namespace and every row it names, each at
  the level it is stored at; the check repeated after the query drops nothing the query answered.
\<close>

theorem queue_shows_readable:
  "list_proposals ctx state limit st =
     queue_list state (clamp 1 200 limit) (p_read (cc_principal ctx)) (cs_db st) (cs_queue st) \<and>
   (\<forall>p \<in> set (list_proposals ctx state limit st).
      can_read (cc_principal ctx) (pp_namespace p) Open \<and>
      (\<forall>m \<in> set (pp_members p). \<forall>r. find_row (cs_db st) (pm_memory_id m) = Some r \<longrightarrow>
         can_read (cc_principal ctx) (mr_namespace r) (mr_sensitivity r)))"
proof -
  let ?q = "queue_list state (clamp 1 200 limit) (p_read (cc_principal ctx)) (cs_db st) (cs_queue st)"
  have src: "\<exists>q. p = proposal_from (cs_db st) q \<and> proposal_visible (split_grants (p_read (cc_principal ctx))) (cs_db st) q"
    if "p \<in> set ?q" for p
    using that by (auto simp: queue_list_def dest!: in_set_takeD)
  have all: "readable_proposal (cc_principal ctx) p" if "p \<in> set ?q" for p
    using src[OF that] proposal_visible_readable by auto
  then have l: "list_proposals ctx state limit st = ?q" unfolding list_proposals_def by (simp add: filter_id_conv)
  have "can_read (cc_principal ctx) (pp_namespace p) Open \<and>
      (\<forall>m \<in> set (pp_members p). \<forall>r. find_row (cs_db st) (pm_memory_id m) = Some r \<longrightarrow>
         can_read (cc_principal ctx) (mr_namespace r) (mr_sensitivity r))" if "p \<in> set ?q" for p
    using all[OF that] src[OF that] by (auto simp: readable_proposal_def list_all_iff set_members_of split: option.splits)
  with l show ?thesis by simp
qed

section \<open>The survivor of a queued finding\<close>

lemma latest_dated_greatest:
  "latest_dated xs = Some y \<Longrightarrow> y \<in> set xs \<and> (\<forall>x \<in> set xs. fst x \<le> fst y)"
proof (induction xs arbitrary: y)
  case (Cons x xs)
  show ?case
  proof (cases "latest_dated xs")
    case None
    then have "xs = []" by (cases xs) (auto split: option.splits if_splits)
    then show ?thesis using Cons.prems by simp
  next
    case (Some z)
    then show ?thesis using Cons.IH[OF Some] Cons.prems by (auto split: if_splits)
  qed
qed simp

lemma latest_dated_None: "latest_dated xs = None \<longleftrightarrow> xs = []"
  by (cases xs) (auto split: option.splits if_splits)

lemma mem_dated_members:
  "(t, i) \<in> set (dated_members ctx db p) \<longleftrightarrow>
     (\<exists>m \<in> set (np_members p). nb_memory_id m = i \<and> valid_time ctx db i = Some t)"
  by (auto simp: dated_members_def set_filter_map)

lemma with_survivor_simps [simp]:
  "map nb_memory_id (np_members (with_survivor k p)) = map nb_memory_id (np_members p)"
  "np_kind (with_survivor k p) = np_kind p"
  "np_keep_id (with_survivor k p) = Some k"
  by (simp_all add: with_survivor_def)

lemma reconciled_survivor:
  assumes "has_keep (np_kind p)" "2 \<le> length (np_members p)"
    and k: "np_keep_id (reconciled ctx db p) = Some k" "valid_time ctx db k = Some t" "k \<in> set (map nb_memory_id (np_members p))"
    and m: "i \<in> set (map nb_memory_id (np_members p))" "valid_time ctx db i = Some s"
  shows "s \<le> t"
proof -
  have "(s, i) \<in> set (dated_members ctx db p)" using m by (auto simp: mem_dated_members)
  then obtain at_time latest where l: "latest_dated (dated_members ctx db p) = Some (at_time, latest)"
    using latest_dated_None[of "dated_members ctx db p"] by (cases "latest_dated (dated_members ctx db p)") auto
  note g = latest_dated_greatest[OF l]
  have s: "s \<le> at_time" using g \<open>(s, i) \<in> _\<close> by auto
  have lv: "valid_time ctx db latest = Some at_time" using g by (auto simp: mem_dated_members)
  show ?thesis
  proof (cases "np_keep_id (reconciled ctx db p) = Some latest")
    case True
    then show ?thesis using k(1,2) lv s by simp
  next
    case False
    have "reconciled ctx db p = p \<and> (\<forall>x. keep_time ctx db p = Some x \<longrightarrow> \<not> x < at_time)"
      using False assms(1,2) l by (auto simp: reconciled_def split: option.splits if_splits)
    then have "np_keep_id p = Some k" "keep_time ctx db p = Some t" using k by (auto simp: keep_time_def)
    then show ?thesis using s \<open>reconciled ctx db p = p \<and> _\<close> by auto
  qed
qed


text \<open>What is stored of a finding is what \<open>reconciled\<close> decided.\<close>

lemma insert_members_stored:
  assumes "insert_members ctx db out ms = Inr qs" and "\<forall>m \<in> set ms. \<exists>i. nb_memory_id m = cc_show ctx i" and "uuid_texts ctx"
  shows "(\<forall>x \<in> set qs. x \<in> set out \<or> (\<exists>m \<in> set ms. nb_memory_id m = cc_show ctx (qm_memory x) \<and>
      nb_disposition m = qm_disposition x)) \<and>
    (\<forall>m \<in> set ms. \<exists>x \<in> set qs. nb_memory_id m = cc_show ctx (qm_memory x)) \<and> set out \<subseteq> set qs"
  using assms(1,2)
proof (induction ms arbitrary: out)
  case (Cons m ms)
  obtain i where i: "nb_memory_id m = cc_show ctx i" "cc_uuid ctx (nb_memory_id m) = Some i"
    using Cons.prems(2) assms(3) by (auto simp: uuid_texts_def)
  let ?out = "if i \<in> set (map qm_memory out) then out
      else out @ [\<lparr>qm_memory = i, qm_disposition = nb_disposition m, qm_seen = nb_seen_content m\<rparr>]"
  have "insert_members ctx db ?out ms = Inr qs"
    using Cons.prems(1) i(2) by (simp split: if_splits)
  note IH = Cons.IH[OF this]
  have later: "\<forall>m \<in> set ms. \<exists>i. nb_memory_id m = cc_show ctx i" using Cons.prems(2) by simp
  note IH = IH[OF later]
  have "i \<in> set (map qm_memory ?out)" by simp
  then obtain x where "i = qm_memory x" "x \<in> set ?out" unfolding set_map by (rule imageE)
  then have "x \<in> set qs" "nb_memory_id m = cc_show ctx (qm_memory x)" using IH i(1) by auto
  then have here: "\<exists>x \<in> set qs. nb_memory_id m = cc_show ctx (qm_memory x)" by blast
  have "set out \<subseteq> set qs" using IH by (auto split: if_splits)
  moreover have "x \<in> set out \<or> (\<exists>m' \<in> set (m # ms). nb_memory_id m' = cc_show ctx (qm_memory x) \<and>
      nb_disposition m' = qm_disposition x)" if "x \<in> set qs" for x
  proof -
    have "x \<in> set ?out \<or> (\<exists>m' \<in> set ms. nb_memory_id m' = cc_show ctx (qm_memory x) \<and> nb_disposition m' = qm_disposition x)"
      using IH that by blast
    moreover have "x \<in> set ?out \<Longrightarrow> x \<in> set out \<or> nb_memory_id m = cc_show ctx (qm_memory x) \<and> nb_disposition m = qm_disposition x"
      using i(1) by (simp split: if_splits) auto
    ultimately show ?thesis by auto
  qed
  ultimately show ?case using IH here by auto
qed simp

lemma queued_survivor:
  assumes u: "uuid_texts ctx" and c: "\<forall>m \<in> set (np_members p). \<exists>i. nb_memory_id m = cc_show ctx i"
    and k: "has_keep (np_kind p)" "2 \<le> length (np_members p)" "\<exists>m \<in> set (np_members p). np_keep_id p = Some (nb_memory_id m)"
    and q: "queue_checked ctx now fresh p db q = Inr ((Queued, i), q')"
  shows "\<exists>x keep. q' = q @ [x] \<and> qr_id x = i \<and> qr_kind x = np_kind p \<and> qr_state x = Proposed \<and>
    qr_keep_id x = Some keep \<and> keep \<in> set (map qm_memory (qr_members x)) \<and>
    (\<forall>m \<in> set (qr_members x). \<forall>s t. Option.bind (find_row db (qm_memory m)) mr_occurred_at = Some s \<longrightarrow>
       Option.bind (find_row db keep) mr_occurred_at = Some t \<longrightarrow> s \<le> t)"
proof -
  let ?p = "reconciled ctx db p"
  have same: "map nb_memory_id (np_members ?p) = map nb_memory_id (np_members p)" "np_kind ?p = np_kind p"
    by (auto simp: reconciled_def split: option.splits)
  have vt: "valid_time ctx db (cc_show ctx j) = Option.bind (find_row db j) mr_occurred_at" for j
    using u by (simp add: valid_time_def uuid_texts_def)
  have c': "\<forall>m \<in> set (np_members ?p). \<exists>i. nb_memory_id m = cc_show ctx i"
  proof
    fix m assume "m \<in> set (np_members ?p)"
    then have "nb_memory_id m \<in> set (map nb_memory_id (np_members p))" unfolding same(1)[symmetric] by simp
    then show "\<exists>i. nb_memory_id m = cc_show ctx i" using c by auto
  qed
  have kin: "\<exists>k \<in> set (map nb_memory_id (np_members p)). np_keep_id ?p = Some k"
    using k(3) latest_dated_greatest[of "dated_members ctx db p"]
    by (fastforce simp: reconciled_def mem_dated_members split: option.splits)
  then obtain k where "k \<in> set (map nb_memory_id (np_members p))" "np_keep_id ?p = Some k" by blast
  moreover obtain keep where "k = cc_show ctx keep" using c calculation(1) by auto
  ultimately have keep: "np_keep_id ?p = Some (cc_show ctx keep)"
      "cc_show ctx keep \<in> set (map nb_memory_id (np_members p))" by auto
  have ku: "Option.bind (np_keep_id ?p) (cc_uuid ctx) = Some keep" using keep(1) u by (simp add: uuid_texts_def)
  have inj: "cc_show ctx a = cc_show ctx b \<Longrightarrow> a = b" for a b using u unfolding uuid_texts_def by (metis option.inject)
  from q[unfolded queue_checked_def] show ?thesis
  proof (cases rule: queue_cluster_Inr)
    case (known y)
    then show ?thesis by simp
  next
    case (fresh ms)
    note st = insert_members_stored[OF fresh(2) c' u]
    have "cc_show ctx keep \<in> nb_memory_id ` set (np_members ?p)" using keep(2) unfolding same(1)[symmetric] by simp
    then have kq: "keep \<in> set (map qm_memory ms)" using st inj by force
    have le: "s \<le> t" if "m \<in> set ms" "Option.bind (find_row db (qm_memory m)) mr_occurred_at = Some s"
        "Option.bind (find_row db keep) mr_occurred_at = Some t" for m s t
    proof -
      have "cc_show ctx (qm_memory m) \<in> nb_memory_id ` set (np_members ?p)" using st that(1) by force
      then have "cc_show ctx (qm_memory m) \<in> set (map nb_memory_id (np_members p))" unfolding same(1)[symmetric] by simp
      from reconciled_survivor[OF k(1,2) keep(1) _ keep(2) this] that(2,3) show ?thesis by (simp add: vt)
    qed
    show ?thesis
      using fresh(3,4) ku kq le same(2)
      by (intro exI[of _ "last q'"] exI[of _ keep]) auto
  qed
qed

text \<open>
  The survivor a queued finding names is one of its own rows, and no other row of the finding
  became true later: whatever survivor the pass chose, valid time has the last word, so the dates
  in the table do not refuse what the queue proposes.
\<close>

theorem survivor_is_latest:
  assumes "uuid_texts ctx" and "\<forall>m \<in> set (np_members p). \<exists>i. nb_memory_id m = cc_show ctx i"
    and "has_keep (np_kind p)" and "2 \<le> length (np_members p)"
    and "\<exists>m \<in> set (np_members p). np_keep_id p = Some (nb_memory_id m)"
    and "queue_checked ctx now fresh p db q = Inr ((Queued, i), q')"
  shows "\<exists>x keep. q' = q @ [x] \<and> qr_id x = i \<and> qr_kind x = np_kind p \<and> qr_state x = Proposed \<and>
    qr_keep_id x = Some keep \<and> keep \<in> set (map qm_memory (qr_members x)) \<and>
    (\<forall>m \<in> set (qr_members x). \<forall>s t. Option.bind (find_row db (qm_memory m)) mr_occurred_at = Some s \<longrightarrow>
       Option.bind (find_row db keep) mr_occurred_at = Some t \<longrightarrow> s \<le> t)"
  by (rule queued_survivor[OF assms])


section \<open>Concrete runs\<close>

text \<open>Ids print as ones; a leading zero is a second spelling of the same id.\<close>

definition sample_uuid :: "str \<Rightarrow> nat option" where
  "sample_uuid s =
     (let t = (case s of c # cs \<Rightarrow> if c = 48 then cs else s | [] \<Rightarrow> s)
      in if t \<noteq> [] \<and> list_all (\<lambda>c. c = 49) t then Some (length t - 1) else None)"

definition sample_show :: "nat \<Rightarrow> str" where
  "sample_show i = replicate (Suc i) 49"

definition sample_cleanup :: "(nat, nat) cleanup_ctx" where
  "sample_cleanup =
     \<lparr>cc_write = sample_ctx\<lparr>wc_principal := sample_eraser, wc_uuid := sample_uuid\<rparr>,
      cc_forget = sample_forget (\<lambda>_. None), cc_show = sample_show, cc_sha256 = (\<lambda>s. s)\<rparr>"

lemma sample_uuid_texts: "uuid_texts sample_cleanup"
proof -
  have t: "trim (sample_show i) = sample_show i" for i
    by (rule trim_fix_if_no_ws) (auto simp: sample_show_def)
  have "sample_uuid (sample_show i) = Some i" for i
    by (simp add: sample_uuid_def sample_show_def list_all_iff)
  then show ?thesis using t by (simp add: uuid_texts_def sample_cleanup_def)
qed

definition sample_new_member :: "nat \<Rightarrow> disposition \<Rightarrow> new_member" where
  "sample_new_member i d = \<lparr>nb_memory_id = sample_show i, nb_disposition = d, nb_seen_content = u ''port''\<rparr>"

definition sample_finding :: "cleanup_kind \<Rightarrow> nat option \<Rightarrow> nat list \<Rightarrow> queue_state \<Rightarrow> queue_row" where
  "sample_finding kind keep ids state =
     \<lparr>qr_id = 7, qr_kind = kind, qr_namespace = u ''user:me'', qr_keep_id = keep, qr_produced_by = u ''exact'',
      qr_posted_by = None, qr_similarity = None, qr_state = state, qr_reason = None, qr_decided_at = None,
      qr_created_at = 10, qr_key = cluster_key (\<lambda>s. s) kind (map sample_show ids),
      qr_members = map (\<lambda>i. \<lparr>qm_memory = i, qm_disposition = (if keep = Some i then D_Keep else D_Retire),
                             qm_seen = u ''port''\<rparr>) ids\<rparr>"

definition sample_tidying :: "instant option \<Rightarrow> queue_row \<Rightarrow> nat cleanup_state" where
  "sample_tidying ended p =
     \<lparr>cs_store = \<lparr>fs_db = \<lparr>md_rows = [sample_version 0 None None, sample_version 1 None None,
                                     (sample_version 2 None None)\<lparr>mr_occurred_until := ended\<rparr>], md_kek_id = None\<rparr>,
                  fs_sealed = None, fs_log = []\<rparr>, cs_queue = [p]\<rparr>"

lemma sample_tidying_ok: "history_ok (cs_db (sample_tidying ended p))"
proof -
  have "succession (cs_db (sample_tidying ended p)) = {}"
    by (auto simp: succession_map sample_tidying_def sample_version_def)
  then show ?thesis
    by (auto simp: history_ok_def acyclic_def sample_tidying_def sample_version_def stamped_def links_ok_def
        checks_ok_def period_ok_def content_ok_def link_ok_def split: option.splits)
qed

lemma cleanup_within_grants_witness:
  "history_ok (cs_db (snd (apply_proposal sample_cleanup 100 (sample_show 7)
     (sample_tidying None (sample_finding Stale None [1] Proposed))))) \<and>
   find_row (cs_db (snd (apply_proposal sample_cleanup 100 (sample_show 7)
     (sample_tidying None (sample_finding Stale None [1] Proposed))))) 1 = None"
proof -
  let ?st = "sample_tidying None (sample_finding Stale None [1] Proposed)"
  let ?st' = "snd (apply_proposal sample_cleanup 100 (sample_show 7) ?st)"
  have "map mr_id (md_rows (cs_db ?st')) = [0, 2]" by code_simp
  then have "set (map mr_id (md_rows (cs_db ?st'))) = {0, 2}" by simp
  then have "find_row (cs_db ?st') 1 = None" by (simp add: find_row_None row_ids_def)
  then show ?thesis using cleanup_within_grants[OF sample_tidying_ok, of ?st'] by blast
qed

lemma applied_is_settled_witness:
  "\<exists>a st'. apply_proposal sample_cleanup 100 (sample_show 7)
     (sample_tidying None (sample_finding Exact (Some 0) [0, 1] Proposed)) = (Inr a, st') \<and>
     link_of (cs_db st') 1 = Some (Some 0)"
proof -
  let ?p = "sample_finding Exact (Some 0) [0, 1] Proposed"
  let ?run = "apply_proposal sample_cleanup 100 (sample_show 7) (sample_tidying None ?p)"
  have "map_sum id ap_kind (fst ?run) = Inr Exact" by code_simp
  then obtain a where a: "?run = (Inr a, snd ?run)" "ap_kind a = Exact" by (cases "fst ?run") (auto simp: prod_eq_iff)
  have d: "distinct (map mr_id (md_rows (cs_db (sample_tidying None ?p))))"
    using sample_tidying_ok by (simp add: history_ok_def)
  have q: "find_proposal 7 (cs_queue (sample_tidying None ?p)) = Some ?p" "cc_uuid sample_cleanup (sample_show 7) = Some 7"
    by (simp_all add: find_proposal_def sample_tidying_def sample_finding_def, code_simp)
  have "link_of (cs_db (snd ?run)) 1 = Some (Some 0)"
    using applied_is_settled[OF sample_uuid_texts d a(1)] a(2) q
    by (auto simp: sample_finding_def)
  then show ?thesis using a(1) by blast
qed


lemma queue_shows_readable_witness:
  "list_proposals sample_cleanup None 50 (sample_tidying None (sample_finding Exact (Some 0) [0, 1] Proposed)) \<noteq> [] \<and>
   (\<forall>p \<in> set (list_proposals sample_cleanup None 50 (sample_tidying None (sample_finding Exact (Some 0) [0, 1] Proposed))).
      can_read sample_eraser (pp_namespace p) Open)"
proof -
  let ?st = "sample_tidying None (sample_finding Exact (Some 0) [0, 1] Proposed)"
  have "length (list_proposals sample_cleanup None 50 ?st) = 1" by code_simp
  then have "list_proposals sample_cleanup None 50 ?st \<noteq> []" by auto
  moreover have "cc_principal sample_cleanup = sample_eraser" by (simp add: sample_cleanup_def)
  ultimately show ?thesis using queue_shows_readable[of sample_cleanup None 50 ?st] by simp
qed

definition sample_couple :: new_proposal where
  "sample_couple =
     \<lparr>np_kind = Paraphrase, np_namespace = u ''user:me'', np_keep_id = Some (sample_show 1), np_produced_by = u ''cosine'',
      np_similarity = None, np_posted_by = None,
      np_members = [sample_new_member 1 D_Keep, sample_new_member 0 D_Retire]\<rparr>"

definition sample_dates :: "(nat, sealed_content) mem_db" where
  "sample_dates =
     \<lparr>md_rows = [(sample_version 0 None None)\<lparr>mr_occurred_at := Some 9\<rparr>, (sample_version 1 None None)\<lparr>mr_occurred_at := Some 5\<rparr>],
      md_kek_id = None\<rparr>"

lemma survivor_is_latest_witness:
  "\<exists>q'. queue_checked sample_cleanup 100 8 sample_couple sample_dates [] = Inr ((Queued, 8), q') \<and>
     (\<exists>x. q' = [x] \<and> qr_keep_id x = Some 0)"
proof -
  let ?run = "queue_checked sample_cleanup 100 8 sample_couple sample_dates []"
  have r: "map_sum id (\<lambda>(out, q). (out, map qr_keep_id q, map (map qm_memory \<circ> qr_members) q)) ?run
      = Inr ((Queued, 8), [Some 0], [[1, 0]])" by code_simp
  obtain q' where q': "?run = Inr ((Queued, 8), q')" "map qr_keep_id q' = [Some 0]"
    using r by (cases ?run) auto
  have m: "\<forall>m \<in> set (np_members sample_couple). \<exists>i. nb_memory_id m = cc_show sample_cleanup i"
    by (auto simp: sample_couple_def sample_new_member_def sample_cleanup_def)
  have k: "has_keep (np_kind sample_couple)" "2 \<le> length (np_members sample_couple)"
    "\<exists>m \<in> set (np_members sample_couple). np_keep_id sample_couple = Some (nb_memory_id m)"
    by (simp_all add: sample_couple_def sample_new_member_def)
  from survivor_is_latest[OF sample_uuid_texts m k q'(1)] obtain x where "q' = [x]" by auto
  then show ?thesis using q' by auto
qed

text \<open>
  A finding is applied row by row, and the checks made before the first write are not those the
  writes make: a row whose period was closed by hand passes them and fails its own retirement. The
  rows before it stay retired, the finding stays waiting, and no later apply can ever finish it,
  even once the period is opened again.
\<close>

theorem apply_can_stop_half_way:
  "\<exists>e st'. apply_proposal sample_cleanup 100 (sample_show 7)
       (sample_tidying (Some 50) (sample_finding Exact (Some 0) [0, 1, 2] Proposed)) = (Inl e, st') \<and>
     link_of (cs_db st') 1 = Some (Some 0) \<and> link_of (cs_db st') 2 = Some None \<and>
     map (\<lambda>p. (qr_id p, qr_state p)) (cs_queue st') = [(7, Proposed)] \<and>
     (let st2 = st'\<lparr>cs_store := (cs_store st')\<lparr>fs_db := snd (unexpire 2 50 (cs_db st'))\<rparr>\<rparr>
      in row_live 100 (the (find_row (cs_db st2) 2)) \<and>
         fst (apply_proposal sample_cleanup 100 (sample_show 7) st2) =
           Inl (conflict (R_Service (SF_Cleanup (L_MemberRetired 1)))))"
proof -
  let ?p = "sample_finding Exact (Some 0) [0, 1, 2] Proposed"
  let ?run = "apply_proposal sample_cleanup 100 (sample_show 7) (sample_tidying (Some 50) ?p)"
  let ?st2 = "(snd ?run)\<lparr>cs_store := (cs_store (snd ?run))\<lparr>fs_db := snd (unexpire 2 50 (cs_db (snd ?run)))\<rparr>\<rparr>"
  have "map_sum (\<lambda>_. ()) (\<lambda>_. ()) (fst ?run) = Inl ()" by code_simp
  then obtain e where e: "?run = (Inl e, snd ?run)" by (cases "fst ?run") (auto simp: prod_eq_iff)
  have l: "link_of (cs_db (snd ?run)) 1 = Some (Some 0)" "link_of (cs_db (snd ?run)) 2 = Some None"
    and r: "row_live 100 (the (find_row (cs_db ?st2) 2))"
    and a: "fst (apply_proposal sample_cleanup 100 (sample_show 7) ?st2) =
      Inl (conflict (R_Service (SF_Cleanup (L_MemberRetired 1))))" by code_simp+
  have q: "map (\<lambda>p. (qr_id p, qr_state p)) (cs_queue (snd ?run)) = [(7, Proposed)]" by code_simp
  show ?thesis unfolding Let_def by (intro exI[of _ e] exI[of _ "snd ?run"] conjI e l q r a)
qed


text \<open>
  A lost row is not seen. The foreign keys drop a deleted row from the finding itself, so what closing
  looks for never happens: a finding it closes still has the row that answered it. A duplicate whose
  other copy was deleted stays waiting, and applies with nothing left to retire.
\<close>

theorem lost_member_unnoticed:
  "(\<forall>i \<in> set (fst (close_answered now db (cascade db q))). \<exists>p \<in> set (cascade db q). qr_id p = i \<and>
      (\<exists>m \<in> set (qr_members p). \<exists>r. find_row db (qm_memory m) = Some r \<and>
         (mr_superseded_by r \<noteq> None \<or> mr_content r \<noteq> Some (qm_seen m)))) \<and>
   (let st = cleanup_do sample_cleanup 90 8 (CForget (sample_show 1))
               (sample_tidying None (sample_finding Exact (Some 0) [0, 1] Proposed))
    in map mr_id (md_rows (cs_db st)) = [0, 2] \<and>
       fst (close_answered 95 (cs_db st) (cs_queue st)) = [] \<and>
       fst (apply_proposal sample_cleanup 100 (sample_show 7) st) =
         Inr \<lparr>ap_id = 7, ap_kind = Exact, ap_retired = [], ap_deleted = [], ap_kept = Some 0\<rparr>)"
proof (intro conjI)
  show "\<forall>i \<in> set (fst (close_answered now db (cascade db q))). \<exists>p \<in> set (cascade db q). qr_id p = i \<and>
      (\<exists>m \<in> set (qr_members p). \<exists>r. find_row db (qm_memory m) = Some r \<and>
         (mr_superseded_by r \<noteq> None \<or> mr_content r \<noteq> Some (qm_seen m)))"
  proof
    fix i assume "i \<in> set (fst (close_answered now db (cascade db q)))"
    then obtain p where p: "p \<in> set (cascade db q)" "qr_id p = i" "answered_by_store db p" by (auto simp: close_answered_def)
    then have "\<forall>m \<in> set (qr_members p). find_row db (qm_memory m) \<noteq> None"
      by (auto simp: cascade_def keep_rows_def survives_def)
    then show "\<exists>p \<in> set (cascade db q). qr_id p = i \<and>
      (\<exists>m \<in> set (qr_members p). \<exists>r. find_row db (qm_memory m) = Some r \<and>
         (mr_superseded_by r \<noteq> None \<or> mr_content r \<noteq> Some (qm_seen m)))"
      using p by (intro bexI[of _ p]) (fastforce simp: answered_by_store_def list_ex_iff split: option.splits)+
  qed
qed code_simp

lemma lost_member_unnoticed_witness:
  "\<exists>p \<in> set (cascade (fs_db sample_chain) [sample_finding Exact (Some 3) [3, 1] Proposed]). qr_id p = 7 \<and>
     (\<exists>m \<in> set (qr_members p). \<exists>r. find_row (fs_db sample_chain) (qm_memory m) = Some r \<and>
        (mr_superseded_by r \<noteq> None \<or> mr_content r \<noteq> Some (qm_seen m)))"
proof -
  let ?q = "[sample_finding Exact (Some 3) [3, 1] Proposed]"
  have "fst (close_answered 95 (fs_db sample_chain) (cascade (fs_db sample_chain) ?q)) = [7]" by code_simp
  then have "7 \<in> set (fst (close_answered 95 (fs_db sample_chain) (cascade (fs_db sample_chain) ?q)))" by simp
  then show ?thesis using lost_member_unnoticed[of 95 "fs_db sample_chain" ?q] by blast
qed

definition sample_post :: "str \<Rightarrow> new_proposal" where
  "sample_post spelled =
     \<lparr>np_kind = Exact, np_namespace = u ''user:me'', np_keep_id = Some (sample_show 1), np_produced_by = u ''script'',
      np_similarity = None, np_posted_by = None,
      np_members = [sample_new_member 1 D_Keep, (sample_new_member 0 D_Retire)\<lparr>nb_memory_id := spelled\<rparr>]\<rparr>"

text \<open>
  A refused finding comes back in another spelling. The rows of a posted finding are resolved by
  parsing, but the key that makes the queue remember a cluster is taken over the texts as they were
  posted, so the same rows under another spelling of one id are a new cluster.
\<close>

theorem respelled_finding_returns:
  "let st = sample_tidying None (sample_finding Exact (Some 1) [0, 1] Rejected); other = 48 # sample_show 0
   in cc_uuid sample_cleanup other = cc_uuid sample_cleanup (sample_show 0) \<and>
      map_sum id fst (queue_posted sample_cleanup 100 8 (sample_post (sample_show 0)) (cs_db st) (cs_queue st)) =
        Inr (AlreadyKnown, 7) \<and>
      map_sum id fst (queue_posted sample_cleanup 100 8 (sample_post other) (cs_db st) (cs_queue st)) =
        Inr (Queued, 8)"
  by code_simp

end
