(* ===== verification/Lr_Cleanup_Pass.thy ===== *)
theory Lr_Cleanup_Pass
  imports Lr_Cleanup "HOL-Library.Product_Lexorder"
begin

text \<open>
  The pass that fills the cleanup queue: the candidate statements of
  \<open>src/src/adapters/postgres/cleanup.rs\<close>, the deterministic pass of \<open>src/src/services/cleanup.rs\<close> for
  the scheduler and for a caller, and \<open>src/src/services/supersession.rs\<close>, which pairs dated facts of a
  subject declared to hold one value. The normal form Postgres computes of a text, the vector distance
  and the model's thresholds are parameters; ids are drawn by the parameter \<open>draw\<close>.
\<close>

section \<open>Candidates\<close>

record candidate =
  ca_id :: nat
  ca_namespace :: str
  ca_sensitivity :: sensitivity
  ca_content :: str
  ca_created_at :: instant
  ca_access_count :: int
  ca_occurred_at :: "instant option"

record candidate_query =
  cq_namespace :: "str option"
  cq_max_sensitivity :: sensitivity
  cq_grant :: "namespace_grant list"
  cq_since :: "instant option"
  cq_limit :: int

record candidate_pair =
  cp_older :: candidate
  cp_newer :: candidate
  cp_similarity :: real

definition candidate_from :: "instant option \<Rightarrow> ('v, 's) mem_row \<Rightarrow> candidate" where
  "candidate_from occurred_at r =
     \<lparr>ca_id = mr_id r, ca_namespace = mr_namespace r, ca_sensitivity = mr_sensitivity r,
      ca_content = (case mr_content r of None \<Rightarrow> [] | Some c \<Rightarrow> c), ca_created_at = mr_created_at r,
      ca_access_count = mr_access_count r, ca_occurred_at = occurred_at\<rparr>"

definition ns_bounds :: "str option \<Rightarrow> str \<times> bool" where
  "ns_bounds namespace =
     (case namespace of
        None \<Rightarrow> ([], False)
      | Some raw \<Rightarrow>
          (let pattern = to_ascii_lowercase (trim raw)
           in case strip_suffix (u ''*'') pattern of Some pre \<Rightarrow> (pre, False) | None \<Rightarrow> (pattern, True)))"

text \<open>\<open>IN_SCOPE_PREDICATE\<close> and the terms every candidate statement repeats beside it.\<close>

definition in_scope :: "str option \<Rightarrow> str \<Rightarrow> bool" where
  "in_scope scope ns \<longleftrightarrow>
     (let (pattern, exact) = ns_bounds scope
      in pattern = [] \<or> (exact \<and> ns = pattern) \<or> (\<not> exact \<and> starts_with ns pattern))"

definition below_max :: "sensitivity \<Rightarrow> sensitivity \<Rightarrow> bool" where
  "below_max mx l \<longleftrightarrow> (case mx of Open \<Rightarrow> l = Open | Private \<Rightarrow> l = Open \<or> l = Private | Sealed \<Rightarrow> True)"

definition scoped :: "instant \<Rightarrow> candidate_query \<Rightarrow> ('v, 's) mem_db \<Rightarrow> ('v, 's) mem_row list" where
  "scoped now q db =
     filter (\<lambda>r. row_live now r \<and> mr_content r \<noteq> None \<and> below_max (cq_max_sensitivity q) (mr_sensitivity r) \<and>
                 in_scope (cq_namespace q) (mr_namespace r) \<and>
                 granted_row (split_grants (cq_grant q)) (mr_namespace r) (mr_sensitivity r)) (md_rows db)"

definition since_mark :: "candidate_query \<Rightarrow> ('v, 's) mem_row \<Rightarrow> bool" where
  "since_mark q r \<longleftrightarrow> (case cq_since q of None \<Rightarrow> True | Some t \<Rightarrow> t \<le> mr_created_at r)"

subsection \<open>Exact duplicates\<close>

text \<open>\<open>namespace || '\x1f' || ...\<close>: the separator is those four characters.\<close>

definition norm_of :: "(str \<Rightarrow> str) \<Rightarrow> ('v, 's) mem_row \<Rightarrow> str" where
  "norm_of normal r = mr_namespace r @ [92, 120, 49, 102] @ normal (case mr_content r of None \<Rightarrow> [] | Some c \<Rightarrow> c)"

definition duplicate_rows ::
    "(str \<Rightarrow> 'k::linorder) \<Rightarrow> (str \<Rightarrow> str) \<Rightarrow> instant \<Rightarrow> candidate_query \<Rightarrow> ('v, 's) mem_db \<Rightarrow> ('v, 's) mem_row list" where
  "duplicate_rows collate normal now q db =
     (let rows = scoped now q db;
          touched = map (norm_of normal) (filter (since_mark q) rows);
          several = (\<lambda>n. 1 < length (filter (\<lambda>r. norm_of normal r = n) rows))
      in take (nat (cq_limit q))
           (sort_key (\<lambda>r. (collate (norm_of normal r), mr_created_at r))
              (filter (\<lambda>r. norm_of normal r \<in> set touched \<and> several (norm_of normal r)) rows)))"

text \<open>Neighbours of one normal form share a group.\<close>

fun grouped :: "('a \<Rightarrow> 'k) \<Rightarrow> 'a list \<Rightarrow> 'a list list" where
  "grouped k [] = []"
| "grouped k (x # xs) =
     (case grouped k xs of
        (y # ys) # gs \<Rightarrow> if k x = k y then (x # y # ys) # gs else [x] # (y # ys) # gs
      | gs \<Rightarrow> [x] # gs)"

definition exact_duplicates ::
    "(str \<Rightarrow> 'k::linorder) \<Rightarrow> (str \<Rightarrow> str) \<Rightarrow> instant \<Rightarrow> candidate_query \<Rightarrow> ('v, 's) mem_db \<Rightarrow> candidate list list" where
  "exact_duplicates collate normal now q db =
     map (map (candidate_from None))
       (filter (\<lambda>g. 1 < length g) (grouped (norm_of normal) (duplicate_rows collate normal now q db)))"

subsection \<open>Pairs, stale rows, the newest row\<close>

definition pair_of :: "('v, 's) mem_row \<Rightarrow> ('v, 's) mem_row \<Rightarrow> real \<Rightarrow> candidate_pair" where
  "pair_of a b sim =
     (if mr_created_at a \<le> mr_created_at b
      then \<lparr>cp_older = candidate_from None a, cp_newer = candidate_from None b, cp_similarity = sim\<rparr>
      else \<lparr>cp_older = candidate_from None b, cp_newer = candidate_from None a, cp_similarity = sim\<rparr>)"

definition near_rows ::
    "('v \<Rightarrow> 'v \<Rightarrow> real) \<Rightarrow> vector_slot \<Rightarrow> real \<Rightarrow> instant \<Rightarrow> candidate_query \<Rightarrow> ('v, 's) mem_db \<Rightarrow>
     (('v, 's) mem_row \<times> ('v, 's) mem_row \<times> real) list" where
  "near_rows dist_of slot least now q db =
     (let rows = filter (\<lambda>r. slot_vec slot r \<noteq> None) (scoped now q db);
          sim = (\<lambda>a b. 1 - dist_of (the (slot_vec slot a)) (the (slot_vec slot b)))
      in filter (\<lambda>(a, b, s). mr_id a < mr_id b \<and> mr_namespace b = mr_namespace a \<and>
                             (since_mark q a \<or> since_mark q b) \<and> least \<le> s)
           (concat (map (\<lambda>a. map (\<lambda>b. (a, b, sim a b)) rows) rows)))"

definition similar_pairs ::
    "('v \<Rightarrow> 'v \<Rightarrow> real) \<Rightarrow> vector_slot \<Rightarrow> real \<Rightarrow> instant \<Rightarrow> candidate_query \<Rightarrow> ('v, 's) mem_db \<Rightarrow> candidate_pair list" where
  "similar_pairs dist_of slot least now q db =
     map (\<lambda>(a, b, s). pair_of a b s)
       (take (nat (cq_limit q)) (sort_key (\<lambda>(a, b, s). - s) (near_rows dist_of slot least now q db)))"

definition unread :: "instant \<Rightarrow> candidate_query \<Rightarrow> int \<Rightarrow> ('v, 's) mem_db \<Rightarrow> candidate list" where
  "unread now q age db =
     map (candidate_from None) (take (nat (cq_limit q)) (sort_key mr_created_at
       (filter (\<lambda>r. mr_access_count r = 0 \<and> mr_last_confirmed_at r = None \<and> mr_created_at r < now - age * (24 * 3600 * 1000000000))
          (scoped now q db))))"

definition newest_in_scope :: "instant \<Rightarrow> candidate_query \<Rightarrow> ('v, 's) mem_db \<Rightarrow> instant option" where
  "newest_in_scope now q db =
     (case map mr_created_at (scoped now q db) of [] \<Rightarrow> None | t # ts \<Rightarrow> Some (fold max ts t))"

definition tagged_dated ::
    "instant \<Rightarrow> candidate_query \<Rightarrow> str \<Rightarrow> int \<Rightarrow> ('v, 's) mem_db \<Rightarrow> candidate list" where
  "tagged_dated now q tag limit db =
     map (\<lambda>r. candidate_from (mr_occurred_at r) r) (take (nat limit)
       (sort_key (\<lambda>r. (- the (mr_occurred_at r), - int (mr_id r)))
         (filter (\<lambda>r. row_live now r \<and> mr_occurred_at r \<noteq> None \<and> tag \<in> set (mr_tags r) \<and>
                      mr_sensitivity r \<le> cq_max_sensitivity q \<and>
                      granted_row (split_grants (cq_grant q)) (mr_namespace r) (mr_sensitivity r)) (md_rows db))))"

section \<open>Scopes\<close>

definition covers :: "namespace_grant list \<Rightarrow> str \<Rightarrow> bool" where
  "covers grant scope =
     (let scope = to_ascii_lowercase (trim scope)
      in case strip_suffix (u ''*'') scope of
           Some pre \<Rightarrow>
             list_ex (\<lambda>g. case strip_suffix (u ''*'') (to_ascii_lowercase (trim (g_namespace g))) of
                            Some granted \<Rightarrow> starts_with pre granted | None \<Rightarrow> False) grant
         | None \<Rightarrow> list_ex (\<lambda>g. matches (g_namespace g) scope) grant)"

definition reads_everything :: "namespace_grant list \<Rightarrow> bool" where
  "reads_everything grant \<longleftrightarrow> list_ex (\<lambda>g. trim (g_namespace g) = u ''*'' \<and> g_max g = Sealed) grant"

section \<open>The pass\<close>

definition STALE_DAYS :: int where "STALE_DAYS = 90"

text \<open>What a pass reads of the unit and of the database's functions.\<close>

record ('v, 'k) engine_of_pass =
  ep_normal :: "str \<Rightarrow> str"
  ep_collate :: "str \<Rightarrow> 'k"
  ep_dist :: "'v \<Rightarrow> 'v \<Rightarrow> real"
  ep_slot :: vector_slot
  ep_near_certain :: real
  ep_worth_asking :: real

record bounds =
  bo_scope :: "str option"
  bo_scope_key :: str
  bo_cadence :: str
  bo_limit :: int
  bo_min_similarity :: "real option"
  bo_grant :: "namespace_grant list"
  bo_posted_by :: "str option"

record model_candidate =
  mc_similarity :: real
  mc_namespace :: str
  mc_a_id :: nat
  mc_a_content :: str
  mc_b_id :: nat
  mc_b_content :: str

record run_report =
  rr_scope :: str
  rr_cadence :: str
  rr_anchored :: nat
  rr_exact_groups :: nat
  rr_near_certain_pairs :: nat
  rr_stale_rows :: nat
  rr_queued :: nat
  rr_already_known :: nat
  rr_closed_as_answered :: nat
  rr_for_the_model :: nat
  rr_withheld_from_model :: nat
  rr_min_similarity :: real
  rr_through :: "instant option"
  rr_truncated :: bool

definition bands_floor :: "('v, 'k) engine_of_pass \<Rightarrow> real option \<Rightarrow> real" where
  "bands_floor en asked =
     max 0 (min (case asked of None \<Rightarrow> ep_worth_asking en | Some s \<Rightarrow> s) (ep_near_certain en - 1 / 1000))"

definition assert_model_visible :: "candidate list \<Rightarrow> unit res" where
  "assert_model_visible rows =
     (case List.find (\<lambda>c. \<not> model_may_see (ca_sensitivity c)) rows of
        None \<Rightarrow> Inr ()
      | Some c \<Rightarrow> Inl (internal (R_Service (SF_Cleanup (L_ModelVisible (sensitivity_as_str (ca_sensitivity c)))))))"

text \<open>One finding per group, the oldest row kept; one per near-certain pair, the newer kept; one per stale row.\<close>

definition member_of :: "('v, 'd) cleanup_ctx \<Rightarrow> disposition \<Rightarrow> candidate \<Rightarrow> new_member" where
  "member_of ctx d c = \<lparr>nb_memory_id = cc_show ctx (ca_id c), nb_disposition = d, nb_seen_content = ca_content c\<rparr>"

definition exact_proposal :: "('v, 'd) cleanup_ctx \<Rightarrow> str option \<Rightarrow> candidate list \<Rightarrow> new_proposal" where
  "exact_proposal ctx posted_by copies =
     (let keep = hd copies
      in \<lparr>np_kind = Exact, np_namespace = ca_namespace keep, np_keep_id = Some (cc_show ctx (ca_id keep)),
          np_produced_by = u ''exact'', np_similarity = Some 1, np_posted_by = posted_by,
          np_members = map (\<lambda>c. member_of ctx (if ca_id c = ca_id keep then D_Keep else D_Retire) c) copies\<rparr>)"

definition paraphrase_proposal :: "('v, 'd) cleanup_ctx \<Rightarrow> str option \<Rightarrow> candidate_pair \<Rightarrow> new_proposal" where
  "paraphrase_proposal ctx posted_by pair =
     \<lparr>np_kind = Paraphrase, np_namespace = ca_namespace (cp_older pair),
      np_keep_id = Some (cc_show ctx (ca_id (cp_newer pair))), np_produced_by = u ''cosine'',
      np_similarity = Some (cp_similarity pair), np_posted_by = posted_by,
      np_members = [member_of ctx D_Keep (cp_newer pair), member_of ctx D_Retire (cp_older pair)]\<rparr>"

definition stale_proposal :: "('v, 'd) cleanup_ctx \<Rightarrow> str option \<Rightarrow> candidate \<Rightarrow> new_proposal" where
  "stale_proposal ctx posted_by c =
     \<lparr>np_kind = Stale, np_namespace = ca_namespace c, np_keep_id = None, np_produced_by = u ''unread'',
      np_similarity = None, np_posted_by = posted_by, np_members = [member_of ctx D_Retire c]\<rparr>"

definition model_candidate_of :: "candidate_pair \<Rightarrow> model_candidate" where
  "model_candidate_of p =
     \<lparr>mc_similarity = cp_similarity p, mc_namespace = ca_namespace (cp_older p),
      mc_a_id = ca_id (cp_older p), mc_a_content = ca_content (cp_older p),
      mc_b_id = ca_id (cp_newer p), mc_b_content = ca_content (cp_newer p)\<rparr>"

record pass_state =
  ps_report :: run_report
  ps_queue :: "queue_row list"
  ps_newest :: "instant option"
  ps_claimed :: "nat list"
  ps_for_model :: "model_candidate list"

definition note_row :: "candidate \<Rightarrow> pass_state \<Rightarrow> pass_state" where
  "note_row c ps = ps\<lparr>ps_newest :=
     (case ps_newest ps of
        None \<Rightarrow> Some (ca_created_at c)
      | Some n \<Rightarrow> if n < ca_created_at c then Some (ca_created_at c) else Some n)\<rparr>"

fun tally :: "queue_outcome \<Rightarrow> run_report \<Rightarrow> run_report" where
  "tally Queued rep = rep\<lparr>rr_queued := Suc (rr_queued rep)\<rparr>"
| "tally AlreadyKnown rep = rep\<lparr>rr_already_known := Suc (rr_already_known rep)\<rparr>"

text \<open>One finding queued and counted; the id is drawn whether or not it is used.\<close>

definition queue_found ::
    "('v, 'd) cleanup_ctx \<Rightarrow> instant \<Rightarrow> (nat \<Rightarrow> nat) \<Rightarrow> ('v, 's) mem_db \<Rightarrow> new_proposal \<Rightarrow> pass_state \<Rightarrow>
     unit res \<times> pass_state" where
  "queue_found ctx now draw db p ps =
     (case queue_checked ctx now (draw (rr_queued (ps_report ps) + rr_already_known (ps_report ps))) p db (ps_queue ps) of
        Inl e \<Rightarrow> (Inl e, ps)
      | Inr ((out, _), q) \<Rightarrow> (Inr (), ps\<lparr>ps_queue := q, ps_report := tally out (ps_report ps)\<rparr>))"

definition pass_group ::
    "('v, 'd) cleanup_ctx \<Rightarrow> instant \<Rightarrow> (nat \<Rightarrow> nat) \<Rightarrow> ('v, 's) mem_db \<Rightarrow> str option \<Rightarrow> candidate list \<Rightarrow>
     pass_state \<Rightarrow> unit res \<times> pass_state" where
  "pass_group ctx now draw db posted_by copies ps =
     (let noted = fold note_row copies ps;
          rep = ps_report noted
      in queue_found ctx now draw db (exact_proposal ctx posted_by copies)
           (noted\<lparr>ps_report := rep\<lparr>rr_exact_groups := Suc (rr_exact_groups rep),
                                rr_anchored := rr_anchored rep + length copies\<rparr>,
                  ps_claimed := ps_claimed noted @ map ca_id copies\<rparr>))"

definition pass_pair ::
    "('v, 'd) cleanup_ctx \<Rightarrow> instant \<Rightarrow> (nat \<Rightarrow> nat) \<Rightarrow> ('v, 's) mem_db \<Rightarrow> real \<Rightarrow> str option \<Rightarrow>
     candidate_pair \<Rightarrow> pass_state \<Rightarrow> unit res \<times> pass_state" where
  "pass_pair ctx now draw db near_certain posted_by pair ps =
     (let noted = note_row (cp_newer pair) (note_row (cp_older pair) ps);
          rep = ps_report noted
      in if ca_id (cp_older pair) \<in> set (ps_claimed noted) \<and> ca_id (cp_newer pair) \<in> set (ps_claimed noted)
         then (Inr (), noted)
         else if near_certain \<le> cp_similarity pair
         then queue_found ctx now draw db (paraphrase_proposal ctx posted_by pair)
                (noted\<lparr>ps_report := rep\<lparr>rr_near_certain_pairs := Suc (rr_near_certain_pairs rep)\<rparr>\<rparr>)
         else if \<not> model_may_see (ca_sensitivity (cp_older pair)) \<or> \<not> model_may_see (ca_sensitivity (cp_newer pair))
         then (Inr (), noted\<lparr>ps_report := rep\<lparr>rr_withheld_from_model := Suc (rr_withheld_from_model rep)\<rparr>\<rparr>)
         else (case assert_model_visible [cp_older pair, cp_newer pair] of
                 Inl e \<Rightarrow> (Inl e, noted)
               | Inr _ \<Rightarrow> (Inr (), noted\<lparr>ps_for_model := ps_for_model noted @ [model_candidate_of pair]\<rparr>)))"

definition pass_stale ::
    "('v, 'd) cleanup_ctx \<Rightarrow> instant \<Rightarrow> (nat \<Rightarrow> nat) \<Rightarrow> ('v, 's) mem_db \<Rightarrow> str option \<Rightarrow> candidate \<Rightarrow>
     pass_state \<Rightarrow> unit res \<times> pass_state" where
  "pass_stale ctx now draw db posted_by c ps =
     (let rep = ps_report ps
      in queue_found ctx now draw db (stale_proposal ctx posted_by c)
           (ps\<lparr>ps_report := rep\<lparr>rr_stale_rows := Suc (rr_stale_rows rep)\<rparr>\<rparr>))"

text \<open>A loop whose body can fail; what it queued before the failure stays queued.\<close>

fun each_found :: "('a \<Rightarrow> pass_state \<Rightarrow> unit res \<times> pass_state) \<Rightarrow> 'a list \<Rightarrow> pass_state \<Rightarrow> unit res \<times> pass_state" where
  "each_found f [] ps = (Inr (), ps)"
| "each_found f (x # xs) ps =
     (case f x ps of (Inl e, ps') \<Rightarrow> (Inl e, ps') | (Inr _, ps') \<Rightarrow> each_found f xs ps')"

definition no_report :: "bounds \<Rightarrow> run_report" where
  "no_report b =
     \<lparr>rr_scope = (case bo_scope b of None \<Rightarrow> u ''*'' | Some s \<Rightarrow> s), rr_cadence = bo_cadence b, rr_anchored = 0,
      rr_exact_groups = 0, rr_near_certain_pairs = 0, rr_stale_rows = 0, rr_queued = 0, rr_already_known = 0,
      rr_closed_as_answered = 0, rr_for_the_model = 0, rr_withheld_from_model = 0, rr_min_similarity = 0,
      rr_through = None, rr_truncated = False\<rparr>"

type_synonym watermarks = "str \<times> str \<Rightarrow> (instant \<times> instant) option"

text \<open>The table refuses a cadence other than the two the schedule knows.\<close>

definition advance :: "instant \<Rightarrow> str \<times> str \<Rightarrow> instant \<Rightarrow> watermarks \<Rightarrow> watermarks res" where
  "advance now key through marks =
     (if snd key \<noteq> u ''hourly'' \<and> snd key \<noteq> u ''daily'' then Inl database_error
      else Inr (marks(key \<mapsto> (now, case marks key of None \<Rightarrow> through | Some (_, old) \<Rightarrow> max old through))))"

definition pass_query :: "bounds \<Rightarrow> watermarks \<Rightarrow> candidate_query" where
  "pass_query b marks =
     \<lparr>cq_namespace = bo_scope b, cq_max_sensitivity = Sealed, cq_grant = bo_grant b,
      cq_since = map_option snd (marks (bo_scope_key b, bo_cadence b)), cq_limit = bo_limit b\<rparr>"

text \<open>The sweep a caller reading everything begins with.\<close>

definition pass_start :: "instant \<Rightarrow> bounds \<Rightarrow> ('v, 's) mem_db \<Rightarrow> queue_row list \<Rightarrow> pass_state" where
  "pass_start now b db q =
     (let (closed_ids, q') = (if reads_everything (bo_grant b) then close_answered now db q else ([], q))
      in \<lparr>ps_report = (no_report b)\<lparr>rr_closed_as_answered := length closed_ids\<rparr>, ps_queue = q', ps_newest = None,
          ps_claimed = [], ps_for_model = []\<rparr>)"

definition pass_groups ::
    "('v, 'k::linorder) engine_of_pass \<Rightarrow> instant \<Rightarrow> bounds \<Rightarrow> watermarks \<Rightarrow> ('v, 's) mem_db \<Rightarrow> candidate list list" where
  "pass_groups en now b marks db = exact_duplicates (ep_collate en) (ep_normal en) now (pass_query b marks) db"

definition pass_pairs ::
    "('v, 'k::linorder) engine_of_pass \<Rightarrow> instant \<Rightarrow> bounds \<Rightarrow> watermarks \<Rightarrow> ('v, 's) mem_db \<Rightarrow> candidate_pair list" where
  "pass_pairs en now b marks db =
     similar_pairs (ep_dist en) (ep_slot en) (bands_floor en (bo_min_similarity b)) now (pass_query b marks) db"

definition pass_unread :: "instant \<Rightarrow> bounds \<Rightarrow> watermarks \<Rightarrow> ('v, 's) mem_db \<Rightarrow> candidate list" where
  "pass_unread now b marks db =
     (if bo_cadence b = u ''daily'' then unread now (pass_query b marks) STALE_DAYS db else [])"

definition pass_truncated ::
    "('v, 'k::linorder) engine_of_pass \<Rightarrow> instant \<Rightarrow> bounds \<Rightarrow> watermarks \<Rightarrow> ('v, 's) mem_db \<Rightarrow> bool" where
  "pass_truncated en now b marks db \<longleftrightarrow>
     bo_limit b \<le> int (sum_list (map length (pass_groups en now b marks db))) \<or>
     bo_limit b \<le> int (length (pass_pairs en now b marks db)) \<or>
     (bo_cadence b = u ''daily'' \<and> bo_limit b \<le> int (length (pass_unread now b marks db)))"

definition pass_findings ::
    "('v, 'k::linorder) engine_of_pass \<Rightarrow> ('v, 'd) cleanup_ctx \<Rightarrow> instant \<Rightarrow> (nat \<Rightarrow> nat) \<Rightarrow> bounds \<Rightarrow>
     watermarks \<Rightarrow> ('v, 's) mem_db \<Rightarrow> pass_state \<Rightarrow> unit res \<times> pass_state" where
  "pass_findings en ctx now draw b marks db ps =
     (case each_found (pass_group ctx now draw db (bo_posted_by b)) (pass_groups en now b marks db) ps of
        (Inl e, ps) \<Rightarrow> (Inl e, ps)
      | (Inr _, ps) \<Rightarrow>
          (case each_found (pass_pair ctx now draw db (ep_near_certain en) (bo_posted_by b))
                  (pass_pairs en now b marks db) ps of
             (Inl e, ps) \<Rightarrow> (Inl e, ps)
           | (Inr _, ps) \<Rightarrow>
               each_found (pass_stale ctx now draw db (bo_posted_by b)) (pass_unread now b marks db) ps))"

text \<open>The report closed, and the mark moved to what the pass read.\<close>

definition pass_end ::
    "('v, 'k::linorder) engine_of_pass \<Rightarrow> instant \<Rightarrow> bounds \<Rightarrow> watermarks \<Rightarrow> ('v, 's) mem_db \<Rightarrow> pass_state \<Rightarrow>
     (run_report \<times> model_candidate list) res \<times> watermarks" where
  "pass_end en now b marks db ps =
     (let truncated = pass_truncated en now b marks db;
          rep = (ps_report ps)\<lparr>rr_for_the_model := length (ps_for_model ps),
                               rr_min_similarity := bands_floor en (bo_min_similarity b), rr_truncated := truncated\<rparr>;
          newest = newest_in_scope now (pass_query b marks) db;
          through = (if truncated then ps_newest ps else case newest of None \<Rightarrow> ps_newest ps | Some t \<Rightarrow> Some t)
      in case through of
           None \<Rightarrow> (Inr (rep, ps_for_model ps), marks)
         | Some t \<Rightarrow>
             (case advance now (bo_scope_key b, bo_cadence b) t marks of
                Inl e \<Rightarrow> (Inl e, marks)
              | Inr marks' \<Rightarrow> (Inr (rep\<lparr>rr_through := Some t\<rparr>, ps_for_model ps), marks')))"

definition pass ::
    "('v, 'k::linorder) engine_of_pass \<Rightarrow> ('v, 'd) cleanup_ctx \<Rightarrow> instant \<Rightarrow> (nat \<Rightarrow> nat) \<Rightarrow> bounds \<Rightarrow>
     ('v, 's) mem_db \<Rightarrow> queue_row list \<Rightarrow> watermarks \<Rightarrow>
     (run_report \<times> model_candidate list) res \<times> queue_row list \<times> watermarks" where
  "pass en ctx now draw b db q marks =
     (case pass_findings en ctx now draw b marks db (pass_start now b db q) of
        (Inl e, ps) \<Rightarrow> (Inl e, ps_queue ps, marks)
      | (Inr _, ps) \<Rightarrow> (case pass_end en now b marks db ps of (out, marks') \<Rightarrow> (out, ps_queue ps, marks')))"

definition run_pass ::
    "('v, 'k::linorder) engine_of_pass res \<Rightarrow> ('v, 'd) cleanup_ctx \<Rightarrow> instant \<Rightarrow> (nat \<Rightarrow> nat) \<Rightarrow> str option \<Rightarrow> str \<Rightarrow>
     int \<Rightarrow> real option \<Rightarrow> ('v, 's) mem_db \<Rightarrow> queue_row list \<Rightarrow> watermarks \<Rightarrow>
     (run_report \<times> model_candidate list) res \<times> queue_row list \<times> watermarks" where
  "run_pass u_of ctx now draw scope cadence limit min_similarity db q marks =
     (case u_of of
        Inl e \<Rightarrow> (Inl e, q, marks)
      | Inr en \<Rightarrow> pass en ctx now draw
          \<lparr>bo_scope = scope, bo_scope_key = (case scope of None \<Rightarrow> u ''*'' | Some s \<Rightarrow> s), bo_cadence = cadence,
           bo_limit = limit, bo_min_similarity = min_similarity, bo_grant = grant_everything,
           bo_posted_by = None\<rparr> db q marks)"

text \<open>The caller's own bounds: its read grant, its own mark.\<close>

definition run_bounded ::
    "('v, 'k::linorder) engine_of_pass res \<Rightarrow> ('v, 'd) cleanup_ctx \<Rightarrow> instant \<Rightarrow> (nat \<Rightarrow> nat) \<Rightarrow> str option \<Rightarrow> str \<Rightarrow>
     int \<Rightarrow> real option \<Rightarrow> ('v, 's) mem_db \<Rightarrow> queue_row list \<Rightarrow> watermarks \<Rightarrow>
     (run_report \<times> model_candidate list) res \<times> queue_row list \<times> watermarks" where
  "run_bounded u_of ctx now draw scope cadence limit min_similarity db q marks =
     (let p = cc_principal ctx
      in case u_of of
           Inl e \<Rightarrow> (Inl e, q, marks)
         | Inr en \<Rightarrow> pass en ctx now draw
             \<lparr>bo_scope = scope, bo_scope_key = (case scope of None \<Rightarrow> u ''*'' | Some s \<Rightarrow> s) @ u ''@'' @ p_client p,
              bo_cadence = cadence, bo_limit = limit, bo_min_similarity = min_similarity, bo_grant = p_read p,
              bo_posted_by = Some (p_client p)\<rparr> db q marks)"

definition run_as ::
    "('v, 'k::linorder) engine_of_pass res \<Rightarrow> ('v, 'd) cleanup_ctx \<Rightarrow> instant \<Rightarrow> (nat \<Rightarrow> nat) \<Rightarrow> str option \<Rightarrow> str \<Rightarrow>
     int \<Rightarrow> real option \<Rightarrow> ('v, 's) mem_db \<Rightarrow> queue_row list \<Rightarrow> watermarks \<Rightarrow>
     (run_report \<times> model_candidate list) res \<times> queue_row list \<times> watermarks" where
  "run_as u_of ctx now draw scope cadence limit min_similarity db q marks =
     (let p = cc_principal ctx;
          scope = (case map_option (\<lambda>s. to_ascii_lowercase (trim s)) scope of
                     None \<Rightarrow> None | Some s \<Rightarrow> if s = [] then None else Some s)
      in case scope of
           Some glob \<Rightarrow>
             if \<not> covers (p_read p) glob
             then (Inl (forbidden (R_Service (SF_Cleanup (L_OutsideScope (p_client p) glob)))), q, marks)
             else run_bounded u_of ctx now draw (Some glob) cadence limit min_similarity db q marks
         | None \<Rightarrow> run_bounded u_of ctx now draw None cadence limit min_similarity db q marks)"

section \<open>Declared subjects\<close>

datatype arity = Single | Many

fun arity_as_str :: "arity \<Rightarrow> str" where
  "arity_as_str Single = u ''single''"
| "arity_as_str Many = u ''many''"

definition parse_arity :: "str \<Rightarrow> arity option" where
  "parse_arity s = (if s = u ''single'' then Some Single else if s = u ''many'' then Some Many else None)"

interpretation arity_codec: strict_codec arity_as_str parse_arity
proof
  show "parse_arity (arity_as_str x) = Some x" for x by (cases x) (simp_all add: parse_arity_def)
  show "parse_arity s = Some x \<Longrightarrow> arity_as_str x = s" for s x
    by (auto simp: parse_arity_def split: if_splits)
qed

record cardinality_row =
  kr_tag :: str
  kr_arity :: str
  kr_note :: "str option"
  kr_created_at :: instant

record cardinality =
  cd_tag :: str
  cd_arity :: arity
  cd_note :: "str option"
  cd_created_at :: instant

definition declare_arity :: "instant \<Rightarrow> str \<Rightarrow> arity \<Rightarrow> str option \<Rightarrow> cardinality_row list \<Rightarrow> cardinality_row list" where
  "declare_arity now tag arity note rows =
     (let row = \<lparr>kr_tag = tag, kr_arity = arity_as_str arity, kr_note = note, kr_created_at = now\<rparr>
      in if tag \<in> set (map kr_tag rows) then map (\<lambda>r. if kr_tag r = tag then row else r) rows else rows @ [row])"

text \<open>A stored arity that does not parse reads as \<open>many\<close>.\<close>

definition arities :: "(str \<Rightarrow> 'k::linorder) \<Rightarrow> cardinality_row list \<Rightarrow> cardinality list" where
  "arities collate rows =
     map (\<lambda>r. \<lparr>cd_tag = kr_tag r, cd_arity = (case parse_arity (kr_arity r) of None \<Rightarrow> Many | Some a \<Rightarrow> a),
               cd_note = kr_note r, cd_created_at = kr_created_at r\<rparr>)
       (sort_key (\<lambda>r. collate (kr_tag r)) rows)"

definition forget_arity :: "str \<Rightarrow> cardinality_row list \<Rightarrow> bool \<times> cardinality_row list" where
  "forget_arity tag rows = (length (filter (\<lambda>r. kr_tag r = tag) rows) = 1, filter (\<lambda>r. kr_tag r \<noteq> tag) rows)"

definition TAG_SCAN_LIMIT :: int where "TAG_SCAN_LIMIT = 500"

record ended_pair =
  en_earlier_id :: nat
  en_earlier_content :: str
  en_earlier_occurred_at :: instant
  en_later_id :: nat
  en_later_content :: str
  en_later_occurred_at :: instant

record ending_preview =
  pv_tag :: str
  pv_dated_rows :: nat
  pv_would_end :: "ended_pair list"
  pv_same_day_skipped :: nat
  pv_truncated :: bool

text \<open>Neighbours in valid time: a pair, or one skipped when the second does not start later.\<close>

fun pairs_from :: "candidate list \<Rightarrow> ended_pair list \<times> nat" where
  "pairs_from (a # b # rest) =
     (let (ps, same_day) = pairs_from (b # rest)
      in case (ca_occurred_at a, ca_occurred_at b) of
           (Some earlier, Some later) \<Rightarrow>
             if later \<le> earlier then (ps, Suc same_day)
             else (\<lparr>en_earlier_id = ca_id a, en_earlier_content = ca_content a, en_earlier_occurred_at = earlier,
                    en_later_id = ca_id b, en_later_content = ca_content b, en_later_occurred_at = later\<rparr> # ps,
                   same_day)
         | _ \<Rightarrow> (ps, same_day))"
| "pairs_from _ = ([], 0)"

definition scan_query :: "principal \<Rightarrow> candidate_query" where
  "scan_query p =
     \<lparr>cq_namespace = None, cq_max_sensitivity = Open, cq_grant = p_read p, cq_since = None, cq_limit = TAG_SCAN_LIMIT\<rparr>"

definition scan :: "instant \<Rightarrow> principal \<Rightarrow> str \<Rightarrow> ('v, 's) mem_db \<Rightarrow> candidate list \<times> bool" where
  "scan now p tag db =
     (let rows = tagged_dated now (scan_query p) tag TAG_SCAN_LIMIT db
      in (rev rows, TAG_SCAN_LIMIT \<le> int (length rows)))"

definition preview_ends :: "instant \<Rightarrow> principal \<Rightarrow> str \<Rightarrow> ('v, 's) mem_db \<Rightarrow> ending_preview res" where
  "preview_ends now p raw db =
     (let tag = trim raw
      in if tag = [] then Inl (validation (R_Service (SF_Cleanup L_EmptyTag)))
         else let (rows, truncated) = scan now p tag db; (would_end, same_day) = pairs_from rows
              in Inr \<lparr>pv_tag = tag, pv_dated_rows = length rows, pv_would_end = would_end,
                      pv_same_day_skipped = same_day, pv_truncated = truncated\<rparr>)"

definition declare_subject ::
    "instant \<Rightarrow> str \<Rightarrow> arity \<Rightarrow> str option \<Rightarrow> cardinality_row list \<Rightarrow> cardinality_row list res" where
  "declare_subject now raw arity note rows =
     (let tag = trim raw
      in if tag = [] then Inl (validation (R_Service (SF_Cleanup L_EmptyTag)))
         else Inr (declare_arity now tag arity note rows))"

definition forget_subject :: "str \<Rightarrow> cardinality_row list \<Rightarrow> bool \<times> cardinality_row list" where
  "forget_subject raw rows = forget_arity (trim raw) rows"

record ending_report =
  er_tags_scanned :: nat
  er_pairs_found :: nat
  er_queued :: nat
  er_already_known :: nat
  er_same_day_skipped :: nat
  er_truncated_tags :: nat

definition ending_proposal :: "('v, 'd) cleanup_ctx \<Rightarrow> candidate \<Rightarrow> candidate \<Rightarrow> new_proposal" where
  "ending_proposal ctx earlier later =
     \<lparr>np_kind = Supersession, np_namespace = ca_namespace later, np_keep_id = Some (cc_show ctx (ca_id later)),
      np_produced_by = u ''cardinality'', np_similarity = None, np_posted_by = None,
      np_members = [member_of ctx D_Retire earlier, member_of ctx D_Keep later]\<rparr>"

text \<open>The pairs of one subject: queued as they are, without the survivor being reconciled.\<close>

fun queue_endings ::
    "('v, 'd) cleanup_ctx \<Rightarrow> instant \<Rightarrow> (nat \<Rightarrow> nat) \<Rightarrow> ('v, 's) mem_db \<Rightarrow> candidate list \<Rightarrow> ended_pair list \<Rightarrow>
     ending_report \<Rightarrow> queue_row list \<Rightarrow> ending_report res \<times> queue_row list" where
  "queue_endings ctx now draw db rows [] rep q = (Inr rep, q)"
| "queue_endings ctx now draw db rows (pair # pairs) rep q =
     (case (List.find (\<lambda>r. ca_id r = en_earlier_id pair) rows, List.find (\<lambda>r. ca_id r = en_later_id pair) rows) of
        (Some earlier, Some later) \<Rightarrow>
          (case queue_cluster ctx now (draw (er_queued rep + er_already_known rep))
                  (ending_proposal ctx earlier later) db q of
             Inl e \<Rightarrow> (Inl e, q)
           | Inr ((Queued, _), q') \<Rightarrow>
               queue_endings ctx now draw db rows pairs (rep\<lparr>er_queued := Suc (er_queued rep)\<rparr>) q'
           | Inr ((AlreadyKnown, _), q') \<Rightarrow>
               queue_endings ctx now draw db rows pairs (rep\<lparr>er_already_known := Suc (er_already_known rep)\<rparr>) q')
      | _ \<Rightarrow> queue_endings ctx now draw db rows pairs rep q)"

fun endings_of ::
    "('v, 'd) cleanup_ctx \<Rightarrow> instant \<Rightarrow> (nat \<Rightarrow> nat) \<Rightarrow> ('v, 's) mem_db \<Rightarrow> cardinality list \<Rightarrow> ending_report \<Rightarrow>
     queue_row list \<Rightarrow> ending_report res \<times> queue_row list" where
  "endings_of ctx now draw db [] rep q = (Inr rep, q)"
| "endings_of ctx now draw db (c # cs) rep q =
     (if cd_arity c \<noteq> Single then endings_of ctx now draw db cs rep q
      else let (rows, truncated) = scan now (cc_principal ctx) (cd_tag c) db; (pairs, same_day) = pairs_from rows
           in case queue_endings ctx now draw db rows pairs
                     (rep\<lparr>er_tags_scanned := Suc (er_tags_scanned rep),
                          er_truncated_tags := er_truncated_tags rep + (if truncated then 1 else 0),
                          er_same_day_skipped := er_same_day_skipped rep + same_day,
                          er_pairs_found := er_pairs_found rep + length pairs\<rparr>) q of
                (Inl e, q') \<Rightarrow> (Inl e, q')
              | (Inr rep', q') \<Rightarrow> endings_of ctx now draw db cs rep' q')"

definition propose_endings ::
    "(str \<Rightarrow> 'k::linorder) \<Rightarrow> ('v, 'd) cleanup_ctx \<Rightarrow> instant \<Rightarrow> (nat \<Rightarrow> nat) \<Rightarrow> ('v, 's) mem_db \<Rightarrow>
     cardinality_row list \<Rightarrow> queue_row list \<Rightarrow> ending_report res \<times> queue_row list" where
  "propose_endings collate ctx now draw db declared q =
     endings_of ctx now draw db (arities collate declared)
       \<lparr>er_tags_scanned = 0, er_pairs_found = 0, er_queued = 0, er_already_known = 0, er_same_day_skipped = 0,
        er_truncated_tags = 0\<rparr> q"

section \<open>What a candidate is\<close>

lemma concat_grouped: "concat (grouped k xs) = xs"
  by (induction xs) (auto split: list.splits)

lemma scoped_iff:
  "r \<in> set (scoped now q db) \<longleftrightarrow>
     r \<in> set (md_rows db) \<and> row_live now r \<and> mr_content r \<noteq> None \<and> below_max (cq_max_sensitivity q) (mr_sensitivity r) \<and>
     in_scope (cq_namespace q) (mr_namespace r) \<and> admits (cq_grant q) (mr_namespace r) (mr_sensitivity r)"
  by (auto simp: scoped_def granted_row_admits)

lemma exact_from_scoped:
  assumes "g \<in> set (exact_duplicates collate normal now q db)" and "c \<in> set g"
  shows "\<exists>r \<in> set (scoped now q db). c = candidate_from None r"
proof -
  obtain rs r where "rs \<in> set (grouped (norm_of normal) (duplicate_rows collate normal now q db))" "r \<in> set rs"
    "c = candidate_from None r" using assms by (auto simp: exact_duplicates_def)
  moreover then have "r \<in> set (duplicate_rows collate normal now q db)"
    using concat_grouped[of "norm_of normal" "duplicate_rows collate normal now q db"] by (metis UN_I set_concat)
  ultimately show ?thesis by (auto simp: duplicate_rows_def Let_def dest!: in_set_takeD)
qed

lemma exact_nonempty: "g \<in> set (exact_duplicates collate normal now q db) \<Longrightarrow> 1 < length g"
  by (auto simp: exact_duplicates_def)

lemma pair_from_scoped:
  assumes "p \<in> set (similar_pairs dist_of slot least now q db)"
  shows "\<exists>a \<in> set (scoped now q db). \<exists>b \<in> set (scoped now q db).
    cp_older p = candidate_from None a \<and> cp_newer p = candidate_from None b \<and>
    mr_namespace b = mr_namespace a \<and> mr_id a \<noteq> mr_id b \<and> mr_created_at a \<le> mr_created_at b \<and> least \<le> cp_similarity p"
proof -
  obtain a b s where t: "(a, b, s) \<in> set (near_rows dist_of slot least now q db)" "p = pair_of a b s"
    using assms by (auto simp: similar_pairs_def dest!: in_set_takeD)
  then have ab: "a \<in> set (scoped now q db)" "b \<in> set (scoped now q db)" "mr_namespace b = mr_namespace a" "least \<le> s"
      "mr_id a < mr_id b"
    by (auto simp: near_rows_def Let_def)
  show ?thesis
  proof (cases "mr_created_at a \<le> mr_created_at b")
    case True
    then show ?thesis using ab t(2) by (intro bexI[of _ a] bexI[of _ b]) (auto simp: pair_of_def)
  next
    case False
    then show ?thesis using ab t(2) by (intro bexI[of _ b] bexI[of _ a]) (auto simp: pair_of_def)
  qed
qed

lemma unread_from_scoped: "c \<in> set (unread now q age db) \<Longrightarrow> \<exists>r \<in> set (scoped now q db). c = candidate_from None r"
  by (auto simp: unread_def dest!: in_set_takeD)


section \<open>What a finding is queued with\<close>

text \<open>A member that names a row the pass may read and holds its text; a row of the queue made of such members.\<close>

definition member_seen :: "('v, 'd) cleanup_ctx \<Rightarrow> ('w, 's) mem_row set \<Rightarrow> new_member \<Rightarrow> bool" where
  "member_seen ctx R m \<longleftrightarrow> (\<exists>r \<in> R. nb_memory_id m = cc_show ctx (mr_id r) \<and> mr_content r = Some (nb_seen_content m))"

definition row_seen :: "('v, 's) mem_row set \<Rightarrow> queue_row \<Rightarrow> bool" where
  "row_seen R x \<longleftrightarrow>
     qr_state x = Proposed \<and> (\<exists>r \<in> R. qr_namespace x = mr_namespace r) \<and>
     (\<forall>m \<in> set (qr_members x). \<exists>r \<in> R. mr_id r = qm_memory m \<and> mr_content r = Some (qm_seen m))"

lemma insert_members_seen:
  assumes "insert_members ctx db out ms = Inr qs" and "uuid_texts ctx" and "\<forall>m \<in> set ms. member_seen ctx R m"
    and "\<forall>x \<in> set out. \<exists>r \<in> R. mr_id r = qm_memory x \<and> mr_content r = Some (qm_seen x)"
  shows "\<forall>x \<in> set qs. \<exists>r \<in> R. mr_id r = qm_memory x \<and> mr_content r = Some (qm_seen x)"
  using assms(1,3,4)
proof (induction ms arbitrary: out)
  case (Cons m ms)
  obtain r where r: "r \<in> R" "nb_memory_id m = cc_show ctx (mr_id r)" "mr_content r = Some (nb_seen_content m)"
    using Cons.prems(2) by (auto simp: member_seen_def)
  then have i: "cc_uuid ctx (nb_memory_id m) = Some (mr_id r)" using assms(2) by (simp add: uuid_texts_def)
  let ?new = "\<lparr>qm_memory = mr_id r, qm_disposition = nb_disposition m, qm_seen = nb_seen_content m\<rparr>"
  let ?out = "if mr_id r \<in> set (map qm_memory out) then out else out @ [?new]"
  have "insert_members ctx db ?out ms = Inr qs" using Cons.prems(1) i by (simp split: if_splits)
  moreover have "\<exists>r \<in> R. mr_id r = qm_memory ?new \<and> mr_content r = Some (qm_seen ?new)" using r by auto
  then have "\<forall>x \<in> set ?out. \<exists>r \<in> R. mr_id r = qm_memory x \<and> mr_content r = Some (qm_seen x)"
    using Cons.prems(3) by simp
  ultimately show ?case using Cons.IH[of ?out] Cons.prems(2) by simp
qed simp

lemma reconciled_keeps [simp]:
  "np_kind (reconciled ctx db p) = np_kind p"
  "np_namespace (reconciled ctx db p) = np_namespace p"
  "map nb_memory_id (np_members (reconciled ctx db p)) = map nb_memory_id (np_members p)"
  by (auto simp: reconciled_def with_survivor_def split: option.splits)

lemma reconciled_members_seen:
  "(\<forall>m \<in> set (np_members (reconciled ctx db p)). member_seen ctx R m) \<longleftrightarrow> (\<forall>m \<in> set (np_members p). member_seen ctx R m)"
  by (auto simp: reconciled_def with_survivor_def member_seen_def split: option.splits)

lemma queue_cluster_seen:
  assumes "queue_cluster ctx now fresh p db q = Inr (out, q')" and "uuid_texts ctx"
    and "\<forall>m \<in> set (np_members p). member_seen ctx R m" and "\<exists>r \<in> R. np_namespace p = mr_namespace r"
  shows "q' = q \<or> (\<exists>x. q' = q @ [x] \<and> row_seen R x)"
  using assms(1)
proof (cases rule: queue_cluster_Inr)
  case (fresh ms)
  have "\<forall>x \<in> set ms. \<exists>r \<in> R. mr_id r = qm_memory x \<and> mr_content r = Some (qm_seen x)"
    by (rule insert_members_seen[OF fresh(2) assms(2,3)]) simp
  then show ?thesis using fresh(4) assms(4) by (simp add: row_seen_def)
qed simp

lemma queue_cluster_key:
  assumes "queue_cluster ctx now fresh p db q = Inr (out, q')"
  shows "cluster_key (cc_sha256 ctx) (np_kind p) (map nb_memory_id (np_members p)) \<in> qr_key ` set q' \<and> set q \<subseteq> set q'"
  using assms by (cases rule: queue_cluster_Inr) (auto intro: rev_image_eqI)

lemma queue_cluster_known:
  assumes "cluster_key (cc_sha256 ctx) (np_kind p) (map nb_memory_id (np_members p)) \<in> qr_key ` set q"
  shows "\<exists>i. queue_cluster ctx now fresh p db q = Inr ((AlreadyKnown, i), q)"
proof -
  have "List.find (\<lambda>x. qr_key x = cluster_key (cc_sha256 ctx) (np_kind p) (map nb_memory_id (np_members p))) q \<noteq> None"
    using assms by (simp add: find_key_None)
  then show ?thesis by (auto simp: queue_cluster_def Let_def)
qed

section \<open>The pass keeps an invariant\<close>

lemma each_found_keeps:
  assumes "I ps" and "\<And>x ps. x \<in> set xs \<Longrightarrow> I ps \<Longrightarrow> I (snd (f x ps))"
  shows "I (snd (each_found f xs ps))"
  using assms
proof (induction xs arbitrary: ps)
  case (Cons x xs)
  have "I (snd (f x ps))" using Cons.prems by simp
  then show ?case using Cons.IH[of "snd (f x ps)"] Cons.prems(2) by (auto split: prod.splits sum.splits)
qed simp

definition candidate_seen :: "('v, 's) mem_row set \<Rightarrow> candidate \<Rightarrow> bool" where
  "candidate_seen R c \<longleftrightarrow> (\<exists>r \<in> R. c = candidate_from None r)"

definition model_seen :: "('v, 's) mem_row set \<Rightarrow> real \<Rightarrow> real \<Rightarrow> model_candidate \<Rightarrow> bool" where
  "model_seen R least most c \<longleftrightarrow>
     (\<exists>a \<in> R. \<exists>b \<in> R. mc_a_id c = mr_id a \<and> mc_b_id c = mr_id b \<and> mr_id a \<noteq> mr_id b \<and>
        mr_content a = Some (mc_a_content c) \<and> mr_content b = Some (mc_b_content c) \<and>
        mr_namespace a = mc_namespace c \<and> mr_namespace b = mc_namespace c \<and>
        mr_sensitivity a = Open \<and> mr_sensitivity b = Open \<and> mr_created_at a \<le> mr_created_at b \<and>
        least \<le> mc_similarity c \<and> mc_similarity c < most)"

definition pass_ok :: "('v, 's) mem_row set \<Rightarrow> real \<Rightarrow> real \<Rightarrow> queue_row list \<Rightarrow> pass_state \<Rightarrow> bool" where
  "pass_ok R least most q ps \<longleftrightarrow>
     (\<exists>new. ps_queue ps = q @ new \<and> list_all (row_seen R) new) \<and> list_all (model_seen R least most) (ps_for_model ps)"

lemma model_may_see_Open: "model_may_see s \<longleftrightarrow> s = Open"
  by (cases s) (simp_all add: model_may_see_def MODEL_VISIBLE_CEILING_def less_eq_sensitivity_def)

lemma member_of_seen:
  "candidate_seen R c \<Longrightarrow> (\<And>r. r \<in> R \<Longrightarrow> mr_content r \<noteq> None) \<Longrightarrow> member_seen ctx R (member_of ctx d c)"
  by (fastforce simp: candidate_seen_def member_seen_def member_of_def candidate_from_def)

lemma pass_ok_cong:
  "ps_queue ps' = ps_queue ps \<Longrightarrow> ps_for_model ps' = ps_for_model ps \<Longrightarrow> pass_ok R least most q ps \<Longrightarrow> pass_ok R least most q ps'"
  by (simp add: pass_ok_def)

lemma note_row_simps [simp]:
  "ps_queue (note_row c ps) = ps_queue ps" "ps_for_model (note_row c ps) = ps_for_model ps"
  "ps_report (note_row c ps) = ps_report ps" "ps_claimed (note_row c ps) = ps_claimed ps"
  by (simp_all add: note_row_def)

lemma fold_note_row_simps [simp]:
  "ps_queue (fold note_row cs ps) = ps_queue ps" "ps_for_model (fold note_row cs ps) = ps_for_model ps"
  "ps_report (fold note_row cs ps) = ps_report ps" "ps_claimed (fold note_row cs ps) = ps_claimed ps"
  by (induction cs arbitrary: ps) simp_all

lemma queue_found_ok:
  assumes "pass_ok R least most q ps" and "uuid_texts ctx"
    and "\<forall>m \<in> set (np_members p). member_seen ctx R m" and "\<exists>r \<in> R. np_namespace p = mr_namespace r"
  shows "pass_ok R least most q (snd (queue_found ctx now draw db p ps))"
proof (cases "queue_checked ctx now (draw (rr_queued (ps_report ps) + rr_already_known (ps_report ps))) p db (ps_queue ps)")
  case (Inl e)
  then show ?thesis using assms(1) by (simp add: queue_found_def)
next
  case (Inr y)
  obtain out i q' where y: "y = ((out, i), q')" by (cases y) auto
  have "q' = ps_queue ps \<or> (\<exists>x. q' = ps_queue ps @ [x] \<and> row_seen R x)"
    by (rule queue_cluster_seen[OF Inr[unfolded queue_checked_def y] assms(2)])
      (use assms(3,4) in \<open>simp_all add: reconciled_members_seen\<close>)
  then show ?thesis using assms(1) Inr y by (auto simp: queue_found_def pass_ok_def)
qed

lemma pass_group_ok:
  assumes "pass_ok R least most q ps" and "uuid_texts ctx" and "\<And>r. r \<in> R \<Longrightarrow> mr_content r \<noteq> None"
    and "copies \<noteq> []" and "\<forall>c \<in> set copies. candidate_seen R c"
  shows "pass_ok R least most q (snd (pass_group ctx now draw db posted_by copies ps))"
proof -
  have "candidate_seen R (hd copies)" using assms(4,5) by simp
  then have "\<exists>r \<in> R. ca_namespace (hd copies) = mr_namespace r" by (auto simp: candidate_seen_def candidate_from_def)
  moreover have "\<forall>m \<in> set (np_members (exact_proposal ctx posted_by copies)). member_seen ctx R m"
    using assms(3,5) member_of_seen[where ctx = ctx and R = R] by (auto simp: exact_proposal_def Let_def)
  ultimately show ?thesis unfolding pass_group_def Let_def
    by (intro queue_found_ok pass_ok_cong[OF _ _ assms(1)] assms(2)) (simp_all add: exact_proposal_def Let_def)
qed

lemma pass_stale_ok:
  assumes "pass_ok R least most q ps" and "uuid_texts ctx" and "\<And>r. r \<in> R \<Longrightarrow> mr_content r \<noteq> None"
    and "candidate_seen R c"
  shows "pass_ok R least most q (snd (pass_stale ctx now draw db posted_by c ps))"
proof -
  have "\<exists>r \<in> R. ca_namespace c = mr_namespace r" using assms(4) by (auto simp: candidate_seen_def candidate_from_def)
  then show ?thesis unfolding pass_stale_def Let_def
    by (intro queue_found_ok pass_ok_cong[OF _ _ assms(1)] assms(2)) (use assms(3,4) member_of_seen[where ctx = ctx and R = R] in \<open>auto simp: stale_proposal_def\<close>)
qed

lemma pass_pair_ok:
  assumes "pass_ok R least most q ps" and "uuid_texts ctx" and "\<And>r. r \<in> R \<Longrightarrow> mr_content r \<noteq> None"
    and p: "cp_older p = candidate_from None a" "cp_newer p = candidate_from None b" "a \<in> R" "b \<in> R"
      "mr_namespace b = mr_namespace a" "mr_id a \<noteq> mr_id b" "mr_created_at a \<le> mr_created_at b" "least \<le> cp_similarity p"
  shows "pass_ok R least most q (snd (pass_pair ctx now draw db most posted_by p ps))"
proof -
  let ?n = "note_row (cp_newer p) (note_row (cp_older p) ps)"
  have n: "pass_ok R least most q ?n" by (rule pass_ok_cong[OF _ _ assms(1)]) simp_all
  have seen: "candidate_seen R (cp_older p)" "candidate_seen R (cp_newer p)" using p by (auto simp: candidate_seen_def)
  have near: "pass_ok R least most q (snd (queue_found ctx now draw db (paraphrase_proposal ctx posted_by p) ps'))"
    if "ps_queue ps' = ps_queue ps" "ps_for_model ps' = ps_for_model ps" for ps'
  proof (rule queue_found_ok[OF pass_ok_cong[OF that assms(1)] assms(2)])
    show "\<forall>m \<in> set (np_members (paraphrase_proposal ctx posted_by p)). member_seen ctx R m"
      using member_of_seen[where ctx = ctx, OF seen(1) assms(3)] member_of_seen[where ctx = ctx, OF seen(2) assms(3)] by (simp add: paraphrase_proposal_def)
    show "\<exists>r \<in> R. np_namespace (paraphrase_proposal ctx posted_by p) = mr_namespace r"
      using p(1,3) by (auto simp: paraphrase_proposal_def candidate_from_def)
  qed
  have model: "pass_ok R least most q (?n\<lparr>ps_for_model := ps_for_model ?n @ [model_candidate_of p]\<rparr>)"
    if "\<not> most \<le> cp_similarity p" "model_may_see (ca_sensitivity (cp_older p))" "model_may_see (ca_sensitivity (cp_newer p))"
  proof -
    have "mr_sensitivity a = Open" "mr_sensitivity b = Open"
      using that(2,3) p(1,2) by (auto simp: model_may_see_Open candidate_from_def)
    moreover obtain x y where "mr_content a = Some x" "mr_content b = Some y" using assms(3) p(3,4) by blast
    ultimately have "model_seen R least most (model_candidate_of p)"
      unfolding model_seen_def using that(1) p by (intro bexI[of _ a] bexI[of _ b]) (auto simp: model_candidate_of_def candidate_from_def)
    then show ?thesis using n by (auto simp: pass_ok_def)
  qed
  have held: "pass_ok R least most q (?n\<lparr>ps_report := x\<rparr>)" for x by (rule pass_ok_cong[OF _ _ n]) simp_all
  show ?thesis unfolding pass_pair_def Let_def using n near model held
    by (auto split: sum.splits)
qed


abbreviation pass_rows :: "instant \<Rightarrow> bounds \<Rightarrow> watermarks \<Rightarrow> ('v, 's) mem_db \<Rightarrow> ('v, 's) mem_row set" where
  "pass_rows now b marks db \<equiv> set (scoped now (pass_query b marks) db)"

lemma pass_findings_ok:
  assumes "uuid_texts ctx" and start: "pass_ok (pass_rows now b marks db) (bands_floor en (bo_min_similarity b)) (ep_near_certain en) q ps"
  shows "pass_ok (pass_rows now b marks db) (bands_floor en (bo_min_similarity b)) (ep_near_certain en) q
    (snd (pass_findings en ctx now draw b marks db ps))"
proof -
  let ?I = "pass_ok (pass_rows now b marks db) (bands_floor en (bo_min_similarity b)) (ep_near_certain en) q"
  have c: "mr_content r \<noteq> None" if "r \<in> pass_rows now b marks db" for r using that by (simp add: scoped_iff)
  have groups: "?I (snd (each_found (pass_group ctx now draw db (bo_posted_by b)) (pass_groups en now b marks db) ps))"
  proof (rule each_found_keeps[of ?I, OF start])
    fix copies ps assume g: "copies \<in> set (pass_groups en now b marks db)" "?I ps"
    then have "copies \<noteq> []" "\<forall>c \<in> set copies. candidate_seen (pass_rows now b marks db) c"
      using exact_nonempty[of copies] exact_from_scoped[of copies]
      by (fastforce simp: pass_groups_def candidate_seen_def)+
    then show "?I (snd (pass_group ctx now draw db (bo_posted_by b) copies ps))"
      by (intro pass_group_ok g(2) assms(1) c)
  qed
  have pairs: "?I (snd (each_found (pass_pair ctx now draw db (ep_near_certain en) (bo_posted_by b)) (pass_pairs en now b marks db) ps))"
    if "?I ps" for ps
  proof (rule each_found_keeps[of ?I, OF that])
    fix p ps assume p: "p \<in> set (pass_pairs en now b marks db)" "?I ps"
    from pair_from_scoped[OF p(1)[unfolded pass_pairs_def]] show "?I (snd (pass_pair ctx now draw db (ep_near_certain en) (bo_posted_by b) p ps))"
      by (elim bexE conjE) (rule pass_pair_ok[OF p(2) assms(1) c])
  qed
  have stale: "?I (snd (each_found (pass_stale ctx now draw db (bo_posted_by b)) (pass_unread now b marks db) ps))"
    if "?I ps" for ps
  proof (rule each_found_keeps[of ?I, OF that])
    fix x ps assume x: "x \<in> set (pass_unread now b marks db)" "?I ps"
    then have "candidate_seen (pass_rows now b marks db) x"
      using unread_from_scoped[of x] by (auto simp: pass_unread_def candidate_seen_def split: if_splits)
    then show "?I (snd (pass_stale ctx now draw db (bo_posted_by b) x ps))" by (intro pass_stale_ok x(2) assms(1) c)
  qed
  show ?thesis
    using groups pairs stale unfolding pass_findings_def by (auto split: prod.splits sum.splits) (metis snd_conv)+
qed

lemma pass_start_simps [simp]:
  "ps_for_model (pass_start now b db q) = []"
  "ps_queue (pass_start now b db q) = (if reads_everything (bo_grant b) then snd (close_answered now db q) else q)"
  by (auto simp: pass_start_def split: prod.splits)

lemma pass_all_ok:
  assumes "uuid_texts ctx" and "pass en ctx now draw b db q marks = (out, q', marks')"
  shows "\<exists>ps. q' = ps_queue ps \<and> (\<forall>rep cs. out = Inr (rep, cs) \<longrightarrow> cs = ps_for_model ps) \<and>
    pass_ok (pass_rows now b marks db) (bands_floor en (bo_min_similarity b)) (ep_near_certain en)
      (if reads_everything (bo_grant b) then snd (close_answered now db q) else q) ps"
proof -
  let ?ps = "snd (pass_findings en ctx now draw b marks db (pass_start now b db q))"
  have "pass_ok (pass_rows now b marks db) (bands_floor en (bo_min_similarity b)) (ep_near_certain en)
      (if reads_everything (bo_grant b) then snd (close_answered now db q) else q) ?ps"
    by (rule pass_findings_ok[OF assms(1)]) (simp add: pass_ok_def)
  moreover have "q' = ps_queue ?ps \<and> (\<forall>rep cs. out = Inr (rep, cs) \<longrightarrow> cs = ps_for_model ?ps)"
    using assms(2) by (auto simp: pass_def pass_end_def Let_def split: prod.splits sum.splits option.splits if_splits)
  ultimately show ?thesis by blast
qed

text \<open>
  Property C27. Every pair a pass hands out for a model is two live rows of one namespace, both stored at
  \<open>open\<close>, inside the caller's grant and the scope asked for, with the text the store holds, and in the
  band between the floor and the certain value.
\<close>

theorem model_sees_open_rows:
  assumes "uuid_texts ctx" and "pass en ctx now draw b db q marks = (Inr (rep, cs), q', marks')" and "c \<in> set cs"
  shows "\<exists>x \<in> set (md_rows db). \<exists>y \<in> set (md_rows db).
    mr_id x = mc_a_id c \<and> mr_id y = mc_b_id c \<and> mr_id x \<noteq> mr_id y \<and>
    mr_content x = Some (mc_a_content c) \<and> mr_content y = Some (mc_b_content c) \<and>
    row_live now x \<and> row_live now y \<and> mr_sensitivity x = Open \<and> mr_sensitivity y = Open \<and>
    mr_namespace x = mc_namespace c \<and> mr_namespace y = mc_namespace c \<and>
    in_scope (bo_scope b) (mc_namespace c) \<and> admits (bo_grant b) (mc_namespace c) Open \<and>
    bands_floor en (bo_min_similarity b) \<le> mc_similarity c \<and> mc_similarity c < ep_near_certain en"
proof -
  have "model_seen (pass_rows now b marks db) (bands_floor en (bo_min_similarity b)) (ep_near_certain en) c"
    using pass_all_ok[OF assms(1,2)] assms(3) by (auto simp: pass_ok_def list_all_iff)
  then obtain x y where xy: "x \<in> pass_rows now b marks db" "y \<in> pass_rows now b marks db"
      "mc_a_id c = mr_id x" "mc_b_id c = mr_id y" "mr_id x \<noteq> mr_id y"
      "mr_content x = Some (mc_a_content c)" "mr_content y = Some (mc_b_content c)"
      "mr_namespace x = mc_namespace c" "mr_namespace y = mc_namespace c" "mr_sensitivity x = Open" "mr_sensitivity y = Open"
      "bands_floor en (bo_min_similarity b) \<le> mc_similarity c" "mc_similarity c < ep_near_certain en"
    unfolding model_seen_def by (elim bexE conjE)
  show ?thesis
    by (intro bexI[of _ x] bexI[of _ y]) (use xy in \<open>auto simp: scoped_iff pass_query_def\<close>)
qed

lemma prefix_admits:
  "list_ex (\<lambda>g. if gr_exact g then ns = gr_prefix g else take (length (gr_prefix g)) ns = gr_prefix g) (split_grants gs) \<longleftrightarrow>
     admits gs ns Open"
  unfolding split_grants_def list_ex_iff admits_iff by (simp add: split_grant_matches)

text \<open>A row of the queue whose members the pass read is not one the sweep closes.\<close>

lemma row_seen_member:
  assumes d: "distinct (map mr_id (md_rows db))" and x: "row_seen (set (scoped now q db)) x" and mem: "m \<in> set (qr_members x)"
  shows "\<exists>r. find_row db (qm_memory m) = Some r \<and> r \<in> set (scoped now q db) \<and> mr_content r = Some (qm_seen m)"
proof -
  obtain r where r: "r \<in> set (scoped now q db)" "mr_id r = qm_memory m" "mr_content r = Some (qm_seen m)"
    using x[unfolded row_seen_def, THEN conjunct2, THEN conjunct2, THEN bspec, OF mem] by (elim bexE conjE)
  have "r \<in> set (md_rows db)" using r(1) unfolding scoped_iff by (elim conjE)
  from find_row_unique[OF d this] show ?thesis using r by auto
qed

lemma row_seen_current:
  assumes d: "distinct (map mr_id (md_rows db))" and x: "row_seen (set (scoped now q db)) x"
  shows "\<not> answered_by_store db x"
  unfolding answered_by_store_def list_ex_iff
proof (intro notI, elim conjE bexE)
  fix m assume am: "m \<in> set (qr_members x)" "case find_row db (qm_memory m) of None \<Rightarrow> True
    | Some r \<Rightarrow> mr_superseded_by r \<noteq> None \<or> mr_content r \<noteq> Some (qm_seen m)"
  from row_seen_member[OF d x am(1)] am(2) show False by (elim exE conjE) (simp add: scoped_iff row_live_def)
qed

text \<open>
  Property C28. What a pass adds to the queue can be acted on by the caller it ran for: every new finding waits,
  its namespace and each of its rows are within the grant, and each row is live and still holds the
  text the finding quotes, so the next sweep does not close it.
\<close>

theorem pass_queues_current:
  assumes "uuid_texts ctx" and d: "distinct (map mr_id (md_rows db))"
    and "pass en ctx now draw b db q marks = (out, q', marks')"
  shows "\<exists>old new. q' = old @ new \<and> map qr_id old = map qr_id q \<and>
    (\<forall>x \<in> set new. qr_state x = Proposed \<and> \<not> answered_by_store db x \<and>
       proposal_visible (split_grants (bo_grant b)) db x \<and>
       (\<forall>m \<in> set (qr_members x). \<exists>r. find_row db (qm_memory m) = Some r \<and> row_live now r \<and>
          mr_content r = Some (qm_seen m) \<and> in_scope (bo_scope b) (mr_namespace r)))"
proof -
  let ?R = "pass_rows now b marks db" and ?old = "if reads_everything (bo_grant b) then snd (close_answered now db q) else q"
  obtain new where n: "q' = ?old @ new" "list_all (row_seen ?R) new"
    using pass_all_ok[OF assms(1,3)] unfolding pass_ok_def by blast
  have "map qr_id ?old = map qr_id q" by (simp add: close_answered_def update_where_def comp_def if_distrib cong: if_cong)
  moreover have "qr_state x = Proposed \<and> \<not> answered_by_store db x \<and> proposal_visible (split_grants (bo_grant b)) db x \<and>
       (\<forall>m \<in> set (qr_members x). \<exists>r. find_row db (qm_memory m) = Some r \<and> row_live now r \<and>
          mr_content r = Some (qm_seen m) \<and> in_scope (bo_scope b) (mr_namespace r))" if "x \<in> set new" for x
  proof -
    have x: "row_seen ?R x" using n(2) that by (simp add: list_all_iff)
    have m: "\<exists>r. find_row db (qm_memory m) = Some r \<and> row_live now r \<and> mr_content r = Some (qm_seen m) \<and>
        in_scope (bo_scope b) (mr_namespace r) \<and> admits (bo_grant b) (mr_namespace r) (mr_sensitivity r)"
      if "m \<in> set (qr_members x)" for m
      using row_seen_member[OF d x that] unfolding scoped_iff
      by (elim exE conjE) (intro exI conjI, simp_all add: pass_query_def)
    obtain r0 where r0: "r0 \<in> ?R" "qr_namespace x = mr_namespace r0" using x[unfolded row_seen_def, THEN conjunct2, THEN conjunct1] by (elim bexE)
    have "admits (bo_grant b) (mr_namespace r0) (mr_sensitivity r0)"
      using r0(1) unfolding scoped_iff by (simp add: pass_query_def)
    then have ns: "admits (bo_grant b) (qr_namespace x) Open"
      unfolding admits_iff r0(2) by (elim bexE conjE) (rule bexI, simp_all add: less_eq_sensitivity_def)
    have "list_all (\<lambda>m. case find_row db (qm_memory m) of None \<Rightarrow> True
        | Some r \<Rightarrow> granted_row (split_grants (bo_grant b)) (mr_namespace r) (mr_sensitivity r)) (qr_members x)"
      unfolding list_all_iff
    proof
      fix m assume "m \<in> set (qr_members x)"
      from m[OF this] show "case find_row db (qm_memory m) of None \<Rightarrow> True
        | Some r \<Rightarrow> granted_row (split_grants (bo_grant b)) (mr_namespace r) (mr_sensitivity r)"
        by (elim exE conjE) (simp add: granted_row_admits)
    qed
    with ns have "proposal_visible (split_grants (bo_grant b)) db x" unfolding proposal_visible_def prefix_admits by blast
    moreover have "\<not> answered_by_store db x" by (rule row_seen_current[OF d x])
    moreover have "\<exists>r. find_row db (qm_memory m) = Some r \<and> row_live now r \<and> mr_content r = Some (qm_seen m) \<and>
        in_scope (bo_scope b) (mr_namespace r)" if "m \<in> set (qr_members x)" for m
      using m[OF that] by (elim exE conjE) (intro exI conjI)
    moreover have "qr_state x = Proposed" using x by (simp add: row_seen_def)
    ultimately show ?thesis by (intro conjI ballI)
  qed
  ultimately show ?thesis using n(1) by blast
qed


section \<open>The same window again\<close>

text \<open>The second of two runs over one window: what it notes is the same, and its queue already has everything.\<close>

definition repeats :: "queue_row list \<Rightarrow> pass_state \<Rightarrow> pass_state \<Rightarrow> bool" where
  "repeats Q ps ps' \<longleftrightarrow>
     ps_queue ps' = Q \<and> ps_newest ps' = ps_newest ps \<and> ps_claimed ps' = ps_claimed ps \<and>
     ps_for_model ps' = ps_for_model ps \<and> rr_queued (ps_report ps') = 0 \<and>
     rr_closed_as_answered (ps_report ps') = 0 \<and>
     rr_already_known (ps_report ps') = rr_queued (ps_report ps) + rr_already_known (ps_report ps)"

abbreviation keys_of :: "queue_row list \<Rightarrow> str set" where "keys_of q \<equiv> qr_key ` set q"

definition repeatable ::
    "queue_row list \<Rightarrow> ('a \<Rightarrow> pass_state \<Rightarrow> unit res \<times> pass_state) \<Rightarrow> ('a \<Rightarrow> pass_state \<Rightarrow> unit res \<times> pass_state) \<Rightarrow> bool" where
  "repeatable Q f f' \<longleftrightarrow>
     (\<forall>x ps ps1. f x ps = (Inr (), ps1) \<longrightarrow> set (ps_queue ps) \<subseteq> set (ps_queue ps1) \<and>
        (keys_of (ps_queue ps1) \<subseteq> keys_of Q \<longrightarrow>
           (\<forall>ps'. repeats Q ps ps' \<longrightarrow> (\<exists>ps1'. f' x ps' = (Inr (), ps1') \<and> repeats Q ps1 ps1'))))"

lemma queue_found_Inr:
  assumes "queue_found ctx now draw db p ps = (Inr (), ps1)"
  obtains out i q where "queue_cluster ctx now (draw (rr_queued (ps_report ps) + rr_already_known (ps_report ps)))
      (reconciled ctx db p) db (ps_queue ps) = Inr ((out, i), q)"
    "ps1 = ps\<lparr>ps_queue := q, ps_report := tally out (ps_report ps)\<rparr>"
  using assms by (auto simp: queue_found_def queue_checked_def split: sum.splits)

lemma tally_sum: "rr_queued (tally out rep) + rr_already_known (tally out rep) = Suc (rr_queued rep + rr_already_known rep)"
  by (cases out) simp_all

lemma queue_found_repeatable: "repeatable Q (queue_found ctx now draw db) (queue_found ctx now draw' db)"
  unfolding repeatable_def
proof (intro allI impI conjI)
  fix p ps ps1 assume r: "queue_found ctx now draw db p ps = (Inr (), ps1)"
  obtain out i q where q: "queue_cluster ctx now (draw (rr_queued (ps_report ps) + rr_already_known (ps_report ps)))
      (reconciled ctx db p) db (ps_queue ps) = Inr ((out, i), q)"
    "ps1 = ps\<lparr>ps_queue := q, ps_report := tally out (ps_report ps)\<rparr>"
    using queue_found_Inr[OF r] .
  note key = queue_cluster_key[OF q(1)]
  show "set (ps_queue ps) \<subseteq> set (ps_queue ps1)" using key q(2) by simp
  fix ps' assume k: "keys_of (ps_queue ps1) \<subseteq> keys_of Q" and rep: "repeats Q ps ps'"
  have "cluster_key (cc_sha256 ctx) (np_kind (reconciled ctx db p)) (map nb_memory_id (np_members (reconciled ctx db p)))
      \<in> keys_of (ps_queue ps')"
    using key k q(2) rep by (auto simp: repeats_def)
  from queue_cluster_known[OF this] obtain j where
    "queue_checked ctx now (draw' (rr_queued (ps_report ps') + rr_already_known (ps_report ps'))) p db (ps_queue ps')
       = Inr ((AlreadyKnown, j), ps_queue ps')"
    unfolding queue_checked_def by blast
  then have "queue_found ctx now draw' db p ps' = (Inr (), ps'\<lparr>ps_report := tally AlreadyKnown (ps_report ps')\<rparr>)"
    by (simp add: queue_found_def)
  moreover have "repeats Q ps1 (ps'\<lparr>ps_report := tally AlreadyKnown (ps_report ps')\<rparr>)"
    using rep q(2) tally_sum[of out "ps_report ps"] by (simp add: repeats_def)
  ultimately show "\<exists>ps1'. queue_found ctx now draw' db p ps' = (Inr (), ps1') \<and> repeats Q ps1 ps1'" by blast
qed

lemmas queue_found_again = queue_found_repeatable[unfolded repeatable_def, rule_format]

lemma note_row_repeats: "repeats Q ps ps' \<Longrightarrow> repeats Q (note_row c ps) (note_row c ps')"
  by (simp add: repeats_def note_row_def)

lemma fold_note_row_repeats: "repeats Q ps ps' \<Longrightarrow> repeats Q (fold note_row cs ps) (fold note_row cs ps')"
  by (induction cs arbitrary: ps ps') (simp_all add: note_row_repeats)

lemma pass_group_repeatable:
  "repeatable Q (pass_group ctx now draw db posted_by) (pass_group ctx now draw' db posted_by)"
  unfolding repeatable_def
proof (intro allI impI)
  fix copies :: "candidate list" and ps ps1 :: pass_state
  define at1 :: "pass_state \<Rightarrow> pass_state" where "at1 ps = (fold note_row copies ps)\<lparr>ps_report := (ps_report (fold note_row copies ps))
      \<lparr>rr_exact_groups := Suc (rr_exact_groups (ps_report (fold note_row copies ps))),
       rr_anchored := rr_anchored (ps_report (fold note_row copies ps)) + length copies\<rparr>,
      ps_claimed := ps_claimed (fold note_row copies ps) @ map ca_id copies\<rparr>" for ps
  have g: "pass_group ctx now dr db posted_by copies ps = queue_found ctx now dr db (exact_proposal ctx posted_by copies) (at1 ps)"
    for dr ps by (simp add: pass_group_def at1_def Let_def)
  have a: "repeats Q (at1 ps) (at1 ps')" if "repeats Q ps ps'" for ps'
    using fold_note_row_repeats[OF that, of copies] by (simp add: repeats_def at1_def)
  assume r: "pass_group ctx now draw db posted_by copies ps = (Inr (), ps1)"
  note again = queue_found_again[OF r[unfolded g]]
  have "ps_queue (at1 ps) = ps_queue ps" by (simp add: at1_def)
  then show "set (ps_queue ps) \<subseteq> set (ps_queue ps1) \<and> (keys_of (ps_queue ps1) \<subseteq> keys_of Q \<longrightarrow>
      (\<forall>ps'. repeats Q ps ps' \<longrightarrow> (\<exists>ps1'. pass_group ctx now draw' db posted_by copies ps' = (Inr (), ps1') \<and> repeats Q ps1 ps1')))"
    using again a unfolding g by simp
qed

lemma pass_stale_repeatable:
  "repeatable Q (pass_stale ctx now draw db posted_by) (pass_stale ctx now draw' db posted_by)"
  unfolding repeatable_def
proof (intro allI impI)
  fix c :: candidate and ps ps1 :: pass_state
  define at1 :: "pass_state \<Rightarrow> pass_state" where "at1 ps = ps\<lparr>ps_report := (ps_report ps)\<lparr>rr_stale_rows := Suc (rr_stale_rows (ps_report ps))\<rparr>\<rparr>" for ps
  have g: "pass_stale ctx now dr db posted_by c ps = queue_found ctx now dr db (stale_proposal ctx posted_by c) (at1 ps)"
    for dr ps by (simp add: pass_stale_def at1_def Let_def)
  assume r: "pass_stale ctx now draw db posted_by c ps = (Inr (), ps1)"
  note again = queue_found_again[OF r[unfolded g]]
  show "set (ps_queue ps) \<subseteq> set (ps_queue ps1) \<and> (keys_of (ps_queue ps1) \<subseteq> keys_of Q \<longrightarrow>
      (\<forall>ps'. repeats Q ps ps' \<longrightarrow> (\<exists>ps1'. pass_stale ctx now draw' db posted_by c ps' = (Inr (), ps1') \<and> repeats Q ps1 ps1')))"
    using again unfolding g by (simp add: at1_def repeats_def)
qed

lemma pass_pair_repeatable:
  "repeatable Q (pass_pair ctx now draw db near posted_by) (pass_pair ctx now draw' db near posted_by)"
  unfolding repeatable_def
proof (intro allI impI)
  fix p :: candidate_pair and ps ps1 :: pass_state
  define at1 :: "pass_state \<Rightarrow> pass_state" where "at1 ps = (note_row (cp_newer p) (note_row (cp_older p) ps))\<lparr>ps_report := (ps_report ps)
      \<lparr>rr_near_certain_pairs := Suc (rr_near_certain_pairs (ps_report ps))\<rparr>\<rparr>" for ps
  assume r: "pass_pair ctx now draw db near posted_by p ps = (Inr (), ps1)"
  show "set (ps_queue ps) \<subseteq> set (ps_queue ps1) \<and> (keys_of (ps_queue ps1) \<subseteq> keys_of Q \<longrightarrow>
      (\<forall>ps'. repeats Q ps ps' \<longrightarrow> (\<exists>ps1'. pass_pair ctx now draw' db near posted_by p ps' = (Inr (), ps1') \<and> repeats Q ps1 ps1')))"
  proof (cases "\<not> (ca_id (cp_older p) \<in> set (ps_claimed ps) \<and> ca_id (cp_newer p) \<in> set (ps_claimed ps)) \<and> near \<le> cp_similarity p")
    case True
    have g: "pass_pair ctx now dr db near posted_by p qs = queue_found ctx now dr db (paraphrase_proposal ctx posted_by p) (at1 qs)"
      if "ps_claimed qs = ps_claimed ps" for dr qs
      using True that by (auto simp: pass_pair_def at1_def Let_def)
    have a: "repeats Q (at1 ps) (at1 ps')" "ps_claimed ps' = ps_claimed ps" if "repeats Q ps ps'" for ps'
      using note_row_repeats[OF note_row_repeats[OF that]] that by (simp_all add: repeats_def at1_def)
    note again = queue_found_again[OF r[unfolded g[OF refl]]]
    have "ps_queue (at1 ps) = ps_queue ps" by (simp add: at1_def)
    then show ?thesis using again a g by simp
  next
    case False
    have same: "repeats Q ps ps' \<Longrightarrow> \<exists>ps1'. pass_pair ctx now draw' db near posted_by p ps' = (Inr (), ps1') \<and> repeats Q ps1 ps1'" for ps'
      using r False note_row_repeats[OF note_row_repeats, of Q ps ps' "cp_newer p" "cp_older p"]
      by (auto simp: pass_pair_def Let_def repeats_def split: if_splits sum.splits)
    have "ps_queue ps1 = ps_queue ps"
      using r False by (auto simp: pass_pair_def Let_def split: if_splits sum.splits)
    then show ?thesis using same by simp
  qed
qed

lemma each_found_repeatable:
  assumes "repeatable Q f f'"
  shows "each_found f xs ps = (Inr (), ps1) \<Longrightarrow> set (ps_queue ps) \<subseteq> set (ps_queue ps1) \<and>
    (keys_of (ps_queue ps1) \<subseteq> keys_of Q \<longrightarrow>
      (\<forall>ps'. repeats Q ps ps' \<longrightarrow> (\<exists>ps1'. each_found f' xs ps' = (Inr (), ps1') \<and> repeats Q ps1 ps1')))"
proof (induction xs arbitrary: ps)
  case (Cons x xs)
  obtain ps2 where s: "f x ps = (Inr (), ps2)" "each_found f xs ps2 = (Inr (), ps1)"
    using Cons.prems by (auto split: prod.splits sum.splits)
  note step = assms[unfolded repeatable_def, rule_format, OF s(1)] and rest = Cons.IH[OF s(2)]
  have mono: "set (ps_queue ps) \<subseteq> set (ps_queue ps1)" using step rest by blast
  have "\<exists>ps1'. each_found f' (x # xs) ps' = (Inr (), ps1') \<and> repeats Q ps1 ps1'"
    if k: "keys_of (ps_queue ps1) \<subseteq> keys_of Q" and again: "repeats Q ps ps'" for ps'
  proof -
    have "keys_of (ps_queue ps2) \<subseteq> keys_of Q" using rest k by (meson image_mono subset_trans)
    then obtain ps2' where 2: "f' x ps' = (Inr (), ps2')" "repeats Q ps2 ps2'" using step again by blast
    then obtain ps1' where "each_found f' xs ps2' = (Inr (), ps1')" "repeats Q ps1 ps1'" using rest k by blast
    then show ?thesis using 2(1) by simp
  qed
  then show ?case using mono by blast
qed simp


lemma pass_findings_repeat:
  assumes "pass_findings en ctx now draw b marks db ps = (Inr (), ps1)" and "keys_of (ps_queue ps1) \<subseteq> keys_of Q" and "repeats Q ps ps'"
  shows "\<exists>ps1'. pass_findings en ctx now draw' b marks db ps' = (Inr (), ps1') \<and> repeats Q ps1 ps1'"
proof -
  obtain psa psb where s: "each_found (pass_group ctx now draw db (bo_posted_by b)) (pass_groups en now b marks db) ps = (Inr (), psa)"
    "each_found (pass_pair ctx now draw db (ep_near_certain en) (bo_posted_by b)) (pass_pairs en now b marks db) psa = (Inr (), psb)"
    "each_found (pass_stale ctx now draw db (bo_posted_by b)) (pass_unread now b marks db) psb = (Inr (), ps1)"
    using assms(1) by (auto simp: pass_findings_def split: prod.splits sum.splits)
  note g = each_found_repeatable[OF pass_group_repeatable[where draw' = draw' and Q = Q] s(1)]
    and p = each_found_repeatable[OF pass_pair_repeatable[where draw' = draw' and Q = Q] s(2)]
    and u = each_found_repeatable[OF pass_stale_repeatable[where draw' = draw' and Q = Q] s(3)]
  have k: "keys_of (ps_queue psb) \<subseteq> keys_of Q" "keys_of (ps_queue psa) \<subseteq> keys_of Q"
    using p u assms(2) by blast+
  obtain psa' where a: "each_found (pass_group ctx now draw' db (bo_posted_by b)) (pass_groups en now b marks db) ps' = (Inr (), psa')"
    "repeats Q psa psa'" using g k(2) assms(3) by blast
  obtain psb' where b: "each_found (pass_pair ctx now draw' db (ep_near_certain en) (bo_posted_by b)) (pass_pairs en now b marks db) psa' = (Inr (), psb')"
    "repeats Q psb psb'" using p k(1) a(2) by blast
  obtain ps1' where c: "each_found (pass_stale ctx now draw' db (bo_posted_by b)) (pass_unread now b marks db) psb' = (Inr (), ps1')"
    "repeats Q ps1 ps1'" using u assms(2) b(2) by blast
  show ?thesis using a b c by (simp add: pass_findings_def)
qed

lemma close_answered_idle: "list_all (\<lambda>p. \<not> answered_by_store db p) q \<Longrightarrow> close_answered now db q = ([], q)"
  by (auto simp: close_answered_def update_where_def list_all_iff intro: map_idI)

lemma close_answered_done: "list_all (\<lambda>p. \<not> answered_by_store db p) (snd (close_answered now db q))"
  by (auto simp: close_answered_def update_where_def list_all_iff answered_by_store_def)

text \<open>
  Property C29. A pass run again over the same window reports every finding as known and queues nothing: the queue
  is left as it was, and the pairs handed out for a model are the same.
\<close>

theorem second_pass_queues_nothing:
  assumes "uuid_texts ctx" and d: "distinct (map mr_id (md_rows db))"
    and r: "pass en ctx now draw b db q marks = (Inr (rep, cs), q', marks')"
  shows "\<exists>rep' marks''. pass en ctx now draw' b db q' marks = (Inr (rep', cs), q', marks'') \<and>
    rr_queued rep' = 0 \<and> rr_already_known rep' = rr_queued rep + rr_already_known rep \<and> rr_closed_as_answered rep' = 0"
proof -
  let ?start = "pass_start now b db q"
  obtain ps where f: "pass_findings en ctx now draw b marks db ?start = (Inr (), ps)" and q': "q' = ps_queue ps"
    and e: "pass_end en now b marks db ps = (Inr (rep, cs), marks')"
    using r by (auto simp: pass_def split: prod.splits sum.splits)
  have "list_all (\<lambda>p. \<not> answered_by_store db p) q'" if all: "reads_everything (bo_grant b)"
  proof -
    have "pass_ok (pass_rows now b marks db) (bands_floor en (bo_min_similarity b)) (ep_near_certain en)
        (snd (close_answered now db q)) ps"
      using pass_findings_ok[OF assms(1), where draw = draw and ps = ?start and now = now and b = b and marks = marks
          and db = db and en = en and q = "ps_queue ?start"] f all by (simp add: pass_ok_def)
    then obtain new where n: "q' = snd (close_answered now db q) @ new" "list_all (row_seen (pass_rows now b marks db)) new"
      unfolding pass_ok_def q' by blast
    have "\<not> answered_by_store db x" if "x \<in> set new" for x
      using row_seen_current[OF d _ ] n(2) that by (auto simp: list_all_iff)
    then show ?thesis using n(1) close_answered_done[of db now q] by (auto simp: list_all_iff)
  qed
  then have start: "pass_start now b db q' = \<lparr>ps_report = (no_report b)\<lparr>rr_closed_as_answered := 0\<rparr>, ps_queue = q',
      ps_newest = None, ps_claimed = [], ps_for_model = []\<rparr>"
    by (simp add: pass_start_def close_answered_idle)
  have "repeats q' ?start (pass_start now b db q')"
    unfolding start by (simp add: repeats_def pass_start_def no_report_def split: prod.splits)
  from pass_findings_repeat[OF f _ this] q' obtain ps' where
    ps': "pass_findings en ctx now draw' b marks db (pass_start now b db q') = (Inr (), ps')" "repeats q' ps ps'" by blast
  show ?thesis using e ps'
    by (auto simp: pass_def pass_end_def repeats_def Let_def split: option.splits sum.splits if_splits)
qed


section \<open>Endings proposed for declared subjects\<close>

lemma pairs_from_ordered:
  "p \<in> set (fst (pairs_from rows)) \<Longrightarrow>
     \<exists>a \<in> set rows. \<exists>b \<in> set rows. en_earlier_id p = ca_id a \<and> en_later_id p = ca_id b \<and>
       ca_occurred_at a = Some (en_earlier_occurred_at p) \<and> ca_occurred_at b = Some (en_later_occurred_at p) \<and>
       en_earlier_occurred_at p < en_later_occurred_at p"
proof (induction rows rule: pairs_from.induct)
  case (1 a b rest)
  obtain ps n where r: "pairs_from (b # rest) = (ps, n)" by (cases "pairs_from (b # rest)")
  show ?case
  proof (cases "p \<in> set ps")
    case True
    then have "p \<in> set (fst (pairs_from (b # rest)))" using r by simp
    from "1.IH"[OF this] show ?thesis by (meson list.set_intros(2))
  next
    case False
    obtain s t where st: "ca_occurred_at a = Some s" "ca_occurred_at b = Some t" "s < t"
        "p = \<lparr>en_earlier_id = ca_id a, en_earlier_content = ca_content a, en_earlier_occurred_at = s,
              en_later_id = ca_id b, en_later_content = ca_content b, en_later_occurred_at = t\<rparr>"
      using "1.prems" False r by (auto split: option.splits if_splits)
    show ?thesis by (rule bexI[of _ a], rule bexI[of _ b]) (use st in simp_all)
  qed
qed simp_all

definition subject_rows :: "instant \<Rightarrow> principal \<Rightarrow> str \<Rightarrow> ('v, 's) mem_db \<Rightarrow> ('v, 's) mem_row set" where
  "subject_rows now p tag db =
     {r \<in> set (md_rows db). row_live now r \<and> mr_occurred_at r \<noteq> None \<and> tag \<in> set (mr_tags r) \<and>
        mr_sensitivity r = Open \<and> admits (p_read p) (mr_namespace r) Open}"

lemma sensitivity_le_Open: "s \<le> Open \<longleftrightarrow> s = Open"
  by (cases s) (simp_all add: less_eq_sensitivity_def)

lemma scan_rows:
  assumes "distinct (map mr_id (md_rows db))"
  shows "distinct (map ca_id (fst (scan now p tag db)))"
    and "c \<in> set (fst (scan now p tag db)) \<Longrightarrow> \<exists>r \<in> subject_rows now p tag db. c = candidate_from (mr_occurred_at r) r"
proof -
  let ?f = "filter (\<lambda>r. row_live now r \<and> mr_occurred_at r \<noteq> None \<and> tag \<in> set (mr_tags r) \<and>
      mr_sensitivity r \<le> Open \<and> granted_row (split_grants (p_read p)) (mr_namespace r) (mr_sensitivity r)) (md_rows db)"
  let ?g = "take 500 (sort_key (\<lambda>r. (- the (mr_occurred_at r), - int (mr_id r))) ?f)"
  have e: "fst (scan now p tag db) = rev (map (\<lambda>r. candidate_from (mr_occurred_at r) r) ?g)"
    by (simp add: scan_def tagged_dated_def scan_query_def TAG_SCAN_LIMIT_def Let_def)
  have "distinct (map mr_id ?f)" using assms by (rule distinct_map_filter)
  then have "distinct (map mr_id (sort_key (\<lambda>r. (- the (mr_occurred_at r), - int (mr_id r))) ?f))"
    by (simp add: distinct_map)
  then have "distinct (map mr_id ?g)" by (simp add: take_map [symmetric])
  then show "distinct (map ca_id (fst (scan now p tag db)))"
    unfolding e by (simp add: rev_map [symmetric] candidate_from_def comp_def)
  show "\<exists>r \<in> subject_rows now p tag db. c = candidate_from (mr_occurred_at r) r" if "c \<in> set (fst (scan now p tag db))"
  proof -
    have "c \<in> (\<lambda>r. candidate_from (mr_occurred_at r) r) ` set ?g" using that unfolding e set_rev set_map .
    then obtain r where "r \<in> set ?g" "c = candidate_from (mr_occurred_at r) r" by (rule imageE)
    moreover then have "r \<in> subject_rows now p tag db"
      by (auto simp: subject_rows_def sensitivity_le_Open granted_row_admits dest!: in_set_takeD)
    ultimately show ?thesis by blast
  qed
qed

lemma find_by_ca_id:
  assumes "distinct (map ca_id rows)" and "c \<in> set rows"
  shows "List.find (\<lambda>r. ca_id r = ca_id c) rows = Some c"
  using assms by (induction rows) auto

definition ending_ok :: "instant \<Rightarrow> principal \<Rightarrow> str set \<Rightarrow> ('v, 's) mem_db \<Rightarrow> queue_row \<Rightarrow> bool" where
  "ending_ok now p tags db x \<longleftrightarrow>
     qr_kind x = Supersession \<and> qr_state x = Proposed \<and>
     (\<exists>tag \<in> tags. \<exists>a \<in> subject_rows now p tag db. \<exists>b \<in> subject_rows now p tag db.
        the (mr_occurred_at a) < the (mr_occurred_at b) \<and> qr_keep_id x = Some (mr_id b) \<and>
        map (\<lambda>m. (qm_memory m, qm_disposition m)) (qr_members x) = [(mr_id a, D_Retire), (mr_id b, D_Keep)])"

lemma queue_ending_ok:
  assumes "uuid_texts ctx" and "queue_cluster ctx now fresh (ending_proposal ctx earlier later) db q = Inr (out, q')"
    and "earlier = candidate_from (mr_occurred_at a) a" "later = candidate_from (mr_occurred_at b) b"
    and "a \<in> subject_rows now p tag db" "b \<in> subject_rows now p tag db" "the (mr_occurred_at a) < the (mr_occurred_at b)"
    and "tag \<in> tags" and d: "distinct (map mr_id (md_rows db))"
  shows "\<exists>new. q' = q @ new \<and> list_all (ending_ok now p tags db) new"
  using assms(2)
proof (cases rule: queue_cluster_Inr)
  case (fresh ms)
  have u: "cc_uuid ctx (cc_show ctx i) = Some i" for i using assms(1) by (simp add: uuid_texts_def)
  have "mr_id a \<noteq> mr_id b"
  proof
    assume "mr_id a = mr_id b"
    moreover have "a \<in> set (md_rows db)" "b \<in> set (md_rows db)" using assms(5,6) by (simp_all add: subject_rows_def)
    ultimately have "a = b" using d by (simp add: distinct_map inj_on_def)
    then show False using assms(7) by simp
  qed
  then have "map (\<lambda>m. (qm_memory m, qm_disposition m)) ms = [(mr_id a, D_Retire), (mr_id b, D_Keep)]"
    using fresh(2) assms(3,4) by (auto simp: ending_proposal_def member_of_def candidate_from_def u split: if_splits)
  then have "ending_ok now p tags db (last q')"
    unfolding ending_ok_def fresh(4) using assms(3-8)
    by (intro conjI bexI[of _ tag] bexI[of _ a] bexI[of _ b]) (simp_all add: ending_proposal_def candidate_from_def u)
  then show ?thesis using fresh(4) by simp
qed simp

lemma queue_endings_ok:
  assumes "uuid_texts ctx" and d: "distinct (map mr_id (md_rows db))" and "tag \<in> tags"
    and rows: "rows = fst (scan now p tag db)"
  shows "set pairs \<subseteq> set (fst (pairs_from rows)) \<Longrightarrow>
    \<exists>new. snd (queue_endings ctx now draw db rows pairs rep q) = q @ new \<and> list_all (ending_ok now p tags db) new"
proof (induction pairs arbitrary: rep q)
  case (Cons pr pairs)
  obtain x y where xy: "x \<in> set rows" "y \<in> set rows" "en_earlier_id pr = ca_id x" "en_later_id pr = ca_id y"
      "ca_occurred_at x = Some (en_earlier_occurred_at pr)" "ca_occurred_at y = Some (en_later_occurred_at pr)"
      "en_earlier_occurred_at pr < en_later_occurred_at pr"
    using Cons.prems pairs_from_ordered[of pr rows] by auto
  have found: "List.find (\<lambda>r. ca_id r = en_earlier_id pr) rows = Some x" "List.find (\<lambda>r. ca_id r = en_later_id pr) rows = Some y"
    using find_by_ca_id[of rows] scan_rows(1)[OF d] xy(1-4) unfolding rows by simp_all
  obtain a b where ab: "a \<in> subject_rows now p tag db" "x = candidate_from (mr_occurred_at a) a"
      "b \<in> subject_rows now p tag db" "y = candidate_from (mr_occurred_at b) b"
    using scan_rows(2)[OF d] xy(1,2) unfolding rows by blast
  have less: "the (mr_occurred_at a) < the (mr_occurred_at b)" using xy(5-7) ab(2,4) by (simp add: candidate_from_def)
  have sub: "set pairs \<subseteq> set (fst (pairs_from rows))" using Cons.prems by simp
  show ?case
  proof (cases "queue_cluster ctx now (draw (er_queued rep + er_already_known rep)) (ending_proposal ctx x y) db q")
    case (Inl e)
    then show ?thesis using found by simp
  next
    case (Inr o1)
    obtain out i q1 where o1: "o1 = ((out, i), q1)" by (cases o1) auto
    obtain new where n: "q1 = q @ new" "list_all (ending_ok now p tags db) new"
      using queue_ending_ok[OF assms(1) Inr[unfolded o1] ab(2,4,1,3) less assms(3) d] by blast
    obtain rep' where "queue_endings ctx now draw db rows (pr # pairs) rep q = queue_endings ctx now draw db rows pairs rep' q1"
      using found Inr o1 by (cases out) auto
    moreover obtain new' where "snd (queue_endings ctx now draw db rows pairs rep' q1) = q1 @ new'" "list_all (ending_ok now p tags db) new'"
      using Cons.IH[OF sub] by blast
    ultimately show ?thesis using n by auto
  qed
qed simp

lemma endings_of_ok:
  assumes "uuid_texts ctx" and d: "distinct (map mr_id (md_rows db))"
    and "\<forall>c \<in> set cs. cd_arity c = Single \<longrightarrow> cd_tag c \<in> tags"
  shows "\<exists>new. snd (endings_of ctx now draw db cs rep q) = q @ new \<and> list_all (ending_ok now (cc_principal ctx) tags db) new"
  using assms(3)
proof (induction cs arbitrary: rep q)
  case (Cons c cs)
  show ?case
  proof (cases "cd_arity c = Single")
    case True
    obtain rows tr where s: "scan now (cc_principal ctx) (cd_tag c) db = (rows, tr)" by (cases "scan now (cc_principal ctx) (cd_tag c) db") auto
    obtain pairs sd where p: "pairs_from rows = (pairs, sd)" by (cases "pairs_from rows") auto
    have tag: "cd_tag c \<in> tags" using Cons.prems True by simp
    define rep1 where "rep1 = rep\<lparr>er_tags_scanned := Suc (er_tags_scanned rep),
                          er_truncated_tags := er_truncated_tags rep + (if tr then 1 else 0),
                          er_same_day_skipped := er_same_day_skipped rep + sd,
                          er_pairs_found := er_pairs_found rep + length pairs\<rparr>"
    obtain new where n: "snd (queue_endings ctx now draw db rows pairs rep1 q) = q @ new"
        "list_all (ending_ok now (cc_principal ctx) tags db) new"
      using queue_endings_ok[OF assms(1) d tag, of rows now "cc_principal ctx" pairs draw rep1 q] s p by auto
    obtain out q1 where o1: "queue_endings ctx now draw db rows pairs rep1 q = (out, q1)"
      by (cases "queue_endings ctx now draw db rows pairs rep1 q") auto
    show ?thesis
    proof (cases out)
      case (Inl e)
      then show ?thesis using n o1 True s p by (simp add: rep1_def[symmetric])
    next
      case (Inr rep2)
      obtain new' where "snd (endings_of ctx now draw db cs rep2 q1) = q1 @ new'" "list_all (ending_ok now (cc_principal ctx) tags db) new'"
        using Cons.IH[of rep2 q1] Cons.prems by auto
      then show ?thesis using n o1 True s p Inr by (simp add: rep1_def[symmetric])
    qed
  next
    case False
    then show ?thesis using Cons.IH[of rep q] Cons.prems by simp
  qed
qed simp

text \<open>
  Property C30. The supersession pass only proposes endings the store can order: each new finding retires one
  fact into another of the same declared subject that became true strictly later, both live, dated,
  at \<open>open\<close> and within the caller's grant; a subject not declared to hold one value gets none.
\<close>

theorem endings_are_ordered:
  assumes "uuid_texts ctx" and "distinct (map mr_id (md_rows db))"
    and "propose_endings collate ctx now draw db declared q = (out, q')"
  shows "\<exists>new. q' = q @ new \<and> (\<forall>x \<in> set new. qr_kind x = Supersession \<and> qr_state x = Proposed \<and>
    (\<exists>c \<in> set declared. \<exists>a \<in> set (md_rows db). \<exists>b \<in> set (md_rows db).
       kr_arity c = u ''single'' \<and> kr_tag c \<in> set (mr_tags a) \<and> kr_tag c \<in> set (mr_tags b) \<and>
       row_live now a \<and> row_live now b \<and> mr_sensitivity a = Open \<and> mr_sensitivity b = Open \<and>
       can_read (cc_principal ctx) (mr_namespace a) Open \<and> can_read (cc_principal ctx) (mr_namespace b) Open \<and>
       (\<exists>s t. mr_occurred_at a = Some s \<and> mr_occurred_at b = Some t \<and> s < t) \<and>
       qr_keep_id x = Some (mr_id b) \<and>
       map (\<lambda>m. (qm_memory m, qm_disposition m)) (qr_members x) = [(mr_id a, D_Retire), (mr_id b, D_Keep)]))"
proof -
  let ?tags = "kr_tag ` {c \<in> set declared. kr_arity c = u ''single''}"
  have "\<forall>c \<in> set (arities collate declared). cd_arity c = Single \<longrightarrow> cd_tag c \<in> ?tags"
    by (auto simp: arities_def parse_arity_def split: option.splits if_splits)
  note ok = endings_of_ok[OF assms(1,2) this]
  obtain rep where q': "q' = snd (endings_of ctx now draw db (arities collate declared) rep q)"
    using assms(3) unfolding propose_endings_def by (metis snd_conv)
  obtain new where n: "q' = q @ new" "list_all (ending_ok now (cc_principal ctx) ?tags db) new"
    using ok[of now draw rep q] unfolding q' by (elim exE conjE)
  show ?thesis
  proof (intro exI[of _ new] conjI ballI n(1))
    fix x assume "x \<in> set new"
    then have x: "ending_ok now (cc_principal ctx) ?tags db x" using n(2) by (simp add: list_all_iff)
    then show "qr_kind x = Supersession" "qr_state x = Proposed" by (simp_all add: ending_ok_def)
    obtain c a b where cab: "c \<in> set declared" "kr_arity c = u ''single''"
        "a \<in> subject_rows now (cc_principal ctx) (kr_tag c) db" "b \<in> subject_rows now (cc_principal ctx) (kr_tag c) db"
        "the (mr_occurred_at a) < the (mr_occurred_at b)" "qr_keep_id x = Some (mr_id b)"
        "map (\<lambda>m. (qm_memory m, qm_disposition m)) (qr_members x) = [(mr_id a, D_Retire), (mr_id b, D_Keep)]"
      using x[unfolded ending_ok_def, THEN conjunct2, THEN conjunct2] by (elim bexE imageE conjE CollectE) simp
    show "\<exists>c \<in> set declared. \<exists>a \<in> set (md_rows db). \<exists>b \<in> set (md_rows db).
       kr_arity c = u ''single'' \<and> kr_tag c \<in> set (mr_tags a) \<and> kr_tag c \<in> set (mr_tags b) \<and>
       row_live now a \<and> row_live now b \<and> mr_sensitivity a = Open \<and> mr_sensitivity b = Open \<and>
       can_read (cc_principal ctx) (mr_namespace a) Open \<and> can_read (cc_principal ctx) (mr_namespace b) Open \<and>
       (\<exists>s t. mr_occurred_at a = Some s \<and> mr_occurred_at b = Some t \<and> s < t) \<and>
       qr_keep_id x = Some (mr_id b) \<and>
       map (\<lambda>m. (qm_memory m, qm_disposition m)) (qr_members x) = [(mr_id a, D_Retire), (mr_id b, D_Keep)]"
      by (intro bexI[of _ c] bexI[of _ a] bexI[of _ b])
        (use cab in \<open>auto simp: subject_rows_def can_read_def\<close>)
  qed
qed

section \<open>Examples\<close>

definition sample_row_of :: "nat \<Rightarrow> str \<Rightarrow> instant \<Rightarrow> nat option \<Rightarrow> (nat, sealed_content) mem_row" where
  "sample_row_of i c t v = (sample_version i None None)\<lparr>mr_content := Some c, mr_created_at := t, mr_vec_a := v\<rparr>"

definition sample_engine :: "(nat, nat) engine_of_pass" where
  "sample_engine =
     \<lparr>ep_normal = (\<lambda>s. s), ep_collate = length, ep_dist = (\<lambda>a b. if a = b then 0 else 1 / 5), ep_slot = SlotA,
      ep_near_certain = 97 / 100, ep_worth_asking = 65 / 100\<rparr>"

definition sample_bounds :: "int \<Rightarrow> bounds" where
  "sample_bounds limit =
     \<lparr>bo_scope = None, bo_scope_key = u ''*'', bo_cadence = u ''hourly'', bo_limit = limit, bo_min_similarity = None,
      bo_grant = grant_everything, bo_posted_by = None\<rparr>"

definition sample_backlog :: "(nat, sealed_content) mem_db" where
  "sample_backlog =
     \<lparr>md_rows = [sample_row_of 1 (u ''port'') 1 None, sample_row_of 2 (u ''port'') 2 None,
                sample_row_of 3 (u ''db'') 10 None, sample_row_of 4 (u ''db'') 11 None], md_kek_id = None\<rparr>"

definition sample_copies :: "(nat, sealed_content) mem_db" where
  "sample_copies =
     \<lparr>md_rows = [sample_row_of 1 (u ''port'') 1 None, sample_row_of 2 (u ''port'') 2 None,
                sample_row_of 3 (u ''port'') 3 None], md_kek_id = None\<rparr>"

definition sample_near :: "(nat, sealed_content) mem_db" where
  "sample_near =
     \<lparr>md_rows = [sample_row_of 1 (u ''port'') 1 (Some 7), sample_row_of 2 (u ''ports'') 2 (Some 8),
                sample_row_of 3 (u ''db'') 3 None, sample_row_of 4 (u ''db'') 4 None], md_kek_id = None\<rparr>"

lemma near_run:
  "map_sum id (\<lambda>(rep, cs). (rr_queued rep, rr_already_known rep, map (\<lambda>c. (mc_a_id c, mc_b_id c)) cs))
     (fst (pass sample_engine sample_cleanup 100 ((+) 50) (sample_bounds 10) sample_near [] Map.empty)) =
   Inr (1, 0, [(1, 2)])"
  by code_simp

lemma near_ids: "distinct (map mr_id (md_rows sample_near))"
  by (simp add: sample_near_def sample_row_of_def sample_version_def)

lemma pass_Inr:
  assumes "map_sum id g (fst (pass en ctx now draw b db q marks)) = Inr y"
  obtains rep cs q' marks' where "pass en ctx now draw b db q marks = (Inr (rep, cs), q', marks')" "g (rep, cs) = y"
  using assms by (cases "pass en ctx now draw b db q marks"; cases "fst (pass en ctx now draw b db q marks)") auto

definition near_pass :: "(run_report \<times> model_candidate list) res \<times> queue_row list \<times> watermarks" where
  "near_pass = pass sample_engine sample_cleanup 100 ((+) 50) (sample_bounds 10) sample_near [] Map.empty"

lemma near_facts:
  obtains rep c x marks' where "near_pass = (Inr (rep, [c]), [x], marks')"
    "mc_a_id c = 1" "mc_b_id c = 2" "rr_queued rep = 1" "rr_already_known rep = 0"
proof -
  obtain rep cs q' marks' where r: "near_pass = (Inr (rep, cs), q', marks')"
    "(\<lambda>(rep, cs). (rr_queued rep, rr_already_known rep, map (\<lambda>c. (mc_a_id c, mc_b_id c)) cs)) (rep, cs) = (1, 0, [(1, 2)])"
    unfolding near_pass_def by (rule pass_Inr[OF near_run])
  have "length (fst (snd near_pass)) = 1" unfolding near_pass_def by code_simp
  then have "length q' = 1" by (simp add: r(1))
  then obtain x where "q' = [x]" by (auto simp: length_Suc_conv)
  moreover obtain c where "cs = [c]" "mc_a_id c = 1" "mc_b_id c = 2" using r(2) by auto
  ultimately show thesis using that[of rep c x marks'] r by simp
qed

lemma model_sees_open_rows_witness:
  "\<exists>rep c q' marks'. near_pass = (Inr (rep, [c]), q', marks') \<and> mc_a_id c = 1 \<and> mc_b_id c = 2 \<and> mc_similarity c < 97 / 100"
proof -
  obtain rep c x marks' where r: "near_pass = (Inr (rep, [c]), [x], marks')" "mc_a_id c = 1" "mc_b_id c = 2"
    by (rule near_facts)
  have "mc_similarity c < ep_near_certain sample_engine"
    using model_sees_open_rows[OF sample_uuid_texts r(1)[unfolded near_pass_def], of c]
    by (elim bexE conjE impE meta_impE) (simp_all only: list.set_intros)
  then show ?thesis using r by (intro exI conjI) (assumption | simp add: sample_engine_def)+
qed

lemma pass_queues_current_witness:
  "\<exists>rep cs x marks'. near_pass = (Inr (rep, cs), [x], marks') \<and> \<not> answered_by_store sample_near x"
proof -
  obtain rep c x marks' where r: "near_pass = (Inr (rep, [c]), [x], marks')" by (rule near_facts)
  obtain old new where "[x] = old @ new" "map qr_id old = map qr_id []" "\<forall>x \<in> set new. \<not> answered_by_store sample_near x"
    using pass_queues_current[OF sample_uuid_texts near_ids r[unfolded near_pass_def]] by (elim exE conjE) simp
  then have "\<not> answered_by_store sample_near x" by (cases old) auto
  then show ?thesis using r by (intro exI conjI)
qed

lemma second_pass_queues_nothing_witness:
  "\<exists>rep cs q' marks' rep' marks''. near_pass = (Inr (rep, cs), q', marks') \<and>
     pass sample_engine sample_cleanup 100 ((+) 70) (sample_bounds 10) sample_near q' Map.empty = (Inr (rep', cs), q', marks'') \<and>
     rr_queued rep = 1 \<and> rr_queued rep' = 0 \<and> rr_already_known rep' = 1"
proof -
  obtain rep c x marks' where r: "near_pass = (Inr (rep, [c]), [x], marks')" "rr_queued rep = 1" "rr_already_known rep = 0"
    by (rule near_facts)
  obtain rep' marks'' where
    "pass sample_engine sample_cleanup 100 ((+) 70) (sample_bounds 10) sample_near [x] Map.empty = (Inr (rep', [c]), [x], marks'')"
    "rr_queued rep' = 0" "rr_already_known rep' = rr_queued rep + rr_already_known rep"
    using second_pass_queues_nothing[OF sample_uuid_texts near_ids r(1)[unfolded near_pass_def], of "(+) 70"] by (elim exE conjE)
  then show ?thesis using r by (intro exI conjI) simp_all
qed

definition sample_subject :: "(nat, sealed_content) mem_db" where
  "sample_subject =
     \<lparr>md_rows = [(sample_version 1 None None)\<lparr>mr_tags := [u ''job''], mr_occurred_at := Some 20\<rparr>,
                (sample_version 2 None None)\<lparr>mr_tags := [u ''job''], mr_occurred_at := Some 30\<rparr>,
                (sample_version 3 None None)\<lparr>mr_tags := [u ''pet''], mr_occurred_at := Some 40\<rparr>], md_kek_id = None\<rparr>"

definition sample_declared :: "cardinality_row list" where
  "sample_declared = declare_arity 5 (u ''job'') Single None (declare_arity 4 (u ''pet'') Many None [])"

definition sample_endings :: "ending_report res \<times> queue_row list" where
  "sample_endings = propose_endings length sample_cleanup 100 ((+) 50) sample_subject sample_declared []"

lemma endings_are_ordered_witness:
  "\<exists>out x. sample_endings = (out, [x]) \<and> qr_kind x = Supersession \<and> qr_keep_id x = Some 2 \<and>
     map (\<lambda>m. (qm_memory m, qm_disposition m)) (qr_members x) = [(1, D_Retire), (2, D_Keep)]"
proof -
  have q: "map (\<lambda>x. (qr_keep_id x, map (\<lambda>m. (qm_memory m, qm_disposition m)) (qr_members x))) (snd sample_endings) =
      [(Some 2, [(1, D_Retire), (2, D_Keep)])]" unfolding sample_endings_def by code_simp
  obtain out q' where r: "sample_endings = (out, q')" by (cases sample_endings)
  define T where "T = [(1 :: nat, D_Retire), (2, D_Keep)]"
  obtain x where x: "q' = [x]" "qr_keep_id x = Some 2" "map (\<lambda>m. (qm_memory m, qm_disposition m)) (qr_members x) = T"
    using q[folded T_def, unfolded r] by auto
  have "distinct (map mr_id (md_rows sample_subject))" by (simp add: sample_subject_def sample_version_def)
  from endings_are_ordered[OF sample_uuid_texts this r[unfolded sample_endings_def]]
  obtain new where "q' = [] @ new" "\<forall>x \<in> set new. qr_kind x = Supersession" by (elim exE conjE) blast
  then have "qr_kind x = Supersession" using x(1) by auto
  then show ?thesis using r x unfolding T_def by (intro exI conjI) simp_all
qed

section \<open>Where a full page loses findings\<close>

lemma pass_other_marks:
  assumes "pass en ctx now draw b db q marks = (out, q', marks')" and "k \<noteq> (bo_scope_key b, bo_cadence b)"
  shows "marks' k = marks k"
  using assms by (auto simp: pass_def pass_end_def advance_def Let_def split: prod.splits sum.splits option.splits if_splits)

definition backlog_pass :: "queue_row list \<times> watermarks \<Rightarrow> queue_row list \<times> watermarks" where
  "backlog_pass s =
     snd (pass sample_engine sample_cleanup 100 ((+) (50 + length (fst s))) (sample_bounds 2) sample_backlog (fst s) (snd s))"

lemma backlog_once:
  "map (\<lambda>p. map qm_memory (qr_members p)) (fst (backlog_pass ([], Map.empty))) = [[3, 4]]"
  "snd (backlog_pass ([], Map.empty)) (u ''*'', u ''hourly'') = Some (100, 11)"
  "fst (backlog_pass (backlog_pass ([], Map.empty))) = fst (backlog_pass ([], Map.empty))"
  "snd (backlog_pass (backlog_pass ([], Map.empty))) (u ''*'', u ''hourly'') = Some (100, 11)"
  by code_simp+

lemma backlog_stuck: "backlog_pass (backlog_pass ([], Map.empty)) = backlog_pass ([], Map.empty)"
proof (rule prod_eqI)
  show "fst (backlog_pass (backlog_pass ([], Map.empty))) = fst (backlog_pass ([], Map.empty))" by (rule backlog_once)
  show "snd (backlog_pass (backlog_pass ([], Map.empty))) = snd (backlog_pass ([], Map.empty))"
  proof
    fix k show "snd (backlog_pass (backlog_pass ([], Map.empty))) k = snd (backlog_pass ([], Map.empty)) k"
    proof (cases "k = (u ''*'', u ''hourly'')")
      case True
      then show ?thesis using backlog_once(2,4) by simp
    next
      case False
      then have "snd (backlog_pass s) k = snd s k" for s
        unfolding backlog_pass_def by (intro pass_other_marks[of sample_engine sample_cleanup 100 _ "sample_bounds 2"])
          (auto simp: sample_bounds_def prod_eq_iff)
      then show ?thesis by simp
    qed
  qed
qed



section \<open>A scope inside the grant\<close>

lemma covers_scope:
  assumes c: "covers gs s" and s: "to_ascii_lowercase (trim s) = s" "s \<noteq> []" and ns: "in_scope (Some s) ns"
  shows "admits gs ns Open"
proof (cases "strip_suffix (u ''*'') s")
  case None
  then have "\<exists>g \<in> set gs. matches (g_namespace g) s" using c by (auto simp: covers_def s(1) list_ex_iff)
  moreover have "ns = s" using ns None s by (simp add: in_scope_def ns_bounds_def)
  ultimately show ?thesis by (auto simp: admits_iff less_eq_sensitivity_def)
next
  case (Some pre)
  obtain g granted where g: "g \<in> set gs" "strip_suffix (u ''*'') (to_ascii_lowercase (trim (g_namespace g))) = Some granted"
      "starts_with pre granted"
    using c Some by (auto simp: covers_def s(1) list_ex_iff simp del: strip_suffix_Some split: option.splits)
  have "starts_with ns granted"
    using ns Some g(3) s by (auto simp: in_scope_def ns_bounds_def starts_with_def simp del: strip_suffix_Some)
  then have "matches (g_namespace g) ns" using g(2) by (simp add: matches_def Let_def del: strip_suffix_Some)
  then show ?thesis using g(1) by (auto simp: admits_iff less_eq_sensitivity_def)
qed

text \<open>
  A caller's pass answers for the whole scope it was asked over: a scope that reaches any namespace
  outside the read grant is refused before anything is read or written, and never narrowed.
\<close>

theorem scope_refused_or_covered:
  assumes "trim raw \<noteq> []"
  shows "(\<exists>why. run_as en ctx now draw (Some raw) cadence limit asked db q marks = (Inl (forbidden why), q, marks)) \<or>
    (\<forall>ns. in_scope (Some (to_ascii_lowercase (trim raw))) ns \<longrightarrow> can_read (cc_principal ctx) ns Open)"
proof (cases "covers (p_read (cc_principal ctx)) (to_ascii_lowercase (trim raw))")
  case True
  then show ?thesis
    using covers_scope[OF True] assms by (simp add: can_read_def trim_lower)
next
  case False
  then show ?thesis using assms by (simp add: run_as_def Let_def)
qed


lemma scope_refused_or_covered_witness:
  "can_read sample_eraser (u ''user:me'') Open \<and>
   (\<exists>why. run_as (Inr sample_engine) sample_cleanup 100 ((+) 50) (Some (u ''user:*'')) (u ''hourly'') 10 None
      sample_near [] Map.empty = (Inl (forbidden why), [], Map.empty))"
proof -
  have p: "cc_principal sample_cleanup = sample_eraser" by (simp add: sample_cleanup_def)
  have e: "\<not> isl (fst (run_as (Inr sample_engine) sample_cleanup 100 ((+) 50) (Some (u '' User:me'')) (u ''hourly'') 10 None
      sample_near [] Map.empty))" by code_simp
  have t: "trim (u '' User:me'') \<noteq> []" "trim (u ''user:*'') \<noteq> []"
    "in_scope (Some (to_ascii_lowercase (trim (u '' User:me'')))) (u ''user:me'')"
    "in_scope (Some (to_ascii_lowercase (trim (u ''user:*'')))) (u ''user:other'')"
    "\<not> can_read sample_eraser (u ''user:other'') Open" by code_simp+
  have "can_read sample_eraser (u ''user:me'') Open"
    using scope_refused_or_covered[OF t(1), of "Inr sample_engine" sample_cleanup 100 "(+) 50" "u ''hourly''" 10 None
        sample_near "[]" Map.empty] e t(3) unfolding p by (elim disjE exE) (simp_all only: fst_conv sum.disc not_True_eq_False simp_thms)
  moreover have "\<exists>why. run_as (Inr sample_engine) sample_cleanup 100 ((+) 50) (Some (u ''user:*'')) (u ''hourly'') 10 None
      sample_near [] Map.empty = (Inl (forbidden why), [], Map.empty)"
    using scope_refused_or_covered[OF t(2), of "Inr sample_engine" sample_cleanup 100 "(+) 50" "u ''hourly''" 10 None
        sample_near "[]" Map.empty] t(4,5) unfolding p by blast
  ultimately show ?thesis by blast
qed

end
