(* ===== verification/Lr_Ingest.thy ===== *)
theory Lr_Ingest
  imports Lr_Cleanup "HOL-Library.Multiset"
begin

text \<open>
  Transcript ingestion: the proposal queue, its states and its watermarks of
  \<open>src/src/adapters/postgres/ingest.rs\<close>, and the posting, approval and rejection of
  \<open>src/src/services/ingest.rs\<close>. A proposal reaches the memories only through \<open>write_run_observed\<close>.
  The keyed hash and the lowercasing of the standard library are parameters; ids are drawn by \<open>draw\<close>.
\<close>

section \<open>Facts and their fingerprints\<close>

record ingest_source =
  is_source_key :: str
  is_file_path :: str
  is_session_id :: "str option"
  is_sidechain :: bool
  is_entry_uuid :: "str option"
  is_speaker :: str
  is_observed_at :: "instant option"
  is_run_id :: nat

record fact_input =
  fa_content :: str
  fa_namespace :: str
  fa_tags :: "str list"
  fa_supersedes :: "nat option"
  fa_speaker :: str
  fa_quote :: "str option"
  fa_span_text :: "str option"
  fa_source :: ingest_source

datatype ingest_mark = I_Proposed | I_Rejected | I_Written

fun mark_as_str :: "ingest_mark \<Rightarrow> str" where
  "mark_as_str I_Proposed = u ''proposed''"
| "mark_as_str I_Rejected = u ''rejected''"
| "mark_as_str I_Written = u ''written''"

definition parse_mark :: "str \<Rightarrow> ingest_mark option" where
  "parse_mark s =
     (if s = u ''proposed'' then Some I_Proposed
      else if s = u ''rejected'' then Some I_Rejected
      else if s = u ''written'' then Some I_Written
      else None)"

interpretation mark_codec: strict_codec mark_as_str parse_mark
proof
  show "parse_mark (mark_as_str x) = Some x" for x by (cases x) (simp_all add: parse_mark_def)
  show "parse_mark s = Some x \<Longrightarrow> mark_as_str x = s" for s x
    by (auto simp: parse_mark_def split: if_splits)
qed

definition SPEAKER_OWNER_TYPED :: str where "SPEAKER_OWNER_TYPED = u ''owner_typed''"
definition MAX_EMISSION_PROBES :: nat where "MAX_EMISSION_PROBES = 200"
definition REFUSAL_OUTSIDE_GRANT :: str where "REFUSAL_OUTSIDE_GRANT = u ''namespace_outside_grant''"
definition REFUSAL_INVALID_NAMESPACE :: str where "REFUSAL_INVALID_NAMESPACE = u ''invalid_namespace''"
definition REFUSAL_SUPERSEDES_TARGET :: str where "REFUSAL_SUPERSEDES_TARGET = u ''supersedes_not_writable''"
definition REFUSAL_TOO_LONG :: str where "REFUSAL_TOO_LONG = u ''content_too_long''"

text \<open>\<open>crypto::digest::normalise\<close>: whitespace collapsed, lowercased, terminal punctuation dropped.\<close>

definition digest_normalise :: "(str \<Rightarrow> str) \<Rightarrow> str \<Rightarrow> str" where
  "digest_normalise lower text =
     trim_end_matches (\<lambda>c. c \<in> set (u ''.!?,;:'')) (lower (join [32] (split_whitespace text)))"

definition digest_of :: "(str \<Rightarrow> str) \<Rightarrow> (str \<Rightarrow> str) \<Rightarrow> str \<Rightarrow> str" where
  "digest_of mac lower text = mac (digest_normalise lower text)"

definition qualifies_for_auto :: "(str \<Rightarrow> str) \<Rightarrow> str \<Rightarrow> str \<Rightarrow> str option \<Rightarrow> bool" where
  "qualifies_for_auto lower speaker content span_text \<longleftrightarrow>
     (if speaker \<noteq> SPEAKER_OWNER_TYPED then False
      else case span_text of
             Some said \<Rightarrow> str_contains (digest_normalise lower said) (digest_normalise lower content)
           | None \<Rightarrow> False)"

section \<open>The queue\<close>

record ingest_row =
  ig_id :: nat
  ig_fingerprint :: str
  ig_content :: str
  ig_namespace :: str
  ig_tags :: "str list"
  ig_supersedes :: "nat option"
  ig_speaker :: str
  ig_quote :: "str option"
  ig_auto :: bool
  ig_extractor :: str
  ig_posted_by :: "str option"
  ig_state :: ingest_mark
  ig_memory_id :: "nat option"
  ig_last_error :: "domain_error option"
  ig_last_error_at :: "instant option"
  ig_decided_at :: "instant option"
  ig_created_at :: instant
  ig_sources :: "ingest_source list"

record new_fact =
  nf_fingerprint :: str
  nf_content :: str
  nf_namespace :: str
  nf_tags :: "str list"
  nf_supersedes :: "nat option"
  nf_speaker :: str
  nf_quote :: "str option"
  nf_auto :: bool
  nf_extractor :: str
  nf_posted_by :: str
  nf_source :: ingest_source

datatype proposal_upsert = Created ingest_row | Existing ingest_row

text \<open>The reader: its grant, and the classification table a proposal is read through.\<close>

record read_grant =
  rg_grant :: "namespace_grant list"
  rg_levels :: sensitivity_rules

definition level_arrays :: "sensitivity_rules \<Rightarrow> granted_rule list" where
  "level_arrays levels = split_grants (map (\<lambda>(pattern, level). grant_new pattern level) levels)"

definition rule_matches_ns :: "granted_rule \<Rightarrow> str \<Rightarrow> bool" where
  "rule_matches_ns g ns \<longleftrightarrow> (if gr_exact g then ns = gr_prefix g else take (length (gr_prefix g)) ns = gr_prefix g)"

text \<open>\<open>PROPOSAL_VISIBLE_SHAPE\<close>: the level is that of the first rule that matches, or \<open>open\<close>.\<close>

definition fact_visible :: "read_grant \<Rightarrow> str \<Rightarrow> bool" where
  "fact_visible reader ns \<longleftrightarrow>
     list_ex (\<lambda>g. rule_matches_ns g ns \<and>
                  (case List.find (\<lambda>r. rule_matches_ns r ns) (level_arrays (rg_levels reader)) of
                     None \<Rightarrow> Open | Some r \<Rightarrow> gr_max r) \<le> gr_max g) (split_grants (rg_grant reader))"

record fact_filter =
  ff_state :: "str option"
  ff_run_id :: "nat option"
  ff_speaker :: "str option"
  ff_auto :: "bool option"
  ff_limit :: int
  ff_reader :: read_grant

definition list_facts :: "fact_filter \<Rightarrow> ingest_row list \<Rightarrow> ingest_row list" where
  "list_facts f q =
     take (nat (clamp 1 1000 (ff_limit f)))
       (sort_key (\<lambda>p. (- ig_created_at p, ig_id p))
         (filter (\<lambda>p. (case ff_state f of None \<Rightarrow> True | Some s \<Rightarrow> mark_as_str (ig_state p) = s) \<and>
                      (case ff_auto f of None \<Rightarrow> True | Some a \<Rightarrow> ig_auto p = a) \<and>
                      (case ff_speaker f of None \<Rightarrow> True | Some s \<Rightarrow> ig_speaker p = s) \<and>
                      (case ff_run_id f of None \<Rightarrow> True | Some r \<Rightarrow> list_ex (\<lambda>s. is_run_id s = r) (ig_sources p)) \<and>
                      fact_visible (ff_reader f) (ig_namespace p)) q))"

definition find_fact :: "nat \<Rightarrow> ingest_row list \<Rightarrow> ingest_row option" where
  "find_fact i q = List.find (\<lambda>p. ig_id p = i) q"

definition get_fact :: "read_grant \<Rightarrow> nat \<Rightarrow> ingest_row list \<Rightarrow> ingest_row option" where
  "get_fact reader i q =
     (case find_fact i q of
        None \<Rightarrow> None
      | Some p \<Rightarrow> if fact_visible reader (ig_namespace p) then Some p else None)"

text \<open>\<open>ORDER BY observed_at NULLS LAST, source_key\<close>.\<close>

definition fact_sources :: "(str \<Rightarrow> 'k::linorder) \<Rightarrow> nat \<Rightarrow> ingest_row list \<Rightarrow> ingest_source list" where
  "fact_sources collate i q =
     (case find_fact i q of
        None \<Rightarrow> []
      | Some p \<Rightarrow> sort_key (\<lambda>s. (is_observed_at s = None, case is_observed_at s of None \<Rightarrow> 0 | Some t \<Rightarrow> t, collate (is_source_key s)))
                    (ig_sources p))"

text \<open>\<open>ON CONFLICT DO NOTHING\<close> on the fingerprint, and on the source key within a proposal.\<close>

definition add_source :: "ingest_source \<Rightarrow> ingest_row \<Rightarrow> ingest_row" where
  "add_source s p =
     (if is_source_key s \<in> set (map is_source_key (ig_sources p)) then p else p\<lparr>ig_sources := ig_sources p @ [s]\<rparr>)"

definition fact_row :: "instant \<Rightarrow> nat \<Rightarrow> new_fact \<Rightarrow> ingest_row" where
  "fact_row now i f =
     \<lparr>ig_id = i, ig_fingerprint = nf_fingerprint f, ig_content = nf_content f, ig_namespace = nf_namespace f,
      ig_tags = nf_tags f, ig_supersedes = nf_supersedes f, ig_speaker = nf_speaker f, ig_quote = nf_quote f,
      ig_auto = nf_auto f, ig_extractor = nf_extractor f, ig_posted_by = Some (nf_posted_by f), ig_state = I_Proposed,
      ig_memory_id = None, ig_last_error = None, ig_last_error_at = None, ig_decided_at = None,
      ig_created_at = now, ig_sources = [nf_source f]\<rparr>"

definition insert_fact ::
    "instant \<Rightarrow> nat \<Rightarrow> ('v, 's) mem_db \<Rightarrow> new_fact \<Rightarrow> ingest_row list \<Rightarrow> (proposal_upsert \<times> ingest_row list) res" where
  "insert_fact now fresh db f q =
     (case List.find (\<lambda>p. ig_fingerprint p = nf_fingerprint f) q of
        Some p \<Rightarrow> Inr (Existing p, update_where (\<lambda>x. ig_id x = ig_id p) (add_source (nf_source f)) q)
      | None \<Rightarrow>
          if find_fact fresh q \<noteq> None \<or> (case nf_supersedes f of None \<Rightarrow> False | Some t \<Rightarrow> find_row db t = None)
          then Inl database_error
          else Inr (Created (fact_row now fresh f), q @ [fact_row now fresh f]))"

text \<open>The trigger of migration 18: a proposal linked to an encrypted memory, or unlinked from one, loses its text.\<close>

definition clear_plaintext :: "('v, 's) mem_db \<Rightarrow> ingest_row \<Rightarrow> ingest_row \<Rightarrow> ingest_row" where
  "clear_plaintext db old new =
     (case ig_memory_id new of
        Some i \<Rightarrow>
          if ig_memory_id new \<noteq> ig_memory_id old \<and> (case find_row db i of None \<Rightarrow> False | Some r \<Rightarrow> mr_sealed r \<noteq> None)
          then new\<lparr>ig_content := [], ig_quote := None\<rparr> else new
      | None \<Rightarrow> if ig_memory_id old \<noteq> None then new\<lparr>ig_content := [], ig_quote := None\<rparr> else new)"

definition mark_written :: "instant \<Rightarrow> ('v, 's) mem_db \<Rightarrow> nat \<Rightarrow> nat \<Rightarrow> ingest_row list \<Rightarrow> ingest_row list" where
  "mark_written now db i memory_id q =
     update_where (\<lambda>p. ig_id p = i)
       (\<lambda>p. clear_plaintext db p (p\<lparr>ig_state := I_Written, ig_memory_id := Some memory_id, ig_decided_at := Some now,
              ig_last_error := None, ig_last_error_at := None\<rparr>)) q"

definition mark_error :: "instant \<Rightarrow> nat \<Rightarrow> domain_error \<Rightarrow> ingest_row list \<Rightarrow> ingest_row list" where
  "mark_error now i e q =
     update_where (\<lambda>p. ig_id p = i) (\<lambda>p. p\<lparr>ig_last_error := Some e, ig_last_error_at := Some now\<rparr>) q"

definition waiting :: "nat \<Rightarrow> ingest_row \<Rightarrow> bool" where
  "waiting i p \<longleftrightarrow> ig_id p = i \<and> ig_state p = I_Proposed"

definition reject_fact :: "instant \<Rightarrow> nat \<Rightarrow> ingest_row list \<Rightarrow> bool \<times> ingest_row list" where
  "reject_fact now i q =
     (list_ex (waiting i) q,
      update_where (waiting i) (\<lambda>p. p\<lparr>ig_state := I_Rejected, ig_decided_at := Some now\<rparr>) q)"

definition clear_text :: "nat \<Rightarrow> ingest_row list \<Rightarrow> ingest_row list" where
  "clear_text i q = update_where (\<lambda>p. ig_id p = i) (\<lambda>p. p\<lparr>ig_content := [], ig_quote := None\<rparr>) q"

definition turned_away :: "nat \<Rightarrow> ingest_row \<Rightarrow> bool" where
  "turned_away i p \<longleftrightarrow> ig_id p = i \<and> ig_state p = I_Rejected"

definition unreject_fact :: "nat \<Rightarrow> ingest_row list \<Rightarrow> bool \<times> ingest_row list" where
  "unreject_fact i q =
     (list_ex (turned_away i) q, update_where (turned_away i) (\<lambda>p. p\<lparr>ig_state := I_Proposed\<rparr>) q)"

section \<open>What the store handed out\<close>

record emission =
  em_hash :: str
  em_memory_id :: nat
  em_tool :: str
  em_session_id :: "str option"
  em_first :: instant
  em_last :: instant
  em_count :: nat

record emission_probe =
  ep_hash :: str
  ep_observed_at :: instant

record emission_hit =
  eh_hash :: str
  eh_memory_id :: nat
  eh_namespace :: str
  eh_sensitivity :: sensitivity
  eh_tool :: str
  eh_first :: instant

definition emissions_matching ::
    "('v, 's) mem_db \<Rightarrow> emission list \<Rightarrow> emission_probe list \<Rightarrow> int \<Rightarrow> int \<Rightarrow> namespace_grant list \<Rightarrow> emission_hit list" where
  "emissions_matching db es probes slack window grant =
     remdups (concat (map (\<lambda>e. concat (map (\<lambda>p.
       case find_row db (em_memory_id e) of
         None \<Rightarrow> []
       | Some r \<Rightarrow>
           if em_hash e = ep_hash p \<and> em_first e \<le> ep_observed_at p + slack \<and> ep_observed_at p - window \<le> em_first e \<and>
              granted_row (split_grants grant) (mr_namespace r) (mr_sensitivity r)
           then [\<lparr>eh_hash = em_hash e, eh_memory_id = em_memory_id e, eh_namespace = mr_namespace r,
                  eh_sensitivity = mr_sensitivity r, eh_tool = em_tool e, eh_first = em_first e\<rparr>]
           else []) probes)) es))"

definition emission_key :: "emission \<Rightarrow> str \<times> nat \<times> str" where
  "emission_key e = (em_hash e, em_memory_id e, em_tool e)"

definition put_emission ::
    "instant \<Rightarrow> ('v, 's) mem_db \<Rightarrow> str \<Rightarrow> nat \<Rightarrow> str \<Rightarrow> str option \<Rightarrow> emission list \<Rightarrow> emission list res" where
  "put_emission now db hash i tool session es =
     (if find_row db i = None then Inl database_error
      else Inr (if (hash, i, tool) \<in> set (map emission_key es)
                then update_where (\<lambda>e. emission_key e = (hash, i, tool))
                  (\<lambda>e. e\<lparr>em_last := now, em_count := Suc (em_count e),
                       em_session_id := (case session of None \<Rightarrow> em_session_id e | Some s \<Rightarrow> Some s)\<rparr>) es
                else es @ [\<lparr>em_hash = hash, em_memory_id = i, em_tool = tool, em_session_id = session, em_first = now,
                           em_last = now, em_count = 1\<rparr>]))"

definition echoes :: "emission_probe list \<Rightarrow> emission_hit list \<Rightarrow> bool list" where
  "echoes probes found = map (\<lambda>p. list_ex (\<lambda>h. eh_hash h = ep_hash p) found) probes"


section \<open>Posting\<close>

record ('v, 'd, 'k) ingest_ctx =
  ic_write :: "('v, 'd) write_ctx"
  ic_mac :: "(str \<Rightarrow> str) res"
  ic_show :: "nat \<Rightarrow> str"
  ic_collate :: "str \<Rightarrow> 'k"
  ic_slack :: int
  ic_window :: int

record 'v ingest_world =
  iw_db :: "('v, sealed_content) mem_db"
  iw_queue :: "ingest_row list"
  iw_emissions :: "emission list"

abbreviation ic_principal :: "('v, 'd, 'k) ingest_ctx \<Rightarrow> principal" where
  "ic_principal ctx \<equiv> wc_principal (ic_write ctx)"

abbreviation ic_defaults :: "('v, 'd, 'k) ingest_ctx \<Rightarrow> sensitivity_rules" where
  "ic_defaults ctx \<equiv> wc_defaults (ic_write ctx)"

abbreviation ic_lower :: "('v, 'd, 'k) ingest_ctx \<Rightarrow> str \<Rightarrow> str" where
  "ic_lower ctx \<equiv> un_lower (wc_unicode (ic_write ctx))"

definition reader :: "('v, 'd, 'k) ingest_ctx \<Rightarrow> read_grant" where
  "reader ctx = \<lparr>rg_grant = p_read (ic_principal ctx), rg_levels = ic_defaults ctx\<rparr>"

datatype fact_outcome =
    F_Proposed nat bool
  | F_Reinforced nat
  | F_Blocked nat
  | F_Confirmed nat
  | F_Refused str "domain_error option"

record post_report =
  pr_outcomes :: "fact_outcome list"
  pr_new :: nat
  pr_reinforced :: nat
  pr_confirmations :: nat
  pr_refused :: nat
  pr_blocked :: nat

definition empty_report :: post_report where
  "empty_report = \<lparr>pr_outcomes = [], pr_new = 0, pr_reinforced = 0, pr_confirmations = 0, pr_refused = 0, pr_blocked = 0\<rparr>"

fun reported :: "fact_outcome \<Rightarrow> post_report \<Rightarrow> post_report" where
  "reported (F_Proposed i a) r = r\<lparr>pr_outcomes := pr_outcomes r @ [F_Proposed i a], pr_new := Suc (pr_new r)\<rparr>"
| "reported (F_Reinforced i) r = r\<lparr>pr_outcomes := pr_outcomes r @ [F_Reinforced i], pr_reinforced := Suc (pr_reinforced r)\<rparr>"
| "reported (F_Blocked i) r = r\<lparr>pr_outcomes := pr_outcomes r @ [F_Blocked i], pr_blocked := Suc (pr_blocked r)\<rparr>"
| "reported (F_Confirmed i) r = r\<lparr>pr_outcomes := pr_outcomes r @ [F_Confirmed i], pr_confirmations := Suc (pr_confirmations r)\<rparr>"
| "reported (F_Refused rule why) r = r\<lparr>pr_outcomes := pr_outcomes r @ [F_Refused rule why], pr_refused := Suc (pr_refused r)\<rparr>"

definition supersedes_target_writable :: "principal \<Rightarrow> ('v, 's) mem_db \<Rightarrow> nat \<Rightarrow> bool" where
  "supersedes_target_writable p db i =
     (case find_by_id db i of
        None \<Rightarrow> False
      | Some t \<Rightarrow> can_read p (m_namespace t) (m_sensitivity t) \<and> can_write p (m_namespace t) (m_sensitivity t))"

text \<open>One fact before anything is looked up on its behalf: the rule it is refused under, or the fact in its namespace.\<close>

definition screen_fact :: "('v, 'd, 'k) ingest_ctx \<Rightarrow> ('v, 's) mem_db \<Rightarrow> fact_input \<Rightarrow> str + fact_input" where
  "screen_fact ctx db f =
     (case and_then (normalize (fa_namespace f)) (\<lambda>ns. and_then (check_writable ns) (\<lambda>_. Inr ns)) of
        Inl _ \<Rightarrow> Inl REFUSAL_INVALID_NAMESPACE
      | Inr ns \<Rightarrow>
          if \<not> can_read (ic_principal ctx) ns (for_namespace (ic_defaults ctx) ns) then Inl REFUSAL_OUTSIDE_GRANT
          else
            (let subject = (case fa_quote f of None \<Rightarrow> fa_content f | Some q \<Rightarrow> fa_content f @ [10] @ q)
             in case (if wc_tripwire (ic_write ctx) then tripwire_scan subject else None) of
                  Some hit \<Rightarrow> Inl (u (fi_rule hit))
                | None \<Rightarrow>
                    (case fa_supersedes f of
                       Some t \<Rightarrow>
                         if \<not> supersedes_target_writable (ic_principal ctx) db t then Inl REFUSAL_SUPERSEDES_TARGET
                         else Inr (f\<lparr>fa_namespace := ns\<rparr>)
                     | None \<Rightarrow> Inr (f\<lparr>fa_namespace := ns\<rparr>))))"

fun screen_facts ::
    "('v, 'd, 'k) ingest_ctx \<Rightarrow> ('v, 's) mem_db \<Rightarrow> (str \<Rightarrow> str) \<Rightarrow> fact_input list \<Rightarrow> post_report \<Rightarrow>
     (fact_input \<times> str) list \<times> post_report" where
  "screen_facts ctx db mac [] rep = ([], rep)"
| "screen_facts ctx db mac (f # fs) rep =
     (case screen_fact ctx db f of
        Inl rule \<Rightarrow> screen_facts ctx db mac fs (reported (F_Refused rule None) rep)
      | Inr f' \<Rightarrow>
          (case screen_facts ctx db mac fs rep of
             (out, rep') \<Rightarrow> ((f', digest_of mac (ic_lower ctx) (fa_content f')) # out, rep')))"

definition lookup_emissions ::
    "('v, 'd, 'k) ingest_ctx \<Rightarrow> 'v ingest_world \<Rightarrow> emission_probe list \<Rightarrow> emission_hit list" where
  "lookup_emissions ctx w probes =
     emissions_matching (iw_db w) (iw_emissions w) probes (ic_slack ctx) (ic_window ctx) (p_read (ic_principal ctx))"

definition probe_of :: "instant \<Rightarrow> fact_input \<times> str \<Rightarrow> emission_probe" where
  "probe_of now x =
     \<lparr>ep_hash = snd x, ep_observed_at = (case is_observed_at (fa_source (fst x)) of None \<Rightarrow> now | Some t \<Rightarrow> t)\<rparr>"

fun chunks_of :: "nat \<Rightarrow> 'a list \<Rightarrow> 'a list list" where
  "chunks_of n xs = (if n = 0 \<or> xs = [] then [] else take n xs # chunks_of n (drop n xs))"

declare chunks_of.simps [simp del]

definition emission_hits ::
    "('v, 'd, 'k) ingest_ctx \<Rightarrow> instant \<Rightarrow> 'v ingest_world \<Rightarrow> (fact_input \<times> str) list \<Rightarrow> emission_hit list" where
  "emission_hits ctx now w screened =
     concat (map (lookup_emissions ctx w) (chunks_of MAX_EMISSION_PROBES (map (probe_of now) screened)))"

definition check_emissions ::
    "('v, 'd, 'k) ingest_ctx \<Rightarrow> 'v ingest_world \<Rightarrow> emission_probe list \<Rightarrow> emission_hit list res" where
  "check_emissions ctx w probes =
     (if MAX_EMISSION_PROBES < length probes
      then Inl (validation (R_Service (SF_Ingest (I_TooManyProbes (length probes)))))
      else Inr (lookup_emissions ctx w probes))"

definition confirm_memory :: "instant \<Rightarrow> nat \<Rightarrow> 'v ingest_world \<Rightarrow> 'v ingest_world" where
  "confirm_memory now i w = w\<lparr>iw_db := confirm_row now i (iw_db w)\<rparr>"

definition new_fact_of :: "('v, 'd, 'k) ingest_ctx \<Rightarrow> str \<Rightarrow> fact_input \<Rightarrow> str \<Rightarrow> new_fact" where
  "new_fact_of ctx extractor f hash =
     \<lparr>nf_fingerprint = hash, nf_content = fa_content f, nf_namespace = fa_namespace f, nf_tags = fa_tags f,
      nf_supersedes = fa_supersedes f, nf_speaker = fa_speaker f,
      nf_quote = (if fa_speaker f = SPEAKER_OWNER_TYPED then fa_quote f else None),
      nf_auto = (qualifies_for_auto (ic_lower ctx) (fa_speaker f) (fa_content f) (fa_span_text f) \<and>
                 can_write (ic_principal ctx) (fa_namespace f) (for_namespace (ic_defaults ctx) (fa_namespace f))),
      nf_extractor = extractor, nf_posted_by = p_client (ic_principal ctx), nf_source = fa_source f\<rparr>"

text \<open>What an existing row of the fingerprint answers, by its state.\<close>

definition restated :: "instant \<Rightarrow> ingest_row \<Rightarrow> 'v ingest_world \<Rightarrow> fact_outcome \<times> 'v ingest_world" where
  "restated now p w =
     (case ig_state p of
        I_Written \<Rightarrow> (F_Reinforced (ig_id p), case ig_memory_id p of None \<Rightarrow> w | Some i \<Rightarrow> confirm_memory now i w)
      | I_Rejected \<Rightarrow> (F_Blocked (ig_id p), w)
      | I_Proposed \<Rightarrow> (F_Reinforced (ig_id p), w))"

definition post_fact ::
    "('v, 'd, 'k) ingest_ctx \<Rightarrow> instant \<Rightarrow> nat \<Rightarrow> str \<Rightarrow> emission_hit list \<Rightarrow> fact_input \<Rightarrow> str \<Rightarrow> 'v ingest_world \<Rightarrow>
     fact_outcome res \<times> 'v ingest_world" where
  "post_fact ctx now fresh extractor found f hash w =
     (case (case List.find (\<lambda>h. eh_hash h = hash) found of
              None \<Rightarrow> None
            | Some h \<Rightarrow> if can_read (ic_principal ctx) (eh_namespace h) (eh_sensitivity h) then Some h else None) of
        Some h \<Rightarrow> (Inr (F_Confirmed (eh_memory_id h)), confirm_memory now (eh_memory_id h) w)
      | None \<Rightarrow>
          (case length_refusal (fa_content f) (wc_max_chars (ic_write ctx)) of
             Some e \<Rightarrow> (Inr (F_Refused REFUSAL_TOO_LONG (Some e)), w)
           | None \<Rightarrow>
               (case insert_fact now fresh (iw_db w) (new_fact_of ctx extractor f hash) (iw_queue w) of
                  Inl e \<Rightarrow> (Inl e, w)
                | Inr (Created p, q) \<Rightarrow> (Inr (F_Proposed (ig_id p) (ig_auto p)), w\<lparr>iw_queue := q\<rparr>)
                | Inr (Existing p, q) \<Rightarrow> (case restated now p (w\<lparr>iw_queue := q\<rparr>) of (out, w') \<Rightarrow> (Inr out, w')))))"

fun post_each ::
    "('v, 'd, 'k) ingest_ctx \<Rightarrow> instant \<Rightarrow> (nat \<Rightarrow> nat) \<Rightarrow> str \<Rightarrow> emission_hit list \<Rightarrow> (fact_input \<times> str) list \<Rightarrow>
     post_report \<Rightarrow> 'v ingest_world \<Rightarrow> post_report res \<times> 'v ingest_world" where
  "post_each ctx now draw extractor found [] rep w = (Inr rep, w)"
| "post_each ctx now draw extractor found ((f, hash) # fs) rep w =
     (case post_fact ctx now (draw (length (pr_outcomes rep))) extractor found f hash w of
        (Inl e, w') \<Rightarrow> (Inl e, w')
      | (Inr out, w') \<Rightarrow> post_each ctx now draw extractor found fs (reported out rep) w')"

definition post_facts ::
    "('v, 'd, 'k) ingest_ctx \<Rightarrow> instant \<Rightarrow> (nat \<Rightarrow> nat) \<Rightarrow> str \<Rightarrow> fact_input list \<Rightarrow> 'v ingest_world \<Rightarrow>
     post_report res \<times> 'v ingest_world" where
  "post_facts ctx now draw extractor facts w =
     (if facts = [] then (Inr empty_report, w)
      else case ic_mac ctx of
        Inl e \<Rightarrow> (Inl e, w)
      | Inr mac \<Rightarrow>
          (case screen_facts ctx (iw_db w) mac facts empty_report of
             (screened, rep) \<Rightarrow> post_each ctx now draw extractor (emission_hits ctx now w screened) screened rep w))"

definition record_emission ::
    "('v, 'd, 'k) ingest_ctx \<Rightarrow> instant \<Rightarrow> str \<Rightarrow> nat \<Rightarrow> str \<Rightarrow> str option \<Rightarrow> 'v ingest_world \<Rightarrow>
     unit res \<times> 'v ingest_world" where
  "record_emission ctx now content i tool session w =
     (case and_then (ic_mac ctx) (\<lambda>mac.
             put_emission now (iw_db w) (digest_of mac (ic_lower ctx) content) i tool session (iw_emissions w)) of
        Inl e \<Rightarrow> (Inl e, w)
      | Inr es \<Rightarrow> (Inr (), w\<lparr>iw_emissions := es\<rparr>))"

text \<open>The tripwire as a service: rule names only.\<close>

definition scan_texts :: "str list \<Rightarrow> str option list" where
  "scan_texts texts = map (\<lambda>t. map_option (\<lambda>hit. u (fi_rule hit)) (tripwire_scan t)) texts"

section \<open>Approval\<close>

record approve_outcome =
  ao_id :: nat
  ao_memory_id :: "nat option"
  ao_deduplicated :: bool
  ao_refused :: "domain_error option"

definition earliest_observation :: "ingest_source list \<Rightarrow> instant option" where
  "earliest_observation sources =
     (case filter_map is_observed_at sources of [] \<Rightarrow> None | t # ts \<Rightarrow> Some (fold min ts t))"

definition approval_order :: "(nat \<times> instant option) list \<Rightarrow> nat list" where
  "approval_order keyed =
     map fst (sort_key (\<lambda>(i, t). (t = None, case t of None \<Rightarrow> 0 | Some t \<Rightarrow> t)) keyed)"

definition no_fact :: "nat \<Rightarrow> domain_error" where
  "no_fact i = not_found (R_Service (SF_Ingest (I_NoProposal i)))"

definition visible_fact :: "('v, 'd, 'k) ingest_ctx \<Rightarrow> nat \<Rightarrow> 'v ingest_world \<Rightarrow> ingest_row res" where
  "visible_fact ctx i w = (case get_fact (reader ctx) i (iw_queue w) of None \<Rightarrow> Inl (no_fact i) | Some p \<Rightarrow> Inr p)"

definition approval_args :: "('v, 'd, 'k) ingest_ctx \<Rightarrow> ingest_row \<Rightarrow> instant option \<Rightarrow> write_args" where
  "approval_args ctx p observed =
     \<lparr>wa_content = ig_content p, wa_namespace = ig_namespace p, wa_tags = Some (ig_tags p),
      wa_supersedes = map_option (ic_show ctx) (ig_supersedes p), wa_sensitivity = None, wa_occurred_at = observed\<rparr>"

definition approve ::
    "('v, 'd, 'k::linorder) ingest_ctx \<Rightarrow> instant \<Rightarrow> (nat \<Rightarrow> write_draws) \<Rightarrow> nat \<Rightarrow> 'v ingest_world \<Rightarrow>
     approve_outcome res \<times> 'v ingest_world" where
  "approve ctx now draws i w =
     (case visible_fact ctx i w of
        Inl e \<Rightarrow> (Inl e, w)
      | Inr p \<Rightarrow>
          (case ig_state p of
             I_Written \<Rightarrow>
               (Inr \<lparr>ao_id = i, ao_memory_id = ig_memory_id p, ao_deduplicated = True, ao_refused = None\<rparr>, w)
           | I_Rejected \<Rightarrow> (Inl (conflict (R_Service (SF_Ingest (I_WasRejected i)))), w)
           | I_Proposed \<Rightarrow>
               (let observed = earliest_observation (fact_sources (ic_collate ctx) i (iw_queue w))
                in case write_run_observed (ic_write ctx) now (draws i) (approval_args ctx p observed) (iw_db w) of
                     (Inr out, db) \<Rightarrow>
                       (Inr \<lparr>ao_id = i, ao_memory_id = Some (wo_id out), ao_deduplicated = wo_deduplicated out,
                             ao_refused = None\<rparr>,
                        w\<lparr>iw_db := db, iw_queue := mark_written now db i (wo_id out) (iw_queue w)\<rparr>)
                   | (Inl e, db) \<Rightarrow>
                       (Inr \<lparr>ao_id = i, ao_memory_id = None, ao_deduplicated = False, ao_refused = Some e\<rparr>,
                        w\<lparr>iw_db := db, iw_queue := mark_error now i e (iw_queue w)\<rparr>))))"

text \<open>The batch carries on past a refusal.\<close>

fun approve_each ::
    "('v, 'd, 'k::linorder) ingest_ctx \<Rightarrow> instant \<Rightarrow> (nat \<Rightarrow> write_draws) \<Rightarrow> nat list \<Rightarrow> 'v ingest_world \<Rightarrow>
     approve_outcome list \<times> 'v ingest_world" where
  "approve_each ctx now draws [] w = ([], w)"
| "approve_each ctx now draws (i # is) w =
     (case approve ctx now draws i w of
        (answer, w') \<Rightarrow>
          (case approve_each ctx now draws is w' of
             (out, w'') \<Rightarrow>
               ((case answer of
                   Inr o1 \<Rightarrow> o1
                 | Inl e \<Rightarrow> \<lparr>ao_id = i, ao_memory_id = None, ao_deduplicated = False, ao_refused = Some e\<rparr>) # out, w'')))"

definition approve_all ::
    "('v, 'd, 'k::linorder) ingest_ctx \<Rightarrow> instant \<Rightarrow> (nat \<Rightarrow> write_draws) \<Rightarrow> nat list \<Rightarrow> 'v ingest_world \<Rightarrow>
     approve_outcome list \<times> 'v ingest_world" where
  "approve_all ctx now draws ids w =
     approve_each ctx now draws
       (approval_order (map (\<lambda>i. (i, earliest_observation (fact_sources (ic_collate ctx) i (iw_queue w)))) ids)) w"

definition approve_auto ::
    "('v, 'd, 'k::linorder) ingest_ctx \<Rightarrow> instant \<Rightarrow> (nat \<Rightarrow> write_draws) \<Rightarrow> nat \<Rightarrow> 'v ingest_world \<Rightarrow>
     approve_outcome list \<times> 'v ingest_world" where
  "approve_auto ctx now draws run_id w =
     approve_all ctx now draws
       (map ig_id (list_facts \<lparr>ff_state = Some (mark_as_str I_Proposed), ff_run_id = Some run_id, ff_speaker = None,
          ff_auto = Some True, ff_limit = 1000, ff_reader = reader ctx\<rparr> (iw_queue w))) w"

section \<open>Reading and refusing\<close>

definition list_queue :: "('v, 'd, 'k) ingest_ctx \<Rightarrow> fact_filter \<Rightarrow> 'v ingest_world \<Rightarrow> ingest_row list" where
  "list_queue ctx f w = list_facts (f\<lparr>ff_reader := reader ctx\<rparr>) (iw_queue w)"

definition show_fact ::
    "('v, 'd, 'k::linorder) ingest_ctx \<Rightarrow> nat \<Rightarrow> 'v ingest_world \<Rightarrow> (ingest_row \<times> ingest_source list) res" where
  "show_fact ctx i w =
     and_then (visible_fact ctx i w) (\<lambda>p. Inr (p, fact_sources (ic_collate ctx) i (iw_queue w)))"

definition speaker_rank :: "str \<Rightarrow> nat" where
  "speaker_rank s =
     (if s = SPEAKER_OWNER_TYPED then 5 else if s = u ''main_model'' then 4 else if s = u ''subagent'' then 3
      else if s = u ''tool_returned'' then 2 else if s = u ''hook_injected'' then 1 else 0)"

fun strongest_speaker :: "ingest_source list \<Rightarrow> ingest_source option" where
  "strongest_speaker [] = None"
| "strongest_speaker (s # ss) =
     (case strongest_speaker ss of
        None \<Rightarrow> Some s
      | Some t \<Rightarrow> if speaker_rank (is_speaker t) < speaker_rank (is_speaker s) then Some s else Some t)"

definition reject_proposed ::
    "('v, 'd, 'k) ingest_ctx \<Rightarrow> instant \<Rightarrow> nat \<Rightarrow> 'v ingest_world \<Rightarrow> bool res \<times> 'v ingest_world" where
  "reject_proposed ctx now i w =
     (case visible_fact ctx i w of
        Inl e \<Rightarrow> (Inl e, w)
      | Inr p \<Rightarrow>
          (case reject_fact now i (iw_queue w) of
             (done_now, q) \<Rightarrow>
               (Inr done_now,
                w\<lparr>iw_queue := (if done_now \<and> Open < for_namespace (ic_defaults ctx) (ig_namespace p)
                               then clear_text i q else q)\<rparr>)))"

definition unreject_proposed ::
    "('v, 'd, 'k) ingest_ctx \<Rightarrow> nat \<Rightarrow> 'v ingest_world \<Rightarrow> bool res \<times> 'v ingest_world" where
  "unreject_proposed ctx i w =
     (case visible_fact ctx i w of
        Inl e \<Rightarrow> (Inl e, w)
      | Inr p \<Rightarrow> (case unreject_fact i (iw_queue w) of (done_now, q) \<Rightarrow> (Inr done_now, w\<lparr>iw_queue := q\<rparr>)))"


section \<open>Watermarks and runs\<close>

record ingest_watermark =
  wm_file_path :: str
  wm_session_id :: "str option"
  wm_is_sidechain :: bool
  wm_byte_offset :: int
  wm_prefix_sha256 :: str
  wm_entries_seen :: int
  wm_skip_reason :: "str option"
  wm_skip_run_id :: "nat option"
  wm_last_run_id :: "nat option"
  wm_updated_at :: instant

record watermark_advance =
  wa_file_path :: str
  wa_session_id :: "str option"
  wa_is_sidechain :: bool
  wa_byte_offset :: int
  wa_prefix_sha256 :: str
  wa_entries_seen :: int
  wa_run_id :: nat

definition find_mark :: "str \<Rightarrow> ingest_watermark list \<Rightarrow> ingest_watermark option" where
  "find_mark path ms = List.find (\<lambda>m. wm_file_path m = path) ms"

definition list_marks :: "bool \<Rightarrow> ingest_watermark list \<Rightarrow> ingest_watermark list" where
  "list_marks skipped_only ms =
     sort_key (\<lambda>m. - wm_updated_at m) (filter (\<lambda>m. \<not> skipped_only \<or> wm_skip_reason m \<noteq> None) ms)"

definition moved_mark :: "instant \<Rightarrow> watermark_advance \<Rightarrow> ingest_watermark \<Rightarrow> ingest_watermark" where
  "moved_mark now a m =
     (let further = wm_byte_offset m < max 0 (wa_byte_offset a)
      in m\<lparr>wm_byte_offset := max (wm_byte_offset m) (max 0 (wa_byte_offset a)),
           wm_prefix_sha256 := (if further then wa_prefix_sha256 a else wm_prefix_sha256 m),
           wm_last_run_id := (if further then Some (wa_run_id a) else wm_last_run_id m),
           wm_updated_at := (if further then now else wm_updated_at m),
           wm_session_id := (case wa_session_id a of None \<Rightarrow> wm_session_id m | Some x \<Rightarrow> Some x),
           wm_is_sidechain := wa_is_sidechain a,
           wm_entries_seen := max (wm_entries_seen m) (max 0 (wa_entries_seen a))\<rparr>)"

definition advance_mark :: "instant \<Rightarrow> watermark_advance \<Rightarrow> ingest_watermark list \<Rightarrow> int \<times> ingest_watermark list" where
  "advance_mark now a ms =
     (case find_mark (wa_file_path a) ms of
        Some m \<Rightarrow>
          (wm_byte_offset (moved_mark now a m), update_where (\<lambda>m. wm_file_path m = wa_file_path a) (moved_mark now a) ms)
      | None \<Rightarrow>
          (max 0 (wa_byte_offset a),
           ms @ [\<lparr>wm_file_path = wa_file_path a, wm_session_id = wa_session_id a, wm_is_sidechain = wa_is_sidechain a,
                  wm_byte_offset = max 0 (wa_byte_offset a), wm_prefix_sha256 = wa_prefix_sha256 a,
                  wm_entries_seen = max 0 (wa_entries_seen a), wm_skip_reason = None, wm_skip_run_id = None,
                  wm_last_run_id = Some (wa_run_id a), wm_updated_at = now\<rparr>]))"

definition set_skip :: "instant \<Rightarrow> str \<Rightarrow> str \<Rightarrow> nat \<Rightarrow> ingest_watermark list \<Rightarrow> ingest_watermark list" where
  "set_skip now path why run_id ms =
     (if find_mark path ms = None
      then ms @ [\<lparr>wm_file_path = path, wm_session_id = None, wm_is_sidechain = False, wm_byte_offset = 0,
                  wm_prefix_sha256 = [], wm_entries_seen = 0, wm_skip_reason = Some why, wm_skip_run_id = Some run_id,
                  wm_last_run_id = None, wm_updated_at = now\<rparr>]
      else update_where (\<lambda>m. wm_file_path m = path)
        (\<lambda>m. if wm_skip_reason m = None then m\<lparr>wm_skip_reason := Some why, wm_skip_run_id := Some run_id\<rparr> else m) ms)"

definition clear_skip :: "instant \<Rightarrow> str \<Rightarrow> ingest_watermark list \<Rightarrow> bool \<times> ingest_watermark list" where
  "clear_skip now path ms =
     (let stamped = (\<lambda>m. wm_file_path m = path \<and> wm_skip_reason m \<noteq> None)
      in (list_ex stamped ms,
          update_where stamped (\<lambda>m. m\<lparr>wm_skip_reason := None, wm_skip_run_id := None, wm_updated_at := now\<rparr>) ms))"

fun skip_artifacts :: "instant \<Rightarrow> nat \<Rightarrow> str list \<Rightarrow> str \<Rightarrow> ingest_watermark list \<Rightarrow> ingest_watermark list" where
  "skip_artifacts now run_id [] why ms = ms"
| "skip_artifacts now run_id (path # paths) why ms = skip_artifacts now run_id paths why (set_skip now path why run_id ms)"

record file_advance =
  fv_file_path :: str
  fv_session_id :: "str option"
  fv_is_sidechain :: bool
  fv_plan_ceiling :: int
  fv_prefix_sha256 :: str
  fv_entries_seen :: int
  fv_unextracted_from :: "int list"

record held_back =
  hb_file :: str
  hb_held_at :: int
  hb_ceiling :: int

record watermark_report =
  wr_advanced :: "(str \<times> int) list"
  wr_held_back :: "held_back list"

definition advance_goal :: "file_advance \<Rightarrow> int" where
  "advance_goal f =
     (case filter (\<lambda>b. 0 \<le> b) (fv_unextracted_from f) of
        [] \<Rightarrow> fv_plan_ceiling f
      | b # bs \<Rightarrow> min (fold min bs b) (fv_plan_ceiling f))"

fun advance_watermarks ::
    "instant \<Rightarrow> nat \<Rightarrow> file_advance list \<Rightarrow> watermark_report \<Rightarrow> ingest_watermark list \<Rightarrow>
     watermark_report \<times> ingest_watermark list" where
  "advance_watermarks now run_id [] rep ms = (rep, ms)"
| "advance_watermarks now run_id (f # fs) rep ms =
     (let goal = advance_goal f;
          (stored, ms') = advance_mark now
            \<lparr>wa_file_path = fv_file_path f, wa_session_id = fv_session_id f, wa_is_sidechain = fv_is_sidechain f,
             wa_byte_offset = goal, wa_prefix_sha256 = fv_prefix_sha256 f, wa_entries_seen = fv_entries_seen f,
             wa_run_id = run_id\<rparr> ms
      in advance_watermarks now run_id fs
           (rep\<lparr>wr_advanced := wr_advanced rep @ [(fv_file_path f, stored)],
                wr_held_back := wr_held_back rep @
                  (if goal < fv_plan_ceiling f
                   then [\<lparr>hb_file = fv_file_path f, hb_held_at = goal, hb_ceiling = fv_plan_ceiling f\<rparr>] else [])\<rparr>) ms')"

text \<open>The run record; a counter the caller left as JSON null takes the column's default.\<close>

record 'j run_totals =
  rt_files_seen :: int
  rt_files_skipped :: "'j option"
  rt_entries_seen :: int
  rt_entries_excluded :: "'j option"
  rt_unknown_types :: "'j option"
  rt_spans_cut :: int
  rt_chunks :: int
  rt_chunks_missing :: int
  rt_chunks_failed :: int
  rt_files_held_back :: "'j option"
  rt_fenced_entries :: int
  rt_fences_unclosed :: int
  rt_proposals_new :: int
  rt_proposals_reinforced :: int
  rt_confirmations :: int
  rt_traversal_capped :: bool
  rt_artifact_sessions :: "'j option"

record 'j ingest_run_row =
  rn_id :: nat
  rn_started_at :: instant
  rn_finished_at :: "instant option"
  rn_scope :: 'j
  rn_extractor :: str
  rn_totals :: "'j run_totals"

definition json_or :: "'j option \<Rightarrow> 'j \<Rightarrow> 'j option" where
  "json_or v fallback = (case v of None \<Rightarrow> Some fallback | Some x \<Rightarrow> Some x)"

definition no_totals :: "'j \<Rightarrow> 'j \<Rightarrow> 'j run_totals" where
  "no_totals no_object no_array =
     \<lparr>rt_files_seen = 0, rt_files_skipped = Some no_object, rt_entries_seen = 0, rt_entries_excluded = Some no_object,
      rt_unknown_types = Some no_object, rt_spans_cut = 0, rt_chunks = 0, rt_chunks_missing = 0, rt_chunks_failed = 0,
      rt_files_held_back = Some no_array, rt_fenced_entries = 0, rt_fences_unclosed = 0, rt_proposals_new = 0,
      rt_proposals_reinforced = 0, rt_confirmations = 0, rt_traversal_capped = False, rt_artifact_sessions = Some no_array\<rparr>"

definition open_run ::
    "'j \<Rightarrow> 'j \<Rightarrow> instant \<Rightarrow> nat \<Rightarrow> str \<Rightarrow> 'j \<Rightarrow> 'j ingest_run_row list \<Rightarrow> (nat \<times> 'j ingest_run_row list) res" where
  "open_run no_object no_array now fresh extractor run_scope runs =
     (if fresh \<in> set (map rn_id runs) then Inl database_error
      else Inr (fresh, runs @ [\<lparr>rn_id = fresh, rn_started_at = now, rn_finished_at = None, rn_scope = run_scope,
                               rn_extractor = extractor, rn_totals = no_totals no_object no_array\<rparr>]))"

definition close_run ::
    "'j \<Rightarrow> 'j \<Rightarrow> instant \<Rightarrow> nat \<Rightarrow> 'j run_totals \<Rightarrow> 'j ingest_run_row list \<Rightarrow> 'j ingest_run_row list" where
  "close_run no_object no_array now i t runs =
     update_where (\<lambda>r. rn_id r = i)
       (\<lambda>r. r\<lparr>rn_finished_at := Some now,
              rn_totals := t\<lparr>rt_files_skipped := json_or (rt_files_skipped t) no_object,
                            rt_entries_excluded := json_or (rt_entries_excluded t) no_object,
                            rt_unknown_types := json_or (rt_unknown_types t) no_object,
                            rt_files_held_back := json_or (rt_files_held_back t) no_array,
                            rt_artifact_sessions := json_or (rt_artifact_sessions t) no_array\<rparr>\<rparr>) runs"

definition run_record :: "nat \<Rightarrow> 'j ingest_run_row list \<Rightarrow> 'j ingest_run_row option" where
  "run_record i runs = List.find (\<lambda>r. rn_id r = i) runs"

section \<open>The queue is read at the level its facts would be written at\<close>

lemma rule_matches_split: "rule_matches_ns (split_grant g) ns \<longleftrightarrow> matches (g_namespace g) ns"
  unfolding rule_matches_ns_def by (rule split_grant_matches)

lemma find_map: "List.find P (map f xs) = map_option f (List.find (P \<circ> f) xs)"
  by (induction xs) auto

lemma visible_level:
  "(case List.find (\<lambda>r. rule_matches_ns r ns) (level_arrays levels) of None \<Rightarrow> Open | Some r \<Rightarrow> gr_max r) = for_namespace levels ns"
proof -
  have "level_arrays levels = map (\<lambda>l. split_grant (grant_new (fst l) (snd l))) levels"
    by (simp add: level_arrays_def split_grants_def case_prod_unfold comp_def)
  then show ?thesis
    by (simp add: find_map comp_def rule_matches_split for_namespace_def grant_new_def split: option.splits)
qed

lemma fact_visible_iff: "fact_visible \<lparr>rg_grant = gs, rg_levels = levels\<rparr> ns \<longleftrightarrow> admits gs ns (for_namespace levels ns)"
  unfolding fact_visible_def list_ex_iff admits_iff read_grant.simps visible_level
  by (simp add: split_grants_def rule_matches_split)



section \<open>Posting only proposes\<close>

definition unconfirmed :: "('v, 's) mem_row \<Rightarrow> ('v, 's) mem_row" where
  "unconfirmed r = r\<lparr>mr_last_confirmed_at := None\<rparr>"

definition only_confirmed :: "('v, 's) mem_db \<Rightarrow> ('v, 's) mem_db \<Rightarrow> bool" where
  "only_confirmed db db' \<longleftrightarrow> md_kek_id db' = md_kek_id db \<and> map unconfirmed (md_rows db') = map unconfirmed (md_rows db)"

lemma only_confirmed_refl [simp]: "only_confirmed db db" by (simp add: only_confirmed_def)

lemma only_confirmed_trans: "only_confirmed a b \<Longrightarrow> only_confirmed b c \<Longrightarrow> only_confirmed a c"
  by (simp add: only_confirmed_def)

lemma only_confirmed_confirm: "only_confirmed db (confirm_row now i db)"
  by (simp add: only_confirmed_def confirm_row_def update_rows_def update_where_def unconfirmed_def)

text \<open>A proposal without its sources: everything that is frozen when it is first inserted, and its state.\<close>

definition frozen :: "ingest_row \<Rightarrow> ingest_row" where "frozen p = p\<lparr>ig_sources := []\<rparr>"

lemma frozen_add_source [simp]: "frozen (add_source s p) = frozen p"
  by (simp add: frozen_def add_source_def)

definition scanned_clean :: "ingest_row \<Rightarrow> bool" where
  "scanned_clean p \<longleftrightarrow>
     (tripwire_scan (ig_content p) = None \<and> ig_quote p = None) \<or>
     (\<exists>q. tripwire_scan (ig_content p @ [10] @ q) = None \<and> (ig_quote p = None \<or> ig_quote p = Some q))"

definition fresh_fact :: "('v, 'd, 'k) ingest_ctx \<Rightarrow> ingest_row \<Rightarrow> bool" where
  "fresh_fact ctx p \<longleftrightarrow>
     ig_state p = I_Proposed \<and> ig_memory_id p = None \<and> ig_posted_by p = Some (p_client (ic_principal ctx)) \<and>
     can_read (ic_principal ctx) (ig_namespace p) (for_namespace (ic_defaults ctx) (ig_namespace p)) \<and>
     (ig_auto p \<longrightarrow> ig_speaker p = SPEAKER_OWNER_TYPED \<and>
        can_write (ic_principal ctx) (ig_namespace p) (for_namespace (ic_defaults ctx) (ig_namespace p))) \<and>
     (ig_quote p \<noteq> None \<longrightarrow> ig_speaker p = SPEAKER_OWNER_TYPED) \<and>
     (wc_tripwire (ic_write ctx) \<longrightarrow> scanned_clean p) \<and>
     length (trim (ig_content p)) \<le> wc_max_chars (ic_write ctx)"

definition proposed_only :: "('v, 'd, 'k) ingest_ctx \<Rightarrow> 'v ingest_world \<Rightarrow> 'v ingest_world \<Rightarrow> bool" where
  "proposed_only ctx w w' \<longleftrightarrow>
     only_confirmed (iw_db w) (iw_db w') \<and> iw_emissions w' = iw_emissions w \<and>
     (\<exists>new. map frozen (iw_queue w') = map frozen (iw_queue w) @ map frozen new \<and> list_all (fresh_fact ctx) new)"

lemma proposed_only_refl: "proposed_only ctx w w"
  by (auto simp: proposed_only_def intro: exI[of _ "[]"])

lemma proposed_only_trans: "proposed_only ctx a b \<Longrightarrow> proposed_only ctx b c \<Longrightarrow> proposed_only ctx a c"
  unfolding proposed_only_def
proof (elim conjE exE, intro conjI)
  fix new1 new2
  assume "map frozen (iw_queue b) = map frozen (iw_queue a) @ map frozen new1" "list_all (fresh_fact ctx) new1"
    "map frozen (iw_queue c) = map frozen (iw_queue b) @ map frozen new2" "list_all (fresh_fact ctx) new2"
  then show "\<exists>new. map frozen (iw_queue c) = map frozen (iw_queue a) @ map frozen new \<and> list_all (fresh_fact ctx) new"
    by (intro exI[of _ "new1 @ new2"]) simp
qed (auto intro: only_confirmed_trans)

lemma proposed_only_confirm: "proposed_only ctx w (confirm_memory now i w)"
  by (auto simp: proposed_only_def confirm_memory_def only_confirmed_confirm intro: exI[of _ "[]"])

definition screened_ok :: "('v, 'd, 'k) ingest_ctx \<Rightarrow> fact_input \<Rightarrow> bool" where
  "screened_ok ctx f \<longleftrightarrow>
     can_read (ic_principal ctx) (fa_namespace f) (for_namespace (ic_defaults ctx) (fa_namespace f)) \<and>
     (wc_tripwire (ic_write ctx) \<longrightarrow>
        tripwire_scan (case fa_quote f of None \<Rightarrow> fa_content f | Some q \<Rightarrow> fa_content f @ [10] @ q) = None)"

lemma screen_fact_ok: "screen_fact ctx db f = Inr f' \<Longrightarrow> screened_ok ctx f'"
  by (auto simp: screen_fact_def screened_ok_def Let_def split: sum.splits option.splits if_splits)

lemma screen_facts_ok: "list_all (\<lambda>x. screened_ok ctx (fst x)) (fst (screen_facts ctx db mac fs rep))"
  by (induction fs arbitrary: rep) (auto simp: screen_fact_ok split: sum.splits prod.splits, (metis fst_conv)+)

lemma insert_fact_keeps:
  assumes "insert_fact now fresh db f q = Inr (up, q')"
  obtains (Created) "up = Created (fact_row now fresh f)" "q' = q @ [fact_row now fresh f]"
      "nf_fingerprint f \<notin> set (map ig_fingerprint q)" "fresh \<notin> set (map ig_id q)"
    | (Existing) p where "p \<in> set q" "ig_fingerprint p = nf_fingerprint f" "up = Existing p"
      "q' = update_where (\<lambda>x. ig_id x = ig_id p) (add_source (nf_source f)) q"
proof (cases "List.find (\<lambda>p. ig_fingerprint p = nf_fingerprint f) q")
  case None
  then have "nf_fingerprint f \<notin> set (map ig_fingerprint q)" by (auto simp: find_None_iff)
  moreover have "find_fact fresh q = None" "up = Created (fact_row now fresh f)" "q' = q @ [fact_row now fresh f]"
    using assms None by (auto simp: insert_fact_def split: if_splits)
  moreover have "fresh \<notin> set (map ig_id q)" using calculation(2) by (auto simp: find_fact_def find_None_iff)
  ultimately show thesis using Created by blast
next
  case (Some p)
  then show thesis using assms find_Some_set[OF Some] by (intro Existing[of p]) (auto simp: insert_fact_def)
qed

lemma frozen_update [simp]: "map frozen (update_where P (add_source s) q) = map frozen q"
  by (simp add: update_where_def)

lemma post_fact_only:
  assumes "screened_ok ctx f"
  shows "proposed_only ctx w (snd (post_fact ctx now fresh extractor found f hash w))"
proof -
  let ?n = "new_fact_of ctx extractor f hash"
  let ?w' = "snd (post_fact ctx now fresh extractor found f hash w)"
  have insert: "proposed_only ctx w ?w'"
    if len: "length_refusal (fa_content f) (wc_max_chars (ic_write ctx)) = None"
      and w': "?w' = snd (case insert_fact now fresh (iw_db w) ?n (iw_queue w) of
                  Inl e \<Rightarrow> (Inl e, w)
                | Inr (Created p, q) \<Rightarrow> (Inr (F_Proposed (ig_id p) (ig_auto p)), w\<lparr>iw_queue := q\<rparr>)
                | Inr (Existing p, q) \<Rightarrow> (case restated now p (w\<lparr>iw_queue := q\<rparr>) of (out, w') \<Rightarrow> (Inr out, w')))"
  proof (cases "insert_fact now fresh (iw_db w) ?n (iw_queue w)")
    case (Inl e)
    then show ?thesis using w' by (simp add: proposed_only_refl)
  next
    case (Inr y)
    obtain up q where y: "y = (up, q)" by (cases y)
    show ?thesis
    proof (cases rule: insert_fact_keeps[OF Inr[unfolded y]])
      case 1
      have "fresh_fact ctx (fact_row now fresh ?n)"
        using assms len
        by (auto simp: fresh_fact_def fact_row_def new_fact_of_def screened_ok_def scanned_clean_def length_refusal_def
            qualifies_for_auto_def Let_def not_less split: option.splits if_splits)
      then show ?thesis using w' Inr y 1
        by (auto simp: proposed_only_def intro!: exI[of _ "[fact_row now fresh ?n]"])
    next
      case (2 p)
      have "proposed_only ctx w (w\<lparr>iw_queue := q\<rparr>)" using 2 by (auto simp: proposed_only_def intro: exI[of _ "[]"])
      moreover have "proposed_only ctx (w\<lparr>iw_queue := q\<rparr>) (snd (restated now p (w\<lparr>iw_queue := q\<rparr>)))"
        by (auto simp: restated_def proposed_only_refl proposed_only_confirm split: ingest_mark.splits option.splits)
      ultimately show ?thesis using w' Inr y 2 proposed_only_trans by (auto split: prod.splits)
    qed
  qed
  show ?thesis
    using insert proposed_only_confirm[of ctx w now] proposed_only_refl[of ctx w]
    unfolding post_fact_def by (auto split: option.splits if_splits)
qed

lemma post_each_only:
  "list_all (\<lambda>x. screened_ok ctx (fst x)) fs \<Longrightarrow> proposed_only ctx w (snd (post_each ctx now draw extractor found fs rep w))"
proof (induction fs arbitrary: rep w)
  case (Cons x fs)
  obtain f hash where x: "x = (f, hash)" by (cases x)
  obtain out w1 where p: "post_fact ctx now (draw (length (pr_outcomes rep))) extractor found f hash w = (out, w1)"
    by (cases "post_fact ctx now (draw (length (pr_outcomes rep))) extractor found f hash w")
  have "proposed_only ctx w w1"
    using post_fact_only[of ctx f w now "draw (length (pr_outcomes rep))" extractor found hash] Cons.prems p x by simp
  then show ?case
    using Cons.IH[of w1] Cons.prems p x proposed_only_trans by (cases out) fastforce+
qed (simp add: proposed_only_refl)


end
