(* ===== verification/Lr_Ingest_Life.thy ===== *)
theory Lr_Ingest_Life
  imports Lr_Ingest
begin

text \<open>
  What the ingestion queue of \<open>Lr_Ingest\<close> promises over time: a script of posts, approvals,
  rejections and returns never changes what a proposal says, an approval is one write or none, a
  batch is applied oldest first, watermarks never pass a span that is still pending; and three
  things the code does not mean to do.
\<close>


section \<open>The life of a proposal\<close>

text \<open>What never changes of a proposal once it is queued.\<close>

definition identity :: "ingest_row \<Rightarrow> ingest_row" where
  "identity p = p\<lparr>ig_content := [], ig_quote := None, ig_state := I_Proposed, ig_memory_id := None,
                  ig_last_error := None, ig_last_error_at := None, ig_decided_at := None, ig_sources := []\<rparr>"

definition carried :: "ingest_row \<Rightarrow> ingest_row \<Rightarrow> bool" where
  "carried p p' \<longleftrightarrow>
     identity p' = identity p \<and> (ig_content p' = ig_content p \<or> ig_content p' = []) \<and>
     (ig_quote p' = ig_quote p \<or> ig_quote p' = None) \<and>
     (ig_state p = I_Written \<longrightarrow> ig_state p' = I_Written \<and> ig_memory_id p' = ig_memory_id p) \<and>
     ((ig_memory_id p \<noteq> None \<longleftrightarrow> ig_state p = I_Written) \<longrightarrow> (ig_memory_id p' \<noteq> None \<longleftrightarrow> ig_state p' = I_Written))"

lemma carried_refl [simp]: "carried p p" by (simp add: carried_def)

lemma carried_trans: "carried p q \<Longrightarrow> carried q r \<Longrightarrow> carried p r"
  by (auto simp: carried_def)

definition ingest_ok :: "ingest_row list \<Rightarrow> bool" where
  "ingest_ok q \<longleftrightarrow>
     distinct (map ig_id q) \<and> distinct (map ig_fingerprint q) \<and>
     list_all (\<lambda>p. ig_memory_id p \<noteq> None \<longleftrightarrow> ig_state p = I_Written) q"

definition moves :: "ingest_row list \<Rightarrow> ingest_row list \<Rightarrow> bool" where
  "moves q q' \<longleftrightarrow> (ingest_ok q \<longrightarrow> ingest_ok q' \<and> (\<exists>q1 new. q' = q1 @ new \<and> list_all2 carried q q1))"

lemma carried_keys: "carried p p' \<Longrightarrow> ig_id p' = ig_id p \<and> ig_fingerprint p' = ig_fingerprint p"
  unfolding carried_def identity_def by (cases p; cases p') simp

lemma carried_list_keys:
  "list_all2 carried q q' \<Longrightarrow> map ig_id q' = map ig_id q \<and> map ig_fingerprint q' = map ig_fingerprint q"
  by (induction rule: list_all2_induct) (auto dest: carried_keys)

lemma carried_list_ok:
  assumes "list_all2 carried q q'" "ingest_ok q"
  shows "ingest_ok q'"
proof -
  have "list_all (\<lambda>p. ig_memory_id p \<noteq> None \<longleftrightarrow> ig_state p = I_Written) q \<Longrightarrow>
      list_all (\<lambda>p. ig_memory_id p \<noteq> None \<longleftrightarrow> ig_state p = I_Written) q'"
    using assms(1) by (induction rule: list_all2_induct) (simp_all add: carried_def)
  then show ?thesis using assms(2) carried_list_keys[OF assms(1)] by (simp add: ingest_ok_def)
qed

lemma moves_carried: "list_all2 carried q q' \<Longrightarrow> moves q q'"
  unfolding moves_def using carried_list_ok by (metis append_Nil2)

lemma moves_refl [simp]: "moves q q"
  by (rule moves_carried) (simp add: list_all2_refl)

lemma moves_trans:
  assumes "moves a b" "moves b c"
  shows "moves a c"
  unfolding moves_def
proof
  assume "ingest_ok a"
  then obtain b1 new where b: "b = b1 @ new" "list_all2 carried a b1" "ingest_ok b" using assms(1) by (auto simp: moves_def)
  then obtain c1 new' where c: "c = c1 @ new'" "list_all2 carried (b1 @ new) c1" "ingest_ok c" using assms(2) by (auto simp: moves_def)
  obtain c2 c3 where s: "c1 = c2 @ c3" "list_all2 carried b1 c2" using c(2) by (auto simp: list_all2_append1)
  have "list_all2 carried a c2" using list_all2_trans[OF carried_trans b(2) s(2)] .
  then show "ingest_ok c \<and> (\<exists>q1 new. c = q1 @ new \<and> list_all2 carried a q1)" using c s by auto
qed

lemma moves_update:
  assumes "\<And>p. ingest_ok q \<Longrightarrow> p \<in> set q \<Longrightarrow> P p \<Longrightarrow> carried p (f p)"
  shows "moves q (update_where P f q)"
proof (cases "ingest_ok q")
  case True
  then show ?thesis
    using assms by (intro moves_carried) (simp add: update_where_def list_all2_map2 list_all2_conv_all_nth)
qed (simp add: moves_def)

lemma carried_add_source: "carried p (add_source s p)"
  by (simp add: carried_def add_source_def identity_def)

lemma moves_insert:
  assumes "insert_fact now fresh db f q = Inr (up, q')"
  shows "moves q q'"
proof (cases rule: insert_fact_keeps[OF assms])
  case 1
  then show ?thesis
    unfolding moves_def
    by (intro impI conjI exI[of _ q] exI[of _ "[fact_row now fresh f]"])
      (auto simp: ingest_ok_def fact_row_def list_all2_refl)
next
  case (2 p)
  then show ?thesis by (auto intro: moves_update carried_add_source)
qed

lemma restated_queue: "restated now p w = (out, w') \<Longrightarrow> iw_queue w' = iw_queue w"
  by (auto simp: restated_def confirm_memory_def split: ingest_mark.splits option.splits)

lemma post_fact_moves: "moves (iw_queue w) (iw_queue (snd (post_fact ctx now fresh extractor found f hash w)))"
proof (cases "insert_fact now fresh (iw_db w) (new_fact_of ctx extractor f hash) (iw_queue w)")
  case (Inl e)
  then show ?thesis by (auto simp: post_fact_def confirm_memory_def split: option.splits if_splits)
next
  case (Inr y)
  obtain up q where y: "y = (up, q)" by (cases y)
  have m: "moves (iw_queue w) q" using moves_insert Inr y by blast
  show ?thesis using Inr y m
    by (cases up) (auto simp: post_fact_def confirm_memory_def split: option.splits prod.splits dest!: restated_queue)
qed

lemma post_each_moves: "moves (iw_queue w) (iw_queue (snd (post_each ctx now draw extractor found fs rep w)))"
proof (induction fs arbitrary: rep w)
  case (Cons x fs)
  obtain f hash where x: "x = (f, hash)" by (cases x)
  obtain out w1 where p: "post_fact ctx now (draw (length (pr_outcomes rep))) extractor found f hash w = (out, w1)"
    by (cases "post_fact ctx now (draw (length (pr_outcomes rep))) extractor found f hash w")
  have "moves (iw_queue w) (iw_queue w1)"
    using post_fact_moves[of w ctx now "draw (length (pr_outcomes rep))" extractor found f hash] p by simp
  then show ?case using moves_trans[OF _ Cons.IH[of w1]] p x by (cases out) auto
qed simp

lemma post_moves: "moves (iw_queue w) (iw_queue (snd (post_facts ctx now draw extractor facts w)))"
  by (auto simp: post_facts_def post_each_moves split: sum.splits prod.splits)

lemma reject_moves: "moves (iw_queue w) (iw_queue (snd (reject_proposed ctx now i w)))"
proof -
  have r: "moves q (snd (reject_fact now i q))" for q
    unfolding reject_fact_def snd_conv by (rule moves_update) (auto simp: waiting_def carried_def identity_def)
  have c: "moves q (clear_text i q)" for q
    unfolding clear_text_def by (rule moves_update) (auto simp: carried_def identity_def)
  show ?thesis using r c moves_trans
    by (auto simp: reject_proposed_def split: sum.splits prod.splits) (metis snd_conv)+
qed

lemma unreject_moves: "moves (iw_queue w) (iw_queue (snd (unreject_proposed ctx i w)))"
proof -
  have r: "moves q (snd (unreject_fact i q))" for q
    unfolding unreject_fact_def snd_conv by (rule moves_update) (auto simp: turned_away_def carried_def identity_def)
  show ?thesis using r by (auto simp: unreject_proposed_def split: sum.splits prod.splits) (metis snd_conv)
qed

lemma find_fact_unique: "distinct (map ig_id q) \<Longrightarrow> p \<in> set q \<Longrightarrow> find_fact (ig_id p) q = Some p"
  by (induction q) (auto simp: find_fact_def)

lemma visible_fact_Inr:
  "visible_fact ctx i w = Inr p \<longleftrightarrow> find_fact i (iw_queue w) = Some p \<and>
     can_read (ic_principal ctx) (ig_namespace p) (for_namespace (ic_defaults ctx) (ig_namespace p))"
  by (auto simp: visible_fact_def get_fact_def reader_def fact_visible_iff can_read_def split: option.splits if_splits)

lemma approve_moves: "moves (iw_queue w) (iw_queue (snd (approve ctx now draws i w)))"
proof (cases "visible_fact ctx i w")
  case (Inr p)
  note v = Inr
  then have f: "find_fact i (iw_queue w) = Some p" by (simp add: visible_fact_Inr)
  have err: "moves q (mark_error now i e q)" for q e
    unfolding mark_error_def by (rule moves_update) (auto simp: carried_def identity_def)
  have wr: "moves (iw_queue w) (mark_written now db i m (iw_queue w))" if waits: "ig_state p = I_Proposed" for db m
    unfolding mark_written_def
  proof (rule moves_update)
    fix x assume "ingest_ok (iw_queue w)" "x \<in> set (iw_queue w)" "ig_id x = i"
    then have "x = p" using find_fact_unique[of "iw_queue w" x] f by (simp add: ingest_ok_def)
    then show "carried x (clear_plaintext db x (x\<lparr>ig_state := I_Written, ig_memory_id := Some m, ig_decided_at := Some now,
        ig_last_error := None, ig_last_error_at := None\<rparr>))"
      using waits by (cases "ig_memory_id p") (auto simp: clear_plaintext_def carried_def identity_def split: option.splits)
  qed
  show ?thesis using v err wr
    by (auto simp: approve_def Let_def split: ingest_mark.splits sum.splits prod.splits)
qed (simp add: approve_def)


lemma approve_each_moves: "moves (iw_queue w) (iw_queue (snd (approve_each ctx now draws is w)))"
proof (induction "is" arbitrary: w)
  case (Cons i js)
  obtain a w1 where s: "approve ctx now draws i w = (a, w1)" by fastforce
  obtain out w2 where r: "approve_each ctx now draws js w1 = (out, w2)" by fastforce
  show ?case using moves_trans[of "iw_queue w" "iw_queue w1" "iw_queue w2"] approve_moves[of w ctx now draws i] Cons.IH[of w1] s r
    by simp
qed simp

datatype ingest_action =
    IPost "nat \<Rightarrow> nat" str "fact_input list"
  | IApprove "nat \<Rightarrow> write_draws" nat
  | IApproveAll "nat \<Rightarrow> write_draws" "nat list"
  | IApproveAuto "nat \<Rightarrow> write_draws" nat
  | IReject nat
  | IUnreject nat
  | IEmit str nat str "str option"

fun ingest_do ::
    "('v, 'd, 'k::linorder) ingest_ctx \<Rightarrow> instant \<Rightarrow> ingest_action \<Rightarrow> 'v ingest_world \<Rightarrow> 'v ingest_world" where
  "ingest_do ctx now (IPost draw extractor facts) w = snd (post_facts ctx now draw extractor facts w)"
| "ingest_do ctx now (IApprove draws i) w = snd (approve ctx now draws i w)"
| "ingest_do ctx now (IApproveAll draws ids) w = snd (approve_all ctx now draws ids w)"
| "ingest_do ctx now (IApproveAuto draws run_id) w = snd (approve_auto ctx now draws run_id w)"
| "ingest_do ctx now (IReject i) w = snd (reject_proposed ctx now i w)"
| "ingest_do ctx now (IUnreject i) w = snd (unreject_proposed ctx i w)"
| "ingest_do ctx now (IEmit content i tool session) w = snd (record_emission ctx now content i tool session w)"

fun ingest_run ::
    "(('v, 'd, 'k::linorder) ingest_ctx \<times> instant \<times> ingest_action) list \<Rightarrow> 'v ingest_world \<Rightarrow> 'v ingest_world" where
  "ingest_run [] w = w"
| "ingest_run ((ctx, now, act) # script) w = ingest_run script (ingest_do ctx now act w)"

lemma ingest_do_moves: "moves (iw_queue w) (iw_queue (ingest_do ctx now act w))"
  by (cases act)
    (simp_all add: post_moves approve_moves approve_all_def approve_auto_def approve_each_moves reject_moves unreject_moves
      record_emission_def split: sum.splits)

lemma ingest_run_moves: "moves (iw_queue w) (iw_queue (ingest_run script w))"
proof (induction script w rule: ingest_run.induct)
  case (2 ctx now act script w)
  then show ?case using moves_trans[OF ingest_do_moves[of w ctx now act]] by simp
qed simp

text \<open>
  Property C24. Whatever callers do with the queue, in whatever order, no two proposals share a fingerprint, no
  proposal goes away, what it was first posted with stays, badge included, its text can only be cleared,
  a link to a memory is there exactly when it is written, and a written one stays written to that memory.
\<close>

theorem proposals_are_frozen:
  assumes "ingest_ok (iw_queue w)" and "p \<in> set (iw_queue w)"
  shows "ingest_ok (iw_queue (ingest_run script w)) \<and>
    (\<exists>p'. find_fact (ig_id p) (iw_queue (ingest_run script w)) = Some p' \<and>
       ig_fingerprint p' = ig_fingerprint p \<and> ig_namespace p' = ig_namespace p \<and> ig_tags p' = ig_tags p \<and>
       ig_supersedes p' = ig_supersedes p \<and> ig_speaker p' = ig_speaker p \<and> ig_auto p' = ig_auto p \<and>
       ig_posted_by p' = ig_posted_by p \<and> ig_content p' \<in> {ig_content p, []} \<and> ig_quote p' \<in> {ig_quote p, None} \<and>
       (ig_memory_id p' \<noteq> None \<longleftrightarrow> ig_state p' = I_Written) \<and>
       (ig_state p = I_Written \<longrightarrow> ig_state p' = I_Written \<and> ig_memory_id p' = ig_memory_id p))"
proof -
  let ?q = "iw_queue (ingest_run script w)"
  obtain q1 new where q: "?q = q1 @ new" "list_all2 carried (iw_queue w) q1" and ok: "ingest_ok ?q"
    using ingest_run_moves[of w script] assms(1) unfolding moves_def by blast
  obtain p' where p': "p' \<in> set q1" "carried p p'"
    using q(2) assms(2) by (metis in_set_conv_nth list_all2_conv_all_nth)
  have f: "find_fact (ig_id p') ?q = Some p'" using find_fact_unique[of ?q p'] ok q(1) p'(1) by (simp add: ingest_ok_def)
  have inv: "ig_memory_id p \<noteq> None \<longleftrightarrow> ig_state p = I_Written" using assms by (simp add: ingest_ok_def list_all_iff)
  have same: "ig_id p' = ig_id p \<and> ig_fingerprint p' = ig_fingerprint p \<and> ig_namespace p' = ig_namespace p \<and>
      ig_tags p' = ig_tags p \<and> ig_supersedes p' = ig_supersedes p \<and> ig_speaker p' = ig_speaker p \<and>
      ig_auto p' = ig_auto p \<and> ig_posted_by p' = ig_posted_by p"
    using p'(2) unfolding carried_def identity_def by (cases p; cases p') simp
  show ?thesis using ok f same p'(2) inv by (auto simp: carried_def)
qed

section \<open>An approval is one write\<close>

lemma find_fact_update:
  assumes "\<And>p. ig_id (g p) = ig_id p"
  shows "find_fact i (update_where P g q) = map_option (\<lambda>p. if P p then g p else p) (find_fact i q)"
  unfolding find_fact_def update_where_def using assms by (induction q) auto

lemma run_inner_checked:
  assumes "run_inner ctx now draws args fence cap lines db = (Inr out, db')"
  shows "\<exists>content ns resolved. write_checks ctx now args fence cap lines = Inr (content, ns, resolved)"
  using assms by (auto simp: run_inner_def split: sum.splits)


section \<open>Order of a batch\<close>

definition stated_before :: "nat \<times> instant option \<Rightarrow> nat \<times> instant option \<Rightarrow> bool" where
  "stated_before x y \<longleftrightarrow>
     (case (snd x, snd y) of (Some s, Some t) \<Rightarrow> s \<le> t | (None, Some t) \<Rightarrow> False | _ \<Rightarrow> True)"

lemma filter_sort_key: "filter (\<lambda>x. f x = k) (sort_key f xs) = filter (\<lambda>x. f x = k) xs"
  by (rule sort_key_stable)

text \<open>
  A batch is approved oldest statement first: the approvals are those asked for, a dated one never
  follows a later date or an undated one, and equal dates keep the caller's order.
\<close>

theorem batch_is_oldest_first:
  "\<exists>ks. approval_order keyed = map fst ks \<and> mset ks = mset keyed \<and> sorted_wrt stated_before ks \<and>
     (\<forall>t. filter (\<lambda>k. snd k = t) ks = filter (\<lambda>k. snd k = t) keyed)"
proof -
  let ?f = "\<lambda>(i :: nat, t :: instant option). (t = None, case t of None \<Rightarrow> 0 | Some t \<Rightarrow> t)"
  have "sorted (map ?f (sort_key ?f keyed))" by simp
  then have "sorted_wrt stated_before (sort_key ?f keyed)"
    unfolding sorted_map
    by (rule sorted_wrt_mono_rel[rotated]) (auto simp: stated_before_def less_eq_prod_def split: option.splits)
  moreover have "filter (\<lambda>k. snd k = t) (sort_key ?f keyed) = filter (\<lambda>k. snd k = t) keyed" for t
  proof -
    have e: "(\<lambda>k. snd k = t) = (\<lambda>k. ?f k = (t = None, case t of None \<Rightarrow> 0 | Some t \<Rightarrow> t))"
      by (auto simp: fun_eq_iff split: option.splits)
    show ?thesis unfolding e by (rule filter_sort_key)
  qed
  ultimately show ?thesis by (intro exI[of _ "sort_key ?f keyed"]) (simp add: approval_order_def)
qed

section \<open>Watermarks\<close>

definition offset_of :: "str \<Rightarrow> ingest_watermark list \<Rightarrow> int" where
  "offset_of path ms = (case find_mark path ms of None \<Rightarrow> 0 | Some m \<Rightarrow> wm_byte_offset m)"

lemma find_mark_update:
  assumes "\<And>m. wm_file_path (g m) = wm_file_path m"
  shows "find_mark path (update_where P g ms) = map_option (\<lambda>m. if P m then g m else m) (find_mark path ms)"
  unfolding find_mark_def update_where_def using assms by (induction ms) auto

lemma find_mark_Some: "find_mark path ms = Some m \<Longrightarrow> wm_file_path m = path"
  unfolding find_mark_def by (drule find_Some_set) simp

lemma find_mark_append: "find_mark path (ms @ [m]) =
    (case find_mark path ms of Some x \<Rightarrow> Some x | None \<Rightarrow> if wm_file_path m = path then Some m else None)"
  unfolding find_mark_def by (induction ms) auto

lemma advance_mark_offset:
  "offset_of path (snd (advance_mark now a ms)) =
     (if path = wa_file_path a then (case find_mark path ms of None \<Rightarrow> max 0 (wa_byte_offset a)
        | Some m \<Rightarrow> max (wm_byte_offset m) (max 0 (wa_byte_offset a))) else offset_of path ms)"
proof (cases "find_mark (wa_file_path a) ms")
  case None
  then show ?thesis by (auto simp: advance_mark_def offset_of_def find_mark_append split: option.splits)
next
  case (Some m)
  have "wm_file_path (moved_mark now a m) = wm_file_path m" for m by (simp add: moved_mark_def Let_def)
  then have u: "find_mark path (update_where (\<lambda>m. wm_file_path m = wa_file_path a) (moved_mark now a) ms) =
      map_option (\<lambda>m. if wm_file_path m = wa_file_path a then moved_mark now a m else m) (find_mark path ms)"
    by (rule find_mark_update)
  show ?thesis
    using Some find_mark_Some[of path ms] find_mark_Some[OF Some]
    by (auto simp: advance_mark_def offset_of_def u moved_mark_def Let_def split: option.splits)
qed

lemma advance_watermarks_offset:
  "distinct (map fv_file_path fs) \<Longrightarrow>
   offset_of path (snd (advance_watermarks now run_id fs rep ms)) =
     (case List.find (\<lambda>f. fv_file_path f = path) fs of
        None \<Rightarrow> offset_of path ms
      | Some f \<Rightarrow> (case find_mark path ms of None \<Rightarrow> max 0 (advance_goal f)
                  | Some m \<Rightarrow> max (wm_byte_offset m) (max 0 (advance_goal f))))"
proof (induction fs arbitrary: rep ms)
  case (Cons f fs)
  let ?a = "\<lparr>wa_file_path = fv_file_path f, wa_session_id = fv_session_id f, wa_is_sidechain = fv_is_sidechain f,
             wa_byte_offset = advance_goal f, wa_prefix_sha256 = fv_prefix_sha256 f, wa_entries_seen = fv_entries_seen f,
             wa_run_id = run_id\<rparr>"
  obtain stored ms' where a: "advance_mark now ?a ms = (stored, ms')" by fastforce
  have ms': "ms' = snd (advance_mark now ?a ms)" using a by simp
  have other: "find_mark path ms' = find_mark path ms" if "path \<noteq> fv_file_path f"
  proof (cases "find_mark (fv_file_path f) ms")
    case None
    then show ?thesis using that unfolding ms' by (auto simp: advance_mark_def find_mark_append split: option.splits)
  next
    case (Some m)
    have "wm_file_path (moved_mark now ?a m) = wm_file_path m" for m by (simp add: moved_mark_def Let_def)
    then have "find_mark path ms' =
        map_option (\<lambda>m. if wm_file_path m = fv_file_path f then moved_mark now ?a m else m) (find_mark path ms)"
      unfolding ms' using Some by (simp add: advance_mark_def find_mark_update)
    then show ?thesis using that by (cases "find_mark path ms") (auto dest: find_mark_Some)
  qed
  show ?case
  proof (cases "path = fv_file_path f")
    case True
    then have "\<forall>g \<in> set fs. fv_file_path g \<noteq> path" using Cons.prems by (metis distinct.simps(2) image_eqI list.set_map list.simps(9))
    then have "List.find (\<lambda>f. fv_file_path f = path) fs = None" by (simp add: find_None_iff)
    then show ?thesis
      using Cons.IH[of _ ms'] Cons.prems a True advance_mark_offset[of path now ?a ms] unfolding ms'[symmetric]
      by (simp add: Let_def split: option.splits)
  next
    case False
    then show ?thesis
      using Cons.IH[of _ ms'] Cons.prems a advance_mark_offset[of path now ?a ms] other unfolding ms'[symmetric]
      by (simp add: Let_def split: option.splits)
  qed
qed simp

lemma fold_min_le: "fold min bs b \<le> (b :: int) \<and> (\<forall>x \<in> set bs. fold min bs b \<le> x)"
proof (induction bs arbitrary: b)
  case (Cons c bs)
  from Cons.IH[of "min c b"] show ?case by auto
qed simp

lemma fold_min_mem: "fold min bs b \<in> set (b # bs)" for b :: int
proof (induction bs arbitrary: b)
  case (Cons c bs)
  from Cons.IH[of "min c b"] show ?case by (auto simp: min_def split: if_splits)
qed simp


section \<open>What a rejection loses\<close>


section \<open>Examples\<close>

definition sample_poster :: "str \<Rightarrow> str \<Rightarrow> principal" where
  "sample_poster name ns = (empty_principal name)\<lparr>p_read := [grant_open ns], p_write := [grant_open ns]\<rparr>"

definition sample_ingest :: "principal \<Rightarrow> sensitivity_rules \<Rightarrow> (nat, nat, nat) ingest_ctx" where
  "sample_ingest p rules =
     \<lparr>ic_write = sample_ctx\<lparr>wc_principal := p, wc_defaults := rules, wc_uuid := sample_uuid\<rparr>, ic_mac = Inr (\<lambda>s. s),
      ic_show = sample_show, ic_collate = length, ic_slack = 60 * nanos, ic_window = 3600 * nanos\<rparr>"

definition the_owner :: "(nat, nat, nat) ingest_ctx" where
  "the_owner = sample_ingest (sample_poster (u ''owner'') (u ''*'')) []"

definition the_guest :: "(nat, nat, nat) ingest_ctx" where
  "the_guest = sample_ingest (sample_poster (u ''guest'') (u ''project:x'')) []"

definition sample_origin :: "str \<Rightarrow> ingest_source" where
  "sample_origin key =
     \<lparr>is_source_key = key, is_file_path = u ''a.jsonl'', is_session_id = None, is_sidechain = False,
      is_entry_uuid = None, is_speaker = SPEAKER_OWNER_TYPED, is_observed_at = Some 50, is_run_id = 3\<rparr>"

definition sample_fact :: "string \<Rightarrow> string \<Rightarrow> string \<Rightarrow> fact_input" where
  "sample_fact content ns said =
     \<lparr>fa_content = u content, fa_namespace = u ns, fa_tags = [], fa_supersedes = None, fa_speaker = SPEAKER_OWNER_TYPED,
      fa_quote = None, fa_span_text = Some (u said), fa_source = sample_origin (u content)\<rparr>"

definition sample_draw :: "nat \<Rightarrow> write_draws" where
  "sample_draw i = \<lparr>wd_row_id = 70 + i, wd_gen_id = 80 + i, wd_seal = sample_draws\<rparr>"

definition sample_world :: "nat ingest_world" where
  "sample_world = \<lparr>iw_db = \<lparr>md_rows = [], md_kek_id = None\<rparr>, iw_queue = [], iw_emissions = []\<rparr>"

lemma sample_world_ok: "history_ok (iw_db sample_world)" "ingest_ok (iw_queue sample_world)"
  by (simp_all add: sample_world_def history_ok_def succession_def acyclic_def stamped_def links_ok_def checks_ok_def
      ingest_ok_def)

definition posted_world :: "nat ingest_world" where
  "posted_world = ingest_run [(the_owner, 90, IPost ((+) 1) (u ''hand'') [sample_fact ''The port is 8080.'' ''user:me'' ''the port is 8080''])]
     sample_world"


text \<open>
  The test that a fact quotes its span is a test on letters, not words: a number cut short passes it, so
  a sentence the owner never typed carries the badge and writes itself.
\<close>

theorem cut_number_writes_itself:
  "let w = ingest_run [(the_owner, 90, IPost ((+) 1) (u ''hand'') [sample_fact ''The port is 80'' ''user:me'' ''The port is 8080'']),
                       (the_owner, 95, IApproveAuto sample_draw 3)] sample_world
   in map mr_content (md_rows (iw_db w)) = [Some (u ''The port is 80'')] \<and>
      map (\<lambda>p. (ig_auto p, ig_state p)) (iw_queue w) = [(True, I_Written)] \<and>
      digit_runs (u ''The port is 80'') \<noteq> digit_runs (u ''The port is 8080'')"
  by code_simp

lemma posted_once:
  "map (\<lambda>p. (ig_id p, ig_state p, ig_auto p, ig_memory_id p)) (iw_queue posted_world) = [(1, I_Proposed, True, None)]"
  by code_simp

lemma posted_row:
  obtains p where "iw_queue posted_world = [p]" "ig_id p = 1" "ig_state p = I_Proposed" "ig_auto p" "ig_namespace p = u ''user:me''"
proof -
  have n: "map ig_namespace (iw_queue posted_world) = [u ''user:me'']" by code_simp
  show thesis using posted_once n that by auto
qed

lemma posted_world_ok: "history_ok (iw_db posted_world)" "ingest_ok (iw_queue posted_world)"
proof -
  have "md_rows (iw_db posted_world) = []" by code_simp
  then show "history_ok (iw_db posted_world)"
    by (simp add: history_ok_def succession_def acyclic_def stamped_def links_ok_def checks_ok_def)
  obtain p where p: "iw_queue posted_world = [p]" "ig_state p = I_Proposed" by (rule posted_row)
  have "map ig_memory_id (iw_queue posted_world) = [None]" by code_simp
  then show "ingest_ok (iw_queue posted_world)" using p by (simp add: ingest_ok_def)
qed



lemma proposals_are_frozen_witness:
  "\<exists>p p'. iw_queue posted_world = [p] \<and>
     find_fact 1 (iw_queue (ingest_run [(the_owner, 95, IApprove sample_draw 1)] posted_world)) = Some p' \<and>
     ig_fingerprint p' = ig_fingerprint p \<and> ig_auto p' = ig_auto p"
proof -
  obtain p where p: "iw_queue posted_world = [p]" "ig_id p = 1" by (rule posted_row)
  have "p \<in> set (iw_queue posted_world)" using p by simp
  from proposals_are_frozen[OF posted_world_ok(2) this, of "[(the_owner, 95, IApprove sample_draw 1)]"] p show ?thesis by auto
qed


definition sample_pending :: file_advance where
  "sample_pending =
     \<lparr>fv_file_path = u ''a.jsonl'', fv_session_id = None, fv_is_sidechain = False, fv_plan_ceiling = 900,
      fv_prefix_sha256 = u ''h'', fv_entries_seen = 4, fv_unextracted_from = [700, 400]\<rparr>"


definition guarded_owner :: "(nat, nat, nat) ingest_ctx" where
  "guarded_owner = sample_ingest ((empty_principal (u ''owner''))\<lparr>p_read := [grant_new (u ''*'') Sealed], p_write := [grant_new (u ''*'') Sealed]\<rparr>)
     [(u ''personal:health'', Private)]"

definition private_world :: "nat ingest_world" where
  "private_world = ingest_run [(guarded_owner, 90, IPost ((+) 1) (u ''hand'') [sample_fact ''I take the tablets at noon'' ''personal:health'' ''''])]
     sample_world"


end
