(* ===== verification/Spec2Isabelle.thy ===== *)
theory Spec2Isabelle
  imports Lr_Policy Lr_Canonical Lr_Text Lr_Digest Lr_Embedding_Store Lr_Embedding_Command
    Lr_Consent Lr_Write Lr_Search Lr_Cleanup
Lr_Cleanup_Pass
Lr_Ingest_Life
begin

text \<open>
  The lumberroom server is a personal memory that language-model clients read and write over HTTP and
  MCP. One Postgres database holds one tenant: memories with their supersession chains, a registry of
  facts by key, opaque sealed items, an OAuth authorization server, and queues of findings the owner
  decides. Every request becomes a principal with two grants (read and write), each a list of
  namespace globs with the highest sensitivity level it admits; every operation is refused, filtered
  or allowed by those grants. The development models this core in the order a request meets it.

  Base. \<open>Lr_Prelude\<close> has Rust strings (lists of Unicode scalar values; ASCII literals are
  \<open>u ''text''\<close>), results (\<open>Inl\<close> the error, \<open>Inr\<close> the value, sequenced by \<open>and_then\<close>, the \<open>?\<close> of
  the source), row updates, and the interface locales: \<open>normaliser\<close>, \<open>validator\<close>, \<open>codec\<close>,
  \<open>strict_codec\<close>, \<open>invariant_machine\<close>, \<open>guarded_machine\<close>. \<open>Lr_Errors\<close> is \<open>domain/errors.rs\<close>; every
  message text of the sources is a constructor carrying what the text interpolates, so two refusals
  are equal exactly when kind and content are. \<open>Lr_Types\<close> is \<open>domain/types.rs\<close>.

  Who may do what. \<open>Lr_Namespaces\<close> (\<open>domain/namespaces.rs\<close>), \<open>Lr_Policy\<close> (\<open>domain/policy.rs\<close>, the grant
  arithmetic of \<open>adapters/auth/mod.rs\<close>, the tool table \<open>mcp/capability.rs\<close>, presets and profiles),
  \<open>Lr_Auth\<close> (\<open>adapters/auth\<close>: static and opaque tokens, the chain). A \<open>principal\<close> is the record of the
  source; \<open>can_read\<close>, \<open>can_write\<close> and \<open>admits\<close> are its grant tests, and \<open>Lr_Policy.access_rule\<close> is the
  interface the other components rest on.

  The authorization server. \<open>Lr_OAuth\<close> (the rules of \<open>domain/oauth.rs\<close>), \<open>Lr_OAuth_Store\<close> (the tables
  of \<open>adapters/postgres/oauth.rs\<close> and the locale \<open>budget\<close> that counts how often a credential can be
  spent over any run), \<open>Lr_Token\<close> (the token and revocation endpoints of \<open>authserver/routes.rs\<close>),
  \<open>Lr_Consent\<close> (registration, login, consent), \<open>Lr_Session\<close> (\<open>authserver/session.rs\<close>) and
  \<open>Lr_Limiter\<close> (\<open>authserver/limiter.rs\<close>).

  The memories. \<open>Lr_Memory_Store\<close> is the table of \<open>adapters/postgres/memory.rs\<close>: a row is the record
  \<open>mem_row\<close>, a transaction a function from tables to an error or to new tables, the keys, foreign keys
  and CHECKs included; \<open>history_ok\<close> is the invariant of the supersession chains, and \<open>mem_step\<close> any
  interleaving of the statements. \<open>Lr_Crypto\<close> is the envelope of encrypted rows (\<open>crypto/*\<close>), \<open>Lr_Tripwire\<close>
  the credential scan (\<open>domain/tripwire.rs\<close>), \<open>Lr_Text\<close> tags, the data fence and the days a text names.
  \<open>Lr_Write\<close> is \<open>services/write.rs\<close> from its refusals to the link on the retired row; \<open>Lr_Sealed\<close> the
  sealed items; \<open>Lr_Forget\<close> deleting (\<open>services/forget.rs\<close>); \<open>Lr_Review\<close> the review actions
  (\<open>services/review.rs\<close>); \<open>Lr_Timeline\<close> one fact's history (\<open>services/history.rs\<close>); \<open>Lr_Search\<close> hybrid
  search (\<open>services/search.rs\<close> with the statement behind it).

  The cleanup queue. \<open>Lr_Cleanup\<close> (\<open>domain/cleanup.rs\<close>, \<open>services/cleanup.rs\<close>, \<open>adapters/postgres/cleanup.rs\<close>):
  a finding is the record \<open>queue_row\<close>; posting, listing, applying, resolving, rejecting and closing are
  functions on the memories and the queue, with the cascade of the foreign keys between them, and
  \<open>queue_step\<close> is the life cycle they refine.

  \<open>Lr_Cleanup_Pass\<close> (the same files and \<open>services/supersession.rs\<close>): \<open>pass\<close> is one deterministic run, from the
  sweep over the candidate statements (\<open>scoped\<close> and what follows it) to the mark it leaves, with \<open>pass_state\<close>
  the variables its loops share; \<open>run_pass\<close> and \<open>run_as\<close> are its two ways in. \<open>propose_endings\<close> pairs the dated
  facts of the subjects declared to hold one value. The lemmas carry an invariant of \<open>pass_state\<close> through
  the loops (\<open>pass_ok\<close>) and relate two runs over one window (\<open>repeats\<close>).

  \<open>Lr_Ingest\<close> (\<open>services/ingest.rs\<close>, \<open>adapters/postgres/ingest.rs\<close>, \<open>ports/ingest.rs\<close>, \<open>crypto/digest.rs\<close>
  and the trigger of migration 18): the queue of facts extracted from transcripts. \<open>ingest_world\<close> is the
  memories, the proposals and the emissions; \<open>post_facts\<close> screens a batch (\<open>screen_fact\<close>), turns echoes into
  confirmations and queues the rest (\<open>insert_fact\<close>); \<open>approve\<close> is one \<open>write_run_observed\<close> and \<open>approve_all\<close>
  a batch of them; watermarks and run records are lists of rows with the code's upserts. An insert
  whose supersession target is gone answers the database's error and stops the batch.
  \<open>Lr_Ingest_Life\<close> closes all of it under scripts (\<open>ingest_run\<close>) and relates any two moments of a queue
  (\<open>moves\<close>, \<open>carried\<close>).

  The digest and the embeddings. \<open>Lr_Digest\<close> is the two pure passes of the session digest
  (\<open>domain/digest_dedup.rs\<close>, \<open>digest_rank.rs\<close>); \<open>Lr_Canonical\<close> the registry keys
  (\<open>domain/canonical.rs\<close>); \<open>Lr_Embedding\<close>, \<open>Lr_Embedding_Store\<close> and \<open>Lr_Embedding_Command\<close> the move of
  a store from one embedding model to another (\<open>domain/embedding_*.rs\<close>, its SQL statements, its command).

  What the lemmas show. Per table, an invariant every statement keeps (\<open>history_ok\<close>, \<open>limiter_inv\<close>,
  \<open>mig_inv\<close>, \<open>queue_ok\<close>) and a refinement of an abstract view (heads of chains, sealed map, the life cycle
  of a finding). Per operation, what its success requires and what it leaves (\<open>..._Inr\<close>, \<open>..._cases\<close>), and
  that a failure leaves the tables alone wherever the source promises it. Over operations, the grants:
  \<open>owns\<close> (both grants on a row), \<open>allowed_change\<close>, \<open>reviewed\<close> and \<open>tidied\<close> say which rows may change
  for whom. Per optimised routine, equality with a plain reference (edit distance, the tripwire's
  loops, the SQL form of a grant). Where the code does not do what its comments say, a closed theorem
  runs the model into it.

  Conventions and bounds. One tenant, as the server has. An instant is an integer number of
  nanoseconds (the column holds microseconds; the one place the rounding decides, \<open>micros\<close>, writes it
  out). One \<open>now\<close> serves a request. A table is the list of its rows; ties an \<open>ORDER BY\<close> leaves open keep
  table order, and text sorts as the C collation does. A concurrent run is a sequence of statements;
  a handler is atomic in the model only where a theorem says so, and the races the sources leave open
  are theorems over their halves (\<open>Lr_Token.replay_race\<close>, \<open>Lr_Forget.stale_plan_revives\<close>). A database
  connection that fails is modelled only in \<open>Lr_Forget\<close>. Scores and entropies are reals where the source
  has doubles; the neighbour index is exact. Recursion is on the data or on fuel the source itself
  bounds (\<open>max_chain_depth\<close> = 64 rows of a chain, \<open>PEM\<close> and token loops by the text's length), so no
  definition can run out before the code would. The server refuses to start with a write ceiling of
  sealed, hence the hypothesis \<open>wc_max_write ctx \<noteq> Sealed\<close>.

  Parameters, with the documented behaviour assumed of them where a theorem needs it: AES-256-GCM,
  HMAC-SHA256, SHA-256, Argon2 and base64; the url crate, the uuid parser and printer, chrono's
  calendar, Unicode folding; the embedder and vector distances; Postgres full-text ranking;
  random draws.

  Not modelled. Routing, JSON and HTML: \<open>http/*\<close>, \<open>console/*\<close>, \<open>mcp/*\<close> besides the tool table, and
  \<open>authserver/pages.rs\<close> hand requests to the operations above. Process start and configuration parsing:
  \<open>main.rs\<close>, \<open>config.rs\<close>, \<open>command/*\<close>, the disk and free-space adapters. The background loops that schedule
  the sweeps, the embedding adapters (external inference), the logging tables, \<open>services/bootstrap.rs\<close> besides
  its two passes and \<open>services/review_queue.rs\<close> besides its fence: text assembled from what the modelled
  reads answer. Evaluation and measurement (\<open>eval\<close>, \<open>recall\<close>, \<open>currency\<close>), the archive container and the
  exports, the entity graph. The command-line client under \<open>crates/lumberroom\<close> talks to the server over HTTP.
\<close>

end
